(* ===== verification/Tars_Prelude.thy ===== *)
theory Tars_Prelude
  imports Main "HOL-Library.Word"
begin

text \<open>
  Shared vocabulary of the development: bytes and the little-endian memory image of a machine
  word (the hosts of the framework), the byte-order functions of \<^verbatim>\<open>servant/tup/TarsType.h\<close>, the
  exceptions of \<^verbatim>\<open>servant/tup/Tars.h\<close>, and the generic lemmas on lists and words that the
  component theories use. The collections \<open>codec_simps\<close> and \<open>wf_intros\<close> are filled by the
  components.
\<close>

unbundle bit_operations_syntax

named_theorems codec_simps \<open>equations that evaluate the codec on a known byte sequence\<close>
named_theorems wf_intros \<open>preservation of the components' invariants\<close>

type_synonym byte = "8 word"

section \<open>Words in memory\<close>

text \<open>
  \<open>le_bytes k w\<close> is what storing the \<open>k\<close>-byte integer \<open>w\<close> at an address puts there on a
  little-endian host, \<open>le_word bs\<close> what loading the bytes gives.
\<close>

primrec le_bytes :: "nat \<Rightarrow> 'a::len word \<Rightarrow> byte list" where
  "le_bytes 0 w = []"
| "le_bytes (Suc k) w = ucast w # le_bytes k (drop_bit 8 w)"

primrec le_word :: "byte list \<Rightarrow> 'a::len word" where
  "le_word [] = 0"
| "le_word (b # bs) = ucast b OR push_bit 8 (le_word bs)"

lemma length_le_bytes [simp]: "length (le_bytes k w) = k"
  by (induction k arbitrary: w) simp_all

lemma nth_le_bytes: "i < k \<Longrightarrow> le_bytes k w ! i = ucast (drop_bit (8 * i) w)"
proof (induction k arbitrary: w i)
  case (Suc k)
  then show ?case by (cases i) (simp_all add: add.commute)
qed simp

lemma bit_le_word:
  "bit (le_word bs :: 'a::len word) n \<longleftrightarrow>
     n < LENGTH('a) \<and> n div 8 < length bs \<and> bit (bs ! (n div 8)) (n mod 8)"
proof (induction bs arbitrary: n)
  case (Cons b bs)
  show ?case
  proof (cases "n < 8")
    case True
    then show ?thesis by (auto simp: bit_simps)
  next
    case False
    then obtain m where m: "n = m + 8" by (metis add.commute le_Suc_ex not_less)
    have "\<not> bit b (m + 8)" using bit_imp_le_length by fastforce
    moreover have "(m + 8) div 8 = Suc (m div 8)" by simp
    ultimately show ?thesis using m
      by (auto simp: bit_simps Cons.IH simp del: div_add_self2 dest: bit_imp_le_length)
  qed
qed simp

lemma div_mod_byte_index [simp]:
  "j < 8 \<Longrightarrow> (8 * i + j) div 8 = (i::nat)" "j < 8 \<Longrightarrow> (8 * i + j) mod 8 = (j::nat)"
  by simp_all

lemma bit_le_bytes: "i < k \<Longrightarrow> bit (le_bytes k w ! i) j \<longleftrightarrow> j < 8 \<and> bit w (8 * i + j)"
  by (auto simp: nth_le_bytes bit_simps add.commute)

lemma le_word_le_bytes:
  "le_word (le_bytes k (w :: 'a::len word)) = (take_bit (8 * k) w :: 'a word)"
  by (rule bit_eqI) (auto simp: bit_le_word bit_le_bytes bit_simps)

lemma le_word_le_bytes_full:
  "LENGTH('a) \<le> 8 * k \<Longrightarrow> le_word (le_bytes k (w :: 'a::len word)) = w"
  by (simp add: le_word_le_bytes take_bit_word_eq_self)

lemma le_bytes_le_word:
  assumes "8 * length bs \<le> LENGTH('a)"
  shows "le_bytes (length bs) (le_word bs :: 'a::len word) = bs"
proof (rule nth_equalityI)
  fix i assume i: "i < length (le_bytes (length bs) (le_word bs :: 'a word))"
  have "bit (le_bytes (length bs) (le_word bs :: 'a word) ! i) j \<longleftrightarrow> bit (bs ! i) j" for j
    using i assms bit_imp_le_length[of "bs ! i" j]
    by (auto simp: bit_le_bytes bit_le_word)
  then show "le_bytes (length bs) (le_word bs :: 'a word) ! i = bs ! i"
    by (intro bit_eqI) blast
qed simp

section \<open>Network byte order\<close>

text \<open>
  \<open>htons\<close> and \<open>htonl\<close> of the C library on a little-endian host reverse the bytes of the
  integer; \<open>ntohs\<close> and \<open>ntohl\<close> are the same functions.
\<close>

definition htons :: "16 word \<Rightarrow> 16 word" where
  "htons w = le_word (rev (le_bytes 2 w))"

definition htonl :: "32 word \<Rightarrow> 32 word" where
  "htonl w = le_word (rev (le_bytes 4 w))"

text \<open>\<open>tars_htonll\<close> swaps the two 32-bit halves of the union and converts each of them.\<close>

definition tars_htonll :: "64 word \<Rightarrow> 64 word" where
  "tars_htonll x =
     (let lo = ucast x :: 32 word;
          hi = ucast (drop_bit 32 x) :: 32 word;
          tmp = htonl hi;
          hi' = htonl lo;
          lo' = tmp
      in push_bit 32 (ucast hi') OR ucast lo')"

text \<open>Floating-point values are their IEEE bit patterns; the unions reinterpret the bits.\<close>

definition tars_ntohf :: "32 word \<Rightarrow> 32 word" where
  "tars_ntohf x = htonl x"

definition tars_ntohd :: "64 word \<Rightarrow> 64 word" where
  "tars_ntohd x = tars_htonll x"

abbreviation (input) "ntohs \<equiv> htons"
abbreviation (input) "ntohl \<equiv> htonl"
abbreviation (input) "tars_ntohll \<equiv> tars_htonll"
abbreviation (input) "tars_htonf \<equiv> tars_ntohf"
abbreviation (input) "tars_htond \<equiv> tars_ntohd"

text \<open>The big-endian image of a word: what the wire carries.\<close>

definition be_bytes :: "nat \<Rightarrow> 'a::len word \<Rightarrow> byte list" where
  "be_bytes k w = rev (le_bytes k w)"

definition be_word :: "byte list \<Rightarrow> 'a::len word" where
  "be_word bs = le_word (rev bs)"

lemma length_be_bytes [simp]: "length (be_bytes k w) = k"
  by (simp add: be_bytes_def)

lemma be_word_be_bytes:
  "LENGTH('a) \<le> 8 * k \<Longrightarrow> be_word (be_bytes k (w :: 'a::len word)) = w"
  by (simp add: be_word_def be_bytes_def le_word_le_bytes_full)

lemma be_word_be_bytes_numeral [simp]:
  "be_word (be_bytes 2 (a :: 16 word)) = a"
  "be_word (be_bytes 4 (b :: 32 word)) = b"
  "be_word (be_bytes 8 (c :: 64 word)) = c"
  by (simp_all add: be_word_be_bytes)

lemma store_htons: "le_bytes 2 (htons w) = be_bytes 2 w"
  using le_bytes_le_word[of "rev (le_bytes 2 w)", where 'a = 16]
  by (simp add: htons_def be_bytes_def)

lemma store_htonl: "le_bytes 4 (htonl w) = be_bytes 4 w"
  using le_bytes_le_word[of "rev (le_bytes 4 w)", where 'a = 32]
  by (simp add: htonl_def be_bytes_def)

lemma load_ntohs: "length bs = 2 \<Longrightarrow> ntohs (le_word bs) = be_word bs"
  using le_bytes_le_word[of bs, where 'a = 16]
  by (simp add: htons_def be_word_def)

lemma load_ntohl: "length bs = 4 \<Longrightarrow> ntohl (le_word bs) = be_word bs"
  using le_bytes_le_word[of bs, where 'a = 32]
  by (simp add: htonl_def be_word_def)

lemma htonl_involutive [simp]: "htonl (htonl w) = w"
  by (simp add: htonl_def[of "htonl w"] store_htonl be_bytes_def le_word_le_bytes_full)

lemma htons_involutive [simp]: "htons (htons w) = w"
  by (simp add: htons_def[of "htons w"] store_htons be_bytes_def le_word_le_bytes_full)

lemma le_word_append:
  "(le_word (as @ bs) :: 'a::len word) = le_word as OR push_bit (8 * length as) (le_word bs)"
  by (induction as) (simp_all add: push_bit_or or.assoc)

lemma ucast_le_word:
  "8 * length bs \<le> LENGTH('b) \<Longrightarrow>
     ucast (le_word bs :: 'b::len word) = (le_word bs :: 'a::len word)"
  by (rule bit_eqI) (auto simp: bit_le_word bit_simps)

lemma le_bytes_ucast: "8 * k \<le> LENGTH('b) \<Longrightarrow>
   le_bytes k (ucast (w :: 'a::len word) :: 'b::len word) = le_bytes k w"
  by (rule nth_equalityI; simp; rule bit_eqI) (auto simp: bit_le_bytes bit_simps)

lemma le_bytes_add: "le_bytes (j + k) w = le_bytes j w @ le_bytes k (drop_bit (8 * j) w)"
  by (induction j arbitrary: w) (simp_all add: add.commute)

lemma tars_htonll_bswap: "tars_htonll x = le_word (rev (le_bytes 8 x))"
proof -
  have "le_bytes 8 x = le_bytes 4 (ucast x :: 32 word) @ le_bytes 4 (ucast (drop_bit 32 x) :: 32 word)"
    using le_bytes_add[of 4 4 x] by (simp add: le_bytes_ucast)
  then show ?thesis
    by (simp add: tars_htonll_def htonl_def le_word_append ucast_le_word or.commute)
qed
lemma store_tars_htonll: "le_bytes 8 (tars_htonll w) = be_bytes 8 w"
  using le_bytes_le_word[of "rev (le_bytes 8 w)", where 'a = 64]
  by (simp add: tars_htonll_bswap be_bytes_def)

lemma load_tars_ntohll: "length bs = 8 \<Longrightarrow> tars_ntohll (le_word bs) = be_word bs"
  using le_bytes_le_word[of bs, where 'a = 64]
  by (simp add: tars_htonll_bswap be_word_def)

lemma tars_htonll_involutive [simp]: "tars_htonll (tars_htonll w) = w"
  by (simp add: tars_htonll_bswap[of "tars_htonll w"] store_tars_htonll be_bytes_def
      le_word_le_bytes_full)

section \<open>Numbers as text\<close>

text \<open>\<^verbatim>\<open>TC_Common::tostr\<close> of an integer that is not negative: decimal digits.\<close>

fun dec_digits :: "nat \<Rightarrow> byte list" where
  "dec_digits n = (if n < 10 then [of_nat (48 + n)] else dec_digits (n div 10) @ [of_nat (48 + n mod 10)])"

declare dec_digits.simps [simp del]

section \<open>Exceptions\<close>

text \<open>
  The exception classes of \<^verbatim>\<open>Tars.h\<close>, without their messages. Every class whose name starts with
  \<open>TarsDecode\<close> derives from \<open>TarsDecodeException\<close>, so a handler for the latter catches them
  all. The last two values are not exceptions of the code. \<open>OutOfFuel\<close>: the skipping routines are
  defined with a recursion bound, and the value says that the bound was too small; it is never
  caught, and it is proved not to occur. \<open>OutOfBounds\<close>: the code touches memory outside the object
  it was given, which C++ leaves undefined.
\<close>

datatype tars_exn =
    TarsProtoException
  | TarsEncodeException
  | TarsDecodeException
  | TarsDecodeMismatch
  | TarsDecodeRequireNotExist
  | TarsDecodeInvalidValue
  | TarsNotEnoughBuff
  | OutOfFuel
  | OutOfBounds

fun is_TarsDecodeException :: "tars_exn \<Rightarrow> bool" where
  "is_TarsDecodeException TarsDecodeException = True"
| "is_TarsDecodeException TarsDecodeMismatch = True"
| "is_TarsDecodeException TarsDecodeRequireNotExist = True"
| "is_TarsDecodeException TarsDecodeInvalidValue = True"
| "is_TarsDecodeException _ = False"

end
