(* ===== verification/Buffer_Reader.thy ===== *)
theory Buffer_Reader
  imports Tars_Prelude
begin

text \<open>
  \<^verbatim>\<open>BufferReader\<close> and \<^verbatim>\<open>MapBufferReader\<close> of \<^verbatim>\<open>servant/tup/Tars.h\<close>, the peek and read macros, and
  the field head (\<^verbatim>\<open>DataHead\<close>, \<^verbatim>\<open>TarsPeekFromHead\<close>, \<^verbatim>\<open>TarsWriteToHead\<close>'s byte layout). A decoder
  is a function from the reader to an exception or a value together with the reader it leaves
  behind: the code catches decode exceptions and goes on with the moved cursor, so the reader
  survives an exception.

  \<open>br_buf\<close> is the memory of \<open>_buf_len\<close> bytes behind \<open>_buf\<close>, so \<open>_buf_len\<close> is its length, and
  \<open>br_cur\<close> is \<open>_cur\<close>. Offsets are natural numbers: a cursor never passes the buffer's end by more
  than \<open>2 ^ 32 + 8\<close> (\<open>Tars_Skip\<close>), so the code's 64-bit sums do not wrap.
\<close>

section \<open>The reader\<close>

record BufferReader =
  br_buf :: "byte list"
  br_cur :: nat

type_synonym 'a dec = "BufferReader \<Rightarrow> (tars_exn + 'a) \<times> BufferReader"

definition dret :: "'a \<Rightarrow> 'a dec" where
  "dret x s = (Inr x, s)"

definition dthrow :: "tars_exn \<Rightarrow> 'a dec" where
  "dthrow e s = (Inl e, s)"

definition dbind :: "'a dec \<Rightarrow> ('a \<Rightarrow> 'b dec) \<Rightarrow> 'b dec" where
  "dbind m f s = (case m s of (Inl e, s') \<Rightarrow> (Inl e, s') | (Inr x, s') \<Rightarrow> f x s')"

text \<open>\<open>try m catch (TarsDecodeException\& e) \{\}\<close>, with the value \<open>x\<close> left by the handler.\<close>

definition dcatch :: "'a dec \<Rightarrow> 'a \<Rightarrow> 'a dec" where
  "dcatch m x s = (case m s of
      (Inl e, s') \<Rightarrow> (if is_TarsDecodeException e then (Inr x, s') else (Inl e, s'))
    | (Inr y, s') \<Rightarrow> (Inr y, s'))"

definition br_size :: "nat dec" where
  "br_size s = (Inr (length (br_buf s)), s)"

definition br_reset :: "BufferReader \<Rightarrow> BufferReader" where
  "br_reset s = s\<lparr>br_cur := 0\<rparr>"

definition setBuffer :: "byte list \<Rightarrow> BufferReader" where
  "setBuffer bs = \<lparr>br_buf = bs, br_cur = 0\<rparr>"

definition peekBuf :: "nat \<Rightarrow> nat \<Rightarrow> byte list dec" where
  "peekBuf len off s =
     (if br_cur s + off + len > length (br_buf s) then (Inl TarsDecodeException, s)
      else (Inr (take len (drop (br_cur s + off) (br_buf s))), s))"

definition br_skip :: "nat \<Rightarrow> unit dec" where
  "br_skip len s =
     (if len \<le> length (br_buf s) \<and> br_cur s + len \<le> length (br_buf s)
      then (Inr (), s\<lparr>br_cur := br_cur s + len\<rparr>)
      else (Inl TarsDecodeException, s))"

definition readBuf :: "nat \<Rightarrow> byte list dec" where
  "readBuf len s =
     (if len \<le> length (br_buf s) \<and> br_cur s + len \<le> length (br_buf s)
      then (case peekBuf len 0 s of
              (Inl e, s') \<Rightarrow> (Inl e, s')
            | (Inr bs, s') \<Rightarrow> (Inr bs, s'\<lparr>br_cur := br_cur s' + len\<rparr>))
      else (Inl TarsDecodeException, s))"

definition hasEnd :: "bool dec" where
  "hasEnd s =
     (if br_cur s > length (br_buf s) then (Inl TarsDecodeException, s)
      else (Inr (br_cur s \<ge> length (br_buf s)), s))"

text \<open>
  \<^verbatim>\<open>MapBufferReader\<close> adds a preallocated block from which decoded byte pointers are cut; \<open>None\<close> is the
  null pointer before \<^verbatim>\<open>setMapBuffer\<close>. \<open>cur\<close> returns the offset into the block.
\<close>

record MapBufferReader = BufferReader +
  br_buf_m :: "byte list option"
  br_buf_len_m :: nat
  br_cur_m :: nat

definition map_reset :: "MapBufferReader \<Rightarrow> MapBufferReader" where
  "map_reset s = s\<lparr>br_cur_m := 0, br_cur := 0\<rparr>"

definition map_cur :: "MapBufferReader \<Rightarrow> tars_exn + nat" where
  "map_cur s = (case br_buf_m s of None \<Rightarrow> Inl TarsDecodeException | Some _ \<Rightarrow> Inr (br_cur_m s))"

definition map_left :: "MapBufferReader \<Rightarrow> nat" where
  "map_left s = br_buf_len_m s - br_cur_m s"

definition mapBufferSkip :: "nat \<Rightarrow> MapBufferReader \<Rightarrow> tars_exn + MapBufferReader" where
  "mapBufferSkip len s =
     (if br_cur_m s + len > br_buf_len_m s then Inl TarsDecodeException
      else Inr (s\<lparr>br_cur_m := br_cur_m s + len\<rparr>))"

definition setMapBuffer :: "byte list \<Rightarrow> MapBufferReader \<Rightarrow> MapBufferReader" where
  "setMapBuffer buf s = s\<lparr>br_buf_m := Some buf, br_buf_len_m := length buf, br_cur_m := 0\<rparr>"

section \<open>The peek and read macros\<close>

text \<open>
  \<open>TarsPeekTypeBuf\<close> loads a value of the given type (\<open>n\<close> bytes) at the cursor plus an offset,
  after a bounds check; \<open>TarsReadTypeBuf\<close> also moves the cursor. \<open>TarsReadHeadSkip\<close> moves the cursor
  without a check.
\<close>

definition TarsPeekTypeBuf :: "nat \<Rightarrow> nat \<Rightarrow> 'a::len word dec" where
  "TarsPeekTypeBuf n off s =
     (if br_cur s + off + n > length (br_buf s) then (Inl TarsDecodeException, s)
      else (Inr (le_word (take n (drop (br_cur s + off) (br_buf s)))), s))"

definition TarsReadHeadSkip :: "nat \<Rightarrow> unit dec" where
  "TarsReadHeadSkip len s = (Inr (), s\<lparr>br_cur := br_cur s + len\<rparr>)"

definition TarsReadTypeBuf :: "nat \<Rightarrow> 'a::len word dec" where
  "TarsReadTypeBuf n =
     dbind (TarsPeekTypeBuf n 0) (\<lambda>w. dbind (TarsReadHeadSkip n) (\<lambda>_. dret w))"

definition TarsPeekTypeBufNoTag :: "nat \<Rightarrow> nat \<Rightarrow> unit dec" where
  "TarsPeekTypeBufNoTag n off s =
     (if br_cur s + off + n > length (br_buf s) then (Inl TarsDecodeException, s) else (Inr (), s))"

definition TarsReadStringBuf :: "nat \<Rightarrow> byte list dec" where
  "TarsReadStringBuf len s =
     (if br_cur s + len > length (br_buf s) then (Inl TarsDecodeException, s)
      else (Inr (take len (drop (br_cur s) (br_buf s))), s\<lparr>br_cur := br_cur s + len\<rparr>))"

section \<open>The field head\<close>

abbreviation TarsHeadeChar :: byte where "TarsHeadeChar \<equiv> 0"
abbreviation TarsHeadeShort :: byte where "TarsHeadeShort \<equiv> 1"
abbreviation TarsHeadeInt32 :: byte where "TarsHeadeInt32 \<equiv> 2"
abbreviation TarsHeadeInt64 :: byte where "TarsHeadeInt64 \<equiv> 3"
abbreviation TarsHeadeFloat :: byte where "TarsHeadeFloat \<equiv> 4"
abbreviation TarsHeadeDouble :: byte where "TarsHeadeDouble \<equiv> 5"
abbreviation TarsHeadeString1 :: byte where "TarsHeadeString1 \<equiv> 6"
abbreviation TarsHeadeString4 :: byte where "TarsHeadeString4 \<equiv> 7"
abbreviation TarsHeadeMap :: byte where "TarsHeadeMap \<equiv> 8"
abbreviation TarsHeadeList :: byte where "TarsHeadeList \<equiv> 9"
abbreviation TarsHeadeStructBegin :: byte where "TarsHeadeStructBegin \<equiv> 10"
abbreviation TarsHeadeStructEnd :: byte where "TarsHeadeStructEnd \<equiv> 11"
abbreviation TarsHeadeZeroTag :: byte where "TarsHeadeZeroTag \<equiv> 12"
abbreviation TarsHeadeSimpleList :: byte where "TarsHeadeSimpleList \<equiv> 13"

text \<open>The head's type, tag and length in bytes, without moving the cursor.\<close>

definition TarsPeekFromHead :: "(byte \<times> byte \<times> nat) dec" where
  "TarsPeekFromHead =
     dbind (TarsPeekTypeBuf 1 0) (\<lambda>typeTag :: byte.
       let tmpTag = drop_bit 4 typeTag; ty = typeTag AND 0x0F in
       if tmpTag = 15 then dbind (TarsPeekTypeBuf 1 1) (\<lambda>tag. dret (ty, tag, 2))
       else dret (ty, tmpTag, 1))"

definition readFromHead :: "(byte \<times> byte) dec" where
  "readFromHead =
     dbind TarsPeekFromHead (\<lambda>(ty, tag, n). dbind (TarsReadHeadSkip n) (\<lambda>_. dret (ty, tag)))"

definition TarsPeekFromHeadNoTag :: "(byte \<times> nat) dec" where
  "TarsPeekFromHeadNoTag =
     dbind (TarsPeekTypeBuf 1 0) (\<lambda>typeTag :: byte.
       let tmpTag = drop_bit 4 typeTag; ty = typeTag AND 0x0F in
       if tmpTag = 15 then dbind (TarsPeekTypeBufNoTag 1 1) (\<lambda>_. dret (ty, 2))
       else dret (ty, 1))"

definition readFromHeadNoTag :: "byte dec" where
  "readFromHeadNoTag =
     dbind TarsPeekFromHeadNoTag (\<lambda>(ty, n). dbind (TarsReadHeadSkip n) (\<lambda>_. dret ty))"

text \<open>
  \<^verbatim>\<open>DataHead::peekFrom\<close> and \<^verbatim>\<open>readFrom\<close> load the same head through the bit-field struct \<open>helper\<close>
  (type in the low four bits, tag in the high four) and the checked \<open>peekBuf\<close> and \<open>skip\<close>.
\<close>

definition DataHead_peekFrom :: "(byte \<times> byte \<times> nat) dec" where
  "DataHead_peekFrom =
     dbind (peekBuf 1 0) (\<lambda>h.
       let ty = hd h AND 0x0F; htag = drop_bit 4 (hd h) in
       if htag = 15 then dbind (peekBuf 1 1) (\<lambda>t. dret (ty, hd t, 2))
       else dret (ty, htag, 1))"

definition DataHead_readFrom :: "(byte \<times> byte) dec" where
  "DataHead_readFrom =
     dbind DataHead_peekFrom (\<lambda>(ty, tag, n). dbind (br_skip n) (\<lambda>_. dret (ty, tag)))"

text \<open>The bytes \<^verbatim>\<open>TarsWriteToHead\<close> appends.\<close>

definition head_bytes :: "byte \<Rightarrow> byte \<Rightarrow> byte list" where
  "head_bytes ty tag =
     (if tag < 15 then [ty + push_bit 4 tag] else [ty + 240, tag])"

section \<open>Evaluation on known bytes\<close>

text \<open>\<open>at_bytes bs s\<close>: the unread part of the buffer starts with \<open>bs\<close>.\<close>

definition at_bytes :: "byte list \<Rightarrow> BufferReader \<Rightarrow> bool" where
  "at_bytes bs s \<longleftrightarrow>
     br_cur s \<le> length (br_buf s) \<and> take (length bs) (drop (br_cur s) (br_buf s)) = bs"

definition adv :: "nat \<Rightarrow> BufferReader \<Rightarrow> BufferReader" where
  "adv n s = s\<lparr>br_cur := br_cur s + n\<rparr>"

lemma adv_simps [simp]:
  "br_buf (adv n s) = br_buf s" "br_cur (adv n s) = br_cur s + n"
  "adv 0 s = s" "adv m (adv n s) = adv (n + m) s"
  by (simp_all add: adv_def add.assoc)

lemma at_bytes_length: "at_bytes bs s \<Longrightarrow> br_cur s + length bs \<le> length (br_buf s)"
  unfolding at_bytes_def
  by (metis add.commute le_diff_conv2 length_drop length_take min.cobounded1)

lemma at_bytes_append [simp]:
  "at_bytes (as @ bs) s \<longleftrightarrow> at_bytes as s \<and> at_bytes bs (adv (length as) s)"
proof
  assume a: "at_bytes (as @ bs) s"
  have l: "br_cur s + length as + length bs \<le> length (br_buf s)"
    using at_bytes_length[OF a] by simp
  have "take (length as + length bs) (drop (br_cur s) (br_buf s)) = as @ bs"
    using a by (simp add: at_bytes_def)
  then have "take (length as) (drop (br_cur s) (br_buf s)) = as"
    and "take (length bs) (drop (length as) (drop (br_cur s) (br_buf s))) = bs"
    using l by (simp_all add: take_add append_eq_append_conv)
  then show "at_bytes as s \<and> at_bytes bs (adv (length as) s)"
    using l by (simp add: at_bytes_def add.commute)
next
  assume a: "at_bytes as s \<and> at_bytes bs (adv (length as) s)"
  then have "br_cur s + length as + length bs \<le> length (br_buf s)"
    using at_bytes_length[of bs "adv (length as) s"] by simp
  then show "at_bytes (as @ bs) s"
    using a by (simp add: at_bytes_def take_add add.commute)
qed

lemma at_bytes_Cons: "at_bytes (b # bs) s \<longleftrightarrow> at_bytes [b] s \<and> at_bytes bs (adv 1 s)"
  using at_bytes_append[of "[b]" bs s] by simp

lemma at_bytes_cur: "at_bytes bs s \<Longrightarrow> br_cur s \<le> length (br_buf s)"
  by (simp add: at_bytes_def)

lemma at_bytes_take: "at_bytes bs s \<Longrightarrow> length bs = n \<Longrightarrow> take n (drop (br_cur s) (br_buf s)) = bs"
  by (auto simp: at_bytes_def)

lemma at_bytes_setBuffer [simp]: "at_bytes bs (setBuffer (bs @ post))"
  by (simp add: at_bytes_def setBuffer_def)

lemma peek_at [codec_simps]:
  "at_bytes bs s \<Longrightarrow> length bs = n \<Longrightarrow> TarsPeekTypeBuf n 0 s = (Inr (le_word bs), s)"
  using at_bytes_length[of bs s] by (auto simp: TarsPeekTypeBuf_def at_bytes_take)

lemma read_at [codec_simps]:
  "at_bytes bs s \<Longrightarrow> length bs = n \<Longrightarrow> TarsReadTypeBuf n s = (Inr (le_word bs), adv n s)"
  by (simp add: TarsReadTypeBuf_def dbind_def dret_def peek_at TarsReadHeadSkip_def adv_def)

lemma readString_at [codec_simps]:
  "at_bytes bs s \<Longrightarrow> length bs = n \<Longrightarrow> TarsReadStringBuf n s = (Inr bs, adv n s)"
  using at_bytes_length[of bs s] by (auto simp: TarsReadStringBuf_def at_bytes_take adv_def)

lemma readBuf_at [codec_simps]:
  "at_bytes bs s \<Longrightarrow> length bs = n \<Longrightarrow> readBuf n s = (Inr bs, adv n s)"
  using at_bytes_length[of bs s]
  by (auto simp: readBuf_def peekBuf_def at_bytes_take adv_def)

lemma headSkip_adv [codec_simps]: "TarsReadHeadSkip n s = (Inr (), adv n s)"
  by (simp add: TarsReadHeadSkip_def adv_def)

lemma hasEnd_at: "at_bytes bs s \<Longrightarrow> bs \<noteq> [] \<Longrightarrow> hasEnd s = (Inr False, s)"
  using at_bytes_length[of bs s] by (cases bs) (auto simp: hasEnd_def)

subsection \<open>Heads\<close>

lemma head_bytes_neq_Nil [simp]: "head_bytes ty tag \<noteq> []"
  by (simp add: head_bytes_def)

lemma length_head_bytes: "length (head_bytes ty tag) = (if tag < 15 then 1 else 2)"
  by (simp add: head_bytes_def)

lemma byte_and_15: "(x :: byte) AND 15 = take_bit 4 x"
  by (simp add: take_bit_eq_mask mask_eq_exp_minus_1)

lemma head_byte_tag:
  assumes "ty < 16" "tag < (16 :: byte)"
  shows "drop_bit 4 (ty + push_bit 4 tag) = tag" "(ty + push_bit 4 tag) AND 15 = ty"
proof -
  have t: "unat ty < 16" "unat tag < 16" using assms by (simp_all add: word_less_nat_alt)
  have u: "unat (ty + push_bit 4 tag) = unat ty + 16 * unat tag"
    using t by (simp add: unat_word_ariths push_bit_eq_mult)
  show "drop_bit 4 (ty + push_bit 4 tag) = tag"
    using t u by (simp add: word_unat_eq_iff drop_bit_eq_div unat_div)
  show "(ty + push_bit 4 tag) AND 15 = ty"
    using t u by (simp add: byte_and_15 word_unat_eq_iff take_bit_eq_mod unat_mod)
qed

lemma head_byte_long: "ty < 16 \<Longrightarrow> drop_bit 4 (ty + 240 :: byte) = 15" "ty < 16 \<Longrightarrow> (ty + 240) AND 15 = ty"
  using head_byte_tag[of ty 15] by simp_all

lemma le_word_single [simp]: "(le_word [b] :: byte) = b"
  by simp

lemma peek_snd_at: "at_bytes [a, b] s \<Longrightarrow> TarsPeekTypeBuf 1 1 s = (Inr b, s)"
  using at_bytes_length[of "[a, b]" s] at_bytes_take[of "[a, b]" s 2]
    at_bytes_take[of "[b]" "adv 1 s" 1]
  by (auto simp: TarsPeekTypeBuf_def at_bytes_Cons[of a "[b]"])

lemma peekFromHead_at [codec_simps]:
  assumes "at_bytes (head_bytes ty tag) s" "ty < 16"
  shows "TarsPeekFromHead s = (Inr (ty, tag, length (head_bytes ty tag)), s)"
proof (cases "tag < 15")
  case True
  then have "tag < 16" "tag \<noteq> 15" by (auto intro: order_less_trans)
  with True assms show ?thesis
    using peek_at[where 'a = 8, of "head_bytes ty tag" s 1]
    by (simp add: TarsPeekFromHead_def dbind_def dret_def Let_def head_bytes_def head_byte_tag
        del: le_word.simps)
next
  case False
  with assms show ?thesis
    using peek_at[where 'a = 8, of "[ty + 240]" s 1] peek_snd_at[of "ty + 240" tag s]
    by (simp add: TarsPeekFromHead_def dbind_def dret_def Let_def head_bytes_def head_byte_long
        at_bytes_Cons[of "ty + 240" "[tag]"] del: le_word.simps)
qed

lemma readFromHead_at [codec_simps]:
  "at_bytes (head_bytes ty tag) s \<Longrightarrow> ty < 16 \<Longrightarrow>
     readFromHead s = (Inr (ty, tag), adv (length (head_bytes ty tag)) s)"
  by (simp add: readFromHead_def dbind_def dret_def peekFromHead_at headSkip_adv)

lemma peekFromHeadNoTag_eq:
  "TarsPeekFromHeadNoTag s = (case TarsPeekFromHead s of
      (Inl e, s') \<Rightarrow> (Inl e, s') | (Inr (ty, tag, n), s') \<Rightarrow> (Inr (ty, n), s'))"
  by (simp add: TarsPeekFromHeadNoTag_def TarsPeekFromHead_def dbind_def dret_def Let_def
      TarsPeekTypeBuf_def TarsPeekTypeBufNoTag_def)

lemma readFromHeadNoTag_eq:
  "readFromHeadNoTag s = (case readFromHead s of
      (Inl e, s') \<Rightarrow> (Inl e, s') | (Inr (ty, tag), s') \<Rightarrow> (Inr ty, s'))"
  by (simp add: readFromHeadNoTag_def readFromHead_def dbind_def dret_def peekFromHeadNoTag_eq
      TarsReadHeadSkip_def split: sum.splits prod.splits)

text \<open>The bit-field reading of a head and the macro agree on every input.\<close>

lemma DataHead_peekFrom_eq: "DataHead_peekFrom = TarsPeekFromHead"
proof
  fix s
  have one: "take 1 xs = [xs ! 0]" if "xs \<noteq> []" for xs :: "byte list"
    using that by (cases xs) simp_all
  show "DataHead_peekFrom s = TarsPeekFromHead s"
    by (auto simp: DataHead_peekFrom_def TarsPeekFromHead_def dbind_def dret_def Let_def
        TarsPeekTypeBuf_def peekBuf_def one simp del: One_nat_def)
qed

section \<open>What every decoder keeps\<close>

text \<open>A decoder never changes the buffer and never moves the cursor back.\<close>

definition steady :: "'a dec \<Rightarrow> bool" where
  "steady m \<longleftrightarrow> (\<forall>s. br_buf (snd (m s)) = br_buf s \<and> br_cur s \<le> br_cur (snd (m s)))"

lemma steadyD:
  "steady m \<Longrightarrow> m s = (r, s') \<Longrightarrow> br_buf s' = br_buf s"
  "steady m \<Longrightarrow> m s = (r, s') \<Longrightarrow> br_cur s \<le> br_cur s'"
  unfolding steady_def by (metis snd_conv)+

lemma steady_dret [wf_intros]: "steady (dret x)"
  by (simp add: steady_def dret_def)

lemma steady_dthrow [wf_intros]: "steady (dthrow e)"
  by (simp add: steady_def dthrow_def)

lemma steady_dbind [wf_intros]:
  assumes "steady m" "\<And>x. steady (f x)"
  shows "steady (dbind m f)"
proof -
  have "br_buf (snd (dbind m f s)) = br_buf s \<and> br_cur s \<le> br_cur (snd (dbind m f s))" for s
  proof (cases "m s")
    case (Pair r s')
    then have m: "br_buf s' = br_buf s" "br_cur s \<le> br_cur s'"
      using assms(1) by (auto dest: steadyD)
    show ?thesis
    proof (cases r)
      case (Inr x)
      then show ?thesis using Pair m assms(2)[of x] by (auto simp: dbind_def steady_def dest: order_trans)
    qed (use Pair m in \<open>simp add: dbind_def\<close>)
  qed
  then show ?thesis by (simp add: steady_def)
qed

lemma steady_dcatch [wf_intros]: "steady m \<Longrightarrow> steady (dcatch m x)"
  unfolding steady_def dcatch_def
  by (auto split: sum.splits prod.splits) (metis snd_conv)+

lemma steady_if [wf_intros]: "steady m \<Longrightarrow> steady m' \<Longrightarrow> steady (if b then m else m')"
  by simp

lemma steady_prims [wf_intros]:
  "steady br_size" "steady (peekBuf n off)" "steady (br_skip n)" "steady (readBuf n)" "steady hasEnd"
  "steady (TarsPeekTypeBuf n off :: 'a::len word dec)" "steady (TarsReadHeadSkip n)"
  "steady (TarsPeekTypeBufNoTag n off)" "steady (TarsReadStringBuf n)"
  by (simp_all add: steady_def br_size_def peekBuf_def br_skip_def readBuf_def hasEnd_def
      TarsPeekTypeBuf_def TarsReadHeadSkip_def TarsPeekTypeBufNoTag_def TarsReadStringBuf_def)

lemma steady_macros [wf_intros]:
  "steady (TarsReadTypeBuf n :: 'a::len word dec)" "steady TarsPeekFromHead" "steady readFromHead"
  "steady readFromHeadNoTag"
  by (auto simp: TarsReadTypeBuf_def TarsPeekFromHead_def readFromHead_def readFromHeadNoTag_def
      TarsPeekFromHeadNoTag_def Let_def intro!: wf_intros split: prod.splits)

text \<open>A head that was read left at least one byte of the buffer behind.\<close>

lemma peekFromHead_progress:
  assumes "TarsPeekFromHead s = (Inr (ty, tag, n), s')"
  shows "s' = s \<and> br_cur s + n \<le> length (br_buf s) \<and> 1 \<le> n \<and> n \<le> 2"
  using assms
  by (auto simp: TarsPeekFromHead_def dbind_def dret_def Let_def TarsPeekTypeBuf_def
      split: if_splits)

lemma readFromHead_progress:
  assumes "readFromHead s = (Inr (ty, tag), s')"
  shows "\<exists>n. s' = adv n s \<and> br_cur s + n \<le> length (br_buf s) \<and> 1 \<le> n \<and> n \<le> 2"
  using assms
  by (auto simp: readFromHead_def dbind_def dret_def headSkip_adv
      dest!: peekFromHead_progress split: sum.splits prod.splits)

end
