(* ===== verification/Tars_Skip.thy ===== *)
theory Tars_Skip
  imports Buffer_Reader
begin

text \<open>
  The skipping routines of \<^verbatim>\<open>TarsInputStream\<close> (\<^verbatim>\<open>skipToTag\<close>, \<^verbatim>\<open>skipToStructEnd\<close>, both
  \<^verbatim>\<open>skipField\<close>, the macro \<^verbatim>\<open>TarsSkipToTag\<close>) and the two integer readers they call. In the code
  these functions call each other: \<^verbatim>\<open>skipField(type)\<close> of a map or a list reads the size through
  \<^verbatim>\<open>read(UInt32\&)\<close>, \<^verbatim>\<open>read(Int64\&)\<close> and \<^verbatim>\<open>TarsSkipToTag\<close>, which skips fields again. Here each of them
  takes the \<^verbatim>\<open>skipField(type)\<close> it calls as an argument, and \<open>skip_field\<close> ties the knot with a bound
  on the nesting depth. The loops carry a bound on their iterations. Both bounds are computed from
  the buffer's length, and \<open>skipField_total\<close> proves that they are never reached.
\<close>

section \<open>The loops\<close>

text \<open>\<^verbatim>\<open>for (UInt32 i = 0; i < n; ++i) skipField();\<close>\<close>

primrec for_skip :: "unit dec \<Rightarrow> nat \<Rightarrow> unit dec" where
  "for_skip sk 0 = dret ()"
| "for_skip sk (Suc n) = dbind sk (\<lambda>_. for_skip sk n)"

text \<open>The loop of \<^verbatim>\<open>skipToStructEnd\<close>: read a head, skip its field, until the head was a struct end.\<close>

primrec structEnd_loop :: "(byte \<Rightarrow> unit dec) \<Rightarrow> nat \<Rightarrow> unit dec" where
  "structEnd_loop sf 0 = dthrow OutOfFuel"
| "structEnd_loop sf (Suc k) =
     dbind readFromHeadNoTag (\<lambda>headType.
     dbind (sf headType) (\<lambda>_.
       if headType \<noteq> TarsHeadeStructEnd then structEnd_loop sf k else dret ()))"

text \<open>
  The loop of the macro \<^verbatim>\<open>TarsSkipToTag\<close>. The result is the head of the wanted field, already
  read, or \<open>None\<close> where the code leaves its flag false.
\<close>

primrec skipToTag_loop :: "(byte \<Rightarrow> unit dec) \<Rightarrow> nat \<Rightarrow> byte \<Rightarrow> (byte \<times> byte) option dec" where
  "skipToTag_loop sf 0 tag = dthrow OutOfFuel"
| "skipToTag_loop sf (Suc k) tag =
     dbind hasEnd (\<lambda>e. if e then dret None else
     dbind TarsPeekFromHead (\<lambda>(nextHeadType, nextHeadTag, len).
       if nextHeadType = TarsHeadeStructEnd \<or> tag < nextHeadTag then dret None
       else if tag = nextHeadTag then
         dbind (TarsReadHeadSkip len) (\<lambda>_. dret (Some (nextHeadType, nextHeadTag)))
       else
         dbind (TarsReadHeadSkip len) (\<lambda>_.
         dbind (sf nextHeadType) (\<lambda>_. skipToTag_loop sf k tag))))"

definition TarsSkipToTag_with :: "(byte \<Rightarrow> unit dec) \<Rightarrow> byte \<Rightarrow> (byte \<times> byte) option dec" where
  "TarsSkipToTag_with sf tag s = dcatch (skipToTag_loop sf (Suc (length (br_buf s))) tag) None s"

section \<open>The size readers\<close>

text \<open>
  \<^verbatim>\<open>read(Int64\& n, tag, isRequire)\<close>: the value is sign-extended from the width of the head that is
  found; \<open>n\<close> is what the variable held before.
\<close>

definition read_Int64_with ::
    "(byte \<Rightarrow> unit dec) \<Rightarrow> byte \<Rightarrow> bool \<Rightarrow> 64 word \<Rightarrow> 64 word dec" where
  "read_Int64_with sf tag isRequire n =
     dbind (TarsSkipToTag_with sf tag) (\<lambda>r. case r of
       Some (headType, headTag) \<Rightarrow>
         if headType = TarsHeadeZeroTag then dret 0
         else if headType = TarsHeadeChar then
           dbind (TarsReadTypeBuf 1) (\<lambda>c :: byte. dret (scast c))
         else if headType = TarsHeadeShort then
           dbind (TarsReadTypeBuf 2) (\<lambda>h :: 16 word. dret (scast (ntohs h)))
         else if headType = TarsHeadeInt32 then
           dbind (TarsReadTypeBuf 4) (\<lambda>i :: 32 word. dret (scast (ntohl i)))
         else if headType = TarsHeadeInt64 then
           dbind (TarsReadTypeBuf 8) (\<lambda>l. dret (tars_ntohll l))
         else dthrow TarsDecodeMismatch
     | None \<Rightarrow> if isRequire then dthrow TarsDecodeRequireNotExist else dret n)"

definition read_UInt32_with ::
    "(byte \<Rightarrow> unit dec) \<Rightarrow> byte \<Rightarrow> bool \<Rightarrow> 32 word \<Rightarrow> 32 word dec" where
  "read_UInt32_with sf tag isRequire n =
     dbind (read_Int64_with sf tag isRequire (ucast n)) (\<lambda>i. dret (ucast i))"

section \<open>Skipping a field\<close>

definition skipToStructEnd_with :: "(byte \<Rightarrow> unit dec) \<Rightarrow> unit dec" where
  "skipToStructEnd_with sf s = structEnd_loop sf (Suc (length (br_buf s))) s"

definition skipField0_with :: "(byte \<Rightarrow> unit dec) \<Rightarrow> unit dec" where
  "skipField0_with sf = dbind readFromHeadNoTag (\<lambda>headType. sf headType)"

text \<open>
  The switch of \<^verbatim>\<open>skipField(uint8_t type)\<close>. The loop bound of a map is \<open>size * 2\<close> in 32-bit
  arithmetic.
\<close>

definition skipField_switch :: "(byte \<Rightarrow> unit dec) \<Rightarrow> byte \<Rightarrow> unit dec" where
  "skipField_switch sf ty =
     (if ty = TarsHeadeChar then TarsReadHeadSkip 1
      else if ty = TarsHeadeShort then TarsReadHeadSkip 2
      else if ty = TarsHeadeInt32 then TarsReadHeadSkip 4
      else if ty = TarsHeadeInt64 then TarsReadHeadSkip 8
      else if ty = TarsHeadeFloat then TarsReadHeadSkip 4
      else if ty = TarsHeadeDouble then TarsReadHeadSkip 8
      else if ty = TarsHeadeString1 then
        dbind (TarsReadTypeBuf 1) (\<lambda>len :: byte. TarsReadHeadSkip (unat len))
      else if ty = TarsHeadeString4 then
        dbind (TarsReadTypeBuf 4) (\<lambda>len :: 32 word. TarsReadHeadSkip (unat (ntohl len)))
      else if ty = TarsHeadeMap then
        dbind (read_UInt32_with sf 0 True 0) (\<lambda>size.
          for_skip (skipField0_with sf) (unat (size * 2)))
      else if ty = TarsHeadeList then
        dbind (read_UInt32_with sf 0 True 0) (\<lambda>size.
          for_skip (skipField0_with sf) (unat size))
      else if ty = TarsHeadeSimpleList then
        dbind readFromHead (\<lambda>(headType, headTag).
          if headType \<noteq> TarsHeadeChar then dthrow TarsDecodeMismatch
          else dbind (read_UInt32_with sf 0 True 0) (\<lambda>size. TarsReadHeadSkip (unat size)))
      else if ty = TarsHeadeStructBegin then skipToStructEnd_with sf
      else if ty = TarsHeadeStructEnd \<or> ty = TarsHeadeZeroTag then dret ()
      else dthrow TarsDecodeMismatch)"

primrec skip_field :: "nat \<Rightarrow> byte \<Rightarrow> unit dec" where
  "skip_field 0 ty = dthrow OutOfFuel"
| "skip_field (Suc f) ty = skipField_switch (skip_field f) ty"

definition skipField :: "byte \<Rightarrow> unit dec" where
  "skipField ty s = skip_field (Suc (length (br_buf s))) ty s"

definition skipField0 :: "unit dec" where
  "skipField0 = skipField0_with skipField"

definition skipToStructEnd :: "unit dec" where
  "skipToStructEnd = skipToStructEnd_with skipField"

definition TarsSkipToTag :: "byte \<Rightarrow> (byte \<times> byte) option dec" where
  "TarsSkipToTag = TarsSkipToTag_with skipField"

definition read_Int64 :: "byte \<Rightarrow> bool \<Rightarrow> 64 word \<Rightarrow> 64 word dec" where
  "read_Int64 = read_Int64_with skipField"

definition read_UInt32 :: "byte \<Rightarrow> bool \<Rightarrow> 32 word \<Rightarrow> 32 word dec" where
  "read_UInt32 = read_UInt32_with skipField"

text \<open>
  The member function \<^verbatim>\<open>bool skipToTag(uint8_t tag)\<close>: like the macro, but the head of the field
  that is found stays unread.
\<close>

primrec skipToTag_member_loop :: "nat \<Rightarrow> byte \<Rightarrow> bool dec" where
  "skipToTag_member_loop 0 tag = dthrow OutOfFuel"
| "skipToTag_member_loop (Suc k) tag =
     dbind hasEnd (\<lambda>e. if e then dret False else
     dbind TarsPeekFromHead (\<lambda>(headType, headTag, len).
       if tag \<le> headTag \<or> headType = TarsHeadeStructEnd then
         dret (if headType = TarsHeadeStructEnd then False else tag = headTag)
       else
         dbind (TarsReadHeadSkip len) (\<lambda>_.
         dbind (skipField headType) (\<lambda>_. skipToTag_member_loop k tag))))"

definition skipToTag :: "byte \<Rightarrow> bool dec" where
  "skipToTag tag s = dcatch (skipToTag_member_loop (Suc (length (br_buf s))) tag) False s"

text \<open>
  \<^verbatim>\<open>readUnknown(sUnkown, tag)\<close>: collects the bytes of the fields that follow with strictly
  increasing tags above \<open>tag\<close>. The loop keeps the last tag and the last good position.
\<close>

primrec readUnknown_loop :: "nat \<Rightarrow> byte \<Rightarrow> nat \<Rightarrow> nat dec" where
  "readUnknown_loop 0 lasttag lst = dthrow OutOfFuel"
| "readUnknown_loop (Suc k) lasttag lst =
     dbind hasEnd (\<lambda>e. if e then dret lst else
     dbind DataHead_peekFrom (\<lambda>(ty, tag, len).
       if tag \<le> lasttag then dret lst
       else
         dbind (br_skip len) (\<lambda>_.
         dbind (skipField ty) (\<lambda>_ s.
           readUnknown_loop k tag (br_cur s) s))))"

definition readUnknown :: "byte \<Rightarrow> byte list dec" where
  "readUnknown tag s =
     dbind (readUnknown_loop (Suc (length (br_buf s))) tag (br_cur s))
       (\<lambda>lst s'. (Inr (take (lst - br_cur s) (drop (br_cur s) (br_buf s))), s')) s"

section \<open>The buffer stays, the cursor moves forward\<close>

lemma steady_for_skip [wf_intros]: "steady sk \<Longrightarrow> steady (for_skip sk n)"
  by (induction n) (auto intro: wf_intros)

lemma steady_structEnd_loop [wf_intros]:
  "(\<And>ty. steady (sf ty)) \<Longrightarrow> steady (structEnd_loop sf k)"
  by (induction k) (auto intro!: wf_intros)

lemma steady_skipToTag_loop [wf_intros]:
  "(\<And>ty. steady (sf ty)) \<Longrightarrow> steady (skipToTag_loop sf k tag)"
  by (induction k) (auto intro!: wf_intros split: prod.splits)

lemma steady_local:
  "(\<And>n. steady (m n)) \<Longrightarrow> steady (\<lambda>s. m (g s) s)"
  by (simp add: steady_def)

lemma steady_TarsSkipToTag_with [wf_intros]:
  assumes "\<And>ty. steady (sf ty)"
  shows "steady (TarsSkipToTag_with sf tag)"
  unfolding TarsSkipToTag_with_def
  by (rule steady_local[where m = "\<lambda>n. dcatch (skipToTag_loop sf n tag) None"])
    (intro wf_intros assms)

lemma steady_skipToStructEnd_with [wf_intros]:
  assumes "\<And>ty. steady (sf ty)"
  shows "steady (skipToStructEnd_with sf)"
  unfolding skipToStructEnd_with_def
  by (rule steady_local[where m = "structEnd_loop sf"]) (intro wf_intros assms)

lemma steady_option [wf_intros]:
  "steady m \<Longrightarrow> (\<And>x. steady (f x)) \<Longrightarrow> steady (case r of None \<Rightarrow> m | Some x \<Rightarrow> f x)"
  by (cases r) simp_all

lemma steady_prod [wf_intros]:
  "(\<And>x y. steady (f x y)) \<Longrightarrow> steady (case p of (x, y) \<Rightarrow> f x y)"
  by (cases p) simp

lemma steady_read_Int64_with [wf_intros]:
  "(\<And>ty. steady (sf ty)) \<Longrightarrow> steady (read_Int64_with sf tag req n)"
  unfolding read_Int64_with_def by (intro wf_intros) simp_all

lemma steady_read_UInt32_with [wf_intros]:
  "(\<And>ty. steady (sf ty)) \<Longrightarrow> steady (read_UInt32_with sf tag req n)"
  unfolding read_UInt32_with_def by (intro wf_intros) simp_all

lemma steady_skipField0_with [wf_intros]:
  "(\<And>ty. steady (sf ty)) \<Longrightarrow> steady (skipField0_with sf)"
  unfolding skipField0_with_def by (intro wf_intros) simp_all

lemma steady_skipField_switch [wf_intros]:
  "(\<And>ty. steady (sf ty)) \<Longrightarrow> steady (skipField_switch sf ty)"
  unfolding skipField_switch_def by (intro wf_intros) simp_all

lemma steady_skip_field [wf_intros]: "steady (skip_field f ty)"
  by (induction f arbitrary: ty) (simp_all add: wf_intros)

lemma steady_skipField [wf_intros]: "steady (skipField ty)"
  unfolding skipField_def by (rule steady_local[where m = "\<lambda>n. skip_field n ty"]) (rule wf_intros)

lemma steady_tops [wf_intros]:
  "steady skipField0" "steady skipToStructEnd" "steady (TarsSkipToTag tag)"
  "steady (read_Int64 tag req n)" "steady (read_UInt32 tag req m)"
  unfolding skipField0_def skipToStructEnd_def TarsSkipToTag_def read_Int64_def read_UInt32_def
  by (intro wf_intros)+

section \<open>The bounds are never reached\<close>

definition nofuel :: "'a dec \<Rightarrow> BufferReader \<Rightarrow> bool" where
  "nofuel m s \<longleftrightarrow> fst (m s) \<noteq> Inl OutOfFuel"

text \<open>\<open>rem s\<close>: the bytes left to read.\<close>

definition rem_bytes :: "BufferReader \<Rightarrow> nat" where
  "rem_bytes s = length (br_buf s) - br_cur s"

lemma rem_bytes_steady: "steady m \<Longrightarrow> m s = (r, s') \<Longrightarrow> rem_bytes s' \<le> rem_bytes s"
  using steadyD[of m s r s'] by (simp add: rem_bytes_def diff_le_mono2)

lemma nofuel_dbind:
  "nofuel m s \<Longrightarrow> (\<And>x s'. m s = (Inr x, s') \<Longrightarrow> nofuel (f x) s') \<Longrightarrow> nofuel (dbind m f) s"
  by (auto simp: nofuel_def dbind_def split: prod.splits sum.splits)

lemma nofuel_dcatch: "nofuel m s \<Longrightarrow> nofuel (dcatch m x) s"
  by (auto simp: nofuel_def dcatch_def split: prod.splits sum.splits)

lemma nofuel_prims [simp]:
  "nofuel (dret x) s" "nofuel (dthrow TarsDecodeMismatch) s"
  "nofuel (dthrow TarsDecodeRequireNotExist) s" "nofuel (dthrow TarsDecodeInvalidValue) s"
  "nofuel hasEnd s" "nofuel (TarsPeekTypeBuf n off :: 'a::len word dec) s"
  "nofuel (TarsReadHeadSkip n) s" "nofuel (TarsPeekTypeBufNoTag n off) s" "nofuel (br_skip n) s"
  by (simp_all add: nofuel_def dret_def dthrow_def hasEnd_def TarsPeekTypeBuf_def
      TarsReadHeadSkip_def TarsPeekTypeBufNoTag_def br_skip_def)

lemma nofuel_macros [simp]:
  "nofuel (TarsReadTypeBuf n :: 'a::len word dec) s" "nofuel TarsPeekFromHead s"
  "nofuel readFromHead s" "nofuel readFromHeadNoTag s"
  by (auto simp: TarsReadTypeBuf_def TarsPeekFromHead_def readFromHead_def readFromHeadNoTag_def
      TarsPeekFromHeadNoTag_def Let_def intro!: nofuel_dbind)

text \<open>\<open>safe_below sf s\<close>: \<open>sf\<close> returns wherever fewer bytes are left than at \<open>s\<close>.\<close>

definition safe_below :: "(byte \<Rightarrow> unit dec) \<Rightarrow> BufferReader \<Rightarrow> bool" where
  "safe_below sf s \<longleftrightarrow>
     (\<forall>ty s'. br_buf s' = br_buf s \<longrightarrow> rem_bytes s' < rem_bytes s \<longrightarrow> nofuel (sf ty) s')"

lemma safe_below_mono:
  "safe_below sf s \<Longrightarrow> br_buf s' = br_buf s \<Longrightarrow> br_cur s \<le> br_cur s' \<Longrightarrow> safe_below sf s'"
  by (auto simp: safe_below_def rem_bytes_def)

lemma safe_belowD:
  "safe_below sf s \<Longrightarrow> br_buf s' = br_buf s \<Longrightarrow> rem_bytes s' < rem_bytes s \<Longrightarrow> nofuel (sf ty) s'"
  by (simp add: safe_below_def)

lemma readFromHeadNoTag_progress:
  assumes "readFromHeadNoTag s = (Inr ty, s')"
  shows "br_buf s' = br_buf s \<and> rem_bytes s' < rem_bytes s \<and> br_cur s \<le> br_cur s' \<and> br_cur s' \<le> length (br_buf s)"
proof -
  from assms obtain tag where "readFromHead s = (Inr (ty, tag), s')"
    by (auto simp: readFromHeadNoTag_eq split: prod.splits sum.splits)
  then show ?thesis by (auto simp: rem_bytes_def dest!: readFromHead_progress)
qed

lemma nofuel_skipField0_with:
  "safe_below sf s \<Longrightarrow> nofuel (skipField0_with sf) s"
  unfolding skipField0_with_def
  by (rule nofuel_dbind) (auto dest!: readFromHeadNoTag_progress intro: safe_belowD)

lemma nofuel_for_skip:
  assumes sf: "\<And>ty. steady (sf ty)"
  shows "safe_below sf s \<Longrightarrow> nofuel (for_skip (skipField0_with sf) n) s"
proof (induction n arbitrary: s)
  case (Suc n)
  have st: "steady (skipField0_with sf)" by (intro wf_intros sf)
  show ?case unfolding for_skip.simps
  proof (rule nofuel_dbind)
    show "nofuel (skipField0_with sf) s" using Suc.prems by (rule nofuel_skipField0_with)
    fix x s' assume "skipField0_with sf s = (Inr x, s')"
    then show "nofuel (for_skip (skipField0_with sf) n) s'"
      using steadyD[OF st] by (intro Suc.IH safe_below_mono[OF Suc.prems]) blast+
  qed
qed simp

lemma nofuel_structEnd_loop:
  assumes sf: "\<And>ty. steady (sf ty)"
  shows "safe_below sf s \<Longrightarrow> rem_bytes s < k \<Longrightarrow> nofuel (structEnd_loop sf k) s"
proof (induction k arbitrary: s)
  case (Suc k)
  show ?case unfolding structEnd_loop.simps
  proof (rule nofuel_dbind; (rule nofuel_dbind)?)
    fix ty s1 assume "readFromHeadNoTag s = (Inr ty, s1)"
    then have s1: "br_buf s1 = br_buf s" "rem_bytes s1 < rem_bytes s" "br_cur s \<le> br_cur s1"
      by (auto dest: readFromHeadNoTag_progress)
    then show "nofuel (sf ty) s1" using Suc.prems by (auto intro: safe_belowD)
    fix x s2 assume "sf ty s1 = (Inr x, s2)"
    then have "br_buf s2 = br_buf s1" "br_cur s1 \<le> br_cur s2" "rem_bytes s2 \<le> rem_bytes s1"
      using steadyD[OF sf] rem_bytes_steady[OF sf] by blast+
    then show "nofuel (if ty \<noteq> TarsHeadeStructEnd then structEnd_loop sf k else dret ()) s2"
      using Suc.prems s1 by (auto intro!: Suc.IH safe_below_mono[of sf s s2])
  qed simp
qed simp

lemma stop_if: "nofuel m s \<Longrightarrow> nofuel m' s \<Longrightarrow> nofuel (if b then m else m') s"
  by simp

lemma nofuel_skipToTag_loop:
  assumes sf: "\<And>ty. steady (sf ty)"
  shows "safe_below sf s \<Longrightarrow> rem_bytes s < k \<Longrightarrow> nofuel (skipToTag_loop sf k tag) s"
proof (induction k arbitrary: s)
  case (Suc k)
  have step: "nofuel (dbind (TarsReadHeadSkip n) (\<lambda>_. dbind (sf ty) (\<lambda>_. skipToTag_loop sf k tag))) s"
    if "TarsPeekFromHead s = (Inr (ty, t, n), s')" for ty t n s'
  proof -
    have s1: "rem_bytes (adv n s) < rem_bytes s"
      using peekFromHead_progress[OF that] by (auto simp: rem_bytes_def)
    have "nofuel (dbind (sf ty) (\<lambda>_. skipToTag_loop sf k tag)) (adv n s)"
    proof (rule nofuel_dbind)
      show "nofuel (sf ty) (adv n s)" using Suc.prems s1 by (auto intro: safe_belowD)
      fix x s2 assume "sf ty (adv n s) = (Inr x, s2)"
      then have "br_buf s2 = br_buf s" "br_cur s \<le> br_cur s2" "rem_bytes s2 \<le> rem_bytes (adv n s)"
        using steadyD[OF sf, of ty "adv n s" "Inr x" s2] rem_bytes_steady[OF sf] by auto
      then show "nofuel (skipToTag_loop sf k tag) s2"
        using Suc.prems s1 by (auto intro!: Suc.IH safe_below_mono[of sf s s2])
    qed
    then show ?thesis by (simp add: dbind_def headSkip_adv nofuel_def)
  qed
  have h: "s' = s" if "hasEnd s = (Inr b, s')" for b s'
    using that by (auto simp: hasEnd_def split: if_splits)
  have found: "nofuel (dbind (TarsReadHeadSkip n) (\<lambda>_. dret r)) s" for n s and r :: "(byte \<times> byte) option"
    by (rule nofuel_dbind) simp_all
  have p: "s' = s" if "TarsPeekFromHead s = (Inr x, s')" for x :: "byte \<times> byte \<times> nat" and s'
    using that peekFromHead_progress by (cases x) auto
  have body: "nofuel (case x of (nextHeadType, nextHeadTag, len) \<Rightarrow>
       if nextHeadType = TarsHeadeStructEnd \<or> tag < nextHeadTag then dret None
       else if tag = nextHeadTag then
         dbind (TarsReadHeadSkip len) (\<lambda>_. dret (Some (nextHeadType, nextHeadTag)))
       else dbind (TarsReadHeadSkip len) (\<lambda>_. dbind (sf nextHeadType) (\<lambda>_. skipToTag_loop sf k tag))) s'"
    if "TarsPeekFromHead s = (Inr x, s')" for x s'
    using that p[OF that] step by (cases x) (simp add: found)
  show ?case unfolding skipToTag_loop.simps
    by (rule nofuel_dbind, simp, frule h, hypsubst, rule stop_if, simp, rule nofuel_dbind, simp, rule body)
qed simp

lemma safe_below_steady: "safe_below sf s \<Longrightarrow> steady m \<Longrightarrow> m s = (r, s') \<Longrightarrow> safe_below sf s'"
  using steadyD[of m s r s'] by (auto intro: safe_below_mono)

lemma nofuel_TarsSkipToTag_with:
  assumes "\<And>ty. steady (sf ty)" "safe_below sf s"
  shows "nofuel (TarsSkipToTag_with sf tag) s"
  using nofuel_dcatch[OF nofuel_skipToTag_loop[OF assms, of "Suc (length (br_buf s))" tag]]
  by (simp add: TarsSkipToTag_with_def nofuel_def rem_bytes_def)

lemma nofuel_read_Int64_with:
  assumes "\<And>ty. steady (sf ty)" "safe_below sf s"
  shows "nofuel (read_Int64_with sf tag req n) s"
  unfolding read_Int64_with_def
  by (rule nofuel_dbind)
    (use assms in \<open>auto simp: nofuel_TarsSkipToTag_with intro!: nofuel_dbind split: option.splits\<close>)

lemma nofuel_read_UInt32_with:
  assumes "\<And>ty. steady (sf ty)" "safe_below sf s"
  shows "nofuel (read_UInt32_with sf tag req n) s"
  unfolding read_UInt32_with_def
  by (rule nofuel_dbind) (use assms in \<open>simp_all add: nofuel_read_Int64_with\<close>)

lemma nofuel_skipToStructEnd_with:
  assumes "\<And>ty. steady (sf ty)" "safe_below sf s"
  shows "nofuel (skipToStructEnd_with sf) s"
  using nofuel_structEnd_loop[OF assms, of "Suc (length (br_buf s))"]
  by (simp add: skipToStructEnd_with_def nofuel_def rem_bytes_def)

lemma nofuel_sized:
  assumes sf: "\<And>ty. steady (sf ty)" and "safe_below sf s"
    and "\<And>n s'. safe_below sf s' \<Longrightarrow> nofuel (f n) s'"
  shows "nofuel (dbind (read_UInt32_with sf tag req m) f) s"
proof (rule nofuel_dbind)
  show "nofuel (read_UInt32_with sf tag req m) s" using assms by (simp add: nofuel_read_UInt32_with)
  fix x s' assume "read_UInt32_with sf tag req m s = (Inr x, s')"
  then show "nofuel (f x) s'"
    by (intro assms(3) safe_below_steady[OF assms(2), of "read_UInt32_with sf tag req m"] wf_intros sf)
qed

lemma nofuel_skipField_switch:
  assumes sf: "\<And>ty. steady (sf ty)" and "safe_below sf s"
  shows "nofuel (skipField_switch sf ty) s"
proof -
  have simple: "nofuel (dbind readFromHead (\<lambda>(headType, headTag).
          if headType \<noteq> TarsHeadeChar then dthrow TarsDecodeMismatch
          else dbind (read_UInt32_with sf 0 True 0) (\<lambda>size. TarsReadHeadSkip (unat size)))) s"
  proof (rule nofuel_dbind)
    fix x s' assume "readFromHead s = (Inr x, s')"
    then have "safe_below sf s'"
      using assms(2) by (auto intro: safe_below_steady wf_intros)
    then show "nofuel (case x of (headType, headTag) \<Rightarrow>
          if headType \<noteq> TarsHeadeChar then dthrow TarsDecodeMismatch
          else dbind (read_UInt32_with sf 0 True 0) (\<lambda>size. TarsReadHeadSkip (unat size))) s'"
      using sf by (auto intro: nofuel_sized split: prod.splits)
  qed simp
  have lst: "nofuel (dbind (read_UInt32_with sf 0 True 0) (\<lambda>size. for_skip (skipField0_with sf) (g size))) s" for g
    using assms by (intro nofuel_sized nofuel_for_skip)
  have str: "nofuel (dbind (TarsReadTypeBuf n) (\<lambda>len :: 'a::len word. TarsReadHeadSkip (h len))) s" for n h
    by (rule nofuel_dbind) simp_all
  show ?thesis
    unfolding skipField_switch_def
    by (intro stop_if simple lst str nofuel_prims nofuel_skipToStructEnd_with assms nofuel_dbind nofuel_macros)
qed

lemma nofuel_skip_field: "rem_bytes s < f \<Longrightarrow> nofuel (skip_field f ty) s"
proof (induction f arbitrary: ty s)
  case (Suc f)
  then show ?case
    by (auto simp: safe_below_def intro!: nofuel_skipField_switch wf_intros)
qed simp

lemma nofuel_skipField: "nofuel (skipField ty) s"
  using nofuel_skip_field[of s "Suc (length (br_buf s))" ty]
  by (simp add: skipField_def nofuel_def rem_bytes_def)

lemma nofuel_tops [simp]:
  "nofuel (TarsSkipToTag tag) s" "nofuel (read_Int64 tag req n) s" "nofuel (read_UInt32 tag req m) s"
  "nofuel skipToStructEnd s" "nofuel skipField0 s"
  unfolding TarsSkipToTag_def read_Int64_def read_UInt32_def skipToStructEnd_def skipField0_def
  by (simp_all add: nofuel_TarsSkipToTag_with nofuel_read_Int64_with nofuel_read_UInt32_with
      nofuel_skipToStructEnd_with nofuel_skipField0_with wf_intros safe_below_def nofuel_skipField)

text \<open>
  C19. Skipping a field of any type from any position of any buffer returns: the recursion and
  iteration bounds computed from the buffer's length are never exhausted, however deeply the
  containers of the input nest and whatever sizes they claim.
\<close>

theorem skipField_total: "fst (skipField ty s) \<noteq> Inl OutOfFuel"
  using nofuel_skipField by (simp add: nofuel_def)

section \<open>Only decode exceptions are thrown\<close>

definition decodes :: "'a dec \<Rightarrow> bool" where
  "decodes m \<longleftrightarrow> (\<forall>s e. fst (m s) = Inl e \<longrightarrow> is_TarsDecodeException e \<or> e = OutOfFuel)"

lemma decodes_dbind [wf_intros]: "decodes m \<Longrightarrow> (\<And>x. decodes (f x)) \<Longrightarrow> decodes (dbind m f)"
  unfolding decodes_def dbind_def
  by (auto split: prod.splits sum.splits) (metis fst_conv)+

lemma decodes_dcatch [wf_intros]: "decodes m \<Longrightarrow> decodes (dcatch m x)"
  unfolding decodes_def dcatch_def
  by (auto split: prod.splits sum.splits if_splits) (metis fst_conv)

lemma decodes_if [wf_intros]: "decodes m \<Longrightarrow> decodes m' \<Longrightarrow> decodes (if b then m else m')"
  by simp

lemma decodes_option [wf_intros]:
  "decodes m \<Longrightarrow> (\<And>x. decodes (f x)) \<Longrightarrow> decodes (case r of None \<Rightarrow> m | Some x \<Rightarrow> f x)"
  by (cases r) simp_all

lemma decodes_prod [wf_intros]:
  "(\<And>x y. decodes (f x y)) \<Longrightarrow> decodes (case p of (x, y) \<Rightarrow> f x y)"
  by (cases p) simp

lemma decodes_local: "(\<And>n. decodes (m n)) \<Longrightarrow> decodes (\<lambda>s. m (g s) s)"
  by (simp add: decodes_def)

lemma decodes_prims [wf_intros]:
  "decodes (dret x)" "decodes (dthrow TarsDecodeMismatch)" "decodes (dthrow TarsDecodeRequireNotExist)"
  "decodes (dthrow TarsDecodeInvalidValue)" "decodes (dthrow OutOfFuel)" "decodes br_size"
  "decodes hasEnd" "decodes (TarsPeekTypeBuf n off :: 'a::len word dec)"
  "decodes (TarsReadHeadSkip n)" "decodes (TarsPeekTypeBufNoTag n off)" "decodes (br_skip n)"
  "decodes (TarsReadStringBuf n)" "decodes (readBuf n)" "decodes (peekBuf n off)"
  by (simp_all add: decodes_def dret_def dthrow_def hasEnd_def TarsPeekTypeBuf_def br_size_def
      TarsReadHeadSkip_def TarsPeekTypeBufNoTag_def br_skip_def TarsReadStringBuf_def readBuf_def
      peekBuf_def)

lemma decodes_macros [wf_intros]:
  "decodes (TarsReadTypeBuf n :: 'a::len word dec)" "decodes TarsPeekFromHead"
  "decodes readFromHead" "decodes readFromHeadNoTag"
  unfolding TarsReadTypeBuf_def TarsPeekFromHead_def readFromHead_def readFromHeadNoTag_def
      TarsPeekFromHeadNoTag_def Let_def by (intro wf_intros)+

lemma decodes_for_skip [wf_intros]: "decodes sk \<Longrightarrow> decodes (for_skip sk n)"
  by (induction n) (auto intro: wf_intros)

lemma decodes_structEnd_loop [wf_intros]:
  "(\<And>ty. decodes (sf ty)) \<Longrightarrow> decodes (structEnd_loop sf k)"
  by (induction k) (auto intro!: wf_intros)

lemma decodes_skipToTag_loop [wf_intros]:
  "(\<And>ty. decodes (sf ty)) \<Longrightarrow> decodes (skipToTag_loop sf k tag)"
  by (induction k) (auto intro!: wf_intros split: prod.splits)

lemma decodes_with [wf_intros]:
  assumes sf: "\<And>ty. decodes (sf ty)"
  shows "decodes (TarsSkipToTag_with sf tag)" "decodes (skipToStructEnd_with sf)"
    "decodes (skipField0_with sf)"
proof -
  show "decodes (TarsSkipToTag_with sf tag)" unfolding TarsSkipToTag_with_def
    by (rule decodes_local[where m = "\<lambda>n. dcatch (skipToTag_loop sf n tag) None"]) (intro wf_intros sf)
  show "decodes (skipToStructEnd_with sf)" unfolding skipToStructEnd_with_def
    by (rule decodes_local[where m = "structEnd_loop sf"]) (intro wf_intros sf)
  show "decodes (skipField0_with sf)" unfolding skipField0_with_def by (intro wf_intros sf)
qed

lemma decodes_read_with [wf_intros]:
  assumes "\<And>ty. decodes (sf ty)"
  shows "decodes (read_Int64_with sf tag req n)" "decodes (read_UInt32_with sf tag req m)"
  unfolding read_UInt32_with_def read_Int64_with_def by (intro wf_intros assms)+

lemma decodes_skip_field [wf_intros]: "decodes (skip_field f ty)"
proof (induction f arbitrary: ty)
  case (Suc f)
  show ?case unfolding skip_field.simps skipField_switch_def by (intro wf_intros Suc.IH)
qed (simp add: wf_intros)

lemma decodes_skipField [wf_intros]: "decodes (skipField ty)"
  unfolding skipField_def by (rule decodes_local[where m = "\<lambda>n. skip_field n ty"]) (rule wf_intros)

text \<open>
  \<open>robust m\<close>: on every input \<open>m\<close> returns, with a value or with an exception derived from
  \<open>TarsDecodeException\<close>.
\<close>

definition robust :: "'a dec \<Rightarrow> bool" where
  "robust m \<longleftrightarrow> (\<forall>s e. fst (m s) = Inl e \<longrightarrow> is_TarsDecodeException e)"

lemma robustI: "decodes m \<Longrightarrow> (\<And>s. nofuel m s) \<Longrightarrow> robust m"
  by (fastforce simp: robust_def decodes_def nofuel_def)

lemma robust_dbind [wf_intros]: "robust m \<Longrightarrow> (\<And>x. robust (f x)) \<Longrightarrow> robust (dbind m f)"
  unfolding robust_def dbind_def
  by (auto split: prod.splits sum.splits) (metis fst_conv)+

lemma robust_if [wf_intros]: "robust m \<Longrightarrow> robust m' \<Longrightarrow> robust (if b then m else m')"
  by simp

lemma robust_option [wf_intros]:
  "robust m \<Longrightarrow> (\<And>x. robust (f x)) \<Longrightarrow> robust (case r of None \<Rightarrow> m | Some x \<Rightarrow> f x)"
  by (cases r) simp_all

lemma robust_prod [wf_intros]:
  "(\<And>x y. robust (f x y)) \<Longrightarrow> robust (case p of (x, y) \<Rightarrow> f x y)"
  by (cases p) simp

lemma robust_prims [wf_intros]:
  "robust (dret x)" "robust (dthrow TarsDecodeMismatch)" "robust (dthrow TarsDecodeRequireNotExist)"
  "robust (dthrow TarsDecodeInvalidValue)" "robust (dthrow TarsDecodeException)" "robust br_size"
  "robust hasEnd" "robust (TarsPeekTypeBuf n off :: 'a::len word dec)"
  "robust (TarsReadHeadSkip n)" "robust (br_skip n)"
  "robust (TarsReadStringBuf n)" "robust (readBuf n)" "robust (peekBuf n off)"
  by (simp_all add: robust_def dret_def dthrow_def hasEnd_def TarsPeekTypeBuf_def br_size_def
      TarsReadHeadSkip_def br_skip_def TarsReadStringBuf_def readBuf_def peekBuf_def)

lemma robust_macros [wf_intros]:
  "robust (TarsReadTypeBuf n :: 'a::len word dec)" "robust TarsPeekFromHead"
  "robust readFromHead" "robust readFromHeadNoTag"
  by (intro robustI wf_intros nofuel_macros)+

lemma robust_tops [wf_intros]:
  "robust (TarsSkipToTag tag)" "robust (read_Int64 tag req n)" "robust (read_UInt32 tag req m)"
  "robust skipToStructEnd" "robust skipField0"
  by (rule robustI; (rule nofuel_tops)?; simp add: TarsSkipToTag_def read_Int64_def
      read_UInt32_def skipToStructEnd_def skipField0_def wf_intros)+

lemma TarsSkipToTag_returns: "\<exists>r s'. TarsSkipToTag tag s = (Inr r, s')"
proof (cases "TarsSkipToTag tag s")
  case (Pair x s')
  have "is_TarsDecodeException e \<Longrightarrow> fst (TarsSkipToTag tag s) \<noteq> Inl e" for e
    by (auto simp: TarsSkipToTag_def TarsSkipToTag_with_def dcatch_def
        split: prod.splits sum.splits if_splits)
  moreover have "fst (TarsSkipToTag tag s) = Inl e \<Longrightarrow> is_TarsDecodeException e" for e
    using robust_tops(1)[of tag] by (simp add: robust_def)
  ultimately show ?thesis using Pair by (cases x) auto
qed

section \<open>How far the cursor can get\<close>

text \<open>
  \<^verbatim>\<open>TarsReadHeadSkip\<close> does not look at the buffer's length, so the cursor can pass the end; the next
  head, or \<^verbatim>\<open>hasEnd\<close>, then throws. A skip from a position inside the buffer overshoots its end by
  at most \<open>2 ^ 32\<close> bytes (the longest string or simple list).
\<close>

definition overshoot :: "BufferReader \<Rightarrow> bool" where
  "overshoot s \<longleftrightarrow> br_cur s \<le> length (br_buf s) + 2 ^ 32"

definition bounded_in :: "'a dec \<Rightarrow> bool" where
  "bounded_in m \<longleftrightarrow> (\<forall>s. br_cur s \<le> length (br_buf s) \<longrightarrow> overshoot (snd (m s)))"

definition bounded :: "'a dec \<Rightarrow> bool" where
  "bounded m \<longleftrightarrow> (\<forall>s. overshoot s \<longrightarrow> overshoot (snd (m s)))"

lemma bounded_imp_in: "bounded m \<Longrightarrow> bounded_in m"
  by (auto simp: bounded_def bounded_in_def overshoot_def)

lemma bounded_dbind [wf_intros]: "bounded m \<Longrightarrow> (\<And>x. bounded (f x)) \<Longrightarrow> bounded (dbind m f)"
  by (auto simp: bounded_def dbind_def split: prod.splits sum.splits)

lemma bounded_dcatch [wf_intros]: "bounded m \<Longrightarrow> bounded (dcatch m x)"
  by (auto simp: bounded_def dcatch_def split: prod.splits sum.splits)

lemma bounded_if [wf_intros]: "bounded m \<Longrightarrow> bounded m' \<Longrightarrow> bounded (if b then m else m')"
  by simp

lemma bounded_option [wf_intros]:
  "bounded m \<Longrightarrow> (\<And>x. bounded (f x)) \<Longrightarrow> bounded (case r of None \<Rightarrow> m | Some x \<Rightarrow> f x)"
  by (cases r) simp_all

lemma bounded_prod [wf_intros]:
  "(\<And>x y. bounded (f x y)) \<Longrightarrow> bounded (case p of (x, y) \<Rightarrow> f x y)"
  by (cases p) simp

lemma bounded_local: "(\<And>n. bounded (m n)) \<Longrightarrow> bounded (\<lambda>s. m (g s) s)"
  by (simp add: bounded_def)

lemma bounded_prims [wf_intros]:
  "bounded (dret x)" "bounded (dthrow e)" "bounded br_size" "bounded hasEnd"
  "bounded (TarsPeekTypeBuf n off :: 'a::len word dec)" "bounded (TarsPeekTypeBufNoTag n off)"
  "bounded (br_skip n)" "bounded (TarsReadStringBuf n)" "bounded (readBuf n)" "bounded (peekBuf n off)"
  by (simp_all add: bounded_def overshoot_def dret_def dthrow_def hasEnd_def TarsPeekTypeBuf_def
      br_size_def TarsPeekTypeBufNoTag_def br_skip_def TarsReadStringBuf_def readBuf_def peekBuf_def)

lemma bounded_macros [wf_intros]:
  "bounded (TarsReadTypeBuf n :: 'a::len word dec)" "bounded TarsPeekFromHead"
  "bounded readFromHead" "bounded readFromHeadNoTag"
  by (auto simp: bounded_def overshoot_def TarsReadTypeBuf_def TarsPeekFromHead_def readFromHead_def
      readFromHeadNoTag_def TarsPeekFromHeadNoTag_def Let_def dbind_def dret_def TarsPeekTypeBuf_def
      TarsPeekTypeBufNoTag_def TarsReadHeadSkip_def)

lemma bounded_for_skip [wf_intros]: "bounded sk \<Longrightarrow> bounded (for_skip sk n)"
  by (induction n) (auto intro: wf_intros)

text \<open>After a head was read the cursor is inside the buffer, so what follows may overshoot.\<close>

lemma bounded_head_NoTag:
  assumes "\<And>ty. bounded_in (f ty)"
  shows "bounded (dbind readFromHeadNoTag f)"
  unfolding bounded_def
proof (intro allI impI)
  fix s assume s: "overshoot s"
  show "overshoot (snd (dbind readFromHeadNoTag f s))"
  proof (cases "readFromHeadNoTag s")
    case (Pair r s')
    show ?thesis
    proof (cases r)
      case (Inl e)
      then show ?thesis using Pair s bounded_macros(4) by (auto simp: dbind_def bounded_def)
    next
      case (Inr ty)
      then have "br_cur s' \<le> length (br_buf s')"
        using Pair readFromHeadNoTag_progress[of s ty s'] by auto
      then show ?thesis using Inr Pair assms by (simp add: dbind_def bounded_in_def)
    qed
  qed
qed

lemma bounded_in_dbind:
  "bounded_in m \<Longrightarrow> (\<And>x. bounded (f x)) \<Longrightarrow> bounded_in (dbind m f)"
  by (auto simp: bounded_def bounded_in_def dbind_def split: prod.splits sum.splits)

lemma bounded_skipField0_with [wf_intros]:
  "(\<And>ty. bounded_in (sf ty)) \<Longrightarrow> bounded (skipField0_with sf)"
  unfolding skipField0_with_def by (rule bounded_head_NoTag)

lemma bounded_structEnd_loop [wf_intros]:
  "(\<And>ty. bounded_in (sf ty)) \<Longrightarrow> bounded (structEnd_loop sf k)"
proof (induction k)
  case (Suc k)
  have "bounded (structEnd_loop sf k)" using Suc by blast
  then show ?case unfolding structEnd_loop.simps
    by (intro bounded_head_NoTag bounded_in_dbind wf_intros Suc.prems)
qed (simp add: wf_intros)

lemma peekFromHead_state: "TarsPeekFromHead s = (Inr x, s') \<Longrightarrow> s' = s"
  using peekFromHead_progress by (cases x) blast

lemma bounded_skipToTag_loop [wf_intros]:
  assumes sf: "\<And>ty. bounded_in (sf ty)"
  shows "bounded (skipToTag_loop sf k tag)"
proof (induction k)
  case (Suc k)
  have step: "overshoot (snd ((if ty = TarsHeadeStructEnd \<or> tag < t then dret None
       else if tag = t then dbind (TarsReadHeadSkip n) (\<lambda>_. dret (Some (ty, t)))
       else dbind (TarsReadHeadSkip n) (\<lambda>_. dbind (sf ty) (\<lambda>_. skipToTag_loop sf k tag))) s))"
    if "TarsPeekFromHead s = (Inr (ty, t, n), s)" for ty t n s
  proof -
    have "br_cur (adv n s) \<le> length (br_buf (adv n s))" using peekFromHead_progress[OF that] by simp
    moreover have "bounded_in (dbind (sf ty) (\<lambda>_. skipToTag_loop sf k tag))"
      by (intro bounded_in_dbind sf Suc.IH)
    ultimately have "overshoot (snd (dbind (sf ty) (\<lambda>_. skipToTag_loop sf k tag) (adv n s)))"
      and "overshoot (adv n s)" and "overshoot s"
      by (auto simp: bounded_in_def overshoot_def)
    then show ?thesis by (simp add: dbind_def[of "TarsReadHeadSkip n"] headSkip_adv dret_def)
  qed
  have "bounded (dbind TarsPeekFromHead (\<lambda>(ty, t, n).
       if ty = TarsHeadeStructEnd \<or> tag < t then dret None
       else if tag = t then dbind (TarsReadHeadSkip n) (\<lambda>_. dret (Some (ty, t)))
       else dbind (TarsReadHeadSkip n) (\<lambda>_. dbind (sf ty) (\<lambda>_. skipToTag_loop sf k tag))))"
    (is "bounded (dbind _ ?f)") unfolding bounded_def
  proof (intro allI impI)
    fix s assume s: "overshoot s"
    show "overshoot (snd (dbind TarsPeekFromHead ?f s))"
    proof (cases "TarsPeekFromHead s")
      case (Pair r s')
      show ?thesis
      proof (cases r)
        case (Inl e)
        then show ?thesis using Pair s bounded_macros(2) by (auto simp: dbind_def[of TarsPeekFromHead] bounded_def)
      next
        case (Inr x)
        then have "s' = s" using Pair peekFromHead_state by blast
        then show ?thesis using Inr Pair step[of s]
          by (cases x) (simp add: dbind_def[of TarsPeekFromHead])
      qed
    qed
  qed
  then show ?case unfolding skipToTag_loop.simps
    by (intro bounded_dbind[OF bounded_prims(4)] bounded_if bounded_prims(1))
qed (simp add: wf_intros)

lemma bounded_with [wf_intros]:
  assumes sf: "\<And>ty. bounded_in (sf ty)"
  shows "bounded (TarsSkipToTag_with sf tag)" "bounded (skipToStructEnd_with sf)"
proof -
  show "bounded (TarsSkipToTag_with sf tag)" unfolding TarsSkipToTag_with_def
    by (rule bounded_local[where m = "\<lambda>n. dcatch (skipToTag_loop sf n tag) None"]) (intro wf_intros sf)
  show "bounded (skipToStructEnd_with sf)" unfolding skipToStructEnd_with_def
    by (rule bounded_local[where m = "structEnd_loop sf"]) (intro wf_intros sf)
qed

lemma bounded_read_with [wf_intros]:
  assumes "\<And>ty. bounded_in (sf ty)"
  shows "bounded (read_Int64_with sf tag req n)" "bounded (read_UInt32_with sf tag req m)"
  unfolding read_UInt32_with_def read_Int64_with_def by (intro wf_intros assms)+

text \<open>A field that was found, and a value that was read, end inside the buffer.\<close>

lemma skipToTag_loop_inside:
  "skipToTag_loop sf k tag s = (Inr (Some h), s') \<Longrightarrow> br_cur s' \<le> length (br_buf s')"
proof (induction k arbitrary: s)
  case (Suc k)
  then show ?case
    by (auto simp: dbind_def dret_def headSkip_adv split: prod.splits sum.splits if_splits
        dest!: peekFromHead_progress)
qed (simp add: dthrow_def)

lemma TarsSkipToTag_inside:
  "TarsSkipToTag_with sf tag s = (Inr (Some h), s') \<Longrightarrow> br_cur s' \<le> length (br_buf s')"
  by (auto simp: TarsSkipToTag_with_def dcatch_def simp del: skipToTag_loop.simps
      split: prod.splits sum.splits if_splits dest: skipToTag_loop_inside)

lemma TarsReadTypeBuf_inside:
  "TarsReadTypeBuf n s = (Inr (w :: 'a::len word), s') \<Longrightarrow> br_cur s' \<le> length (br_buf s')"
  by (auto simp: TarsReadTypeBuf_def dbind_def dret_def TarsPeekTypeBuf_def TarsReadHeadSkip_def
      split: if_splits)

lemma read_Int64_inside:
  "read_Int64_with sf tag True n s = (Inr x, s') \<Longrightarrow> br_cur s' \<le> length (br_buf s')"
  by (auto simp: read_Int64_with_def dbind_def dret_def dthrow_def
      split: prod.splits sum.splits if_splits option.splits
      dest: TarsSkipToTag_inside TarsReadTypeBuf_inside)

lemma read_UInt32_inside:
  "read_UInt32_with sf tag True n s = (Inr x, s') \<Longrightarrow> br_cur s' \<le> length (br_buf s')"
  by (auto simp: read_UInt32_with_def dbind_def dret_def split: prod.splits sum.splits
      dest: read_Int64_inside)

text \<open>Sequencing where the first part, if it returns, ends inside the buffer.\<close>

lemma bounded_inside:
  assumes "bounded m" "\<And>s x s'. m s = (Inr x, s') \<Longrightarrow> br_cur s' \<le> length (br_buf s')"
    and "\<And>x. bounded_in (f x)"
  shows "bounded (dbind m f)"
  using assms unfolding bounded_def bounded_in_def dbind_def
  by (auto split: prod.splits sum.splits)

lemma unat_le_word: "unat (w :: 'a::len word) < 2 ^ LENGTH('a)"
  by (rule unsigned_less)

lemma bounded_in_skip: "n \<le> 2 ^ 32 \<Longrightarrow> bounded_in (TarsReadHeadSkip n)"
  by (simp add: bounded_in_def overshoot_def TarsReadHeadSkip_def)

lemma readFromHead_inside: "readFromHead s = (Inr x, s') \<Longrightarrow> br_cur s' \<le> length (br_buf s')"
  using readFromHead_progress by (cases x) force

lemma bounded_in_if: "bounded_in m \<Longrightarrow> bounded_in m' \<Longrightarrow> bounded_in (if b then m else m')"
  by simp

lemma bounded_in_skipField_switch:
  assumes sf: "\<And>ty. bounded_in (sf ty)"
  shows "bounded_in (skipField_switch sf ty)"
proof -
  have b: "unat (l :: byte) \<le> 2 ^ 32" and w: "unat (w :: 32 word) \<le> 2 ^ 32" for l w
    using unat_le_word[of l] unat_le_word[of w] by simp_all
  have s1: "bounded (dbind (TarsReadTypeBuf 1) (\<lambda>len :: byte. TarsReadHeadSkip (unat len)))"
    by (rule bounded_inside) (intro wf_intros, erule TarsReadTypeBuf_inside, intro bounded_in_skip b)
  have s4: "bounded (dbind (TarsReadTypeBuf 4) (\<lambda>len :: 32 word. TarsReadHeadSkip (unat (ntohl len))))"
    by (rule bounded_inside) (intro wf_intros, erule TarsReadTypeBuf_inside, intro bounded_in_skip w)
  have sl: "bounded (dbind (read_UInt32_with sf 0 True 0) (\<lambda>size. TarsReadHeadSkip (unat size)))"
    by (rule bounded_inside) (intro wf_intros sf, erule read_UInt32_inside, intro bounded_in_skip w)
  have mp: "bounded (dbind (read_UInt32_with sf 0 True 0) (\<lambda>size. for_skip (skipField0_with sf) (g size)))" for g
    by (intro wf_intros sf)
  have si: "bounded (dbind readFromHead (\<lambda>(headType, headTag).
          if headType \<noteq> TarsHeadeChar then dthrow TarsDecodeMismatch
          else dbind (read_UInt32_with sf 0 True 0) (\<lambda>size. TarsReadHeadSkip (unat size))))"
    by (intro bounded_dbind[OF bounded_macros(3)] bounded_prod bounded_if sl bounded_prims(2))
  show ?thesis
    unfolding skipField_switch_def
    by (intro bounded_in_if s1[THEN bounded_imp_in] s4[THEN bounded_imp_in] mp[THEN bounded_imp_in]
        si[THEN bounded_imp_in] bounded_with(2)[OF sf, THEN bounded_imp_in]
        bounded_prims(1,2)[THEN bounded_imp_in] bounded_in_skip) simp_all
qed

lemma bounded_in_skip_field: "bounded_in (skip_field f ty)"
  by (induction f arbitrary: ty)
    (simp_all add: bounded_in_skipField_switch bounded_imp_in wf_intros)

lemma bounded_in_skipField: "bounded_in (skipField ty)"
  using bounded_in_skip_field by (simp add: bounded_in_def skipField_def del: skip_field.simps)

lemma bounded_tops [wf_intros]:
  "bounded (TarsSkipToTag tag)" "bounded (read_Int64 tag req n)" "bounded (read_UInt32 tag req m)"
  "bounded skipToStructEnd" "bounded skipField0"
  unfolding TarsSkipToTag_def read_Int64_def read_UInt32_def skipToStructEnd_def skipField0_def
  by (intro wf_intros bounded_in_skipField)+

text \<open>
  A skip that starts inside the buffer leaves the cursor at most \<open>2 ^ 32\<close> bytes behind the
  buffer's end and never moves it back, so the 64-bit cursor arithmetic of the macros does not wrap.
\<close>

theorem skipField_cursor:
  assumes "br_cur s \<le> length (br_buf s)"
  shows "br_cur s \<le> br_cur (snd (skipField ty s))
    \<and> br_cur (snd (skipField ty s)) \<le> length (br_buf s) + 2 ^ 32"
proof -
  have "br_buf (snd (skipField ty s)) = br_buf s \<and> br_cur s \<le> br_cur (snd (skipField ty s))"
    using steady_skipField[of ty] by (simp add: steady_def)
  then show ?thesis
    using bounded_in_skipField[of ty] assms by (auto simp: bounded_in_def overshoot_def)
qed

theorem skipField_cursor_witness:
  "br_cur (snd (skipField TarsHeadeString1 \<lparr>br_buf = [200, 1], br_cur = 0\<rparr>)) \<le> 2 + 2 ^ 32"
  using skipField_cursor[of "\<lparr>br_buf = [200, 1], br_cur = 0\<rparr>" TarsHeadeString1] by simp

section \<open>Skipping well-formed fields\<close>

text \<open>
  \<open>skippable ty bs\<close>: on a buffer that continues with the bytes \<open>bs\<close>, skipping a field of type
  \<open>ty\<close> consumes exactly \<open>bs\<close>, at every recursion bound above the number of bytes.
\<close>

definition skippable :: "byte \<Rightarrow> byte list \<Rightarrow> bool" where
  "skippable ty bs \<longleftrightarrow>
     (\<forall>s f. at_bytes bs s \<longrightarrow> length bs < f \<longrightarrow> skip_field f ty s = (Inr (), adv (length bs) s))"

text \<open>The bytes of one complete field: a head with the tag and a type that is not a struct end.\<close>

definition is_field :: "byte \<Rightarrow> byte list \<Rightarrow> bool" where
  "is_field tag bs \<longleftrightarrow>
     (\<exists>ty payload. ty < 16 \<and> ty \<noteq> TarsHeadeStructEnd \<and> bs = head_bytes ty tag @ payload \<and>
        skippable ty payload)"

lemma is_fieldI:
  "ty < 16 \<Longrightarrow> ty \<noteq> TarsHeadeStructEnd \<Longrightarrow> skippable ty payload \<Longrightarrow>
     is_field tag (head_bytes ty tag @ payload)"
  by (auto simp: is_field_def)

lemma is_field_length: "is_field tag bs \<Longrightarrow> 1 \<le> length bs"
  by (auto simp: is_field_def Suc_le_eq)

lemma skipField_skippable:
  "skippable ty bs \<Longrightarrow> at_bytes bs s \<Longrightarrow> skipField ty s = (Inr (), adv (length bs) s)"
  using at_bytes_length[of bs s] by (simp add: skipField_def skippable_def del: skip_field.simps)

lemma skip_field_unfold: "0 < f \<Longrightarrow> skip_field f ty = skipField_switch (skip_field (f - 1)) ty"
  by (cases f) (simp_all add: fun_eq_iff)

lemma skippable_fixed:
  "length bs = 1 \<Longrightarrow> skippable 0 bs"
  "length bs = 2 \<Longrightarrow> skippable 1 bs"
  "length bs = 4 \<Longrightarrow> skippable 2 bs"
  "length bs = 8 \<Longrightarrow> skippable 3 bs"
  "length bs = 4 \<Longrightarrow> skippable 4 bs"
  "length bs = 8 \<Longrightarrow> skippable 5 bs"
  "skippable 12 []"
  unfolding skippable_def
  by (auto simp: skip_field_unfold skipField_switch_def headSkip_adv dret_def)

lemma skippable_string1:
  assumes "length s \<le> 255"
  shows "skippable 6 (of_nat (length s) # s)"
proof -
  have u: "unat (of_nat (length s) :: byte) = length s"
    using assms by (simp add: unat_of_nat take_bit_nat_eq_self)
  show ?thesis
    unfolding skippable_def
    by (auto simp: skip_field_unfold skipField_switch_def dbind_def headSkip_adv u
        at_bytes_Cons[of _ s] read_at[where 'a = 8, of "[of_nat (length s)]"] simp del: le_word.simps)
qed

lemma skippable_string4:
  assumes "length s < 2 ^ 32"
  shows "skippable 7 (be_bytes 4 (of_nat (length s) :: 32 word) @ s)"
proof -
  have u: "unat (of_nat (length s) :: 32 word) = length s"
    using assms by (simp add: unat_of_nat take_bit_nat_eq_self)
  have l: "htonl (le_word (be_bytes 4 (w :: 32 word))) = w" for w
    by (simp add: load_ntohl)
  show ?thesis
    unfolding skippable_def
    by (auto simp: skip_field_unfold skipField_switch_def dbind_def headSkip_adv u l
        read_at[where 'a = 32, of "be_bytes 4 (of_nat (length s) :: 32 word)"])
qed

section \<open>Finding a field by its tag\<close>

lemma skipToTag_loop_found:
  assumes "at_bytes (head_bytes ty tag) s" "ty < 16" "ty \<noteq> TarsHeadeStructEnd" "0 < k"
  shows "skipToTag_loop sf k tag s = (Inr (Some (ty, tag)), adv (length (head_bytes ty tag)) s)"
  using assms(3,4) hasEnd_at[OF assms(1)] peekFromHead_at[OF assms(1,2)]
  by (cases k) (auto simp: dbind_def dret_def headSkip_adv)

lemma TarsSkipToTag_with_found [codec_simps]:
  assumes "at_bytes (head_bytes ty tag) s" "ty < 16" "ty \<noteq> TarsHeadeStructEnd"
  shows "TarsSkipToTag_with sf tag s = (Inr (Some (ty, tag)), adv (length (head_bytes ty tag)) s)"
  using skipToTag_loop_found[OF assms, of "Suc (length (br_buf s))" sf]
  by (simp add: TarsSkipToTag_with_def dcatch_def del: skipToTag_loop.simps)

lemmas TarsSkipToTag_found [codec_simps] =
  TarsSkipToTag_with_found[where sf = skipField, folded TarsSkipToTag_def]

text \<open>A head with a higher tag, a struct end, or the end of the buffer: the field is absent.\<close>

lemma TarsSkipToTag_absent [codec_simps]:
  assumes "at_bytes (head_bytes ty t) s" "ty < 16" "tag < t \<or> ty = TarsHeadeStructEnd"
  shows "TarsSkipToTag tag s = (Inr None, s)"
  using assms(3) hasEnd_at[OF assms(1)] peekFromHead_at[OF assms(1,2)]
  by (auto simp: TarsSkipToTag_def TarsSkipToTag_with_def dcatch_def dbind_def dret_def)

lemma TarsSkipToTag_at_end [codec_simps]:
  "br_cur s = length (br_buf s) \<Longrightarrow> TarsSkipToTag tag s = (Inr None, s)"
  by (simp add: TarsSkipToTag_def TarsSkipToTag_with_def dcatch_def dbind_def dret_def hasEnd_def)

text \<open>The iteration bound of the loop does not matter once it exceeds the bytes left.\<close>

lemma skipToTag_loop_mono:
  assumes sf: "\<And>ty. steady (sf ty)"
  shows "rem_bytes s < k \<Longrightarrow> rem_bytes s < k' \<Longrightarrow> skipToTag_loop sf k tag s = skipToTag_loop sf k' tag s"
proof (induction k arbitrary: s k')
  case (Suc k)
  then obtain j where j: "k' = Suc j" by (cases k') auto
  have "skipToTag_loop sf k tag s2 = skipToTag_loop sf j tag s2"
    if "TarsPeekFromHead s = (Inr (ty, t, n), s)" "sf ty (adv n s) = (r, s2)" for ty t n r s2
  proof -
    have "rem_bytes (adv n s) < rem_bytes s"
      using peekFromHead_progress[OF that(1)] by (auto simp: rem_bytes_def)
    moreover have "rem_bytes s2 \<le> rem_bytes (adv n s)"
      using rem_bytes_steady[OF sf that(2)] .
    ultimately show ?thesis using Suc.prems j by (intro Suc.IH) auto
  qed
  moreover have "s' = s" if "hasEnd s = (Inr b, s')" for b s'
    using that by (auto simp: hasEnd_def split: if_splits)
  moreover have "s' = s" if "TarsPeekFromHead s = (Inr r, s')" for r s'
    using that peekFromHead_state by blast
  ultimately show ?case unfolding j
    by (auto simp: dbind_def headSkip_adv split: prod.splits sum.splits)
qed simp

text \<open>
  A reader that looks for a tag passes over any complete field with a lower tag, whatever its
  type: the search from the field's first byte and the search from behind it agree.
\<close>

lemma TarsSkipToTag_skip:
  assumes "is_field t bs" "at_bytes bs s" "t < tag"
  shows "TarsSkipToTag tag s = TarsSkipToTag tag (adv (length bs) s)"
proof -
  obtain ty payload where ty: "ty < 16" "ty \<noteq> TarsHeadeStructEnd"
    and bs: "bs = head_bytes ty t @ payload" and sk: "skippable ty payload"
    using assms(1) by (auto simp: is_field_def)
  let ?h = "length (head_bytes ty t)"
  have a: "at_bytes (head_bytes ty t) s" "at_bytes payload (adv ?h s)" using assms(2) bs by auto
  have l: "br_cur s + length bs \<le> length (br_buf s)" using at_bytes_length[OF assms(2)] .
  have "skipToTag_loop skipField (Suc (length (br_buf s))) tag s
      = skipToTag_loop skipField (length (br_buf s)) tag (adv (length bs) s)"
    using hasEnd_at[OF a(1)] peekFromHead_at[OF a(1) ty(1)] ty(2) assms(3) bs
      skipField_skippable[OF sk a(2)]
    by (auto simp: dbind_def headSkip_adv)
  also have "\<dots> = skipToTag_loop skipField (Suc (length (br_buf s))) tag (adv (length bs) s)"
    using l is_field_length[OF assms(1)]
    by (intro skipToTag_loop_mono wf_intros) (auto simp: rem_bytes_def)
  finally show ?thesis
    by (simp add: TarsSkipToTag_def TarsSkipToTag_with_def dcatch_def del: skipToTag_loop.simps)
qed

end
