(* ===== verification/Tars_Input.thy ===== *)
theory Tars_Input
  imports Tars_Skip "HOL-Library.List_Lexorder"
begin

text \<open>
  The \<^verbatim>\<open>read\<close> overloads of \<^verbatim>\<open>TarsInputStream\<close> (\<^verbatim>\<open>servant/tup/Tars.h\<close>), one definition each. A reader
  \<open>rd tag isRequire old\<close> is the call \<^verbatim>\<open>read(v, tag, isRequire)\<close> with \<open>v\<close> holding \<open>old\<close>; its result is
  what \<open>v\<close> holds afterwards. The element readers of the containers are arguments, as the template
  parameters are in the code, together with the value a default constructor gives.
\<close>

type_synonym 'a reader = "byte \<Rightarrow> bool \<Rightarrow> 'a \<Rightarrow> 'a dec"

text \<open>
  The frame all overloads share: search the tag; if it is found dispatch on the type of the head,
  otherwise fail if the field is required and leave the variable alone if it is not.
\<close>

definition on_field :: "byte \<Rightarrow> bool \<Rightarrow> 'a \<Rightarrow> (byte \<Rightarrow> 'a dec) \<Rightarrow> 'a dec" where
  "on_field tag isRequire old k =
     dbind (TarsSkipToTag tag) (\<lambda>r. case r of
       Some (headType, headTag) \<Rightarrow> k headType
     | None \<Rightarrow> if isRequire then dthrow TarsDecodeRequireNotExist else dret old)"

section \<open>Integers\<close>

definition read_Char :: "byte reader" where
  "read_Char tag isRequire c = on_field tag isRequire c (\<lambda>headType.
     if headType = TarsHeadeZeroTag then dret 0
     else if headType = TarsHeadeChar then TarsReadTypeBuf 1
     else dthrow TarsDecodeMismatch)"

definition read_Bool :: "bool reader" where
  "read_Bool tag isRequire b =
     dbind (read_Char tag isRequire (if b then 1 else 0)) (\<lambda>c. dret (c \<noteq> 0))"

definition read_Short :: "16 word reader" where
  "read_Short tag isRequire n = on_field tag isRequire n (\<lambda>headType.
     if headType = TarsHeadeZeroTag then dret 0
     else if headType = TarsHeadeChar then
       dbind (TarsReadTypeBuf 1) (\<lambda>c :: byte. dret (scast c))
     else if headType = TarsHeadeShort then
       dbind (TarsReadTypeBuf 2) (\<lambda>h. dret (ntohs h))
     else dthrow TarsDecodeMismatch)"

definition read_UInt8 :: "byte reader" where
  "read_UInt8 tag isRequire n =
     dbind (read_Short tag isRequire (ucast n)) (\<lambda>i. dret (ucast i))"

definition read_Int32 :: "32 word reader" where
  "read_Int32 tag isRequire n = on_field tag isRequire n (\<lambda>headType.
     if headType = TarsHeadeZeroTag then dret 0
     else if headType = TarsHeadeChar then
       dbind (TarsReadTypeBuf 1) (\<lambda>c :: byte. dret (scast c))
     else if headType = TarsHeadeShort then
       dbind (TarsReadTypeBuf 2) (\<lambda>h :: 16 word. dret (scast (ntohs h)))
     else if headType = TarsHeadeInt32 then
       dbind (TarsReadTypeBuf 4) (\<lambda>i. dret (ntohl i))
     else dthrow TarsDecodeMismatch)"

definition read_UInt16 :: "16 word reader" where
  "read_UInt16 tag isRequire n =
     dbind (read_Int32 tag isRequire (ucast n)) (\<lambda>i. dret (ucast i))"

text \<open>
  An enumeration is read through a local \<open>Int32 n = 0\<close>, so an absent optional field sets the
  variable to zero.
\<close>

definition read_enum :: "32 word reader" where
  "read_enum tag isRequire v = dbind (read_Int32 tag isRequire 0) (\<lambda>n. dret n)"

section \<open>Floating point\<close>

text \<open>
  Floats and doubles are their bit patterns. \<open>double_of_float\<close> is the value-preserving widening of
  an IEEE host; a NaN keeps its payload and becomes quiet. Subnormal floats are normalised.
\<close>

definition float_is_nan :: "32 word \<Rightarrow> bool" where
  "float_is_nan x \<longleftrightarrow> take_bit 8 (drop_bit 23 x) = 255 \<and> take_bit 23 x \<noteq> 0"

primrec normalise :: "nat \<Rightarrow> 64 word \<Rightarrow> 64 word \<Rightarrow> 64 word \<times> 64 word" where
  "normalise 0 e m = (e, m)"
| "normalise (Suc k) e m = (if bit m 23 then (e, m) else normalise k (e - 1) (push_bit 1 m))"

definition double_of_float :: "32 word \<Rightarrow> 64 word" where
  "double_of_float x =
     (let s = push_bit 63 (ucast (drop_bit 31 x) :: 64 word);
          e = ucast (take_bit 8 (drop_bit 23 x)) :: 64 word;
          m = ucast (take_bit 23 x) :: 64 word
      in if e = 255 then
           s OR push_bit 52 2047 OR push_bit 29 m OR (if m = 0 then 0 else push_bit 51 1)
         else if e \<noteq> 0 then s OR push_bit 52 (e + 896) OR push_bit 29 m
         else if m = 0 then s
         else (case normalise 23 897 m of (e', m') \<Rightarrow>
                 s OR push_bit 52 e' OR push_bit 29 (take_bit 23 m')))"

text \<open>A float that went through a double and back: a signalling NaN has become quiet.\<close>

definition through_double :: "32 word \<Rightarrow> 32 word" where
  "through_double x = (if float_is_nan x then x OR push_bit 22 1 else x)"

definition read_Float :: "32 word reader" where
  "read_Float tag isRequire n = on_field tag isRequire n (\<lambda>headType.
     if headType = TarsHeadeZeroTag then dret 0
     else if headType = TarsHeadeFloat then
       dbind (TarsReadTypeBuf 4) (\<lambda>x. dret (tars_ntohf x))
     else dthrow TarsDecodeMismatch)"

text \<open>
  On a float head the raw bytes, still in network order, are first stored in the double \<open>n\<close>, and
  \<open>tars_ntohf(n)\<close> converts them back to a float before it swaps them.
\<close>

definition read_Double :: "64 word reader" where
  "read_Double tag isRequire n = on_field tag isRequire n (\<lambda>headType.
     if headType = TarsHeadeZeroTag then dret 0
     else if headType = TarsHeadeFloat then
       dbind (TarsReadTypeBuf 4) (\<lambda>x. dret (double_of_float (tars_ntohf (through_double x))))
     else if headType = TarsHeadeDouble then
       dbind (TarsReadTypeBuf 8) (\<lambda>x. dret (tars_ntohd x))
     else dthrow TarsDecodeMismatch)"

section \<open>Strings and byte arrays\<close>

definition TARS_MAX_STRING_LENGTH :: nat where
  "TARS_MAX_STRING_LENGTH = 100 * 1024 * 1024"

definition read_string :: "byte list reader" where
  "read_string tag isRequire s = on_field tag isRequire s (\<lambda>headType.
     dbind (if headType = TarsHeadeString1 then
              dbind (TarsReadTypeBuf 1) (\<lambda>l :: byte. dret (unat l))
            else if headType = TarsHeadeString4 then
              dbind (TarsReadTypeBuf 4) (\<lambda>l :: 32 word.
                if unat (ntohl l) > TARS_MAX_STRING_LENGTH then dthrow TarsDecodeInvalidValue
                else dret (unat (ntohl l)))
            else dthrow TarsDecodeMismatch)
       TarsReadStringBuf)"

text \<open>The size of a container: a required \<^verbatim>\<open>UInt32\<close> with tag 0, at most the length of the buffer.\<close>

definition read_size :: "nat dec" where
  "read_size =
     dbind (read_UInt32 0 True 0) (\<lambda>size.
     dbind br_size (\<lambda>n.
       if unat size > n then dthrow TarsDecodeInvalidValue else dret (unat size)))"

text \<open>\<^verbatim>\<open>read(char *buf, bufLen, readLen, tag, isRequire)\<close>; \<open>buf\<close> is the memory behind the pointer.\<close>

definition read_charbuf :: "nat \<Rightarrow> byte \<Rightarrow> bool \<Rightarrow> byte list \<times> nat \<Rightarrow> (byte list \<times> nat) dec" where
  "read_charbuf bufLen tag isRequire = (\<lambda>(buf, readLen).
     on_field tag isRequire (buf, readLen) (\<lambda>headType.
       if headType = TarsHeadeSimpleList then
         dbind readFromHead (\<lambda>(hheadType, hheadTag).
           if hheadType \<noteq> TarsHeadeChar then dthrow TarsDecodeMismatch
           else
             dbind (read_UInt32 0 True 0) (\<lambda>size.
               if unat size > bufLen then dthrow TarsDecodeInvalidValue
               else dbind (readBuf (unat size)) (\<lambda>bs.
                      dret (bs @ drop (unat size) buf, unat size))))
       else dthrow TarsDecodeMismatch))"

section \<open>Vectors\<close>

text \<open>\<^verbatim>\<open>v.resize(n)\<close>, where \<open>d\<close> is the value-initialised element.\<close>

definition vec_resize :: "'a \<Rightarrow> nat \<Rightarrow> 'a list \<Rightarrow> 'a list" where
  "vec_resize d n v = take n v @ replicate (n - length v) d"

text \<open>\<^verbatim>\<open>for (i = 0; i < size; ++i) read(v[i], 0);\<close> over the resized vector.\<close>

primrec read_elems :: "'a reader \<Rightarrow> 'a list \<Rightarrow> 'a list dec" where
  "read_elems rd [] = dret []"
| "read_elems rd (x # xs) =
     dbind (rd 0 True x) (\<lambda>y. dbind (read_elems rd xs) (\<lambda>ys. dret (y # ys)))"

definition read_vector_Char :: "byte list reader" where
  "read_vector_Char tag isRequire v = on_field tag isRequire v (\<lambda>headType.
     if headType = TarsHeadeSimpleList then
       dbind readFromHead (\<lambda>(hheadType, hheadTag).
         if hheadType \<noteq> TarsHeadeChar then dthrow TarsDecodeMismatch
         else dbind read_size readBuf)
     else if headType = TarsHeadeList then
       dbind read_size (\<lambda>size. read_elems read_Char (vec_resize 0 size v))
     else dthrow TarsDecodeMismatch)"

definition read_vector :: "'a \<Rightarrow> 'a reader \<Rightarrow> 'a list reader" where
  "read_vector d rd tag isRequire v = on_field tag isRequire v (\<lambda>headType.
     if headType = TarsHeadeList then
       dbind read_size (\<lambda>size. read_elems rd (vec_resize d size v))
     else dthrow TarsDecodeMismatch)"

text \<open>\<^verbatim>\<open>readEx<CV>\<close>: the elements are read through the proxy \<^verbatim>\<open>CV tmp(v[i])\<close>, whose reader is \<open>rdCV\<close>.\<close>

definition readEx_vector :: "'a \<Rightarrow> 'a reader \<Rightarrow> 'a list reader" where
  "readEx_vector d rdCV tag isRequire v = on_field tag isRequire v (\<lambda>headType.
     if headType = TarsHeadeList then
       dbind read_size (\<lambda>size. read_elems rdCV (vec_resize d size v))
     else dthrow TarsDecodeMismatch)"

text \<open>
  \<^verbatim>\<open>read(T* v, len, readLen, tag, isRequire)\<close>. The size is compared with the stream's length and
  not with \<open>len\<close>; \<open>v\<close> is the array, and an element behind its end is written out of bounds.
\<close>

primrec read_into :: "'a reader \<Rightarrow> nat \<Rightarrow> nat \<Rightarrow> 'a list \<Rightarrow> 'a list dec" where
  "read_into rd 0 i v = dret v"
| "read_into rd (Suc k) i v =
     (if i < length v then dbind (rd 0 True (v ! i)) (\<lambda>x. read_into rd k (Suc i) (v[i := x]))
      else dthrow OutOfBounds)"

definition read_array :: "'a reader \<Rightarrow> nat \<Rightarrow> byte \<Rightarrow> bool \<Rightarrow> 'a list \<times> nat \<Rightarrow> ('a list \<times> nat) dec" where
  "read_array rd len tag isRequire = (\<lambda>(v, readLen).
     on_field tag isRequire (v, readLen) (\<lambda>headType.
       if headType = TarsHeadeList then
         dbind read_size (\<lambda>size. dbind (read_into rd size 0 v) (\<lambda>v'. dret (v', size)))
       else dthrow TarsDecodeMismatch))"

section \<open>Maps and sets\<close>

text \<open>
  A \<^verbatim>\<open>std::map\<close> is the list of its pairs in iteration order, that is strictly sorted by key;
  \<^verbatim>\<open>insert\<close> leaves an existing key alone. A \<^verbatim>\<open>std::set\<close> is the strictly sorted list of its elements.
  The unordered containers are a partial function and a set.
\<close>

fun map_insert :: "'k::linorder \<Rightarrow> 'v \<Rightarrow> ('k \<times> 'v) list \<Rightarrow> ('k \<times> 'v) list" where
  "map_insert k v [] = [(k, v)]"
| "map_insert k v ((k', v') # m) =
     (if k < k' then (k, v) # (k', v') # m
      else if k = k' then (k', v') # m
      else (k', v') # map_insert k v m)"

definition umap_insert :: "'k \<Rightarrow> 'v \<Rightarrow> ('k \<Rightarrow> 'v option) \<Rightarrow> 'k \<Rightarrow> 'v option" where
  "umap_insert k v m = (case m k of None \<Rightarrow> m(k \<mapsto> v) | Some _ \<Rightarrow> m)"

text \<open>\<^verbatim>\<open>for (i = 0; i < size; ++i) { pair<K,V> pr; read(pr.first, 0); read(pr.second, 1); m.insert(pr); }\<close>\<close>

primrec read_pairs ::
    "('k \<Rightarrow> 'v \<Rightarrow> 'm \<Rightarrow> 'm) \<Rightarrow> 'k \<Rightarrow> 'v \<Rightarrow> 'k reader \<Rightarrow> 'v reader \<Rightarrow> nat \<Rightarrow> 'm \<Rightarrow> 'm dec" where
  "read_pairs ins dk dv rdK rdV 0 m = dret m"
| "read_pairs ins dk dv rdK rdV (Suc n) m =
     dbind (rdK 0 True dk) (\<lambda>k.
     dbind (rdV 1 True dv) (\<lambda>v. read_pairs ins dk dv rdK rdV n (ins k v m)))"

definition read_map ::
    "'k::linorder \<Rightarrow> 'v \<Rightarrow> 'k reader \<Rightarrow> 'v reader \<Rightarrow> ('k \<times> 'v) list reader" where
  "read_map dk dv rdK rdV tag isRequire m = on_field tag isRequire m (\<lambda>headType.
     if headType = TarsHeadeMap then
       dbind read_size (\<lambda>size. read_pairs map_insert dk dv rdK rdV size [])
     else dthrow TarsDecodeMismatch)"

definition read_unordered_map ::
    "'k \<Rightarrow> 'v \<Rightarrow> 'k reader \<Rightarrow> 'v reader \<Rightarrow> ('k \<Rightarrow> 'v option) reader" where
  "read_unordered_map dk dv rdK rdV tag isRequire m = on_field tag isRequire m (\<lambda>headType.
     if headType = TarsHeadeMap then
       dbind read_size (\<lambda>size. read_pairs umap_insert dk dv rdK rdV size (\<lambda>_. None))
     else dthrow TarsDecodeMismatch)"

definition readEx_map ::
    "'k::linorder \<Rightarrow> 'v \<Rightarrow> 'k reader \<Rightarrow> 'v reader \<Rightarrow> ('k \<times> 'v) list reader" where
  "readEx_map dk dv rdK rdCV tag isRequire m = on_field tag isRequire m (\<lambda>headType.
     if headType = TarsHeadeMap then
       dbind read_size (\<lambda>size. read_pairs map_insert dk dv rdK rdCV size [])
     else dthrow TarsDecodeMismatch)"

definition readEx_unordered_map ::
    "'k \<Rightarrow> 'v \<Rightarrow> 'k reader \<Rightarrow> 'v reader \<Rightarrow> ('k \<Rightarrow> 'v option) reader" where
  "readEx_unordered_map dk dv rdK rdCV tag isRequire m = on_field tag isRequire m (\<lambda>headType.
     if headType = TarsHeadeMap then
       dbind read_size (\<lambda>size. read_pairs umap_insert dk dv rdK rdCV size (\<lambda>_. None))
     else dthrow TarsDecodeMismatch)"

fun set_insert :: "'a::linorder \<Rightarrow> 'a list \<Rightarrow> 'a list" where
  "set_insert x [] = [x]"
| "set_insert x (y # ys) =
     (if x < y then x # y # ys else if x = y then y # ys else y # set_insert x ys)"

text \<open>The set loops insert into the set the caller passed; nothing clears it.\<close>

primrec read_members :: "('a \<Rightarrow> 's \<Rightarrow> 's) \<Rightarrow> 'a \<Rightarrow> 'a reader \<Rightarrow> nat \<Rightarrow> 's \<Rightarrow> 's dec" where
  "read_members ins d rd 0 v = dret v"
| "read_members ins d rd (Suc n) v =
     dbind (rd 0 True d) (\<lambda>t. read_members ins d rd n (ins t v))"

definition read_set :: "'a::linorder \<Rightarrow> 'a reader \<Rightarrow> 'a list reader" where
  "read_set d rd tag isRequire v = on_field tag isRequire v (\<lambda>headType.
     if headType = TarsHeadeList then
       dbind read_size (\<lambda>size. read_members set_insert d rd size v)
     else dthrow TarsDecodeMismatch)"

definition read_unordered_set :: "'a \<Rightarrow> 'a reader \<Rightarrow> 'a set reader" where
  "read_unordered_set d rd tag isRequire v = on_field tag isRequire v (\<lambda>headType.
     if headType = TarsHeadeList then
       dbind read_size (\<lambda>size. read_members insert d rd size v)
     else dthrow TarsDecodeMismatch)"

definition readEx_set :: "'a::linorder \<Rightarrow> 'a reader \<Rightarrow> 'a list reader" where
  "readEx_set d rdCV tag isRequire v = on_field tag isRequire v (\<lambda>headType.
     if headType = TarsHeadeList then
       dbind read_size (\<lambda>size. read_members set_insert d rdCV size v)
     else dthrow TarsDecodeMismatch)"

definition readEx_unordered_set :: "'a \<Rightarrow> 'a reader \<Rightarrow> 'a set reader" where
  "readEx_unordered_set d rdCV tag isRequire v = on_field tag isRequire v (\<lambda>headType.
     if headType = TarsHeadeList then
       dbind read_size (\<lambda>size. read_members insert d rdCV size v)
     else dthrow TarsDecodeMismatch)"

section \<open>Structures\<close>

definition read_struct :: "('a \<Rightarrow> 'a dec) \<Rightarrow> 'a reader" where
  "read_struct readFrom tag isRequire v = on_field tag isRequire v (\<lambda>headType.
     if headType \<noteq> TarsHeadeStructBegin then dthrow TarsDecodeMismatch
     else dbind (readFrom v) (\<lambda>v'. dbind skipToStructEnd (\<lambda>_. dret v')))"

section \<open>What the readers keep on arbitrary bytes\<close>

text \<open>
  \<open>tame m\<close>: on every input \<open>m\<close> returns a value or throws a decode exception, leaves the buffer
  alone, never moves the cursor back, and keeps it within \<open>2 ^ 32\<close> bytes of the buffer's end.
\<close>

definition tame :: "'a dec \<Rightarrow> bool" where
  "tame m \<longleftrightarrow> robust m \<and> steady m \<and> bounded m"

lemma tame_dbind [wf_intros]: "tame m \<Longrightarrow> (\<And>x. tame (f x)) \<Longrightarrow> tame (dbind m f)"
  by (auto simp: tame_def intro!: robust_dbind steady_dbind bounded_dbind)

lemma tame_prims [wf_intros]:
  "tame (dret x)" "tame (dthrow TarsDecodeMismatch)" "tame (dthrow TarsDecodeRequireNotExist)"
  "tame (dthrow TarsDecodeInvalidValue)" "tame br_size" "tame (TarsReadTypeBuf n :: 'a::len word dec)"
  "tame readFromHead" "tame (TarsSkipToTag tag)" "tame (read_Int64 tag req l)"
  "tame (read_UInt32 tag req u)" "tame skipToStructEnd"
  by (simp_all add: tame_def wf_intros)

lemma tame_bufs [wf_intros]: "tame (readBuf n)" "tame (TarsReadStringBuf n)"
  by (auto simp: tame_def robust_def bounded_def overshoot_def readBuf_def TarsReadStringBuf_def
      peekBuf_def steady_def)

lemma tame_if [wf_intros]: "tame m \<Longrightarrow> tame m' \<Longrightarrow> tame (if b then m else m')"
  by simp

lemma tame_option [wf_intros]:
  "tame m \<Longrightarrow> (\<And>x. tame (f x)) \<Longrightarrow> tame (case r of None \<Rightarrow> m | Some x \<Rightarrow> f x)"
  by (cases r) simp_all

lemma tame_prod [wf_intros]: "(\<And>x y. tame (f x y)) \<Longrightarrow> tame (case p of (x, y) \<Rightarrow> f x y)"
  by (cases p) simp

lemma tame_on_field [wf_intros]: "(\<And>ty. tame (k ty)) \<Longrightarrow> tame (on_field tag req old k)"
  unfolding on_field_def by (intro wf_intros)

lemma tame_integers [wf_intros]:
  "tame (read_Char tag req c)" "tame (read_Bool tag req b)" "tame (read_Short tag req h)"
  "tame (read_UInt8 tag req c)" "tame (read_Int32 tag req i)" "tame (read_UInt16 tag req h)"
  "tame (read_enum tag req i)" "tame (read_Float tag req i)" "tame (read_Double tag req l)"
  unfolding read_Char_def read_Bool_def read_Short_def read_UInt8_def read_Int32_def
    read_UInt16_def read_enum_def read_Float_def read_Double_def
  by (intro wf_intros)+

lemma tame_strings [wf_intros]:
  "tame (read_string tag req v)" "tame read_size" "tame (read_charbuf n tag req p)"
  unfolding read_string_def read_size_def read_charbuf_def
  by (intro wf_intros)+

lemma tame_read_elems [wf_intros]: "(\<And>x. tame (rd 0 True x)) \<Longrightarrow> tame (read_elems rd xs)"
  by (induction xs) (auto intro!: wf_intros)

lemma tame_read_pairs [wf_intros]:
  "tame (rdK 0 True dk) \<Longrightarrow> tame (rdV 1 True dv) \<Longrightarrow> tame (read_pairs ins dk dv rdK rdV n m)"
  by (induction n arbitrary: m) (auto intro!: wf_intros)

lemma tame_read_members [wf_intros]: "tame (rd 0 True d) \<Longrightarrow> tame (read_members ins d rd n v)"
  by (induction n arbitrary: v) (auto intro!: wf_intros)

lemma tame_vectors [wf_intros]:
  "tame (read_vector_Char tag req cs)"
  "(\<And>x. tame (rd 0 True x)) \<Longrightarrow> tame (read_vector d rd tag req v)"
  "(\<And>x. tame (rd 0 True x)) \<Longrightarrow> tame (readEx_vector d rd tag req v)"
  unfolding read_vector_Char_def read_vector_def readEx_vector_def
  by (intro wf_intros | assumption)+

lemma tame_maps [wf_intros]:
  "(\<And>x. tame (rdK 0 True x)) \<Longrightarrow> (\<And>x. tame (rdV 1 True x)) \<Longrightarrow> tame (read_map dk dv rdK rdV tag req m)"
  "(\<And>x. tame (rdK' 0 True x)) \<Longrightarrow> (\<And>x. tame (rdV 1 True x)) \<Longrightarrow>
     tame (read_unordered_map dk' dv rdK' rdV tag req m')"
  unfolding read_map_def read_unordered_map_def
  by (intro wf_intros | assumption)+

lemma tame_sets [wf_intros]:
  "(\<And>x. tame (rd 0 True x)) \<Longrightarrow> tame (read_set d rd tag req v)"
  "(\<And>x. tame (rd' 0 True x)) \<Longrightarrow> tame (read_unordered_set d' rd' tag req v')"
  unfolding read_set_def read_unordered_set_def
  by (intro wf_intros | assumption)+

lemma tame_struct [wf_intros]: "(\<And>v. tame (readFrom v)) \<Longrightarrow> tame (read_struct readFrom tag req v)"
  unfolding read_struct_def by (intro wf_intros | assumption)+

end
