(* ===== verification/Buffer_Writer.thy ===== *)
theory Buffer_Writer
  imports Tars_Prelude
begin

text \<open>
  The output buffers of \<^verbatim>\<open>servant/tup/Tars.h\<close>: the macro \<^verbatim>\<open>TarsReserveBuf\<close>, the raw \<^verbatim>\<open>BufferWriter\<close>
  (an array it allocates itself) and \<^verbatim>\<open>BufferWriterVector\<close> and \<^verbatim>\<open>BufferWriterString\<close> (storage owned by a
  standard container, which can be swapped out). The interface the encoder relies on is the locale
  \<open>writer\<close>: a write appends its bytes to the contents.

  \<open>os_buf\<close> is the memory behind \<open>_buf\<close>. Lengths are natural numbers; the code's \<open>size_t\<close> doubling
  \<open>len << 1\<close> wraps only for buffers of \<open>2 ^ 63\<close> bytes, which cannot be allocated.
\<close>

section \<open>The writers\<close>

record writer_state =
  os_buf :: "byte list"
  os_len :: nat
  os_buf_len :: nat

text \<open>The owning writers also have the size of their standard container.\<close>

record owned_state = writer_state +
  os_size :: nat

text \<open>A store of the bytes \<open>bs\<close> at offset \<open>i\<close>.\<close>

definition store_at :: "nat \<Rightarrow> byte list \<Rightarrow> byte list \<Rightarrow> byte list" where
  "store_at i bs mem = take i mem @ bs @ drop (i + length bs) mem"

text \<open>\<open>res\<close> is the function object \<open>_reserve\<close>.\<close>

definition TarsReserveBuf ::
    "(nat \<Rightarrow> 'a writer_state_scheme \<Rightarrow> 'a writer_state_scheme) \<Rightarrow> nat \<Rightarrow>
     'a writer_state_scheme \<Rightarrow> 'a writer_state_scheme" where
  "TarsReserveBuf res len os =
     (if os_buf_len os < len then
        let len1 = 2 * len;
            len1 = (if len1 < 128 then 128 else len1)
        in (res len1 os)\<lparr>os_buf_len := len1\<rparr>
      else os)"

text \<open>
  \<^verbatim>\<open>writeBuf\<close> and the macro \<^verbatim>\<open>TarsWriteTypeBuf\<close>. The macros \<^verbatim>\<open>TarsWriteCharTypeBuf\<close> and its siblings do
  the same with the little-endian image of an integer.
\<close>

definition writeBuf ::
    "(nat \<Rightarrow> 'a writer_state_scheme \<Rightarrow> 'a writer_state_scheme) \<Rightarrow> byte list \<Rightarrow>
     'a writer_state_scheme \<Rightarrow> 'a writer_state_scheme" where
  "writeBuf res bs os =
     (let os1 = TarsReserveBuf res (os_len os + length bs) os
      in os1\<lparr>os_buf := store_at (os_len os1) bs (os_buf os1), os_len := os_len os1 + length bs\<rparr>)"

definition os_reset :: "'a writer_state_scheme \<Rightarrow> 'a writer_state_scheme" where
  "os_reset os = os\<lparr>os_len := 0\<rparr>"

subsection \<open>\<^verbatim>\<open>BufferWriter\<close>\<close>

definition BufferWriter_new :: writer_state where
  "BufferWriter_new = \<lparr>os_buf = [], os_len = 0, os_buf_len = 0\<rparr>"

text \<open>\<open>fresh\<close> is what the cells of a new array hold.\<close>

definition BufferWriter_reserve :: "(nat \<Rightarrow> byte) \<Rightarrow> nat \<Rightarrow> writer_state \<Rightarrow> writer_state" where
  "BufferWriter_reserve fresh len os =
     os\<lparr>os_buf := store_at 0 (take (os_len os) (os_buf os)) (map fresh [0..<len])\<rparr>"

definition BufferWriter_getByteBuffer :: "'a writer_state_scheme \<Rightarrow> byte list" where
  "BufferWriter_getByteBuffer os = take (os_len os) (os_buf os)"

subsection \<open>\<^verbatim>\<open>BufferWriterVector\<close> and \<^verbatim>\<open>BufferWriterString\<close>\<close>

definition BufferWriterVector_new :: owned_state where
  "BufferWriterVector_new = \<lparr>os_buf = [], os_len = 0, os_buf_len = 0, os_size = 0\<rparr>"

text \<open>
  \<^verbatim>\<open>_buffer.resize(n)\<close>: cells from the old size up to \<open>n\<close> become zero, also where the old storage
  is large enough; only the first \<open>os_size\<close> cells survive a reallocation.
\<close>

definition buffer_resize :: "nat \<Rightarrow> owned_state \<Rightarrow> owned_state" where
  "buffer_resize n os =
     os\<lparr>os_buf := (if n \<le> os_size os then os_buf os
                    else take (os_size os) (os_buf os) @ replicate (n - os_size os) 0 @ drop n (os_buf os)),
        os_size := n\<rparr>"

definition BufferWriterVector_getByteBuffer :: "owned_state \<Rightarrow> byte list \<times> owned_state" where
  "BufferWriterVector_getByteBuffer os =
     (let os1 = buffer_resize (os_len os) os in (take (os_size os1) (os_buf os1), os1))"

text \<open>\<^verbatim>\<open>swap(std::vector<char>\& v)\<close>: the contents go to \<open>v\<close>, the storage of \<open>v\<close> comes back.\<close>

definition BufferWriterVector_swap :: "byte list \<Rightarrow> owned_state \<Rightarrow> byte list \<times> owned_state" where
  "BufferWriterVector_swap v os =
     (let os1 = buffer_resize (os_len os) os
      in (take (os_size os1) (os_buf os1),
          os1\<lparr>os_buf := v, os_size := length v, os_buf_len := 0, os_len := 0\<rparr>))"

text \<open>\<^verbatim>\<open>swap(std::string\& v)\<close>: a copy goes to \<open>v\<close>.\<close>

definition BufferWriterVector_swap_string :: "owned_state \<Rightarrow> byte list \<times> owned_state" where
  "BufferWriterVector_swap_string os =
     (let os1 = buffer_resize (os_len os) os
      in (take (os_size os1) (os_buf os1), os1\<lparr>os_buf_len := 0, os_len := 0\<rparr>))"

section \<open>The interface of a writer\<close>

locale writer =
  fixes put :: "byte list \<Rightarrow> 'w \<Rightarrow> 'w"
    and contents :: "'w \<Rightarrow> byte list"
    and inv :: "'w \<Rightarrow> bool"
  assumes put_inv: "inv w \<Longrightarrow> inv (put bs w)"
    and put_contents: "inv w \<Longrightarrow> contents (put bs w) = contents w @ bs"
begin

lemma puts_contents:
  assumes "inv w"
  shows "inv (fold put bss w)" "contents (fold put bss w) = contents w @ concat bss"
  using assms by (induction bss arbitrary: w) (simp_all add: put_inv put_contents)

end

section \<open>The writers implement it\<close>

lemma store_at_in:
  assumes "i + length bs \<le> length mem"
  shows "length (store_at i bs mem) = length mem"
    "take (i + length bs) (store_at i bs mem) = take i mem @ bs"
  using assms by (simp_all add: store_at_def)

definition raw_inv :: "writer_state \<Rightarrow> bool" where
  "raw_inv os \<longleftrightarrow> os_len os \<le> os_buf_len os \<and> os_buf_len os = length (os_buf os)"

lemma TarsReserveBuf_enough: "len \<le> os_buf_len (TarsReserveBuf res len os)"
  by (simp add: TarsReserveBuf_def Let_def)

lemma raw_reserve:
  assumes "raw_inv os" "os_len os \<le> len"
  shows "raw_inv (TarsReserveBuf (BufferWriter_reserve fresh) len os)"
    "os_len (TarsReserveBuf (BufferWriter_reserve fresh) len os) = os_len os"
    "take (os_len os) (os_buf (TarsReserveBuf (BufferWriter_reserve fresh) len os))
       = take (os_len os) (os_buf os)"
  using assms
  by (auto simp: TarsReserveBuf_def Let_def BufferWriter_reserve_def raw_inv_def store_at_def)

interpretation raw: writer "writeBuf (BufferWriter_reserve fresh)" BufferWriter_getByteBuffer raw_inv
  for fresh
proof
  fix w :: writer_state and bs :: "byte list" assume i: "raw_inv w"
  let ?w = "TarsReserveBuf (BufferWriter_reserve fresh) (os_len w + length bs) w"
  note r = raw_reserve[OF i le_add1, of fresh "length bs"]
  have l: "os_len ?w + length bs \<le> length (os_buf ?w)"
    using r(1,2) TarsReserveBuf_enough[of "os_len w + length bs" "BufferWriter_reserve fresh" w]
    by (simp add: raw_inv_def)
  show "raw_inv (writeBuf (BufferWriter_reserve fresh) bs w)"
    using l r(1) by (simp add: writeBuf_def Let_def raw_inv_def store_at_in)
  show "BufferWriter_getByteBuffer (writeBuf (BufferWriter_reserve fresh) bs w)
      = BufferWriter_getByteBuffer w @ bs"
    using l r(2,3) by (simp add: writeBuf_def Let_def BufferWriter_getByteBuffer_def store_at_in)
qed

definition owned_inv :: "owned_state \<Rightarrow> bool" where
  "owned_inv os \<longleftrightarrow>
     os_len os \<le> os_buf_len os \<and> os_buf_len os \<le> os_size os \<and> os_size os \<le> length (os_buf os)"

lemma owned_reserve:
  assumes "owned_inv os" "os_len os \<le> len"
  shows "owned_inv (TarsReserveBuf buffer_resize len os)"
    "os_len (TarsReserveBuf buffer_resize len os) = os_len os"
    "take (os_len os) (os_buf (TarsReserveBuf buffer_resize len os)) = take (os_len os) (os_buf os)"
  using assms
  by (auto simp: TarsReserveBuf_def Let_def buffer_resize_def owned_inv_def min_def)

interpretation owned: writer "writeBuf buffer_resize" BufferWriter_getByteBuffer owned_inv
proof
  fix w :: owned_state and bs :: "byte list" assume i: "owned_inv w"
  let ?w = "TarsReserveBuf buffer_resize (os_len w + length bs) w"
  note r = owned_reserve[OF i le_add1, of "length bs"]
  have l: "os_len ?w + length bs \<le> length (os_buf ?w)" "os_len ?w + length bs \<le> os_buf_len ?w"
    using r(1,2) TarsReserveBuf_enough[of "os_len w + length bs" buffer_resize w]
    by (simp_all add: owned_inv_def)
  show "owned_inv (writeBuf buffer_resize bs w)"
    using l r(1) by (simp add: writeBuf_def Let_def owned_inv_def store_at_in)
  show "BufferWriter_getByteBuffer (writeBuf buffer_resize bs w) = BufferWriter_getByteBuffer w @ bs"
    using l r(2,3) by (simp add: writeBuf_def Let_def BufferWriter_getByteBuffer_def store_at_in)
qed

lemma owned_inv_init [simp]: "owned_inv BufferWriterVector_new" "raw_inv BufferWriter_new"
  by (simp_all add: owned_inv_def BufferWriterVector_new_def raw_inv_def BufferWriter_new_def)

lemma getByteBuffer_init [simp]:
  "BufferWriter_getByteBuffer BufferWriterVector_new = []"
  "BufferWriter_getByteBuffer BufferWriter_new = []"
  by (simp_all add: BufferWriter_getByteBuffer_def BufferWriterVector_new_def BufferWriter_new_def)

lemma owned_swap:
  assumes "owned_inv os"
  shows "fst (BufferWriterVector_swap v os) = BufferWriter_getByteBuffer os"
    "owned_inv (snd (BufferWriterVector_swap v os))"
    "BufferWriter_getByteBuffer (snd (BufferWriterVector_swap v os)) = []"
    "fst (BufferWriterVector_swap_string os) = BufferWriter_getByteBuffer os"
    "fst (BufferWriterVector_getByteBuffer os) = BufferWriter_getByteBuffer os"
  using assms
  by (simp_all add: BufferWriterVector_swap_def BufferWriterVector_swap_string_def
      BufferWriterVector_getByteBuffer_def BufferWriter_getByteBuffer_def
      Let_def buffer_resize_def owned_inv_def)

section \<open>What the writers promise\<close>

text \<open>
  However the writes are cut into pieces and whatever reallocations they cause, a fresh
  \<^verbatim>\<open>BufferWriterVector\<close> hands out exactly the bytes that were written, in order, and the raw
  \<^verbatim>\<open>BufferWriter\<close> does so for every content of the uninitialised memory it allocates.
\<close>

theorem writers_append:
  "fst (BufferWriterVector_getByteBuffer (fold (writeBuf buffer_resize) bss BufferWriterVector_new)) = concat bss
   \<and> BufferWriter_getByteBuffer (fold (writeBuf (BufferWriter_reserve fresh)) bss BufferWriter_new) = concat bss"
  using owned.puts_contents[of BufferWriterVector_new bss] raw.puts_contents[of BufferWriter_new fresh bss]
  by (simp add: owned_swap)

text \<open>
  \<^verbatim>\<open>getByteBuffer()\<close> shrinks the container and leaves \<open>_buf_len\<close> at the old capacity. Bytes that
  are written afterwards and still fit this capacity are lost: the next \<^verbatim>\<open>getByteBuffer()\<close> returns
  zeros in their place.
\<close>

theorem getByteBuffer_loses_later_writes:
  assumes "owned_inv os" "os_len os + length bs \<le> os_buf_len os"
  shows "fst (BufferWriterVector_getByteBuffer
           (writeBuf buffer_resize bs (snd (BufferWriterVector_getByteBuffer os))))
         = BufferWriter_getByteBuffer os @ replicate (length bs) 0"
  using assms
  by (auto simp: BufferWriterVector_getByteBuffer_def buffer_resize_def writeBuf_def TarsReserveBuf_def
      Let_def owned_inv_def store_at_def BufferWriter_getByteBuffer_def)

theorem getByteBuffer_loses_later_writes_witness:
  "fst (BufferWriterVector_getByteBuffer (writeBuf buffer_resize [7]
      (snd (BufferWriterVector_getByteBuffer (writeBuf buffer_resize [5] BufferWriterVector_new))))) = [5, 0]"
proof -
  let ?os = "writeBuf buffer_resize [5] BufferWriterVector_new"
  have i: "owned_inv ?os" by (rule owned.put_inv) simp
  have c: "BufferWriter_getByteBuffer ?os = [5]"
    using owned.put_contents[of BufferWriterVector_new "[5]"] by simp
  have l: "os_len ?os + length [7 :: byte] \<le> os_buf_len ?os"
    by (simp add: writeBuf_def TarsReserveBuf_def Let_def BufferWriterVector_new_def buffer_resize_def)
  show ?thesis using getByteBuffer_loses_later_writes[OF i l] c by simp
qed

end
