(* ===== verification/Tars_Output.thy ===== *)
theory Tars_Output
  imports Tars_Input Buffer_Writer
begin

text \<open>
  The \<^verbatim>\<open>write\<close> overloads of \<^verbatim>\<open>TarsOutputStream\<close> (\<^verbatim>\<open>servant/tup/Tars.h\<close>), one definition each. The writer
  class, a template parameter in the code, is the argument \<open>put\<close>: it appends bytes to a writer of
  type \<open>'w\<close>. The element writers of the containers are arguments as well. The second half states the
  wire format on its own (\<open>enc_\<dots>\<close>) and proves that every overload appends exactly that.
\<close>

type_synonym 'w out = "'w \<Rightarrow> (tars_exn + unit) \<times> 'w"

definition emit :: "(byte list \<Rightarrow> 'w \<Rightarrow> 'w) \<Rightarrow> byte list \<Rightarrow> 'w out" where
  "emit put bs w = (Inr (), put bs w)"

definition othrow :: "tars_exn \<Rightarrow> 'w out" where
  "othrow e w = (Inl e, w)"

definition oseq :: "'w out \<Rightarrow> 'w out \<Rightarrow> 'w out" where
  "oseq m m' w = (case m w of (Inl e, w') \<Rightarrow> (Inl e, w') | (Inr _, w') \<Rightarrow> m' w')"

text \<open>\<^verbatim>\<open>for (i = v.begin(); i != v.end(); ++i) wr(*i);\<close>\<close>

primrec for_each :: "('a \<Rightarrow> 'w out) \<Rightarrow> 'a list \<Rightarrow> 'w out" where
  "for_each wr [] = (\<lambda>w. (Inr (), w))"
| "for_each wr (x # xs) = oseq (wr x) (for_each wr xs)"

section \<open>The overloads\<close>

definition TarsWriteToHead :: "(byte list \<Rightarrow> 'w \<Rightarrow> 'w) \<Rightarrow> byte \<Rightarrow> byte \<Rightarrow> 'w out" where
  "TarsWriteToHead put ty tag =
     (if tag < 15 then emit put [ty + push_bit 4 tag]
      else oseq (emit put [ty + 240]) (emit put [tag]))"

text \<open>\<^verbatim>\<open>DataHead::writeTo\<close> fills the bit fields of \<open>helper\<close>.\<close>

definition DataHead_writeTo :: "(byte list \<Rightarrow> 'w \<Rightarrow> 'w) \<Rightarrow> byte \<Rightarrow> byte \<Rightarrow> 'w out" where
  "DataHead_writeTo put ty tag =
     (if tag < 15 then emit put [take_bit 4 ty OR push_bit 4 (take_bit 4 tag)]
      else oseq (emit put [take_bit 4 ty OR push_bit 4 15]) (emit put [tag]))"

text \<open>The conversion of a signed integer compares its value; \<open>sint\<close> reads the two's complement.\<close>

definition write_Char :: "(byte list \<Rightarrow> 'w \<Rightarrow> 'w) \<Rightarrow> byte \<Rightarrow> byte \<Rightarrow> 'w out" where
  "write_Char put n tag =
     (if n = 0 then TarsWriteToHead put TarsHeadeZeroTag tag
      else oseq (TarsWriteToHead put TarsHeadeChar tag) (emit put (le_bytes 1 n)))"

definition write_Bool :: "(byte list \<Rightarrow> 'w \<Rightarrow> 'w) \<Rightarrow> bool \<Rightarrow> byte \<Rightarrow> 'w out" where
  "write_Bool put b tag = write_Char put (if b then 1 else 0) tag"

definition write_Short :: "(byte list \<Rightarrow> 'w \<Rightarrow> 'w) \<Rightarrow> 16 word \<Rightarrow> byte \<Rightarrow> 'w out" where
  "write_Short put n tag =
     (if - 128 \<le> sint n \<and> sint n \<le> 127 then write_Char put (ucast n) tag
      else oseq (TarsWriteToHead put TarsHeadeShort tag) (emit put (le_bytes 2 (htons n))))"

definition write_UInt8 :: "(byte list \<Rightarrow> 'w \<Rightarrow> 'w) \<Rightarrow> byte \<Rightarrow> byte \<Rightarrow> 'w out" where
  "write_UInt8 put n tag = write_Short put (ucast n) tag"

definition write_Int32 :: "(byte list \<Rightarrow> 'w \<Rightarrow> 'w) \<Rightarrow> 32 word \<Rightarrow> byte \<Rightarrow> 'w out" where
  "write_Int32 put n tag =
     (if - 32768 \<le> sint n \<and> sint n \<le> 32767 then write_Short put (ucast n) tag
      else oseq (TarsWriteToHead put TarsHeadeInt32 tag) (emit put (le_bytes 4 (htonl n))))"

definition write_UInt16 :: "(byte list \<Rightarrow> 'w \<Rightarrow> 'w) \<Rightarrow> 16 word \<Rightarrow> byte \<Rightarrow> 'w out" where
  "write_UInt16 put n tag = write_Int32 put (ucast n) tag"

definition write_Int64 :: "(byte list \<Rightarrow> 'w \<Rightarrow> 'w) \<Rightarrow> 64 word \<Rightarrow> byte \<Rightarrow> 'w out" where
  "write_Int64 put n tag =
     (if - 2147483647 - 1 \<le> sint n \<and> sint n \<le> 2147483647 then write_Int32 put (ucast n) tag
      else oseq (TarsWriteToHead put TarsHeadeInt64 tag) (emit put (le_bytes 8 (tars_htonll n))))"

definition write_UInt32 :: "(byte list \<Rightarrow> 'w \<Rightarrow> 'w) \<Rightarrow> 32 word \<Rightarrow> byte \<Rightarrow> 'w out" where
  "write_UInt32 put n tag = write_Int64 put (ucast n) tag"

definition write_Float :: "(byte list \<Rightarrow> 'w \<Rightarrow> 'w) \<Rightarrow> 32 word \<Rightarrow> byte \<Rightarrow> 'w out" where
  "write_Float put n tag =
     oseq (TarsWriteToHead put TarsHeadeFloat tag) (emit put (le_bytes 4 (tars_htonf n)))"

definition write_Double :: "(byte list \<Rightarrow> 'w \<Rightarrow> 'w) \<Rightarrow> 64 word \<Rightarrow> byte \<Rightarrow> 'w out" where
  "write_Double put n tag =
     oseq (TarsWriteToHead put TarsHeadeDouble tag) (emit put (le_bytes 8 (tars_htond n)))"

definition write_string :: "(byte list \<Rightarrow> 'w \<Rightarrow> 'w) \<Rightarrow> byte list \<Rightarrow> byte \<Rightarrow> 'w out" where
  "write_string put s tag =
     (if length s > 255 then
        if length s > TARS_MAX_STRING_LENGTH then othrow TarsDecodeInvalidValue
        else oseq (TarsWriteToHead put TarsHeadeString4 tag)
            (oseq (emit put (le_bytes 4 (htonl (of_nat (length s))))) (emit put s))
      else oseq (TarsWriteToHead put TarsHeadeString1 tag)
            (oseq (emit put (le_bytes 1 (of_nat (length s) :: byte))) (emit put s)))"

text \<open>\<^verbatim>\<open>write(const char *buf, UInt32 len, tag)\<close>; \<open>buf\<close> is the memory behind the pointer.\<close>

definition write_charbuf :: "(byte list \<Rightarrow> 'w \<Rightarrow> 'w) \<Rightarrow> byte list \<Rightarrow> 32 word \<Rightarrow> byte \<Rightarrow> 'w out" where
  "write_charbuf put buf len tag =
     oseq (TarsWriteToHead put TarsHeadeSimpleList tag)
    (oseq (TarsWriteToHead put TarsHeadeChar 0)
    (oseq (write_UInt32 put len 0)
          (if unat len \<le> length buf then emit put (take (unat len) buf) else othrow OutOfBounds)))"

definition write_map ::
    "(byte list \<Rightarrow> 'w \<Rightarrow> 'w) \<Rightarrow> ('k \<Rightarrow> byte \<Rightarrow> 'w out) \<Rightarrow> ('v \<Rightarrow> byte \<Rightarrow> 'w out) \<Rightarrow>
     ('k \<times> 'v) list \<Rightarrow> byte \<Rightarrow> 'w out" where
  "write_map put wrK wrV m tag =
     oseq (TarsWriteToHead put TarsHeadeMap tag)
    (oseq (write_Int32 put (of_nat (length m)) 0)
          (for_each (\<lambda>(k, v). oseq (wrK k 0) (wrV v 1)) m))"

text \<open>The pairs of an \<^verbatim>\<open>unordered_map\<close> are listed in iteration order; the debug print is left out.\<close>

definition write_unordered_map ::
    "(byte list \<Rightarrow> 'w \<Rightarrow> 'w) \<Rightarrow> ('k \<Rightarrow> byte \<Rightarrow> 'w out) \<Rightarrow> ('v \<Rightarrow> byte \<Rightarrow> 'w out) \<Rightarrow>
     ('k \<times> 'v) list \<Rightarrow> byte \<Rightarrow> 'w out" where
  "write_unordered_map put wrK wrV m tag =
     oseq (TarsWriteToHead put TarsHeadeMap tag)
    (oseq (write_Int32 put (of_nat (length m)) 0)
          (for_each (\<lambda>(k, v). oseq (wrK k 0) (wrV v 1)) m))"

definition writeEx_map ::
    "(byte list \<Rightarrow> 'w \<Rightarrow> 'w) \<Rightarrow> ('k \<Rightarrow> byte \<Rightarrow> 'w out) \<Rightarrow> ('v \<Rightarrow> byte \<Rightarrow> 'w out) \<Rightarrow>
     ('k \<times> 'v) list \<Rightarrow> byte \<Rightarrow> 'w out" where
  "writeEx_map put wrK wrCV m tag =
     oseq (TarsWriteToHead put TarsHeadeMap tag)
    (oseq (write_Int32 put (of_nat (length m)) 0)
          (for_each (\<lambda>(k, v). oseq (wrK k 0) (wrCV v 1)) m))"

definition write_vector ::
    "(byte list \<Rightarrow> 'w \<Rightarrow> 'w) \<Rightarrow> ('a \<Rightarrow> byte \<Rightarrow> 'w out) \<Rightarrow> 'a list \<Rightarrow> byte \<Rightarrow> 'w out" where
  "write_vector put wr v tag =
     oseq (TarsWriteToHead put TarsHeadeList tag)
    (oseq (write_Int32 put (of_nat (length v)) 0) (for_each (\<lambda>x. wr x 0) v))"

definition write_set ::
    "(byte list \<Rightarrow> 'w \<Rightarrow> 'w) \<Rightarrow> ('a \<Rightarrow> byte \<Rightarrow> 'w out) \<Rightarrow> 'a list \<Rightarrow> byte \<Rightarrow> 'w out" where
  "write_set put wr v tag =
     oseq (TarsWriteToHead put TarsHeadeList tag)
    (oseq (write_Int32 put (of_nat (length v)) 0) (for_each (\<lambda>x. wr x 0) v))"

text \<open>The members of an unordered set are listed in iteration order.\<close>

definition write_unordered_set ::
    "(byte list \<Rightarrow> 'w \<Rightarrow> 'w) \<Rightarrow> ('a \<Rightarrow> byte \<Rightarrow> 'w out) \<Rightarrow> 'a list \<Rightarrow> byte \<Rightarrow> 'w out" where
  "write_unordered_set put wr v tag =
     oseq (TarsWriteToHead put TarsHeadeList tag)
    (oseq (write_Int32 put (of_nat (length v)) 0) (for_each (\<lambda>x. wr x 0) v))"

definition writeEx_set ::
    "(byte list \<Rightarrow> 'w \<Rightarrow> 'w) \<Rightarrow> ('a \<Rightarrow> byte \<Rightarrow> 'w out) \<Rightarrow> 'a list \<Rightarrow> byte \<Rightarrow> 'w out" where
  "writeEx_set put wrCV v tag =
     oseq (TarsWriteToHead put TarsHeadeList tag)
    (oseq (write_Int32 put (of_nat (length v)) 0) (for_each (\<lambda>x. wrCV x 0) v))"

definition writeEx_unordered_set ::
    "(byte list \<Rightarrow> 'w \<Rightarrow> 'w) \<Rightarrow> ('a \<Rightarrow> byte \<Rightarrow> 'w out) \<Rightarrow> 'a list \<Rightarrow> byte \<Rightarrow> 'w out" where
  "writeEx_unordered_set put wrCV v tag =
     oseq (TarsWriteToHead put TarsHeadeList tag)
    (oseq (write_Int32 put (of_nat (length v)) 0) (for_each (\<lambda>x. wrCV x 0) v))"

definition writeEx_vector ::
    "(byte list \<Rightarrow> 'w \<Rightarrow> 'w) \<Rightarrow> ('a \<Rightarrow> byte \<Rightarrow> 'w out) \<Rightarrow> 'a list \<Rightarrow> byte \<Rightarrow> 'w out" where
  "writeEx_vector put wrCV v tag =
     oseq (TarsWriteToHead put TarsHeadeList tag)
    (oseq (write_Int32 put (of_nat (length v)) 0) (for_each (\<lambda>x. wrCV x 0) v))"

text \<open>
  \<^verbatim>\<open>write(const T *v, UInt32 len, tag)\<close>: the counter is an \<^verbatim>\<open>Int32\<close> compared with \<open>(Int32) len\<close>, so a
  length from \<open>2 ^ 31\<close> on writes no element.
\<close>

definition write_array ::
    "(byte list \<Rightarrow> 'w \<Rightarrow> 'w) \<Rightarrow> ('a \<Rightarrow> byte \<Rightarrow> 'w out) \<Rightarrow> 'a list \<Rightarrow> 32 word \<Rightarrow> byte \<Rightarrow> 'w out" where
  "write_array put wr v len tag =
     oseq (TarsWriteToHead put TarsHeadeList tag)
    (oseq (write_UInt32 put len 0)
          (oseq (for_each (\<lambda>x. wr x 0) (take (nat (sint len)) v))
                (if nat (sint len) \<le> length v then emit put [] else othrow OutOfBounds)))"

definition write_vector_Char :: "(byte list \<Rightarrow> 'w \<Rightarrow> 'w) \<Rightarrow> byte list \<Rightarrow> byte \<Rightarrow> 'w out" where
  "write_vector_Char put v tag =
     oseq (TarsWriteToHead put TarsHeadeSimpleList tag)
    (oseq (TarsWriteToHead put TarsHeadeChar 0)
    (oseq (write_Int32 put (of_nat (length v)) 0) (emit put v)))"

definition write_enum :: "(byte list \<Rightarrow> 'w \<Rightarrow> 'w) \<Rightarrow> 32 word \<Rightarrow> byte \<Rightarrow> 'w out" where
  "write_enum put v tag = write_Int32 put v tag"

definition write_struct ::
    "(byte list \<Rightarrow> 'w \<Rightarrow> 'w) \<Rightarrow> ('a \<Rightarrow> 'w out) \<Rightarrow> 'a \<Rightarrow> byte \<Rightarrow> 'w out" where
  "write_struct put writeTo v tag =
     oseq (TarsWriteToHead put TarsHeadeStructBegin tag)
    (oseq (writeTo v) (TarsWriteToHead put TarsHeadeStructEnd 0))"

definition writeUnknown :: "(byte list \<Rightarrow> 'w \<Rightarrow> 'w) \<Rightarrow> byte list \<Rightarrow> 'w out" where
  "writeUnknown put s = emit put s"

definition writeUnknownV2 :: "(byte list \<Rightarrow> 'w \<Rightarrow> 'w) \<Rightarrow> byte list \<Rightarrow> 'w out" where
  "writeUnknownV2 put s =
     oseq (DataHead_writeTo put TarsHeadeStructBegin 0)
    (oseq (emit put s) (DataHead_writeTo put TarsHeadeStructEnd 0))"

section \<open>The wire format\<close>

definition enc_Char :: "byte \<Rightarrow> byte \<Rightarrow> byte list" where
  "enc_Char n tag = (if n = 0 then head_bytes TarsHeadeZeroTag tag else head_bytes TarsHeadeChar tag @ [n])"

definition enc_Short :: "16 word \<Rightarrow> byte \<Rightarrow> byte list" where
  "enc_Short n tag =
     (if sint n \<in> {-128..127} then enc_Char (ucast n) tag
      else head_bytes TarsHeadeShort tag @ be_bytes 2 n)"

definition enc_Int32 :: "32 word \<Rightarrow> byte \<Rightarrow> byte list" where
  "enc_Int32 n tag =
     (if sint n \<in> {-32768..32767} then enc_Short (ucast n) tag
      else head_bytes TarsHeadeInt32 tag @ be_bytes 4 n)"

definition enc_Int64 :: "64 word \<Rightarrow> byte \<Rightarrow> byte list" where
  "enc_Int64 n tag =
     (if sint n \<in> {-2147483648..2147483647} then enc_Int32 (ucast n) tag
      else head_bytes TarsHeadeInt64 tag @ be_bytes 8 n)"

definition enc_string :: "byte list \<Rightarrow> byte \<Rightarrow> byte list" where
  "enc_string s tag =
     (if length s \<le> 255 then head_bytes TarsHeadeString1 tag @ of_nat (length s) # s
      else head_bytes TarsHeadeString4 tag @ be_bytes 4 (of_nat (length s) :: 32 word) @ s)"

definition enc_vector_Char :: "byte list \<Rightarrow> byte \<Rightarrow> byte list" where
  "enc_vector_Char v tag =
     head_bytes TarsHeadeSimpleList tag @ head_bytes TarsHeadeChar 0 @ enc_Int32 (of_nat (length v)) 0 @ v"

definition enc_vector :: "('a \<Rightarrow> byte \<Rightarrow> byte list) \<Rightarrow> 'a list \<Rightarrow> byte \<Rightarrow> byte list" where
  "enc_vector enc v tag =
     head_bytes TarsHeadeList tag @ enc_Int32 (of_nat (length v)) 0 @ concat (map (\<lambda>x. enc x 0) v)"

definition enc_map ::
    "('k \<Rightarrow> byte \<Rightarrow> byte list) \<Rightarrow> ('v \<Rightarrow> byte \<Rightarrow> byte list) \<Rightarrow> ('k \<times> 'v) list \<Rightarrow> byte \<Rightarrow> byte list" where
  "enc_map encK encV m tag =
     head_bytes TarsHeadeMap tag @ enc_Int32 (of_nat (length m)) 0 @
     concat (map (\<lambda>(k, v). encK k 0 @ encV v 1) m)"

definition enc_struct :: "('a \<Rightarrow> byte list) \<Rightarrow> 'a \<Rightarrow> byte \<Rightarrow> byte list" where
  "enc_struct body v tag =
     head_bytes TarsHeadeStructBegin tag @ body v @ head_bytes TarsHeadeStructEnd 0"

section \<open>The overloads append it\<close>

context writer
begin

text \<open>\<open>appends m bs\<close>: the output \<open>m\<close> succeeds and appends exactly \<open>bs\<close>.\<close>

definition appends :: "'w out \<Rightarrow> byte list \<Rightarrow> bool" where
  "appends m bs \<longleftrightarrow>
     (\<forall>w. inv w \<longrightarrow> (\<exists>w'. m w = (Inr (), w') \<and> inv w' \<and> contents w' = contents w @ bs))"

lemma appendsE:
  assumes "appends m bs" "inv w"
  obtains w' where "m w = (Inr (), w')" "inv w'" "contents w' = contents w @ bs"
  using assms unfolding appends_def by blast

lemma appends_emit: "appends (emit put bs) bs"
  by (simp add: appends_def emit_def put_inv put_contents)

lemma appends_oseq: "appends m bs \<Longrightarrow> appends m' bs' \<Longrightarrow> appends (oseq m m') (bs @ bs')"
  unfolding appends_def oseq_def by (fastforce split: prod.splits sum.splits)

lemma appends_for_each:
  "(\<And>x. x \<in> set v \<Longrightarrow> appends (wr x) (enc x)) \<Longrightarrow> appends (for_each wr v) (concat (map enc v))"
proof (induction v)
  case Nil
  then show ?case by (simp add: appends_def)
next
  case (Cons x v)
  then show ?case by (simp add: appends_oseq)
qed

lemma appends_head: "appends (TarsWriteToHead put ty tag) (head_bytes ty tag)"
  using appends_emit appends_oseq[OF appends_emit appends_emit, of "[ty + 240]" "[tag]"]
  by (simp add: TarsWriteToHead_def head_bytes_def)

lemma appends_Char: "appends (write_Char put n tag) (enc_Char n tag)"
  using appends_oseq[OF appends_head appends_emit, of _ tag "[n]"]
  by (simp add: write_Char_def enc_Char_def appends_head numeral_eq_Suc)

lemma appends_Short: "appends (write_Short put n tag) (enc_Short n tag)"
  using appends_oseq[OF appends_head appends_emit] appends_Char
  by (simp add: write_Short_def enc_Short_def store_htons)

lemma appends_Int32: "appends (write_Int32 put n tag) (enc_Int32 n tag)"
  using appends_oseq[OF appends_head appends_emit] appends_Short
  by (simp add: write_Int32_def enc_Int32_def store_htonl)

lemma appends_Int64: "appends (write_Int64 put n tag) (enc_Int64 n tag)"
  using appends_oseq[OF appends_head appends_emit] appends_Int32
  by (simp add: write_Int64_def enc_Int64_def store_tars_htonll)

lemma appends_string:
  "length s \<le> TARS_MAX_STRING_LENGTH \<Longrightarrow> appends (write_string put s tag) (enc_string s tag)"
  using appends_oseq[OF appends_head appends_oseq[OF appends_emit appends_emit], of TarsHeadeString1 tag "[of_nat (length s)]" s]
    appends_oseq[OF appends_head appends_oseq[OF appends_emit appends_emit], of TarsHeadeString4 tag "be_bytes 4 (of_nat (length s) :: 32 word)" s]
  by (auto simp: write_string_def enc_string_def store_htonl)

lemma appends_vector_Char: "appends (write_vector_Char put v tag) (enc_vector_Char v tag)"
  unfolding write_vector_Char_def enc_vector_Char_def
  by (intro appends_oseq appends_head appends_Int32 appends_emit)

lemma appends_vector:
  "(\<And>x. x \<in> set v \<Longrightarrow> appends (wr x 0) (enc x 0)) \<Longrightarrow>
     appends (write_vector put wr v tag) (enc_vector enc v tag)"
  unfolding write_vector_def enc_vector_def
  by (intro appends_oseq appends_head appends_Int32 appends_for_each)

lemma appends_map:
  "(\<And>k v. (k, v) \<in> set m \<Longrightarrow> appends (wrK k 0) (encK k 0)) \<Longrightarrow>
   (\<And>k v. (k, v) \<in> set m \<Longrightarrow> appends (wrV v 1) (encV v 1)) \<Longrightarrow>
     appends (write_map put wrK wrV m tag) (enc_map encK encV m tag)"
  unfolding write_map_def enc_map_def
  by (intro appends_oseq appends_head appends_Int32 appends_for_each)
    (auto intro: appends_oseq split: prod.splits)

lemma appends_struct:
  "appends (writeTo v) (body v) \<Longrightarrow> appends (write_struct put writeTo v tag) (enc_struct body v tag)"
  unfolding write_struct_def enc_struct_def
  by (intro appends_oseq appends_head)

lemmas appends_intros = appends_oseq appends_head appends_emit appends_Char appends_Short
  appends_Int32 appends_Int64 appends_string appends_vector_Char appends_vector appends_map
  appends_struct

end

end
