(* ===== verification/Tars_Codec.thy ===== *)
theory Tars_Codec
  imports Tars_Output
begin

text \<open>
  Reading back what was written. The contract of a field type is the locale \<open>tars_field\<close>: its
  encoding is one complete field, and its reader, standing on that encoding, returns the value and
  stops behind it. The laws of vectors, maps and structures are proved once inside the locales, from
  the laws of their elements; the interpretations discharge them for the overloads of the code.
\<close>

section \<open>Sign extension\<close>

lemma sint_ucast_narrow:
  fixes n :: "'a::len word"
  assumes "LENGTH('b::len) \<le> LENGTH('a)" "- (2 ^ (LENGTH('b) - 1)) \<le> sint n" "sint n < 2 ^ (LENGTH('b) - 1)"
  shows "sint (ucast n :: 'b word) = sint n"
proof -
  have "sint (ucast n :: 'b word) = signed_take_bit (LENGTH('b) - 1) (sint n)"
    using assms(1)
    by transfer (rule bit_eqI, auto simp: bit_simps min_def)
  also have "\<dots> = sint n"
    using assms(2,3) by (simp add: signed_take_bit_int_eq_self)
  finally show ?thesis .
qed

lemma scast_ucast_narrow:
  fixes n :: "'a::len word"
  assumes "LENGTH('b::len) \<le> LENGTH('a)" "- (2 ^ (LENGTH('b) - 1)) \<le> sint n" "sint n < 2 ^ (LENGTH('b) - 1)"
  shows "(scast (ucast n :: 'b word) :: 'c::len word) = scast n"
  by (simp only: scast_eq sint_ucast_narrow[OF assms])

lemma scast_small8: "sint (h :: 16 word) \<in> {-128..127} \<Longrightarrow> (scast (ucast h :: 8 word) :: 'c::len word) = scast h"
  using scast_ucast_narrow[where 'b = 8, of h] by (simp del: signed_ucast_eq)

lemma scast_small16: "sint (i :: 32 word) \<in> {-32768..32767} \<Longrightarrow> (scast (ucast i :: 16 word) :: 'c::len word) = scast i"
  using scast_ucast_narrow[where 'b = 16, of i] by (simp del: signed_ucast_eq)

lemma scast_small32: "sint (l :: 64 word) \<in> {-2147483648..2147483647} \<Longrightarrow> (scast (ucast l :: 32 word) :: 'c::len word) = scast l"
  using scast_ucast_narrow[where 'b = 32, of l] by (simp del: signed_ucast_eq)

lemmas scast_small = scast_small8 scast_small16 scast_small32

lemma ucast_scast_32_64 [simp]: "ucast (scast (w :: 32 word) :: 64 word) = w"
  by (rule bit_eqI) (auto simp: bit_simps)

section \<open>Readers on a field\<close>

lemma on_field_at [codec_simps]:
  assumes "at_bytes (head_bytes ty tag) s" "ty < 16" "ty \<noteq> TarsHeadeStructEnd"
  shows "on_field tag req old k s = k ty (adv (length (head_bytes ty tag)) s)"
  using TarsSkipToTag_found[OF assms] by (simp add: on_field_def dbind_def)

lemma read_Int64_with_at:
  assumes "at_bytes (head_bytes ty tag) s" "ty < 16" "ty \<noteq> TarsHeadeStructEnd"
  shows "read_Int64_with sf tag req n s =
    (if ty = TarsHeadeZeroTag then dret 0
     else if ty = TarsHeadeChar then dbind (TarsReadTypeBuf 1) (\<lambda>c :: byte. dret (scast c))
     else if ty = TarsHeadeShort then dbind (TarsReadTypeBuf 2) (\<lambda>h :: 16 word. dret (scast (ntohs h)))
     else if ty = TarsHeadeInt32 then dbind (TarsReadTypeBuf 4) (\<lambda>i :: 32 word. dret (scast (ntohl i)))
     else if ty = TarsHeadeInt64 then dbind (TarsReadTypeBuf 8) (\<lambda>l. dret (tars_ntohll l))
     else dthrow TarsDecodeMismatch) (adv (length (head_bytes ty tag)) s)"
  using TarsSkipToTag_with_found[OF assms, of sf] by (simp add: read_Int64_with_def dbind_def)

lemma load_be [codec_simps]:
  "at_bytes (be_bytes 2 (h :: 16 word)) s \<Longrightarrow> dbind (TarsReadTypeBuf 2) f s = f (htons h) (adv 2 s)"
  "at_bytes (be_bytes 4 (i :: 32 word)) s \<Longrightarrow> dbind (TarsReadTypeBuf 4) g s = g (htonl i) (adv 4 s)"
  "at_bytes (be_bytes 8 (l :: 64 word)) s \<Longrightarrow> dbind (TarsReadTypeBuf 8) k s = k (tars_htonll l) (adv 8 s)"
  "at_bytes [b] s \<Longrightarrow> dbind (TarsReadTypeBuf (Suc 0)) (m :: byte \<Rightarrow> _) s = m b (adv 1 s)"
  using read_at[where 'a = 16, of "be_bytes 2 h" s 2] read_at[where 'a = 32, of "be_bytes 4 i" s 4]
    read_at[where 'a = 64, of "be_bytes 8 l" s 8] read_at[where 'a = 8, of "[b]" s 1]
  by (simp_all add: dbind_def htons_def htonl_def tars_htonll_bswap be_bytes_def del: le_word.simps)

lemma read_Char_enc:
  "at_bytes (enc_Char c tag) s \<Longrightarrow> read_Char tag req old s = (Inr c, adv (length (enc_Char c tag)) s)"
  by (auto simp: enc_Char_def read_Char_def on_field_at dret_def read_at[where 'a = 8, of "[c]"]
      simp del: le_word.simps split: if_splits)

lemma read_Short_enc_Char:
  "at_bytes (enc_Char c tag) s \<Longrightarrow> read_Short tag req old s = (Inr (scast c), adv (length (enc_Char c tag)) s)"
  by (auto simp: enc_Char_def read_Short_def on_field_at dret_def load_be scast_small split: if_splits)

lemma read_Short_enc:
  "at_bytes (enc_Short n tag) s \<Longrightarrow> read_Short tag req old s = (Inr n, adv (length (enc_Short n tag)) s)"
proof (cases "sint n \<in> {-128..127}")
  case False
  then show "at_bytes (enc_Short n tag) s \<Longrightarrow> ?thesis"
    by (auto simp: enc_Short_def read_Short_def on_field_at dret_def load_be scast_small)
qed (auto simp: enc_Short_def read_Short_enc_Char scast_small)

lemma read_Int32_enc_Short:
  "at_bytes (enc_Short h tag) s \<Longrightarrow> read_Int32 tag req old s = (Inr (scast h), adv (length (enc_Short h tag)) s)"
proof (cases "sint h \<in> {-128..127}")
  case True
  then have z: "ucast h = (0 :: byte) \<Longrightarrow> h = 0"
    using scast_small8[OF True, where 'c = 16] by simp
  show "at_bytes (enc_Short h tag) s \<Longrightarrow> ?thesis"
    using True z by (auto simp: enc_Short_def enc_Char_def read_Int32_def on_field_at dret_def load_be scast_small split: if_splits)
next
  case False
  then show "at_bytes (enc_Short h tag) s \<Longrightarrow> ?thesis"
    by (auto simp: enc_Short_def read_Int32_def on_field_at dret_def load_be scast_small)
qed

lemma read_Int32_enc:
  "at_bytes (enc_Int32 n tag) s \<Longrightarrow> read_Int32 tag req old s = (Inr n, adv (length (enc_Int32 n tag)) s)"
proof (cases "sint n \<in> {-32768..32767}")
  case False
  then show "at_bytes (enc_Int32 n tag) s \<Longrightarrow> ?thesis"
    by (auto simp: enc_Int32_def read_Int32_def on_field_at dret_def load_be scast_small)
qed (auto simp: enc_Int32_def read_Int32_enc_Short scast_small)

lemma read_Int64_with_enc_Int32:
  assumes "at_bytes (enc_Int32 n tag) s"
  shows "read_Int64_with sf tag req old s = (Inr (scast n), adv (length (enc_Int32 n tag)) s)"
proof -
  have h: "read_Int64_with sf tag req old s = (Inr (scast h), adv (length (enc_Short h tag)) s)"
    if "at_bytes (enc_Short h tag) s" for h
  proof (cases "sint h \<in> {-128..127}")
    case True
    then have z: "ucast h = (0 :: byte) \<Longrightarrow> h = 0"
      using scast_small8[OF True, where 'c = 16] by simp
    show ?thesis
      using that True z by (auto simp: enc_Short_def enc_Char_def read_Int64_with_at dret_def load_be scast_small split: if_splits)
  next
    case False
    then show ?thesis using that by (auto simp: enc_Short_def read_Int64_with_at dret_def load_be scast_small)
  qed
  show ?thesis
    using assms h by (cases "sint n \<in> {-32768..32767}")
      (auto simp: enc_Int32_def read_Int64_with_at dret_def load_be scast_small)
qed

lemma read_Int64_enc:
  assumes "at_bytes (enc_Int64 n tag) s"
  shows "read_Int64 tag req old s = (Inr n, adv (length (enc_Int64 n tag)) s)"
  using assms by (cases "sint n \<in> {-2147483648..2147483647}")
    (auto simp: enc_Int64_def read_Int64_def read_Int64_with_enc_Int32 read_Int64_with_at dret_def load_be scast_small)

lemma read_UInt32_with_enc:
  "at_bytes (enc_Int32 n tag) s \<Longrightarrow>
     read_UInt32_with sf tag req old s = (Inr n, adv (length (enc_Int32 n tag)) s)"
  by (simp add: read_UInt32_with_def dbind_def dret_def read_Int64_with_enc_Int32)

lemma read_string_enc:
  assumes "length v \<le> TARS_MAX_STRING_LENGTH" "at_bytes (enc_string v tag) s"
  shows "read_string tag req old s = (Inr v, adv (length (enc_string v tag)) s)"
proof (cases "length v \<le> 255")
  case True
  then have u: "unat (of_nat (length v) :: byte) = length v"
    by (simp add: unat_of_nat take_bit_nat_eq_self)
  show ?thesis using True assms(2)
    by (auto simp add: enc_string_def read_string_def on_field_at at_bytes_Cons[of _ v] u
        dbind_def[of "dbind _ _"] load_be dret_def readString_at)
next
  case False
  then have u: "unat (of_nat (length v) :: 32 word) = length v"
    using assms(1) by (simp add: unat_of_nat take_bit_nat_eq_self TARS_MAX_STRING_LENGTH_def)
  show ?thesis using False assms
    by (auto simp add: enc_string_def read_string_def on_field_at u
        dbind_def[of "dbind _ _"] load_be dret_def readString_at)
qed

section \<open>Encodings are complete fields\<close>

lemma is_field_Char: "is_field tag (enc_Char c tag)"
  using is_fieldI[of TarsHeadeZeroTag "[]" tag] is_fieldI[of TarsHeadeChar "[c]" tag]
  by (simp add: enc_Char_def skippable_fixed)

lemma is_field_Short: "is_field tag (enc_Short h tag)"
  using is_fieldI[of TarsHeadeShort "be_bytes 2 h" tag]
  by (simp add: enc_Short_def is_field_Char skippable_fixed)

lemma is_field_Int32: "is_field tag (enc_Int32 i tag)"
  using is_fieldI[of TarsHeadeInt32 "be_bytes 4 i" tag]
  by (simp add: enc_Int32_def is_field_Short skippable_fixed)

lemma is_field_Int64: "is_field tag (enc_Int64 l tag)"
  using is_fieldI[of TarsHeadeInt64 "be_bytes 8 l" tag]
  by (simp add: enc_Int64_def is_field_Int32 skippable_fixed)

lemma is_field_string:
  "length s \<le> TARS_MAX_STRING_LENGTH \<Longrightarrow> is_field tag (enc_string s tag)"
  using is_fieldI[of TarsHeadeString1 "of_nat (length s) # s" tag]
    is_fieldI[of TarsHeadeString4 "be_bytes 4 (of_nat (length s) :: 32 word) @ s" tag]
  by (simp add: enc_string_def skippable_string1 skippable_string4 TARS_MAX_STRING_LENGTH_def)

lemma skipField0_with_field:
  assumes "is_field t bs" "at_bytes bs s" "length bs \<le> f"
  shows "skipField0_with (skip_field f) s = (Inr (), adv (length bs) s)"
proof -
  obtain ty payload where ty: "ty < 16" and bs: "bs = head_bytes ty t @ payload"
    and sk: "skippable ty payload" using assms(1) by (auto simp: is_field_def)
  have h: "0 < length (head_bytes ty t)" by simp
  have "skip_field f ty (adv (length (head_bytes ty t)) s)
      = (Inr (), adv (length payload) (adv (length (head_bytes ty t)) s))"
    using sk assms(2,3) bs h by (auto simp: skippable_def simp del: length_greater_0_conv)
  then show ?thesis
    using assms(2) bs readFromHead_at[of ty t s] ty
    by (simp add: skipField0_with_def dbind_def readFromHeadNoTag_eq)
qed

text \<open>A sequence of complete fields, with any tags.\<close>

definition fields :: "byte list list \<Rightarrow> bool" where
  "fields bss \<longleftrightarrow> (\<forall>bs \<in> set bss. \<exists>t. is_field t bs)"

lemma fields_simps [simp]:
  "fields []" "fields (bs # bss) \<longleftrightarrow> (\<exists>t. is_field t bs) \<and> fields bss"
  "fields (bss @ bss') \<longleftrightarrow> fields bss \<and> fields bss'"
  by (auto simp: fields_def)

lemma fields_length: "fields bss \<Longrightarrow> length bss \<le> length (concat bss)"
  by (induction bss) (auto dest!: is_field_length)

lemma for_skip_fields:
  "fields bss \<Longrightarrow> at_bytes (concat bss) s \<Longrightarrow> length (concat bss) \<le> f \<Longrightarrow>
     for_skip (skipField0_with (skip_field f)) (length bss) s = (Inr (), adv (length (concat bss)) s)"
proof (induction bss arbitrary: s)
  case (Cons bs bss)
  then obtain t where "is_field t bs" by auto
  then have "skipField0_with (skip_field f) s = (Inr (), adv (length bs) s)"
    using Cons.prems by (intro skipField0_with_field) auto
  then show ?case using Cons by (simp add: dbind_def)
qed (simp add: dret_def)

lemma structEnd_fields:
  "fields bss \<Longrightarrow> at_bytes (concat bss @ head_bytes TarsHeadeStructEnd t) s \<Longrightarrow> length (concat bss) < f \<Longrightarrow>
     length bss < k \<Longrightarrow>
     structEnd_loop (skip_field f) k s
       = (Inr (), adv (length (concat bss) + length (head_bytes TarsHeadeStructEnd t)) s)"
proof (induction bss arbitrary: s k)
  case Nil
  then show ?case using readFromHead_at[of TarsHeadeStructEnd t s]
    by (cases k; cases f) (simp_all add: dbind_def readFromHeadNoTag_eq skipField_switch_def dret_def)
next
  case (Cons bs bss)
  then obtain u where u: "is_field u bs" by auto
  then obtain ty payload where ty: "ty < 16" "ty \<noteq> TarsHeadeStructEnd"
    and bs: "bs = head_bytes ty u @ payload" by (auto simp: is_field_def)
  obtain j where k: "k = Suc j" using Cons.prems(4) by (cases k) auto
  have "skipField0_with (skip_field f) s = (Inr (), adv (length bs) s)"
    using Cons.prems u by (intro skipField0_with_field) auto
  then have "skip_field f ty (adv (length (head_bytes ty u)) s) = (Inr (), adv (length bs) s)"
    using Cons.prems(2) bs readFromHead_at[of ty u s] ty
    by (simp add: skipField0_with_def dbind_def readFromHeadNoTag_eq)
  moreover have "readFromHeadNoTag s = (Inr ty, adv (length (head_bytes ty u)) s)"
    using Cons.prems(2) bs readFromHead_at[of ty u s] ty by (simp add: readFromHeadNoTag_eq)
  moreover have "structEnd_loop (skip_field f) j (adv (length bs) s)
      = (Inr (), adv (length (concat bss) + length (head_bytes TarsHeadeStructEnd t)) (adv (length bs) s))"
    using Cons.prems k by (intro Cons.IH) (auto simp: add.commute)
  ultimately show ?case using ty by (simp add: k dbind_def add.assoc)
qed

lemma skippable_sized:
  assumes n: "length bss < 2 ^ 32" and "fields bss" "length bss = m"
  shows "skippable 9 (enc_Int32 (of_nat m) 0 @ concat bss)"
  unfolding skippable_def
proof (intro allI impI)
  fix s f assume a: "at_bytes (enc_Int32 (of_nat m) 0 @ concat bss) s"
    and f: "length (enc_Int32 (of_nat m) 0 @ concat bss) < f"
  have u: "unat (of_nat m :: 32 word) = length bss"
    using n assms(3) by (simp add: unat_of_nat take_bit_nat_eq_self)
  have "for_skip (skipField0_with (skip_field (f - 1))) (length bss) (adv (length (enc_Int32 (of_nat m) 0)) s)
      = (Inr (), adv (length (concat bss)) (adv (length (enc_Int32 (of_nat m) 0)) s))"
    using a f assms(2) by (intro for_skip_fields) auto
  then show "skip_field f 9 s = (Inr (), adv (length (enc_Int32 (of_nat m) 0 @ concat bss)) s)"
    using a f by (auto simp: skip_field_unfold skipField_switch_def dbind_def read_UInt32_with_enc u)
qed

lemma skippable_map:
  assumes n: "length bss = 2 * m" "m < 2 ^ 31" and "fields bss"
  shows "skippable 8 (enc_Int32 (of_nat m) 0 @ concat bss)"
  unfolding skippable_def
proof (intro allI impI)
  fix s f assume a: "at_bytes (enc_Int32 (of_nat m) 0 @ concat bss) s"
    and f: "length (enc_Int32 (of_nat m) 0 @ concat bss) < f"
  have u: "unat (of_nat m * 2 :: 32 word) = length bss"
    using n by (simp add: unat_word_ariths unat_of_nat take_bit_nat_eq_self)
  have "for_skip (skipField0_with (skip_field (f - 1))) (length bss) (adv (length (enc_Int32 (of_nat m) 0)) s)
      = (Inr (), adv (length (concat bss)) (adv (length (enc_Int32 (of_nat m) 0)) s))"
    using a f assms(3) by (intro for_skip_fields) auto
  then show "skip_field f 8 s = (Inr (), adv (length (enc_Int32 (of_nat m) 0 @ concat bss)) s)"
    using a f by (auto simp: skip_field_unfold skipField_switch_def dbind_def read_UInt32_with_enc u)
qed

lemma skippable_bytes:
  assumes "length v < 2 ^ 32"
  shows "skippable 13 (head_bytes TarsHeadeChar 0 @ enc_Int32 (of_nat (length v)) 0 @ v)"
proof -
  have u: "unat (of_nat (length v) :: 32 word) = length v"
    using assms by (simp add: unat_of_nat take_bit_nat_eq_self)
  show ?thesis unfolding skippable_def
    using readFromHead_at[of TarsHeadeChar 0]
    by (auto simp: skip_field_unfold skipField_switch_def dbind_def read_UInt32_with_enc u headSkip_adv
        add.assoc)
qed

lemma skippable_struct:
  assumes "fields bss"
  shows "skippable 10 (concat bss @ head_bytes TarsHeadeStructEnd 0)"
  unfolding skippable_def
proof (intro allI impI)
  fix s f assume a: "at_bytes (concat bss @ head_bytes TarsHeadeStructEnd 0) s"
    and f: "length (concat bss @ head_bytes TarsHeadeStructEnd 0) < f"
  have "length (concat bss) \<le> length (br_buf s)" using at_bytes_length[OF a] by simp
  then have l: "length bss < Suc (length (br_buf s))" using fields_length[OF assms] by simp
  have "length (concat bss) < f - 1" using f by (cases "head_bytes TarsHeadeStructEnd 0") auto
  from structEnd_fields[OF assms a this l]
  show "skip_field f 10 s = (Inr (), adv (length (concat bss @ head_bytes TarsHeadeStructEnd 0)) s)"
    using f by (simp add: skip_field_unfold skipField_switch_def skipToStructEnd_with_def
        del: structEnd_loop.simps)
qed

section \<open>The contract of a field type\<close>

locale tars_field =
  fixes rd :: "'a reader"
    and enc :: "'a \<Rightarrow> byte \<Rightarrow> byte list"
    and ok :: "'a \<Rightarrow> bool"
  assumes enc_field: "ok x \<Longrightarrow> is_field tag (enc x tag)"
    and rd_enc: "ok x \<Longrightarrow> at_bytes (enc x tag) s \<Longrightarrow>
      rd tag req old s = (Inr x, adv (length (enc x tag)) s)"

lemma read_size_enc:
  assumes "at_bytes (enc_Int32 (of_nat n) 0) s" "n < 2 ^ 32" "n \<le> length (br_buf s)"
  shows "read_size s = (Inr n, adv (length (enc_Int32 (of_nat n) 0)) s)"
proof -
  have "unat (of_nat n :: 32 word) = n"
    using assms(2) by (simp add: unat_of_nat take_bit_nat_eq_self)
  then show ?thesis
    using assms by (simp add: read_size_def read_UInt32_def dbind_def dret_def read_UInt32_with_enc br_size_def)
qed

lemma length_vec_resize [simp]: "length (vec_resize d n v) = n"
  by (simp add: vec_resize_def)

context tars_field
begin

lemma fields_map: "\<forall>x \<in> set v. ok x \<Longrightarrow> fields (map (\<lambda>x. enc x t) v)"
  by (auto simp: fields_def intro: enc_field)

lemma read_elems_enc:
  "\<forall>x \<in> set v. ok x \<Longrightarrow> length old = length v \<Longrightarrow> at_bytes (concat (map (\<lambda>x. enc x 0) v)) s \<Longrightarrow>
     read_elems rd old s = (Inr v, adv (length (concat (map (\<lambda>x. enc x 0) v))) s)"
proof (induction v arbitrary: old s)
  case (Cons x v)
  then obtain y ys where "old = y # ys" "length ys = length v" by (cases old) auto
  then show ?case using Cons by (auto simp: dbind_def dret_def rd_enc)
qed (simp add: dret_def)

text \<open>A vector of such fields is such a field.\<close>

lemma vector_field:
  "tars_field (read_vector d rd) (enc_vector enc) (\<lambda>v. length v < 2 ^ 32 \<and> (\<forall>x \<in> set v. ok x))"
proof
  fix v tag assume v: "length v < 2 ^ 32 \<and> (\<forall>x \<in> set v. ok x)"
  then have "skippable 9 (enc_Int32 (of_nat (length v)) 0 @ concat (map (\<lambda>x. enc x 0) v))"
    by (intro skippable_sized fields_map) auto
  then show "is_field tag (enc_vector enc v tag)"
    unfolding enc_vector_def by (intro is_fieldI) auto
  fix s req old assume a: "at_bytes (enc_vector enc v tag) s"
  have "length v \<le> length (concat (map (\<lambda>x. enc x 0) v))"
    using fields_length[OF fields_map, of v 0] v by simp
  then have l: "length v \<le> length (br_buf s)"
    using at_bytes_length[OF a] by (simp add: enc_vector_def)
  show "read_vector d rd tag req old s = (Inr v, adv (length (enc_vector enc v tag)) s)"
    using a v l
    by (auto simp: enc_vector_def read_vector_def on_field_at dbind_def read_size_enc read_elems_enc add.assoc)
qed

end

section \<open>Maps\<close>

lemma map_insert_last:
  "\<forall>p \<in> set m. fst p < k \<Longrightarrow> map_insert k v m = m @ [(k, v)]"
  by (induction m) (auto simp: less_le_not_le)

text \<open>The pairs of a \<^verbatim>\<open>std::map\<close> in iteration order: strictly increasing keys.\<close>

definition map_wf :: "('k::linorder \<times> 'v) list \<Rightarrow> bool" where
  "map_wf m \<longleftrightarrow> sorted_wrt (<) (map fst m)"

locale tars_map = K: tars_field rdK encK okK + V: tars_field rdV encV okV
  for rdK :: "'k::linorder reader" and encK okK and rdV :: "'v reader" and encV okV
begin

lemma fields_pairs:
  "\<forall>(k, v) \<in> set m. okK k \<and> okV v \<Longrightarrow>
     \<exists>bss. fields bss \<and> length bss = 2 * length m \<and> concat bss = concat (map (\<lambda>(k, v). encK k 0 @ encV v 1) m)"
proof (induction m)
  case (Cons p m)
  obtain k v where p: "p = (k, v)" by (cases p)
  from Cons obtain bss where "fields bss" "length bss = 2 * length m"
    "concat bss = concat (map (\<lambda>(k, v). encK k 0 @ encV v 1) m)" by auto
  moreover have "is_field 0 (encK k 0)" "is_field 1 (encV v 1)"
    using Cons.prems p by (auto intro: K.enc_field V.enc_field)
  ultimately show ?case using p by (intro exI[of _ "encK k 0 # encV v 1 # bss"]) auto
qed simp

lemma read_pairs_enc:
  "\<forall>(k, v) \<in> set m. okK k \<and> okV v \<Longrightarrow> map_wf (m0 @ m) \<Longrightarrow>
     at_bytes (concat (map (\<lambda>(k, v). encK k 0 @ encV v 1) m)) s \<Longrightarrow>
     read_pairs map_insert dk dv rdK rdV (length m) m0 s
       = (Inr (m0 @ m), adv (length (concat (map (\<lambda>(k, v). encK k 0 @ encV v 1) m))) s)"
proof (induction m arbitrary: m0 s)
  case (Cons p m)
  obtain k v where p: "p = (k, v)" by (cases p)
  have "\<forall>q \<in> set m0. fst q < k"
    using Cons.prems(2) p by (auto simp: map_wf_def sorted_wrt_append)
  then have "map_insert k v m0 = m0 @ [(k, v)]" by (rule map_insert_last)
  then show ?case
    using Cons.prems p Cons.IH[of "m0 @ [(k, v)]"]
    by (auto simp: dbind_def K.rd_enc V.rd_enc add.assoc)
qed (simp add: dret_def)

lemma map_field:
  "tars_field (read_map dk dv rdK rdV) (enc_map encK encV)
     (\<lambda>m. map_wf m \<and> length m < 2 ^ 31 \<and> (\<forall>(k, v) \<in> set m. okK k \<and> okV v))"
proof
  fix m tag assume m: "map_wf m \<and> length m < 2 ^ 31 \<and> (\<forall>(k, v) \<in> set m. okK k \<and> okV v)"
  then obtain bss where b: "fields bss" "length bss = 2 * length m"
    "concat bss = concat (map (\<lambda>(k, v). encK k 0 @ encV v 1) m)"
    using fields_pairs[of m] by auto
  have "skippable 8 (enc_Int32 (of_nat (length m)) 0 @ concat bss)"
    using b m by (intro skippable_map) auto
  then show "is_field tag (enc_map encK encV m tag)"
    unfolding enc_map_def b(3)[symmetric] by (intro is_fieldI) auto
  fix s req old assume a: "at_bytes (enc_map encK encV m tag) s"
  have "length m \<le> length (concat bss)"
    using fields_length[OF b(1)] b(2) by simp
  then have l: "length m \<le> length (br_buf s)"
    using at_bytes_length[OF a] b(3) by (simp add: enc_map_def)
  show "read_map dk dv rdK rdV tag req old s = (Inr m, adv (length (enc_map encK encV m tag)) s)"
    using a m l read_pairs_enc[of m "[]"]
    by (auto simp: enc_map_def read_map_def on_field_at dbind_def read_size_enc add.assoc)
qed

end

section \<open>The overloads of the code keep the contract\<close>

interpretation char_field: tars_field read_Char enc_Char "\<lambda>_. True"
  by unfold_locales (simp_all add: is_field_Char read_Char_enc)

interpretation short_field: tars_field read_Short enc_Short "\<lambda>_. True"
  by unfold_locales (simp_all add: is_field_Short read_Short_enc)

interpretation int32_field: tars_field read_Int32 enc_Int32 "\<lambda>_. True"
  by unfold_locales (simp_all add: is_field_Int32 read_Int32_enc)

interpretation int64_field: tars_field read_Int64 enc_Int64 "\<lambda>_. True"
  by unfold_locales (simp_all add: is_field_Int64 read_Int64_enc)

interpretation string_field: tars_field read_string enc_string "\<lambda>s. length s \<le> TARS_MAX_STRING_LENGTH"
  by unfold_locales (simp_all add: is_field_string read_string_enc)

interpretation bytes_field: tars_field read_vector_Char enc_vector_Char "\<lambda>v. length v < 2 ^ 32"
proof
  fix v :: "byte list" and tag assume v: "length v < 2 ^ 32"
  then show "is_field tag (enc_vector_Char v tag)"
    unfolding enc_vector_Char_def by (intro is_fieldI skippable_bytes) auto
  fix s req old assume a: "at_bytes (enc_vector_Char v tag) s"
  have l: "length v \<le> length (br_buf s)"
    using at_bytes_length[OF a] by (simp add: enc_vector_Char_def)
  show "read_vector_Char tag req old s = (Inr v, adv (length (enc_vector_Char v tag)) s)"
    using a v l readFromHead_at[of TarsHeadeChar 0]
    by (auto simp: enc_vector_Char_def read_vector_Char_def on_field_at dbind_def
        read_size_enc readBuf_at add.assoc)
qed

abbreviation enc_string_map :: "(byte list \<times> byte list) list \<Rightarrow> byte \<Rightarrow> byte list" where
  "enc_string_map \<equiv> enc_map enc_string enc_string"

abbreviation read_string_map :: "(byte list \<times> byte list) list reader" where
  "read_string_map \<equiv> read_map [] [] read_string read_string"

definition string_map_ok :: "(byte list \<times> byte list) list \<Rightarrow> bool" where
  "string_map_ok m \<longleftrightarrow> map_wf m \<and> length m < 2 ^ 31 \<and>
     (\<forall>(k, v) \<in> set m. length k \<le> TARS_MAX_STRING_LENGTH \<and> length v \<le> TARS_MAX_STRING_LENGTH)"

interpretation string_pairs: tars_map read_string enc_string "\<lambda>s. length s \<le> TARS_MAX_STRING_LENGTH"
  read_string enc_string "\<lambda>s. length s \<le> TARS_MAX_STRING_LENGTH"
  by unfold_locales

interpretation string_map_field: tars_field read_string_map enc_string_map string_map_ok
  using string_pairs.map_field[of "[]" "[]"] by (simp add: string_map_ok_def[abs_def])

section \<open>Properties of the codec\<close>

text \<open>
  A 64-bit integer is written in the narrowest of its five forms and read back unchanged, from
  the raw writer's memory, whatever follows it and whatever the variable held before.
\<close>

theorem Int64_roundtrip:
  "\<exists>w bs. write_Int64 (writeBuf (BufferWriter_reserve fresh)) n tag BufferWriter_new = (Inr (), w)
    \<and> bs = BufferWriter_getByteBuffer w
    \<and> read_Int64 tag req old (setBuffer (bs @ post)) = (Inr n, adv (length bs) (setBuffer (bs @ post)))"
proof -
  obtain w where "write_Int64 (writeBuf (BufferWriter_reserve fresh)) n tag BufferWriter_new = (Inr (), w)"
    "BufferWriter_getByteBuffer w = enc_Int64 n tag"
    using raw.appendsE[OF raw.appends_Int64, of BufferWriter_new fresh n tag] by auto
  then show ?thesis using int64_field.rd_enc[OF _ at_bytes_setBuffer] by auto
qed

lemma read_Int32_enc_wide:
  "at_bytes (enc_Int64 n tag) s \<Longrightarrow> sint n \<notin> {-2147483648..2147483647} \<Longrightarrow>
     fst (read_Int32 tag req old s) = Inl TarsDecodeMismatch"
  by (auto simp: enc_Int64_def read_Int32_def on_field_at dthrow_def)

lemma read_Int32_enc_narrow:
  "at_bytes (enc_Int64 n tag) s \<Longrightarrow> sint n \<in> {-2147483648..2147483647} \<Longrightarrow>
     fst (read_Int32 tag req old s) = Inr (ucast n)"
  by (simp add: enc_Int64_def read_Int32_enc)

text \<open>
  A 64-bit integer read as a 32-bit one is never truncated: it is returned exactly if it fits,
  and the read throws a type mismatch if it does not.
\<close>

theorem Int32_of_Int64:
  "fst (read_Int32 tag req old (setBuffer (enc_Int64 n tag @ post))) =
     (if sint n \<in> {-2147483648..2147483647} then Inr (ucast n) else Inl TarsDecodeMismatch)"
  using read_Int32_enc_wide[OF at_bytes_setBuffer] read_Int32_enc_narrow[OF at_bytes_setBuffer] by simp

interpretation string_vector: tars_field "read_vector [] read_string" "enc_vector enc_string"
  "\<lambda>v. length v < 2 ^ 32 \<and> (\<forall>s \<in> set v. length s \<le> TARS_MAX_STRING_LENGTH)"
  by (rule string_field.vector_field)

text \<open>
  A vector of strings is read back as it was written, also into a vector that was not empty.
\<close>

theorem string_vector_roundtrip:
  assumes "length v < 2 ^ 32" "\<forall>s \<in> set v. length s \<le> TARS_MAX_STRING_LENGTH"
  shows "\<exists>w bs. write_vector (writeBuf buffer_resize) (write_string (writeBuf buffer_resize)) v tag
        BufferWriterVector_new = (Inr (), w)
    \<and> bs = fst (BufferWriterVector_getByteBuffer w)
    \<and> read_vector [] read_string tag req old (setBuffer (bs @ post))
        = (Inr v, adv (length bs) (setBuffer (bs @ post)))"
proof -
  have "owned.appends (write_vector (writeBuf buffer_resize) (write_string (writeBuf buffer_resize)) v tag)
      (enc_vector enc_string v tag)"
    using assms(2) by (intro owned.appends_vector owned.appends_string) auto
  then obtain w where w: "write_vector (writeBuf buffer_resize) (write_string (writeBuf buffer_resize)) v tag
        BufferWriterVector_new = (Inr (), w)" "owned_inv w"
    "BufferWriter_getByteBuffer w = enc_vector enc_string v tag"
    using owned.appendsE[of _ _ BufferWriterVector_new] by (metis append_Nil getByteBuffer_init(1) owned_inv_init(1))
  then have "fst (BufferWriterVector_getByteBuffer w) = enc_vector enc_string v tag"
    by (simp add: owned_swap)
  then show ?thesis using w(1) assms string_vector.rd_enc[OF _ at_bytes_setBuffer] by auto
qed

theorem string_vector_roundtrip_witness:
  "\<exists>w bs. write_vector (writeBuf buffer_resize) (write_string (writeBuf buffer_resize)) [[1, 2], []] 3
        BufferWriterVector_new = (Inr (), w)
    \<and> bs = fst (BufferWriterVector_getByteBuffer w)
    \<and> read_vector [] read_string 3 True [[9]] (setBuffer (bs @ [7]))
        = (Inr [[1, 2], []], adv (length bs) (setBuffer (bs @ [7])))"
  by (rule string_vector_roundtrip) (simp_all add: TARS_MAX_STRING_LENGTH_def)



section \<open>Where the readers surprise\<close>

context tars_field
begin

lemma read_into_overrun:
  "\<forall>x \<in> set v. ok x \<Longrightarrow> at_bytes (concat (map (\<lambda>x. enc x 0) v)) s \<Longrightarrow> length arr < i + length v \<Longrightarrow>
     i \<le> length arr \<Longrightarrow> fst (read_into rd (length v) i arr s) = Inl OutOfBounds"
proof (induction v arbitrary: i arr s)
  case (Cons x v)
  then show ?case by (auto simp: dbind_def rd_enc dthrow_def)
qed simp

lemma read_array_overrun:
  assumes "\<forall>x \<in> set v. ok x" "at_bytes (enc_vector enc v tag) s" "length v < 2 ^ 32" "length arr < length v"
  shows "fst (read_array rd len tag req (arr, r) s) = Inl OutOfBounds"
proof -
  have "length v \<le> length (concat (map (\<lambda>x. enc x 0) v))"
    using fields_length[OF fields_map, of v 0] assms(1) by simp
  then have l: "length v \<le> length (br_buf s)"
    using at_bytes_length[OF assms(2)] by (simp add: enc_vector_def)
  have a: "at_bytes (head_bytes TarsHeadeList tag) s"
    "at_bytes (enc_Int32 (of_nat (length v)) 0) (adv (length (head_bytes TarsHeadeList tag)) s)"
    "at_bytes (concat (map (\<lambda>x. enc x 0) v))
       (adv (length (head_bytes TarsHeadeList tag) + length (enc_Int32 (of_nat (length v)) 0)) s)"
    using assms(2) by (simp_all add: enc_vector_def)
  have o: "fst (read_into rd (length v) 0 arr
      (adv (length (head_bytes TarsHeadeList tag) + length (enc_Int32 (of_nat (length v)) 0)) s)) = Inl OutOfBounds"
    using read_into_overrun[OF assms(1) a(3)] assms(4) by simp
  show ?thesis
    using o l read_size_enc[OF a(2) assms(3)]
    by (auto simp: read_array_def on_field_at[OF a(1)] dbind_def split: prod.splits sum.splits)
qed

lemma read_members_enc:
  "\<forall>x \<in> set v. ok x \<Longrightarrow> at_bytes (concat (map (\<lambda>x. enc x 0) v)) s \<Longrightarrow>
     read_members ins d rd (length v) old s
       = (Inr (fold ins v old), adv (length (concat (map (\<lambda>x. enc x 0) v))) s)"
  by (induction v arbitrary: old s) (auto simp: dret_def dbind_def rd_enc add.assoc)

end

text \<open>
  \<^verbatim>\<open>read(T* v, len, readLen)\<close> compares the element count with the length of the stream and never
  with \<open>len\<close>: on a well-formed list of more elements than the array has, it writes behind the array,
  whatever \<open>len\<close> says.
\<close>

theorem read_array_overruns:
  assumes "length arr < length v" "length v < 2 ^ 32"
  shows "fst (read_array read_Int32 len tag req (arr, r) (setBuffer (enc_vector enc_Int32 v tag @ post)))
    = Inl OutOfBounds"
  using int32_field.read_array_overrun[OF _ at_bytes_setBuffer assms(2,1)] by simp

theorem read_array_overruns_witness:
  "fst (read_array read_Int32 1 0 True ([0], 0) (setBuffer (enc_vector enc_Int32 [1, 2] 0))) = Inl OutOfBounds"
  using read_array_overruns[of "[0]" "[1, 2]" 1 0 True 0 "[]"] by simp

lemma set_set_insert: "set (set_insert x ys) = insert x (set ys)"
  by (induction ys) auto

lemma sorted_set_insert: "sorted_wrt (<) ys \<Longrightarrow> sorted_wrt (<) (set_insert x ys)"
  by (induction ys) (auto simp: set_set_insert)

lemma fold_set_insert:
  "set (fold set_insert v old) = set old \<union> set v"
  "sorted_wrt (<) old \<Longrightarrow> sorted_wrt (<) (fold set_insert v old)"
  by (induction v arbitrary: old) (auto simp: set_set_insert sorted_set_insert)

text \<open>
  Reading a set does not replace the variable's contents, unlike a map or a vector: the members
  of the list are added to the set that was there.
\<close>

theorem read_set_accumulates:
  assumes "length v < 2 ^ 32"
  shows "\<exists>r s'. read_set 0 read_Int32 tag req old (setBuffer (enc_vector enc_Int32 v tag @ post)) = (Inr r, s')
    \<and> set r = set old \<union> set v"
proof -
  let ?s = "setBuffer (enc_vector enc_Int32 v tag @ post)"
  have a: "at_bytes (enc_vector enc_Int32 v tag) ?s" by simp
  have "length v \<le> length (concat (map (\<lambda>x. enc_Int32 x 0) v))"
    using fields_length[OF int32_field.fields_map, of v 0] by simp
  then have l: "length v \<le> length (br_buf ?s)"
    using at_bytes_length[OF a] by (simp add: enc_vector_def)
  show ?thesis
    using a l assms int32_field.read_members_enc[of v _ set_insert 0 old]
    by (auto simp: enc_vector_def read_set_def on_field_at dbind_def read_size_enc fold_set_insert
        simp del: at_bytes_setBuffer)
qed

theorem read_set_accumulates_witness:
  "\<exists>r s'. read_set 0 read_Int32 2 True [5] (setBuffer (enc_vector enc_Int32 [1, 7] 2 @ [])) = (Inr r, s')
    \<and> set r = {5, 1, 7}"
  using read_set_accumulates[of "[1, 7]" 2 True "[5]" "[]"] by (simp add: insert_commute)

text \<open>
  An absent optional enumeration is set to zero, where an absent optional integer is left alone:
  \<^verbatim>\<open>read(T\&)\<close> goes through a local \<^verbatim>\<open>Int32 n = 0\<close>.
\<close>

theorem read_enum_absent:
  assumes "br_cur s = length (br_buf s)"
  shows "read_enum tag False old s = (Inr 0, s) \<and> read_Int32 tag False old s = (Inr old, s)"
  using TarsSkipToTag_at_end[OF assms]
  by (simp add: read_enum_def read_Int32_def on_field_def dbind_def dret_def)

theorem read_enum_absent_witness:
  "read_enum 1 False 3 (setBuffer []) = (Inr 0, setBuffer []) \<and> read_Int32 1 False 3 (setBuffer []) = (Inr 3, setBuffer [])"
  using read_enum_absent[of "setBuffer []" 1 3] by (simp add: setBuffer_def)

text \<open>
  A double field that the peer wrote as a float is corrupted for some values: the raw network
  bytes go through a double before they are swapped, and if they look like a signalling NaN the
  conversion sets a bit of the payload.
\<close>

theorem read_Double_of_Float_corrupts:
  "fst (read_Double 0 True 0 (setBuffer (head_bytes TarsHeadeFloat 0 @ be_bytes 4 (0x0100807F :: 32 word))))
     = Inr (double_of_float 0x0100C07F) \<and> double_of_float 0x0100C07F \<noteq> double_of_float 0x0100807F"
proof -
  let ?bs = "head_bytes TarsHeadeFloat 0 @ be_bytes 4 (0x0100807F :: 32 word)"
  have a: "at_bytes ?bs (setBuffer ?bs)" using at_bytes_setBuffer[of ?bs "[]"] by simp
  have "htonl (through_double (htonl 0x0100807F)) = 0x0100C07F" by code_simp
  moreover have "double_of_float 0x0100C07F \<noteq> double_of_float 0x0100807F" by code_simp
  ultimately show ?thesis
    using a by (auto simp: read_Double_def on_field_at load_be dret_def tars_ntohf_def simp del: at_bytes_setBuffer)
qed

end
