(* ===== verification/Request_Packet.thy ===== *)
theory Request_Packet
  imports Tars_Codec
begin

text \<open>
  The two packets of the protocol (\<^verbatim>\<open>servant/tup/RequestF.h\<close>): \<^verbatim>\<open>RequestPacket\<close> and \<^verbatim>\<open>ResponsePacket\<close>
  with \<^verbatim>\<open>resetDefautlt\<close>, \<^verbatim>\<open>writeTo\<close> and \<^verbatim>\<open>readFrom\<close>. They are built from the overloads of \<open>Tars_Input\<close> and
  \<open>Tars_Output\<close>, and their round trip is put together from the interpretations of \<open>Tars_Codec\<close>.
\<close>

section \<open>Requests\<close>

record RequestPacket =
  rq_iVersion :: "16 word"
  rq_cPacketType :: byte
  rq_iMessageType :: "32 word"
  rq_iRequestId :: "32 word"
  rq_sServantName :: "byte list"
  rq_sFuncName :: "byte list"
  rq_sBuffer :: "byte list"
  rq_iTimeout :: "32 word"
  rq_context :: "(byte list \<times> byte list) list"
  rq_status :: "(byte list \<times> byte list) list"

definition RequestPacket_resetDefautlt :: RequestPacket where
  "RequestPacket_resetDefautlt =
     \<lparr>rq_iVersion = 0, rq_cPacketType = 0, rq_iMessageType = 0, rq_iRequestId = 0,
      rq_sServantName = [], rq_sFuncName = [], rq_sBuffer = [], rq_iTimeout = 0,
      rq_context = [], rq_status = []\<rparr>"

definition RequestPacket_writeTo :: "(byte list \<Rightarrow> 'w \<Rightarrow> 'w) \<Rightarrow> RequestPacket \<Rightarrow> 'w out" where
  "RequestPacket_writeTo put p =
     oseq (write_Short put (rq_iVersion p) 1)
    (oseq (write_Char put (rq_cPacketType p) 2)
    (oseq (write_Int32 put (rq_iMessageType p) 3)
    (oseq (write_Int32 put (rq_iRequestId p) 4)
    (oseq (write_string put (rq_sServantName p) 5)
    (oseq (write_string put (rq_sFuncName p) 6)
    (oseq (write_vector_Char put (rq_sBuffer p) 7)
    (oseq (write_Int32 put (rq_iTimeout p) 8)
    (oseq (write_map put (write_string put) (write_string put) (rq_context p) 9)
          (write_map put (write_string put) (write_string put) (rq_status p) 10)))))))))"

definition RequestPacket_readFrom :: "RequestPacket dec" where
  "RequestPacket_readFrom =
     (let d = RequestPacket_resetDefautlt in
      dbind (read_Short 1 True (rq_iVersion d)) (\<lambda>iVersion.
      dbind (read_Char 2 True (rq_cPacketType d)) (\<lambda>cPacketType.
      dbind (read_Int32 3 True (rq_iMessageType d)) (\<lambda>iMessageType.
      dbind (read_Int32 4 True (rq_iRequestId d)) (\<lambda>iRequestId.
      dbind (read_string 5 True (rq_sServantName d)) (\<lambda>sServantName.
      dbind (read_string 6 True (rq_sFuncName d)) (\<lambda>sFuncName.
      dbind (read_vector_Char 7 True (rq_sBuffer d)) (\<lambda>sBuffer.
      dbind (read_Int32 8 True (rq_iTimeout d)) (\<lambda>iTimeout.
      dbind (read_string_map 9 True (rq_context d)) (\<lambda>context.
      dbind (read_string_map 10 True (rq_status d)) (\<lambda>status.
        dret \<lparr>rq_iVersion = iVersion, rq_cPacketType = cPacketType, rq_iMessageType = iMessageType,
              rq_iRequestId = iRequestId, rq_sServantName = sServantName, rq_sFuncName = sFuncName,
              rq_sBuffer = sBuffer, rq_iTimeout = iTimeout, rq_context = context,
              rq_status = status\<rparr>)))))))))))"

section \<open>Responses\<close>

record ResponsePacket =
  rs_iVersion :: "16 word"
  rs_cPacketType :: byte
  rs_iRequestId :: "32 word"
  rs_iMessageType :: "32 word"
  rs_iRet :: "32 word"
  rs_sBuffer :: "byte list"
  rs_status :: "(byte list \<times> byte list) list"
  rs_sResultDesc :: "byte list"
  rs_context :: "(byte list \<times> byte list) list"

definition ResponsePacket_resetDefautlt :: ResponsePacket where
  "ResponsePacket_resetDefautlt =
     \<lparr>rs_iVersion = 0, rs_cPacketType = 0, rs_iRequestId = 0, rs_iMessageType = 0, rs_iRet = 0,
      rs_sBuffer = [], rs_status = [], rs_sResultDesc = [], rs_context = []\<rparr>"

text \<open>The last two fields are written only if they are not empty.\<close>

definition ResponsePacket_writeTo :: "(byte list \<Rightarrow> 'w \<Rightarrow> 'w) \<Rightarrow> ResponsePacket \<Rightarrow> 'w out" where
  "ResponsePacket_writeTo put p =
     oseq (write_Short put (rs_iVersion p) 1)
    (oseq (write_Char put (rs_cPacketType p) 2)
    (oseq (write_Int32 put (rs_iRequestId p) 3)
    (oseq (write_Int32 put (rs_iMessageType p) 4)
    (oseq (write_Int32 put (rs_iRet p) 5)
    (oseq (write_vector_Char put (rs_sBuffer p) 6)
    (oseq (write_map put (write_string put) (write_string put) (rs_status p) 7)
    (oseq (if rs_sResultDesc p \<noteq> [] then write_string put (rs_sResultDesc p) 8 else emit put [])
          (if length (rs_context p) > 0
           then write_map put (write_string put) (write_string put) (rs_context p) 9
           else emit put []))))))))"

definition ResponsePacket_readFrom :: "ResponsePacket dec" where
  "ResponsePacket_readFrom =
     (let d = ResponsePacket_resetDefautlt in
      dbind (read_Short 1 True (rs_iVersion d)) (\<lambda>iVersion.
      dbind (read_Char 2 True (rs_cPacketType d)) (\<lambda>cPacketType.
      dbind (read_Int32 3 True (rs_iRequestId d)) (\<lambda>iRequestId.
      dbind (read_Int32 4 True (rs_iMessageType d)) (\<lambda>iMessageType.
      dbind (read_Int32 5 True (rs_iRet d)) (\<lambda>iRet.
      dbind (read_vector_Char 6 True (rs_sBuffer d)) (\<lambda>sBuffer.
      dbind (read_string_map 7 True (rs_status d)) (\<lambda>status.
      dbind (read_string 8 False (rs_sResultDesc d)) (\<lambda>sResultDesc.
      dbind (read_string_map 9 False (rs_context d)) (\<lambda>context.
        dret \<lparr>rs_iVersion = iVersion, rs_cPacketType = cPacketType, rs_iRequestId = iRequestId,
              rs_iMessageType = iMessageType, rs_iRet = iRet, rs_sBuffer = sBuffer,
              rs_status = status, rs_sResultDesc = sResultDesc, rs_context = context\<rparr>))))))))))"

section \<open>The packets on the wire\<close>

definition request_ok :: "RequestPacket \<Rightarrow> bool" where
  "request_ok p \<longleftrightarrow>
     length (rq_sServantName p) \<le> TARS_MAX_STRING_LENGTH \<and>
     length (rq_sFuncName p) \<le> TARS_MAX_STRING_LENGTH \<and> length (rq_sBuffer p) < 2 ^ 32 \<and>
     string_map_ok (rq_context p) \<and> string_map_ok (rq_status p)"

definition enc_request :: "RequestPacket \<Rightarrow> byte list" where
  "enc_request p =
     enc_Short (rq_iVersion p) 1 @ enc_Char (rq_cPacketType p) 2 @ enc_Int32 (rq_iMessageType p) 3 @
     enc_Int32 (rq_iRequestId p) 4 @ enc_string (rq_sServantName p) 5 @ enc_string (rq_sFuncName p) 6 @
     enc_vector_Char (rq_sBuffer p) 7 @ enc_Int32 (rq_iTimeout p) 8 @
     enc_string_map (rq_context p) 9 @ enc_string_map (rq_status p) 10"

definition response_ok :: "ResponsePacket \<Rightarrow> bool" where
  "response_ok p \<longleftrightarrow>
     length (rs_sResultDesc p) \<le> TARS_MAX_STRING_LENGTH \<and> length (rs_sBuffer p) < 2 ^ 32 \<and>
     string_map_ok (rs_status p) \<and> string_map_ok (rs_context p)"

definition enc_response :: "ResponsePacket \<Rightarrow> byte list" where
  "enc_response p =
     enc_Short (rs_iVersion p) 1 @ enc_Char (rs_cPacketType p) 2 @ enc_Int32 (rs_iRequestId p) 3 @
     enc_Int32 (rs_iMessageType p) 4 @ enc_Int32 (rs_iRet p) 5 @ enc_vector_Char (rs_sBuffer p) 6 @
     enc_string_map (rs_status p) 7 @
     (if rs_sResultDesc p \<noteq> [] then enc_string (rs_sResultDesc p) 8 else []) @
     (if rs_context p \<noteq> [] then enc_string_map (rs_context p) 9 else [])"

context writer
begin

lemma appends_string_map:
  "string_map_ok m \<Longrightarrow> appends (write_map put (write_string put) (write_string put) m tag) (enc_string_map m tag)"
  by (intro appends_map appends_string) (auto simp: string_map_ok_def)

lemma appends_request: "request_ok p \<Longrightarrow> appends (RequestPacket_writeTo put p) (enc_request p)"
  unfolding RequestPacket_writeTo_def enc_request_def request_ok_def
  by (intro appends_intros(1,4,5,6,8,9) appends_string_map) auto

lemma appends_response: "response_ok p \<Longrightarrow> appends (ResponsePacket_writeTo put p) (enc_response p)"
  unfolding ResponsePacket_writeTo_def enc_response_def response_ok_def
  by (intro appends_intros(1,4,5,6,8,9) appends_string_map)
    (auto simp: appends_string_map appends_string appends_emit)

end

lemma RequestPacket_readFrom_enc:
  assumes "request_ok p" "at_bytes (enc_request p) s"
  shows "RequestPacket_readFrom s = (Inr p, adv (length (enc_request p)) s)"
  using assms
  by (auto simp: RequestPacket_readFrom_def Let_def enc_request_def request_ok_def dbind_def dret_def
      short_field.rd_enc char_field.rd_enc int32_field.rd_enc string_field.rd_enc
      bytes_field.rd_enc string_map_field.rd_enc add.assoc)

text \<open>\<open>later t bs\<close>: \<open>bs\<close> is empty or starts with a head whose tag is above \<open>t\<close>.\<close>

definition later :: "byte \<Rightarrow> byte list \<Rightarrow> bool" where
  "later t bs \<longleftrightarrow> bs = [] \<or> (\<exists>ty u rest. ty < 16 \<and> t < u \<and> bs = head_bytes ty u @ rest)"

lemma later_field: "is_field u bs \<Longrightarrow> t < u \<Longrightarrow> later t (bs @ rest)"
  unfolding later_def is_field_def by (metis append_assoc)

lemma later_mono: "later t bs \<Longrightarrow> u \<le> t \<Longrightarrow> later u bs"
  by (auto simp: later_def intro: order.strict_trans1)

text \<open>\<open>unread bs s\<close>: exactly the bytes \<open>bs\<close> are left.\<close>

definition unread :: "byte list \<Rightarrow> BufferReader \<Rightarrow> bool" where
  "unread bs s \<longleftrightarrow> br_cur s \<le> length (br_buf s) \<and> drop (br_cur s) (br_buf s) = bs"

lemma unread_append:
  assumes "unread (as @ bs) s"
  shows "at_bytes as s" "unread bs (adv (length as) s)"
proof -
  have d: "drop (br_cur s) (br_buf s) = as @ bs" and c: "br_cur s \<le> length (br_buf s)"
    using assms by (auto simp: unread_def)
  from d have "length (br_buf s) - br_cur s = length as + length bs"
    by (metis length_append length_drop)
  with c have "br_cur s + length as \<le> length (br_buf s)" by simp
  moreover have "drop (br_cur s + length as) (br_buf s) = bs"
    using d by (metis add.commute append_eq_conv_conj drop_drop)
  ultimately show "unread bs (adv (length as) s)" by (simp add: unread_def)
  show "at_bytes as s" using d c by (simp add: at_bytes_def)
qed

lemma unread_setBuffer: "unread bs (setBuffer bs)"
  by (simp add: unread_def setBuffer_def)

lemma on_field_later:
  assumes "later tag bs" "unread bs s"
  shows "on_field tag False old k s = (Inr old, s)"
proof -
  have "TarsSkipToTag tag s = (Inr None, s)"
  proof (cases "bs = []")
    case True
    then show ?thesis using assms(2) by (intro TarsSkipToTag_at_end) (simp add: unread_def)
  next
    case False
    then obtain ty u rest where h: "ty < 16" "tag < u" "bs = head_bytes ty u @ rest"
      using assms(1) by (auto simp: later_def)
    then have "at_bytes (head_bytes ty u) s" using assms(2) unread_append by blast
    then show ?thesis using TarsSkipToTag_absent h by blast
  qed
  then show ?thesis by (simp add: on_field_def dbind_def dret_def)
qed

lemma read_string_optional:
  assumes "length v \<le> TARS_MAX_STRING_LENGTH" "later tag post"
    "unread ((if v \<noteq> [] then enc_string v tag else []) @ post) s"
  shows "\<exists>s'. read_string tag False [] s = (Inr v, s') \<and> unread post s'"
proof (cases "v = []")
  case True
  then show ?thesis using assms(3) by (simp add: read_string_def on_field_later[OF assms(2)])
next
  case False
  then have "unread (enc_string v tag @ post) s" using assms(3) by simp
  from string_field.rd_enc[OF assms(1) unread_append(1)[OF this]] unread_append(2)[OF this]
  show ?thesis by blast
qed

lemma read_string_map_optional:
  assumes "string_map_ok m" "later tag post"
    "unread ((if m \<noteq> [] then enc_string_map m tag else []) @ post) s"
  shows "\<exists>s'. read_string_map tag False [] s = (Inr m, s') \<and> unread post s'"
proof (cases "m = []")
  case True
  then show ?thesis using assms(3) by (simp add: read_map_def on_field_later[OF assms(2)])
next
  case False
  then have "unread (enc_string_map m tag @ post) s" using assms(3) by simp
  from string_map_field.rd_enc[OF assms(1) unread_append(1)[OF this]] unread_append(2)[OF this]
  show ?thesis by blast
qed

lemma ResponsePacket_readFrom_enc:
  assumes "response_ok p" "later 9 post" "unread (enc_response p @ post) s"
  shows "\<exists>s'. ResponsePacket_readFrom s = (Inr p, s') \<and> unread post s'"
proof -
  let ?m = "enc_Short (rs_iVersion p) 1 @ enc_Char (rs_cPacketType p) 2 @ enc_Int32 (rs_iRequestId p) 3 @
     enc_Int32 (rs_iMessageType p) 4 @ enc_Int32 (rs_iRet p) 5 @ enc_vector_Char (rs_sBuffer p) 6 @
     enc_string_map (rs_status p) 7"
  let ?d = "if rs_sResultDesc p \<noteq> [] then enc_string (rs_sResultDesc p) 8 else []"
  let ?c = "if rs_context p \<noteq> [] then enc_string_map (rs_context p) 9 else []"
  have ok: "string_map_ok (rs_context p)" "string_map_ok (rs_status p)"
    "length (rs_sResultDesc p) \<le> TARS_MAX_STRING_LENGTH" "length (rs_sBuffer p) < 2 ^ 32"
    using assms(1) by (simp_all add: response_ok_def)
  have "unread (?m @ (?d @ ?c @ post)) s" using assms(3) by (simp add: enc_response_def)
  then have m: "at_bytes ?m s" and u: "unread (?d @ ?c @ post) (adv (length ?m) s)"
    using unread_append[of ?m] by auto
  have "later 8 (?c @ post)"
    using later_mono[OF assms(2), of 8] later_field[OF string_map_field.enc_field[OF ok(1)], of 8 9 post] by auto
  then obtain s1 where s1: "read_string 8 False [] (adv (length ?m) s) = (Inr (rs_sResultDesc p), s1)"
    "unread (?c @ post) s1" using read_string_optional[OF ok(3) _ u] by blast
  obtain s2 where s2: "read_string_map 9 False [] s1 = (Inr (rs_context p), s2)" "unread post s2"
    using read_string_map_optional[OF ok(1) assms(2) s1(2)] by blast
  have "ResponsePacket_readFrom s = (Inr p, s2)"
    using m s1(1) s2(1) ok
    by (auto simp: ResponsePacket_readFrom_def Let_def dbind_def dret_def
      short_field.rd_enc char_field.rd_enc int32_field.rd_enc bytes_field.rd_enc
      string_map_field.rd_enc[OF ok(2)] add.assoc ResponsePacket_resetDefautlt_def)
  with s2(2) show ?thesis by blast
qed

section \<open>The packets survive the wire\<close>

text \<open>
  C16. A request that is encoded with \<^verbatim>\<open>writeTo\<close> into a fresh \<^verbatim>\<open>BufferWriterVector\<close> and decoded with
  \<^verbatim>\<open>readFrom\<close> from the bytes the writer hands out, followed by anything else, is the same request, and
  the reader stops right behind it.
\<close>

theorem RequestPacket_roundtrip:
  assumes "request_ok p"
  shows "\<exists>w bs. RequestPacket_writeTo (writeBuf buffer_resize) p BufferWriterVector_new = (Inr (), w)
    \<and> bs = fst (BufferWriterVector_getByteBuffer w)
    \<and> RequestPacket_readFrom (setBuffer (bs @ post)) = (Inr p, adv (length bs) (setBuffer (bs @ post)))"
proof -
  obtain w where w: "RequestPacket_writeTo (writeBuf buffer_resize) p BufferWriterVector_new = (Inr (), w)"
    "owned_inv w" "BufferWriter_getByteBuffer w = enc_request p"
    using owned.appendsE[OF owned.appends_request[OF assms], of BufferWriterVector_new] by auto
  then have "fst (BufferWriterVector_getByteBuffer w) = enc_request p" by (simp add: owned_swap)
  then show ?thesis using w(1) RequestPacket_readFrom_enc[OF assms at_bytes_setBuffer] by auto
qed

theorem RequestPacket_roundtrip_witness:
  "\<exists>w bs. RequestPacket_writeTo (writeBuf buffer_resize)
      \<lparr>rq_iVersion = 1, rq_cPacketType = 0, rq_iMessageType = 0, rq_iRequestId = 70000,
       rq_sServantName = [84, 46, 83], rq_sFuncName = [102], rq_sBuffer = [12, 0, 255], rq_iTimeout = 3000,
       rq_context = [([1], [2]), ([1, 0], [])], rq_status = []\<rparr> BufferWriterVector_new = (Inr (), w)
    \<and> bs = fst (BufferWriterVector_getByteBuffer w)
    \<and> RequestPacket_readFrom (setBuffer (bs @ [5])) =
      (Inr \<lparr>rq_iVersion = 1, rq_cPacketType = 0, rq_iMessageType = 0, rq_iRequestId = 70000,
       rq_sServantName = [84, 46, 83], rq_sFuncName = [102], rq_sBuffer = [12, 0, 255], rq_iTimeout = 3000,
       rq_context = [([1], [2]), ([1, 0], [])], rq_status = []\<rparr>, adv (length bs) (setBuffer (bs @ [5])))"
  by (rule RequestPacket_roundtrip)
    (simp add: request_ok_def string_map_ok_def map_wf_def TARS_MAX_STRING_LENGTH_def)

text \<open>
  C17. A response, with or without its optional fields, survives the wire too, also when fields of a
  later protocol version (tags above 9) follow it in the buffer.
\<close>

theorem ResponsePacket_roundtrip:
  assumes "response_ok p" "later 9 post"
  shows "\<exists>w bs s'. ResponsePacket_writeTo (writeBuf buffer_resize) p BufferWriterVector_new = (Inr (), w)
    \<and> bs = fst (BufferWriterVector_getByteBuffer w)
    \<and> ResponsePacket_readFrom (setBuffer (bs @ post)) = (Inr p, s') \<and> unread post s'"
proof -
  obtain w where w: "ResponsePacket_writeTo (writeBuf buffer_resize) p BufferWriterVector_new = (Inr (), w)"
    "owned_inv w" "BufferWriter_getByteBuffer w = enc_response p"
    using owned.appendsE[OF owned.appends_response[OF assms(1)], of BufferWriterVector_new] by auto
  then have "fst (BufferWriterVector_getByteBuffer w) = enc_response p" by (simp add: owned_swap)
  then show ?thesis
    using w(1) ResponsePacket_readFrom_enc[OF assms unread_setBuffer] by auto
qed

theorem ResponsePacket_roundtrip_witness:
  "\<exists>w bs s'. ResponsePacket_writeTo (writeBuf buffer_resize)
      \<lparr>rs_iVersion = 1, rs_cPacketType = 0, rs_iRequestId = 7, rs_iMessageType = 0, rs_iRet = - 1,
       rs_sBuffer = [], rs_status = [([1], [2])], rs_sResultDesc = [], rs_context = [([3], [])]\<rparr>
      BufferWriterVector_new = (Inr (), w)
    \<and> bs = fst (BufferWriterVector_getByteBuffer w)
    \<and> ResponsePacket_readFrom (setBuffer (bs @ head_bytes TarsHeadeZeroTag 10)) =
      (Inr \<lparr>rs_iVersion = 1, rs_cPacketType = 0, rs_iRequestId = 7, rs_iMessageType = 0, rs_iRet = - 1,
       rs_sBuffer = [], rs_status = [([1], [2])], rs_sResultDesc = [], rs_context = [([3], [])]\<rparr>, s')
    \<and> unread (head_bytes TarsHeadeZeroTag 10) s'"
proof (rule ResponsePacket_roundtrip)
  show "later 9 (head_bytes TarsHeadeZeroTag 10)"
    using later_field[of 10 "head_bytes TarsHeadeZeroTag 10" 9 "[]"]
      is_fieldI[OF _ _ skippable_fixed(7), of 10] by simp
qed (simp add: response_ok_def string_map_ok_def map_wf_def TARS_MAX_STRING_LENGTH_def)

text \<open>
  C20. On arbitrary bytes the packet readers return a packet or throw a decode exception; they leave
  the buffer alone, never move the cursor back and never further than \<open>2 ^ 32\<close> bytes behind the end.
\<close>

theorem packets_robust: "tame RequestPacket_readFrom \<and> tame ResponsePacket_readFrom"
  unfolding RequestPacket_readFrom_def ResponsePacket_readFrom_def Let_def
  by (intro conjI wf_intros)

end
