(* ===== verification/Network_Buffer.thy ===== *)
theory Network_Buffer
  imports Tars_Prelude
begin

text \<open>
  \<^verbatim>\<open>TC_NetWorkBuffer\<close> (\<^verbatim>\<open>util/src/tc_network_buffer.cpp\<close>, \<^verbatim>\<open>util/include/util/tc_network_buffer.h\<close>): the
  receive and send buffers of every connection, a list of memory blocks with read and write
  indices. The blocks are shared pointers, and the block kept in \<^verbatim>\<open>_defaultBuff\<close> is also on the list
  while it is in use, so the blocks live in a store and the list holds addresses.

  \<open>fresh\<close> is what the cells of a new array hold. Sizes are natural numbers; the two index functions
  take a \<^verbatim>\<open>uint32_t\<close>, and that truncation is written out.
\<close>

section \<open>A block of memory\<close>

datatype net_exn = TC_NetWorkBuffer_Exception | AssertionFailed | InvalidAccess

record Buffer =
  bf_buffer :: "byte list option"
  bf_readIdx :: nat
  bf_writeIdx :: nat
  bf_capacity :: nat

definition Buffer_new :: Buffer where
  "Buffer_new = \<lparr>bf_buffer = None, bf_readIdx = 0, bf_writeIdx = 0, bf_capacity = 1024 * 8\<rparr>"

definition bf_length :: "Buffer \<Rightarrow> nat" where
  "bf_length b = bf_writeIdx b - bf_readIdx b"

definition bf_left :: "Buffer \<Rightarrow> nat" where
  "bf_left b = bf_capacity b - bf_writeIdx b"

definition bf_empty :: "Buffer \<Rightarrow> bool" where
  "bf_empty b \<longleftrightarrow> bf_readIdx b = bf_writeIdx b"

definition bf_clear :: "Buffer \<Rightarrow> Buffer" where
  "bf_clear b = b\<lparr>bf_readIdx := 0, bf_writeIdx := 0\<rparr>"

text \<open>The memory behind \<open>_buffer\<close>, the \<open>n\<close> bytes at \<^verbatim>\<open>buffer()\<close>, and a \<^verbatim>\<open>memcpy\<close> to an offset.\<close>

definition bf_mem :: "Buffer \<Rightarrow> byte list" where
  "bf_mem b = (case bf_buffer b of None \<Rightarrow> [] | Some m \<Rightarrow> m)"

definition bf_data :: "Buffer \<Rightarrow> byte list" where
  "bf_data b = take (bf_length b) (drop (bf_readIdx b) (bf_mem b))"

definition mem_write :: "nat \<Rightarrow> byte list \<Rightarrow> byte list \<Rightarrow> byte list" where
  "mem_write i bs m = take i m @ bs @ drop (i + length bs) m"

definition bf_alloc :: "(nat \<Rightarrow> byte) \<Rightarrow> nat \<Rightarrow> Buffer \<Rightarrow> Buffer" where
  "bf_alloc fresh len b =
     (let b1 = b\<lparr>bf_readIdx := 0, bf_writeIdx := 0\<rparr>;
          b2 = (if bf_buffer b1 = None then b1\<lparr>bf_capacity := len\<rparr> else b1);
          b3 = (if bf_capacity b2 < len then b2\<lparr>bf_capacity := len, bf_buffer := None\<rparr> else b2)
      in if bf_buffer b3 = None then b3\<lparr>bf_buffer := Some (map fresh [0..<bf_capacity b3])\<rparr> else b3)"

definition bf_compact :: "(nat \<Rightarrow> byte) \<Rightarrow> Buffer \<Rightarrow> Buffer" where
  "bf_compact fresh b =
     (let b1 = (if bf_buffer b = None then bf_alloc fresh (bf_capacity b) b else b)
      in if bf_readIdx b1 \<noteq> 0 then
           b1\<lparr>bf_buffer := Some (mem_write 0 (bf_data b1) (bf_mem b1)),
              bf_writeIdx := bf_length b1, bf_readIdx := 0\<rparr>
         else b1)"

definition bf_expansion :: "(nat \<Rightarrow> byte) \<Rightarrow> nat \<Rightarrow> Buffer \<Rightarrow> Buffer" where
  "bf_expansion fresh len b =
     (if bf_capacity b < len then
        let p = map fresh [0..<len];
            b1 = (if bf_buffer b \<noteq> None \<and> bf_length b > 0
                  then b\<lparr>bf_buffer := Some (mem_write 0 (bf_data b) p),
                         bf_writeIdx := bf_length b, bf_readIdx := 0\<rparr>
                  else b\<lparr>bf_buffer := Some p\<rparr>)
        in b1\<lparr>bf_capacity := len\<rparr>
      else bf_compact fresh b)"

text \<open>
  \<^verbatim>\<open>Buffer::addBuffer\<close>. In the last branch \<open>_readIdx\<close> is reset before \<^verbatim>\<open>length()\<close> is used again for the new
  write index, so \<^verbatim>\<open>length()\<close> is the old write index there.
\<close>

definition bf_addBuffer :: "(nat \<Rightarrow> byte) \<Rightarrow> byte list \<Rightarrow> Buffer \<Rightarrow> Buffer" where
  "bf_addBuffer fresh buff b =
     (let len = length buff;
          b1 = (if bf_buffer b = None then bf_alloc fresh len b else b)
      in if bf_left b1 \<ge> len then
           b1\<lparr>bf_buffer := Some (mem_write (bf_writeIdx b1) buff (bf_mem b1)),
              bf_writeIdx := bf_writeIdx b1 + len\<rparr>
         else if bf_capacity b1 \<ge> len + bf_length b1 then
           b1\<lparr>bf_buffer := Some (mem_write (bf_length b1) buff (mem_write 0 (bf_data b1) (bf_mem b1))),
              bf_writeIdx := bf_length b1 + len, bf_readIdx := 0\<rparr>
         else
           let p = mem_write (bf_length b1) buff
                     (mem_write 0 (bf_data b1) (map fresh [0..<bf_length b1 + len]));
               b2 = b1\<lparr>bf_buffer := Some p, bf_readIdx := 0\<rparr>;
               b3 = b2\<lparr>bf_writeIdx := bf_length b2 + len\<rparr>
           in b3\<lparr>bf_capacity := bf_writeIdx b3\<rparr>)"

definition bf_replaceBuffer :: "byte list \<Rightarrow> Buffer \<Rightarrow> Buffer" where
  "bf_replaceBuffer buff b =
     b\<lparr>bf_buffer := Some buff, bf_readIdx := 0, bf_writeIdx := length buff, bf_capacity := length buff\<rparr>"

definition bf_setBuffer :: "(nat \<Rightarrow> byte) \<Rightarrow> byte list \<Rightarrow> Buffer \<Rightarrow> Buffer" where
  "bf_setBuffer fresh buff b =
     (let len = length buff;
          b1 = (if bf_buffer b = None \<or> bf_capacity b \<le> len then bf_alloc fresh len b else b);
          b2 = b1\<lparr>bf_readIdx := 0, bf_writeIdx := 0\<rparr>
      in b2\<lparr>bf_buffer := Some (mem_write 0 buff (bf_mem b2)), bf_writeIdx := len\<rparr>)"

definition bf_at :: "nat \<Rightarrow> Buffer \<Rightarrow> net_exn + byte" where
  "bf_at offset b =
     (if bf_readIdx b + offset \<ge> bf_writeIdx b then Inl TC_NetWorkBuffer_Exception
      else if bf_readIdx b + offset < length (bf_mem b) then Inr (bf_mem b ! (bf_readIdx b + offset))
      else Inl InvalidAccess)"

definition bf_addReadIdx :: "nat \<Rightarrow> Buffer \<Rightarrow> net_exn + Buffer" where
  "bf_addReadIdx n b =
     (let len = n mod 2 ^ 32
      in if bf_readIdx b + len > bf_writeIdx b then Inl TC_NetWorkBuffer_Exception
         else Inr (b\<lparr>bf_readIdx := bf_readIdx b + len\<rparr>))"

definition bf_addWriteIdx :: "nat \<Rightarrow> Buffer \<Rightarrow> net_exn + Buffer" where
  "bf_addWriteIdx n b =
     (let len = n mod 2 ^ 32
      in if len > bf_left b then Inl TC_NetWorkBuffer_Exception
         else Inr (b\<lparr>bf_writeIdx := bf_writeIdx b + len\<rparr>))"

subsection \<open>The invariant of a block\<close>

text \<open>The allocated memory has the recorded capacity and the data lies inside it.\<close>

definition bf_wf :: "Buffer \<Rightarrow> bool" where
  "bf_wf b \<longleftrightarrow>
     bf_readIdx b \<le> bf_writeIdx b \<and>
     (case bf_buffer b of None \<Rightarrow> bf_writeIdx b = 0
      | Some m \<Rightarrow> length m = bf_capacity b \<and> bf_writeIdx b \<le> bf_capacity b)"

lemma length_mem_write [simp]: "i + length bs \<le> length m \<Longrightarrow> length (mem_write i bs m) = length m"
  by (simp add: mem_write_def)

lemma take_mem_write [simp]:
  "i + length bs \<le> length m \<Longrightarrow> take (i + length bs) (mem_write i bs m) = take i m @ bs"
  by (simp add: mem_write_def)

lemma bf_wf_length [simp]: "bf_wf b \<Longrightarrow> length (bf_data b) = bf_length b"
  by (auto simp: bf_wf_def bf_data_def bf_length_def bf_mem_def split: option.splits)

lemma bf_data_clean:
  assumes "bf_readIdx b = 0" "bf_writeIdx b \<le> length (bf_mem b)"
  shows "bf_data b = take (bf_writeIdx b) (bf_mem b)"
  using assms by (simp add: bf_data_def bf_length_def)

lemma bf_new [simp]: "bf_wf Buffer_new" "bf_data Buffer_new = []" "bf_length Buffer_new = 0"
  by (simp_all add: bf_wf_def Buffer_new_def bf_data_def bf_length_def)

lemma bf_alloc_wf:
  assumes "bf_wf b"
  shows "bf_wf (bf_alloc fresh len b)" "bf_data (bf_alloc fresh len b) = []"
    "len \<le> bf_left (bf_alloc fresh len b)" "bf_buffer (bf_alloc fresh len b) \<noteq> None"
    "bf_writeIdx (bf_alloc fresh len b) = 0" "bf_readIdx (bf_alloc fresh len b) = 0"
  using assms
  by (auto simp: bf_alloc_def Let_def bf_wf_def bf_data_def bf_length_def bf_left_def)

lemma bf_data_moved:
  assumes "bf_wf b" "bf_buffer b = Some m"
  shows "take (bf_length b) (mem_write 0 (bf_data b) m) = bf_data b"
    "length (mem_write 0 (bf_data b) m) = length m" "bf_length b \<le> length m" "bf_mem b = m"
proof -
  show l: "bf_length b \<le> length m" using assms by (auto simp: bf_wf_def bf_length_def)
  show "bf_mem b = m" using assms(2) by (simp add: bf_mem_def)
  show "take (bf_length b) (mem_write 0 (bf_data b) m) = bf_data b"
    "length (mem_write 0 (bf_data b) m) = length m"
    using l assms(1) take_mem_write[of 0 "bf_data b" m] by simp_all
qed

text \<open>A block with \<open>readIdx = 0\<close> whose memory starts with \<open>bs\<close>.\<close>

lemma bf_packed:
  assumes "n \<le> length m" "length m = c"
  shows "bf_wf \<lparr>bf_buffer = Some m, bf_readIdx = 0, bf_writeIdx = n, bf_capacity = c\<rparr>"
    "bf_data \<lparr>bf_buffer = Some m, bf_readIdx = 0, bf_writeIdx = n, bf_capacity = c\<rparr> = take n m"
  using assms by (simp_all add: bf_wf_def bf_data_def bf_length_def bf_mem_def)

lemma Buffer_update:
  "b\<lparr>bf_buffer := m, bf_readIdx := r, bf_writeIdx := w\<rparr>
     = \<lparr>bf_buffer = m, bf_readIdx = r, bf_writeIdx = w, bf_capacity = bf_capacity b\<rparr>"
  "b\<lparr>bf_buffer := m, bf_readIdx := r, bf_writeIdx := w, bf_capacity := c\<rparr>
     = \<lparr>bf_buffer = m, bf_readIdx = r, bf_writeIdx = w, bf_capacity = c\<rparr>"
  by simp_all

lemma bf_compact_eq:
  "bf_buffer b = None \<Longrightarrow> bf_wf b \<Longrightarrow> bf_compact fresh b = bf_alloc fresh (bf_capacity b) b"
  "bf_buffer b = Some m \<Longrightarrow> bf_readIdx b = 0 \<Longrightarrow> bf_compact fresh b = b"
  "bf_buffer b = Some m \<Longrightarrow> bf_readIdx b \<noteq> 0 \<Longrightarrow> bf_compact fresh b =
     \<lparr>bf_buffer = Some (mem_write 0 (bf_data b) m), bf_readIdx = 0, bf_writeIdx = bf_length b,
      bf_capacity = bf_capacity b\<rparr>"
  using bf_alloc_wf(6)[of b fresh "bf_capacity b"]
  by (simp_all add: bf_compact_def Let_def bf_mem_def)

lemma bf_compact_wf:
  assumes "bf_wf b"
  shows "bf_wf (bf_compact fresh b) \<and> bf_data (bf_compact fresh b) = bf_data b
    \<and> bf_left (bf_compact fresh b) = bf_capacity b - bf_length b \<and> bf_buffer (bf_compact fresh b) \<noteq> None"
proof (cases "bf_buffer b")
  case None
  then have "bf_data b = []" "bf_length b = 0"
    using assms by (auto simp: bf_wf_def bf_data_def bf_length_def)
  moreover have "bf_left (bf_alloc fresh (bf_capacity b) b) = bf_capacity b"
    using None by (simp add: bf_alloc_def Let_def bf_left_def)
  ultimately show ?thesis
    using None assms by (simp add: bf_compact_eq(1) bf_alloc_wf)
next
  case (Some m)
  show ?thesis
  proof (cases "bf_readIdx b = 0")
    case True
    then show ?thesis using Some assms by (simp add: bf_compact_eq(2) bf_left_def bf_length_def)
  next
    case False
    note mv = bf_data_moved[OF assms Some]
    have "length m = bf_capacity b" using Some assms by (simp add: bf_wf_def)
    then show ?thesis
      using Some False mv bf_packed[of "bf_length b" "mem_write 0 (bf_data b) m" "bf_capacity b"]
      by (simp add: bf_compact_eq(3) bf_left_def)
  qed
qed

lemma bf_expansion_wf:
  assumes "bf_wf b"
  shows "bf_wf (bf_expansion fresh len b) \<and> bf_data (bf_expansion fresh len b) = bf_data b"
proof (cases "bf_capacity b < len \<and> bf_buffer b \<noteq> None \<and> bf_length b > 0")
  case True
  then obtain m where m: "bf_buffer b = Some m" by auto
  have l: "bf_length b \<le> len" using True m assms by (auto simp: bf_wf_def bf_length_def)
  have "bf_expansion fresh len b =
      \<lparr>bf_buffer = Some (mem_write 0 (bf_data b) (map fresh [0..<len])), bf_readIdx = 0,
       bf_writeIdx = bf_length b, bf_capacity = len\<rparr>"
    using True by (simp add: bf_expansion_def Let_def)
  then show ?thesis
    using l assms take_mem_write[of 0 "bf_data b" "map fresh [0..<len]"]
      bf_packed[of "bf_length b" "mem_write 0 (bf_data b) (map fresh [0..<len])" len] by simp
next
  case False
  show ?thesis
  proof (cases "bf_capacity b < len")
    case True
    then have e: "bf_expansion fresh len b = b\<lparr>bf_buffer := Some (map fresh [0..<len]), bf_capacity := len\<rparr>"
      using False by (auto simp: bf_expansion_def Let_def)
    have "bf_readIdx b = bf_writeIdx b" "bf_writeIdx b \<le> len"
      using False True assms by (auto simp: bf_wf_def bf_length_def split: option.splits)
    then show ?thesis using e by (simp add: bf_wf_def bf_data_def bf_length_def)
  next
    case False
    then show ?thesis using bf_compact_wf[OF assms] by (simp add: bf_expansion_def)
  qed
qed

lemma bf_expansion_left:
  "bf_wf b \<Longrightarrow> bf_data b = [] \<Longrightarrow> bf_readIdx b = 0 \<Longrightarrow> len \<le> bf_left (bf_expansion fresh len b)"
proof (cases "bf_capacity b < len")
  case False
  assume "bf_wf b" "bf_data b = []"
  then have "bf_length b = 0" using bf_wf_length[of b] by simp
  then show ?thesis using False bf_compact_wf[OF \<open>bf_wf b\<close>] by (simp add: bf_expansion_def)
next
  case True
  assume b: "bf_wf b" "bf_data b = []" "bf_readIdx b = 0"
  then have "bf_length b = 0" using bf_wf_length[of b] by simp
  then show ?thesis using True b by (simp add: bf_expansion_def Let_def bf_left_def bf_length_def)
qed

lemma bf_put_wf:
  assumes "bf_wf b" "bf_buffer b = Some m" "length buff \<le> bf_left b"
  shows "bf_wf (b\<lparr>bf_buffer := Some (mem_write (bf_writeIdx b) buff m),
                  bf_writeIdx := bf_writeIdx b + length buff\<rparr>)"
    "bf_data (b\<lparr>bf_buffer := Some (mem_write (bf_writeIdx b) buff m),
                  bf_writeIdx := bf_writeIdx b + length buff\<rparr>) = bf_data b @ buff"
proof -
  have l: "bf_writeIdx b + length buff \<le> length m" "length m = bf_capacity b"
    "bf_readIdx b \<le> bf_writeIdx b" "bf_writeIdx b \<le> bf_capacity b"
    using assms by (auto simp: bf_wf_def bf_left_def)
  then show "bf_wf (b\<lparr>bf_buffer := Some (mem_write (bf_writeIdx b) buff m),
                  bf_writeIdx := bf_writeIdx b + length buff\<rparr>)"
    by (simp add: bf_wf_def)
  have "take (bf_writeIdx b + length buff - bf_readIdx b) (drop (bf_readIdx b) (mem_write (bf_writeIdx b) buff m))
      = drop (bf_readIdx b) (take (bf_writeIdx b) m) @ buff"
    using l take_mem_write[of "bf_writeIdx b" buff m] by (simp add: drop_take[symmetric])
  then show "bf_data (b\<lparr>bf_buffer := Some (mem_write (bf_writeIdx b) buff m),
                  bf_writeIdx := bf_writeIdx b + length buff\<rparr>) = bf_data b @ buff"
    using assms(2) by (simp add: bf_data_def bf_length_def bf_mem_def drop_take)
qed

lemma bf_addBuffer_wf:
  assumes "bf_wf b" "bf_readIdx b = 0 \<or> bf_length b + length buff \<le> bf_capacity b"
  shows "bf_wf (bf_addBuffer fresh buff b) \<and> bf_data (bf_addBuffer fresh buff b) = bf_data b @ buff"
proof (cases "bf_buffer b")
  case None
  let ?a = "bf_alloc fresh (length buff) b"
  have a: "bf_wf ?a" "bf_data ?a = []" "length buff \<le> bf_left ?a" "bf_buffer ?a \<noteq> None"
    using bf_alloc_wf[OF assms(1)] by blast+
  then obtain m where m: "bf_buffer ?a = Some m" by auto
  have d: "bf_data b = []" using None by (simp add: bf_data_def bf_mem_def)
  show ?thesis
    using bf_put_wf[OF a(1) m a(3)] a(2,3) None d m by (simp add: bf_addBuffer_def Let_def bf_mem_def)
next
  case (Some m)
  note mv = bf_data_moved[OF assms(1) Some]
  have lm: "length m = bf_capacity b" using Some assms(1) by (simp add: bf_wf_def)
  consider "length buff \<le> bf_left b" | "bf_left b < length buff" "length buff + bf_length b \<le> bf_capacity b"
    | "bf_left b < length buff" "bf_capacity b < length buff + bf_length b" by linarith
  then show ?thesis
  proof cases
    case 1
    then show ?thesis
      using bf_put_wf[OF assms(1) Some 1] Some by (simp add: bf_addBuffer_def Let_def bf_mem_def)
  next
    case 2
    let ?m = "mem_write (bf_length b) buff (mem_write 0 (bf_data b) m)"
    have "take (bf_length b + length buff) ?m = bf_data b @ buff"
      using 2 mv lm by (subst take_mem_write) (auto simp: add.commute)
    moreover have "bf_addBuffer fresh buff b =
        \<lparr>bf_buffer = Some ?m, bf_readIdx = 0, bf_writeIdx = bf_length b + length buff,
         bf_capacity = bf_capacity b\<rparr>"
      using Some 2 mv(4) by (simp add: bf_addBuffer_def Let_def)
    ultimately show ?thesis
      using 2 mv lm bf_packed[of "bf_length b + length buff" ?m "bf_capacity b"] by simp
  next
    case 3
    let ?n = "bf_length b + length buff"
    let ?p = "mem_write 0 (bf_data b) (map fresh [0..<?n])"
    let ?m = "mem_write (bf_length b) buff ?p"
    have r: "bf_readIdx b = 0" using assms(2) 3 by simp
    have p: "length ?p = ?n" "take (bf_length b) ?p = bf_data b"
      using assms(1) take_mem_write[of 0 "bf_data b" "map fresh [0..<?n]"] by simp_all
    then have lm: "length ?m = ?n" by simp
    moreover have "?m = bf_data b @ buff"
      using p by (simp add: mem_write_def[of "bf_length b"])
    moreover have "bf_addBuffer fresh buff b =
        \<lparr>bf_buffer = Some ?m, bf_readIdx = 0, bf_writeIdx = ?n, bf_capacity = ?n\<rparr>"
      using Some 3 r by (simp add: bf_addBuffer_def Let_def bf_length_def)
    ultimately show ?thesis using bf_packed[of ?n ?m ?n] assms(1) by simp
  qed
qed

text \<open>
  \<^verbatim>\<open>Buffer::addBuffer\<close> corrupts a partly read block that is too small: it resets the read index
  before it computes the new write index from \<^verbatim>\<open>length()\<close>, so write index and capacity exceed the new
  allocation by the number of bytes already read.
\<close>

theorem addBuffer_overstates_capacity:
  assumes "bf_wf b" "bf_buffer b \<noteq> None" "0 < bf_readIdx b" "bf_capacity b < bf_length b + length buff"
  shows "bf_capacity (bf_addBuffer fresh buff b) = length (bf_mem (bf_addBuffer fresh buff b)) + bf_readIdx b
    \<and> bf_writeIdx (bf_addBuffer fresh buff b) = bf_capacity (bf_addBuffer fresh buff b)"
proof -
  obtain m where m: "bf_buffer b = Some m" using assms(2) by auto
  let ?n = "bf_length b + length buff"
  let ?m = "mem_write (bf_length b) buff (mem_write 0 (bf_data b) (map fresh [0..<?n]))"
  have "length ?m = ?n" using assms(1) by simp
  moreover have "bf_left b < length buff"
    using assms m by (auto simp: bf_wf_def bf_left_def bf_length_def)
  then have "bf_addBuffer fresh buff b =
      \<lparr>bf_buffer = Some ?m, bf_readIdx = 0, bf_writeIdx = bf_writeIdx b + length buff,
       bf_capacity = bf_writeIdx b + length buff\<rparr>"
    using m assms(4) by (simp add: bf_addBuffer_def Let_def bf_length_def)
  moreover have "bf_length b + bf_readIdx b = bf_writeIdx b"
    using assms(1) by (simp add: bf_wf_def bf_length_def)
  ultimately show ?thesis by (simp add: bf_mem_def)
qed

theorem addBuffer_overstates_capacity_witness:
  "bf_capacity (bf_addBuffer (\<lambda>_. 0) [7, 8] \<lparr>bf_buffer = Some [1, 2], bf_readIdx = 1, bf_writeIdx = 2, bf_capacity = 2\<rparr>) = 4
   \<and> length (bf_mem (bf_addBuffer (\<lambda>_. 0) [7, 8]
       \<lparr>bf_buffer = Some [1, 2], bf_readIdx = 1, bf_writeIdx = 2, bf_capacity = 2\<rparr>)) = 3"
proof -
  let ?b = "\<lparr>bf_buffer = Some [1, 2], bf_readIdx = 1, bf_writeIdx = 2, bf_capacity = 2\<rparr> :: Buffer"
  have "length (bf_mem (bf_addBuffer (\<lambda>_. 0) [7, 8] ?b)) = 3"
    by (simp add: bf_addBuffer_def Let_def bf_left_def bf_length_def bf_mem_def mem_write_def bf_data_def)
  then show ?thesis
    using addBuffer_overstates_capacity[of ?b "[7, 8]" "\<lambda>_. 0"]
    by (simp add: bf_wf_def bf_length_def)
qed

section \<open>The list of blocks\<close>

record TC_NetWorkBuffer =
  nb_store :: "nat \<Rightarrow> Buffer"
  nb_next :: nat
  nb_list :: "nat list"
  nb_length :: nat
  nb_default :: "nat option"

definition NetWorkBuffer_new :: TC_NetWorkBuffer where
  "NetWorkBuffer_new = \<lparr>nb_store = (\<lambda>_. Buffer_new), nb_next = 0, nb_list = [], nb_length = 0, nb_default = None\<rparr>"

text \<open>\<^verbatim>\<open>make_shared<Buffer>()\<close> followed by an initialisation: a new address.\<close>

definition nb_alloc :: "Buffer \<Rightarrow> TC_NetWorkBuffer \<Rightarrow> nat \<times> TC_NetWorkBuffer" where
  "nb_alloc b nb = (nb_next nb, nb\<lparr>nb_store := (nb_store nb)(nb_next nb := b), nb_next := Suc (nb_next nb)\<rparr>)"

definition nb_update :: "nat \<Rightarrow> Buffer \<Rightarrow> TC_NetWorkBuffer \<Rightarrow> TC_NetWorkBuffer" where
  "nb_update a b nb = nb\<lparr>nb_store := (nb_store nb)(a := b)\<rparr>"

text \<open>\<^verbatim>\<open>addBuffer(const shared_ptr<Buffer>\&)\<close> with a block nobody else holds.\<close>

definition nb_addBuffer_ptr :: "Buffer \<Rightarrow> TC_NetWorkBuffer \<Rightarrow> TC_NetWorkBuffer" where
  "nb_addBuffer_ptr buff nb =
     (if bf_empty buff then nb
      else case nb_alloc buff nb of (a, nb1) \<Rightarrow>
        nb1\<lparr>nb_list := nb_list nb1 @ [a], nb_length := nb_length nb1 + bf_length buff\<rparr>)"

definition nb_getOrCreateBuffer ::
    "(nat \<Rightarrow> byte) \<Rightarrow> nat \<Rightarrow> nat \<Rightarrow> TC_NetWorkBuffer \<Rightarrow> net_exn + nat \<times> TC_NetWorkBuffer" where
  "nb_getOrCreateBuffer fresh minCapacity maxCapacity nb =
     (if \<not> minCapacity \<le> maxCapacity then Inl AssertionFailed
      else if nb_list nb = [] then
        (case nb_default nb of
           None \<Rightarrow>
             (case nb_alloc (bf_alloc fresh maxCapacity Buffer_new) nb of (a, nb1) \<Rightarrow>
                Inr (a, nb1\<lparr>nb_default := Some a, nb_list := [a]\<rparr>))
         | Some a \<Rightarrow>
             Inr (a, (nb_update a (bf_expansion fresh maxCapacity (bf_clear (nb_store nb a))) nb)
                       \<lparr>nb_list := [a]\<rparr>))
      else
        let a = last (nb_list nb); buff = nb_store nb a
        in if bf_left buff < minCapacity then
             if bf_capacity buff - bf_length buff \<ge> minCapacity \<and> bf_length buff * 3 < bf_capacity buff
             then Inr (a, nb_update a (bf_compact fresh buff) nb)
             else (case nb_alloc (bf_alloc fresh maxCapacity Buffer_new) nb of (a', nb1) \<Rightarrow>
                     Inr (a', nb1\<lparr>nb_list := nb_list nb1 @ [a']\<rparr>))
           else Inr (a, nb))"

text \<open>\<^verbatim>\<open>addBuffer(const char*, size_t)\<close>; \<open>capacity * 1.5\<close> is exact below \<open>2 ^ 53\<close>.\<close>

definition nb_addBuffer :: "(nat \<Rightarrow> byte) \<Rightarrow> byte list \<Rightarrow> TC_NetWorkBuffer \<Rightarrow> net_exn + TC_NetWorkBuffer" where
  "nb_addBuffer fresh buff nb =
     (if buff = [] then Inr nb
      else
        let capacity = (if length buff < 1024 then 1024 else length buff)
        in case nb_getOrCreateBuffer fresh capacity (capacity * 3 div 2) nb of
             Inl e \<Rightarrow> Inl e
           | Inr (a, nb1) \<Rightarrow>
               let dat = nb_store nb1 a
               in if \<not> bf_left dat \<ge> length buff then Inl AssertionFailed
                  else case bf_addWriteIdx (length buff)
                         (dat\<lparr>bf_buffer := Some (mem_write (bf_writeIdx dat) buff (bf_mem dat))\<rparr>) of
                         Inl e \<Rightarrow> Inl e
                       | Inr dat' \<Rightarrow> Inr ((nb_update a dat' nb1)\<lparr>nb_length := nb_length nb1 + length buff\<rparr>))"

definition nb_addLength :: "nat \<Rightarrow> TC_NetWorkBuffer \<Rightarrow> TC_NetWorkBuffer" where
  "nb_addLength n nb = nb\<lparr>nb_length := nb_length nb + n\<rparr>"

definition nb_subLength :: "nat \<Rightarrow> TC_NetWorkBuffer \<Rightarrow> net_exn + TC_NetWorkBuffer" where
  "nb_subLength n nb =
     (if nb_length nb \<ge> n then Inr (nb\<lparr>nb_length := nb_length nb - n\<rparr>) else Inl AssertionFailed)"

definition nb_compute :: "TC_NetWorkBuffer \<Rightarrow> TC_NetWorkBuffer" where
  "nb_compute nb =
     (let l = dropWhile (\<lambda>a. bf_empty (nb_store nb a)) (nb_list nb)
      in nb\<lparr>nb_list := l, nb_length := sum_list (map (\<lambda>a. bf_length (nb_store nb a)) l)\<rparr>)"

definition nb_clearBuffers :: "TC_NetWorkBuffer \<Rightarrow> TC_NetWorkBuffer" where
  "nb_clearBuffers nb = nb\<lparr>nb_list := [], nb_length := 0\<rparr>"

definition nb_empty :: "TC_NetWorkBuffer \<Rightarrow> bool" where
  "nb_empty nb \<longleftrightarrow> nb_length nb = 0"

definition nb_getBuffer :: "TC_NetWorkBuffer \<Rightarrow> nat option" where
  "nb_getBuffer nb = (case nb_list nb of [] \<Rightarrow> None | a # _ \<Rightarrow> Some a)"

text \<open>\<^verbatim>\<open>getBufferPointer()\<close>: the first block's data, or the null pointer.\<close>

definition nb_getBufferPointer :: "TC_NetWorkBuffer \<Rightarrow> (net_exn + byte list) option" where
  "nb_getBufferPointer nb =
     (if nb_empty nb then None
      else Some (case nb_list nb of [] \<Rightarrow> Inl InvalidAccess | a # _ \<Rightarrow> Inr (bf_data (nb_store nb a))))"

text \<open>\<^verbatim>\<open>getBuffers(char *buffer, size_t length)\<close>: the bytes that are copied to \<open>buffer\<close>.\<close>

fun getBuffers_loop :: "(nat \<Rightarrow> Buffer) \<Rightarrow> nat list \<Rightarrow> nat \<Rightarrow> byte list" where
  "getBuffers_loop st [] left = []"
| "getBuffers_loop st (a # as) left =
     (if left = 0 then []
      else let len = min left (bf_length (st a))
           in take len (drop (bf_readIdx (st a)) (bf_mem (st a))) @ getBuffers_loop st as (left - len))"

definition nb_getBuffers_n :: "nat \<Rightarrow> TC_NetWorkBuffer \<Rightarrow> net_exn + byte list" where
  "nb_getBuffers_n n nb =
     (if n \<le> nb_length nb then Inr (getBuffers_loop (nb_store nb) (nb_list nb) n) else Inl AssertionFailed)"

text \<open>\<^verbatim>\<open>getBuffers()\<close> and \<^verbatim>\<open>getBuffersString()\<close>: a zero-filled array of \<open>_length\<close> bytes is overwritten.\<close>

definition nb_getBuffers :: "TC_NetWorkBuffer \<Rightarrow> net_exn + byte list" where
  "nb_getBuffers nb =
     (if nb_length nb > 0 then
        (case nb_getBuffers_n (nb_length nb) nb of
           Inl e \<Rightarrow> Inl e | Inr bs \<Rightarrow> Inr (mem_write 0 bs (replicate (nb_length nb) 0)))
      else Inr [])"

definition nb_getBuffers_ptr :: "(nat \<Rightarrow> byte) \<Rightarrow> Buffer \<Rightarrow> TC_NetWorkBuffer \<Rightarrow> net_exn + Buffer" where
  "nb_getBuffers_ptr fresh buff nb =
     (let b1 = bf_alloc fresh (nb_length nb) buff
      in case nb_getBuffers_n (nb_length nb) nb of
           Inl e \<Rightarrow> Inl e
         | Inr bs \<Rightarrow> bf_addWriteIdx (nb_length nb)
                       (b1\<lparr>bf_buffer := Some (mem_write (bf_readIdx b1) bs (bf_mem b1))\<rparr>))"

definition nb_mergeBuffers :: "(nat \<Rightarrow> byte) \<Rightarrow> TC_NetWorkBuffer \<Rightarrow> net_exn + TC_NetWorkBuffer" where
  "nb_mergeBuffers fresh nb =
     (if length (nb_list nb) > 1 then
        (case nb_getBuffers_ptr fresh Buffer_new nb of
           Inl e \<Rightarrow> Inl e
         | Inr b \<Rightarrow> (case nb_alloc b nb of (a, nb1) \<Rightarrow> Inr (nb1\<lparr>nb_list := [a]\<rparr>)))
      else Inr nb)"

text \<open>\<^verbatim>\<open>bool getHeader(len, buffer)\<close>: \<open>None\<close> is the result false, with \<open>buffer\<close> unchanged.\<close>

definition nb_getHeader :: "nat \<Rightarrow> TC_NetWorkBuffer \<Rightarrow> net_exn + byte list option" where
  "nb_getHeader len nb =
     (if nb_length nb < len then Inr None
      else if len = 0 then Inr (Some [])
      else case nb_getBuffers_n len nb of
             Inl e \<Rightarrow> Inl e | Inr bs \<Rightarrow> Inr (Some (mem_write 0 bs (replicate len 0))))"

fun moveHeader_list ::
    "(nat \<Rightarrow> Buffer) \<Rightarrow> nat list \<Rightarrow> nat \<Rightarrow> nat \<Rightarrow> net_exn + bool \<times> (nat \<Rightarrow> Buffer) \<times> nat list \<times> nat" where
  "moveHeader_list st [] len_all len =
     (if len_all < len then Inr (False, st, [], len_all)
      else if len = 0 then Inr (True, st, [], len_all)
      else Inl InvalidAccess)"
| "moveHeader_list st (a # as) len_all len =
     (if len_all < len then Inr (False, st, a # as, len_all)
      else if len = 0 then Inr (True, st, a # as, len_all)
      else
        let left = bf_length (st a)
        in if left > len then
             (case bf_addReadIdx len (st a) of
                Inl e \<Rightarrow> Inl e | Inr b \<Rightarrow> Inr (True, st(a := b), a # as, len_all - len))
           else if left = len then
             (case bf_addReadIdx len (st a) of
                Inl e \<Rightarrow> Inl e | Inr b \<Rightarrow> Inr (True, st(a := b), as, len_all - len))
           else
             (case bf_addReadIdx left (st a) of
                Inl e \<Rightarrow> Inl e | Inr b \<Rightarrow> moveHeader_list (st(a := b)) as (len_all - left) (len - left)))"

definition nb_moveHeader :: "nat \<Rightarrow> TC_NetWorkBuffer \<Rightarrow> net_exn + bool \<times> TC_NetWorkBuffer" where
  "nb_moveHeader len nb =
     (case moveHeader_list (nb_store nb) (nb_list nb) (nb_length nb) len of
        Inl e \<Rightarrow> Inl e
      | Inr (r, st, l, n) \<Rightarrow> Inr (r, nb\<lparr>nb_store := st, nb_list := l, nb_length := n\<rparr>))"

section \<open>Packets with a length prefix\<close>

datatype PACKET_TYPE = PACKET_LESS | PACKET_FULL | PACKET_FULL_CLOSE | PACKET_ERR

text \<open>\<^verbatim>\<open>getValue<T>()\<close> for the unsigned types of \<open>k\<close> bytes, \<open>k\<close> being 1, 2 or 4.\<close>

definition nb_getValue :: "nat \<Rightarrow> TC_NetWorkBuffer \<Rightarrow> net_exn + nat" where
  "nb_getValue k nb =
     (case nb_getHeader k nb of
        Inl e \<Rightarrow> Inl e
      | Inr None \<Rightarrow> Inr 0
      | Inr (Some bs) \<Rightarrow>
          Inr (if k = 2 then unat (ntohs (le_word bs))
               else if k = 4 then unat (ntohl (le_word bs))
               else unat (le_word bs :: byte)))"

text \<open>\<^verbatim>\<open>parseBuffer<T>(buffer, minLength, maxLength)\<close>; \<open>buffer\<close> is the output parameter.\<close>

definition nb_parseBuffer ::
    "nat \<Rightarrow> byte list \<Rightarrow> nat \<Rightarrow> nat \<Rightarrow> TC_NetWorkBuffer \<Rightarrow> net_exn + PACKET_TYPE \<times> byte list \<times> TC_NetWorkBuffer" where
  "nb_parseBuffer k buffer minLength0 maxLength nb =
     (if nb_length nb < k then Inr (PACKET_LESS, buffer, nb)
      else
        let minLength = (if minLength0 < k then k else minLength0)
        in case nb_getValue k nb of
             Inl e \<Rightarrow> Inl e
           | Inr len \<Rightarrow>
               if len < minLength \<or> len > maxLength then Inr (PACKET_ERR, buffer, nb)
               else if nb_length nb < len then Inr (PACKET_LESS, buffer, nb)
               else case nb_moveHeader k nb of
                 Inl e \<Rightarrow> Inl e
               | Inr (_, nb1) \<Rightarrow>
                   (case nb_getHeader (len - k) nb1 of
                      Inl e \<Rightarrow> Inl e
                    | Inr None \<Rightarrow> Inr (PACKET_LESS, buffer, nb1)
                    | Inr (Some out) \<Rightarrow>
                        (case nb_moveHeader (len - k) nb1 of
                           Inl e \<Rightarrow> Inl e
                         | Inr (_, nb2) \<Rightarrow> Inr (PACKET_FULL, out, nb2))))"

text \<open>\<^verbatim>\<open>parseEcho\<close>: everything that is there is one packet.\<close>

definition nb_parseEcho ::
    "byte list \<Rightarrow> TC_NetWorkBuffer \<Rightarrow> net_exn + PACKET_TYPE \<times> byte list \<times> TC_NetWorkBuffer" where
  "nb_parseEcho out nb =
     (if nb_empty nb then Inr (PACKET_LESS, out, nb)
      else case nb_getBuffers nb of
             Inl e \<Rightarrow> if e = TC_NetWorkBuffer_Exception then Inr (PACKET_ERR, out, nb) else Inl e
           | Inr bs \<Rightarrow> Inr (PACKET_FULL, bs, nb_clearBuffers nb))"

section \<open>The byte stream a buffer stands for\<close>

definition nb_contents :: "TC_NetWorkBuffer \<Rightarrow> byte list" where
  "nb_contents nb = concat (map (\<lambda>a. bf_data (nb_store nb a)) (nb_list nb))"

text \<open>
  Every block is well-formed and has memory once it is allocated, no block is on the list twice, addresses are allocated, and \<open>_length\<close> is
  the number of bytes in the blocks.
\<close>

definition nb_wf :: "TC_NetWorkBuffer \<Rightarrow> bool" where
  "nb_wf nb \<longleftrightarrow> distinct (nb_list nb) \<and> (\<forall>a. bf_wf (nb_store nb a)) \<and>
     (\<forall>a < nb_next nb. bf_buffer (nb_store nb a) \<noteq> None) \<and>
     (\<forall>a \<in> set (nb_list nb). a < nb_next nb) \<and> (\<forall>a. nb_default nb = Some a \<longrightarrow> a < nb_next nb) \<and>
     nb_length nb = sum_list (map (\<lambda>a. bf_length (nb_store nb a)) (nb_list nb))"

lemma length_concat_data:
  "(\<And>a. bf_wf (st a)) \<Longrightarrow> length (concat (map (\<lambda>a. bf_data (st a)) l)) = sum_list (map (\<lambda>a. bf_length (st a)) l)"
  by (induction l) simp_all

lemma nb_length_contents: "nb_wf nb \<Longrightarrow> nb_length nb = length (nb_contents nb)"
  using length_concat_data[of "nb_store nb" "nb_list nb"] by (simp add: nb_wf_def nb_contents_def)

lemma nb_new [simp]: "nb_wf NetWorkBuffer_new" "nb_contents NetWorkBuffer_new = []"
  by (simp_all add: nb_wf_def nb_contents_def NetWorkBuffer_new_def)

lemma map_store_other: "a \<notin> set l \<Longrightarrow> map (\<lambda>x. f ((st(a := b)) x)) l = map (\<lambda>x. f (st x)) l"
  by (induction l) auto

lemma bf_addReadIdx_wf:
  assumes "bf_wf b" "n \<le> bf_length b" "n < 2 ^ 32"
  shows "\<exists>b'. bf_addReadIdx n b = Inr b' \<and> bf_wf b' \<and> bf_data b' = drop n (bf_data b)
    \<and> bf_length b' = bf_length b - n \<and> bf_buffer b' = bf_buffer b"
proof -
  have "bf_readIdx b + n \<le> bf_writeIdx b" using assms by (auto simp: bf_wf_def bf_length_def)
  then show ?thesis
    using assms by (auto simp: bf_addReadIdx_def Let_def bf_wf_def bf_data_def bf_length_def bf_mem_def
        drop_take add.commute split: option.splits)
qed

lemma getBuffers_loop_take:
  assumes that: "\<And>a. bf_wf (st a)"
  shows "getBuffers_loop st l n = take n (concat (map (\<lambda>a. bf_data (st a)) l))"
proof (induction l arbitrary: n)
  case (Cons a l)
  have "take (min n (bf_length (st a))) (drop (bf_readIdx (st a)) (bf_mem (st a))) = take n (bf_data (st a))"
    by (simp add: bf_data_def)
  moreover have "length (bf_data (st a)) = bf_length (st a)" using that by simp
  ultimately show ?case by (auto simp: Cons.IH Let_def min_def)
qed simp

lemma moveHeader_list_drop:
  assumes "\<And>a. bf_wf (st a)" "distinct l" "n = sum_list (map (\<lambda>a. bf_length (st a)) l)" "len \<le> n" "n < 2 ^ 32"
  shows "\<exists>st' l'. moveHeader_list st l n len = Inr (True, st', l', n - len)
    \<and> concat (map (\<lambda>a. bf_data (st' a)) l') = drop len (concat (map (\<lambda>a. bf_data (st a)) l))
    \<and> distinct l' \<and> set l' \<subseteq> set l \<and> (\<forall>a. bf_wf (st' a))
    \<and> n - len = sum_list (map (\<lambda>a. bf_length (st' a)) l') \<and> (\<forall>a. bf_buffer (st' a) = bf_buffer (st a))"
  using assms
proof (induction l arbitrary: st n len)
  case (Cons a l)
  let ?k = "bf_length (st a)"
  have l: "length (bf_data (st a)) = ?k" and n: "n = ?k + sum_list (map (\<lambda>a. bf_length (st a)) l)"
    using Cons.prems by simp_all
  have a: "a \<notin> set l" "distinct l" using Cons.prems(2) by auto
  show ?case
  proof (cases "len = 0")
    case True
    then show ?thesis using Cons.prems by (auto intro!: exI[of _ st] exI[of _ "a # l"])
  next
    case False
    have "min len ?k < 2 ^ 32" using n Cons.prems(5) by simp
    then obtain b where b: "bf_addReadIdx (min len ?k) (st a) = Inr b" "bf_wf b"
      "bf_data b = drop (min len ?k) (bf_data (st a))" "bf_length b = ?k - min len ?k"
      "bf_buffer b = bf_buffer (st a)"
      using bf_addReadIdx_wf[of "st a" "min len ?k"] Cons.prems(1) by auto
    let ?st = "st(a := b)"
    have same: "bf_buffer (?st x) = bf_buffer (st x)" for x using b(5) by simp
    have wf: "bf_wf (?st x)" for x using b(2) Cons.prems(1) by simp
    note other = map_store_other[OF a(1), of bf_data st b] map_store_other[OF a(1), of bf_length st b]
    consider "len < ?k" | "len = ?k" | "?k < len" by linarith
    then show ?thesis
    proof cases
      case 1
      then show ?thesis
        using b(1-4) False Cons.prems(2,4) l n wf
        by (intro exI[of _ ?st] exI[of _ "a # l"]) (simp add: Let_def other same fun_upd_same del: fun_upd_apply)
    next
      case 2
      then show ?thesis
        using b(1-4) False Cons.prems(2,4) l n wf a
        by (intro exI[of _ ?st] exI[of _ l]) (auto simp: Let_def other same fun_upd_same simp del: fun_upd_apply)
    next
      case 3
      have q: "len - ?k \<le> n - ?k" "n - ?k < 2 ^ 32" using Cons.prems(4,5) by simp_all
      have "n - ?k = sum_list (map (\<lambda>a. bf_length (?st a)) l)" using n by (simp add: other del: fun_upd_apply)
      then obtain st' l' where r: "moveHeader_list ?st l (n - ?k) (len - ?k) = Inr (True, st', l', n - ?k - (len - ?k))"
        "concat (map (\<lambda>a. bf_data (st' a)) l') = drop (len - ?k) (concat (map (\<lambda>a. bf_data (?st a)) l))"
        "distinct l'" "set l' \<subseteq> set l" "\<forall>a. bf_wf (st' a)"
        "n - ?k - (len - ?k) = sum_list (map (\<lambda>a. bf_length (st' a)) l')"
        "\<forall>x. bf_buffer (st' x) = bf_buffer (?st x)"
        using Cons.IH[of ?st "n - ?k" "len - ?k", OF wf a(2) _ q] by blast
      have "n - ?k - (len - ?k) = n - len" using 3 Cons.prems(4) by simp
      then show ?thesis
        using r 3 b(1) l Cons.prems(4) False
        by (intro exI[of _ st'] exI[of _ l']) (auto simp: Let_def other same fun_upd_same simp del: fun_upd_apply)
    qed
  qed
qed simp

text \<open>
  The stream interface the protocol parsers use: a length, a look at the next bytes, and a move past
  them.
\<close>

locale byte_stream =
  fixes len :: "'s \<Rightarrow> nat"
    and header :: "nat \<Rightarrow> 's \<Rightarrow> 'e + byte list option"
    and move :: "nat \<Rightarrow> 's \<Rightarrow> 'e + bool \<times> 's"
    and contents :: "'s \<Rightarrow> byte list"
    and inv :: "'s \<Rightarrow> bool"
  assumes len_law: "inv s \<Longrightarrow> len s = length (contents s)"
    and header_law: "inv s \<Longrightarrow> header n s = Inr (if n \<le> length (contents s) then Some (take n (contents s)) else None)"
    and move_law: "inv s \<Longrightarrow> n \<le> length (contents s) \<Longrightarrow>
      \<exists>s'. move n s = Inr (True, s') \<and> contents s' = drop n (contents s) \<and> inv s'"
begin

text \<open>Skip \<open>k\<close> bytes, take the next \<open>m\<close> and move behind them.\<close>

lemma skip_take:
  assumes "inv s" "k + m \<le> length (contents s)"
  shows "\<exists>s1 s2. move k s = Inr (True, s1) \<and> header m s1 = Inr (Some (take m (drop k (contents s))))
    \<and> move m s1 = Inr (True, s2) \<and> contents s2 = drop (k + m) (contents s) \<and> inv s1 \<and> inv s2"
proof -
  obtain s1 where s1: "move k s = Inr (True, s1)" "contents s1 = drop k (contents s)" "inv s1"
    using move_law[of s k] assms by auto
  then have m: "m \<le> length (contents s1)" using assms(2) by simp
  obtain s2 where "move m s1 = Inr (True, s2)" "contents s2 = drop m (contents s1)" "inv s2"
    using move_law[OF s1(3) m] by auto
  then show ?thesis using s1 header_law[of s1 m] assms(2) by (auto simp: add.commute)
qed

end

definition nb_ok :: "TC_NetWorkBuffer \<Rightarrow> bool" where
  "nb_ok nb \<longleftrightarrow> nb_wf nb \<and> nb_length nb < 2 ^ 32"

lemma nb_getBuffers_n_take:
  "nb_wf nb \<Longrightarrow> n \<le> nb_length nb \<Longrightarrow> nb_getBuffers_n n nb = Inr (take n (nb_contents nb))"
  by (simp add: nb_getBuffers_n_def nb_contents_def getBuffers_loop_take nb_wf_def)

lemma mem_write_all: "length bs = length m \<Longrightarrow> mem_write 0 bs m = bs"
  by (simp add: mem_write_def)

interpretation net: byte_stream nb_length nb_getHeader nb_moveHeader nb_contents nb_ok
proof
  fix s n assume s: "nb_ok s"
  then have w: "nb_wf s" "nb_length s = length (nb_contents s)"
    by (simp_all add: nb_ok_def nb_length_contents)
  show "nb_length s = length (nb_contents s)" by (rule w)
  show "nb_getHeader n s = Inr (if n \<le> length (nb_contents s) then Some (take n (nb_contents s)) else None)"
    using w by (simp add: nb_getHeader_def nb_getBuffers_n_take mem_write_all)
  assume n: "n \<le> length (nb_contents s)"
  have p: "\<And>a. bf_wf (nb_store s a)" "distinct (nb_list s)" "n \<le> nb_length s" "nb_length s < 2 ^ 32"
    "nb_length s = sum_list (map (\<lambda>a. bf_length (nb_store s a)) (nb_list s))"
    using s n w by (simp_all add: nb_ok_def nb_wf_def)
  obtain st' l' where r: "moveHeader_list (nb_store s) (nb_list s) (nb_length s) n = Inr (True, st', l', nb_length s - n)"
    "concat (map (\<lambda>a. bf_data (st' a)) l') = drop n (concat (map (\<lambda>a. bf_data (nb_store s a)) (nb_list s)))"
    "distinct l'" "set l' \<subseteq> set (nb_list s)" "\<forall>a. bf_wf (st' a)"
    "nb_length s - n = sum_list (map (\<lambda>a. bf_length (st' a)) l')"
    "\<forall>a. bf_buffer (st' a) = bf_buffer (nb_store s a)"
    using moveHeader_list_drop[OF p(1,2,5,3,4)] by blast
  let ?s = "s\<lparr>nb_store := st', nb_list := l', nb_length := nb_length s - n\<rparr>"
  have "nb_length s - n < 2 ^ 32" using p(4) by simp
  moreover have "\<forall>a \<in> set l'. a < nb_next s" using r(4) s by (auto simp: nb_ok_def nb_wf_def)
  ultimately have "nb_ok ?s" using r s by (simp add: nb_ok_def nb_wf_def)
  then show "\<exists>s'. nb_moveHeader n s = Inr (True, s') \<and> nb_contents s' = drop n (nb_contents s) \<and> nb_ok s'"
    using r(1,2) by (simp add: nb_moveHeader_def nb_contents_def)
qed

section \<open>Filling the buffer\<close>

lemma map_if_other [simp]:
  "a \<notin> set l \<Longrightarrow> map (\<lambda>x. f (if x = a then b else st x)) l = map (\<lambda>x. f (st x)) l"
  by (induction l) auto

text \<open>A new block at the end of the list, and a changed block that is on the list.\<close>

lemma nb_push_wf:
  assumes "nb_wf nb" "bf_wf b" "bf_buffer b \<noteq> None" "nb_alloc b nb = (a, nb1)"
  shows "nb_wf (nb1\<lparr>nb_list := nb_list nb @ [a], nb_length := nb_length nb + bf_length b\<rparr>)"
    "nb_contents (nb1\<lparr>nb_list := nb_list nb @ [a], nb_length := nb_length nb + bf_length b\<rparr>)
       = nb_contents nb @ bf_data b"
    "nb_list nb1 = nb_list nb" "nb_length nb1 = nb_length nb" "nb_store nb1 a = b"
proof -
  have a: "a = nb_next nb" "nb1 = nb\<lparr>nb_store := (nb_store nb)(a := b), nb_next := Suc a\<rparr>"
    using assms(4) by (auto simp: nb_alloc_def)
  have n: "a \<notin> set (nb_list nb)" using assms(1) a(1) by (auto simp: nb_wf_def)
  show "nb_wf (nb1\<lparr>nb_list := nb_list nb @ [a], nb_length := nb_length nb + bf_length b\<rparr>)"
    using assms(1-3) a n by (auto simp: nb_wf_def less_Suc_eq)
  show "nb_contents (nb1\<lparr>nb_list := nb_list nb @ [a], nb_length := nb_length nb + bf_length b\<rparr>)
       = nb_contents nb @ bf_data b"
    using a n by (simp add: nb_contents_def)
  show "nb_list nb1 = nb_list nb" "nb_length nb1 = nb_length nb" "nb_store nb1 a = b" using a by simp_all
qed

lemma nb_update_last:
  assumes "nb_wf nb" "nb_list nb = as @ [a]" "bf_wf b" "bf_buffer b \<noteq> None"
  shows "nb_wf ((nb_update a b nb)\<lparr>nb_length := nb_length nb - bf_length (nb_store nb a) + bf_length b\<rparr>)"
    "nb_contents ((nb_update a b nb)\<lparr>nb_length := n\<rparr>) = concat (map (\<lambda>x. bf_data (nb_store nb x)) as) @ bf_data b"
proof -
  have n: "a \<notin> set as" using assms(1,2) by (simp add: nb_wf_def)
  show "nb_wf ((nb_update a b nb)\<lparr>nb_length := nb_length nb - bf_length (nb_store nb a) + bf_length b\<rparr>)"
    using assms n by (auto simp: nb_wf_def nb_update_def)
  show "nb_contents ((nb_update a b nb)\<lparr>nb_length := n\<rparr>) = concat (map (\<lambda>x. bf_data (nb_store nb x)) as) @ bf_data b"
    using assms(2) n by (simp add: nb_contents_def nb_update_def)
qed

lemma nb_update_same:
  assumes "nb_wf nb" "nb_list nb = as @ [a]" "bf_wf b" "bf_buffer b \<noteq> None" "bf_data b = bf_data (nb_store nb a)"
  shows "nb_wf (nb_update a b nb)" "nb_contents (nb_update a b nb) = nb_contents nb"
proof -
  have l: "bf_length b = bf_length (nb_store nb a)"
    using assms(1,3,5) bf_wf_length by (metis nb_wf_def)
  have "bf_length (nb_store nb a) \<le> nb_length nb" using assms(1,2) by (simp add: nb_wf_def)
  with nb_update_last(1)[OF assms(1-4)] l show "nb_wf (nb_update a b nb)" by (simp add: nb_update_def)
  show "nb_contents (nb_update a b nb) = nb_contents nb"
    using nb_update_last(2)[OF assms(1-4), of "nb_length nb"] assms(2,5) by (simp add: nb_update_def nb_contents_def)
qed

lemma nb_getOrCreateBuffer_wf:
  assumes "nb_wf nb" "minC \<le> maxC"
  shows "\<exists>a as nb'. nb_getOrCreateBuffer fresh minC maxC nb = Inr (a, nb') \<and> nb_wf nb'
    \<and> nb_contents nb' = nb_contents nb \<and> nb_length nb' = nb_length nb \<and> nb_list nb' = as @ [a]
    \<and> minC \<le> bf_left (nb_store nb' a)"
proof -
  let ?new = "bf_alloc fresh maxC Buffer_new"
  have new: "bf_wf ?new" "bf_buffer ?new \<noteq> None" "bf_data ?new = []" "bf_length ?new = 0" "maxC \<le> bf_left ?new"
    using bf_alloc_wf[OF bf_new(1), where fresh = fresh and len = maxC] by (simp_all add: bf_length_def)
  obtain a nb1 where al: "nb_alloc ?new nb = (a, nb1)" by (cases "nb_alloc ?new nb")
  note p = nb_push_wf[OF assms(1) new(1,2) al]
  have same: "nb1\<lparr>nb_list := x, nb_length := nb_length nb\<rparr> = nb1\<lparr>nb_list := x\<rparr>" for x
    using p(4) by (cases nb1) simp
  show ?thesis
  proof (cases "nb_list nb = []")
    case empty: True
    show ?thesis
    proof (cases "nb_default nb")
      case None
      let ?nb = "nb1\<lparr>nb_default := Some a, nb_list := [a]\<rparr>"
      have "nb_wf ?nb" "nb_contents ?nb = nb_contents nb"
        using p(1,2) new(3,4) empty al p(3,4) by (auto simp: nb_wf_def nb_contents_def nb_alloc_def)
      then show ?thesis
        using empty None al p(3-5) new(5) assms(2)
        by (auto simp: nb_getOrCreateBuffer_def intro!: exI[of _ a] exI[of _ "[]"] exI[of _ ?nb])
    next
      case (Some d)
      let ?b = "bf_expansion fresh maxC (bf_clear (nb_store nb d))"
      let ?c = "bf_clear (nb_store nb d)"
      have c: "bf_wf ?c" "bf_data ?c = []" "bf_readIdx ?c = 0"
        using assms(1) by (auto simp: nb_wf_def bf_wf_def bf_clear_def bf_data_def bf_length_def split: option.splits)
      note e = bf_expansion_wf[OF c(1), of fresh maxC] order.trans[OF assms(2) bf_expansion_left[OF c, where fresh = fresh]]
      have nn: "bf_buffer ?b \<noteq> None"
        using bf_compact_wf[OF c(1), of fresh] by (auto simp: bf_expansion_def Let_def)
      have l: "bf_length ?b = 0" using e(1) c(2) bf_wf_length[of ?b] by simp
      let ?nb = "(nb_update d ?b nb)\<lparr>nb_list := [d]\<rparr>"
      have "nb_wf ?nb" "nb_contents ?nb = nb_contents nb"
        using assms(1) Some e(1) nn l empty c(2) by (auto simp: nb_wf_def nb_contents_def nb_update_def)
      then show ?thesis
        using empty Some e(2) assms(2)
        by (auto simp: nb_getOrCreateBuffer_def nb_update_def intro!: exI[of _ d] exI[of _ "[]"] exI[of _ ?nb])
    qed
  next
    case False
    then obtain as z where l: "nb_list nb = as @ [z]" by (metis append_butlast_last_id)
    let ?z = "nb_store nb z"
    have z: "bf_wf ?z" using assms(1) by (simp add: nb_wf_def)
    show ?thesis
    proof (cases "bf_left ?z < minC")
      case True
      show ?thesis
      proof (cases "bf_capacity ?z - bf_length ?z \<ge> minC \<and> bf_length ?z * 3 < bf_capacity ?z")
        case c: True
        note cw = bf_compact_wf[OF z, of fresh]
        have "nb_wf (nb_update z (bf_compact fresh ?z) nb)"
          "nb_contents (nb_update z (bf_compact fresh ?z) nb) = nb_contents nb"
          using nb_update_same[OF assms(1) l, of "bf_compact fresh ?z"] cw by auto
        then show ?thesis
          using True c l assms(2) cw False
          by (auto simp: nb_getOrCreateBuffer_def Let_def nb_update_def)
      next
        case c: False
        show ?thesis
          using True c l assms(2) False al p new(3-5) same
          by (auto simp: nb_getOrCreateBuffer_def Let_def)
      qed
    next
      case f: False
      then show ?thesis using l assms False by (auto simp: nb_getOrCreateBuffer_def Let_def)
    qed
  qed
qed

text \<open>Bytes written behind the last block's data and counted there and in the total.\<close>

definition nb_fill :: "nat \<Rightarrow> byte list \<Rightarrow> TC_NetWorkBuffer \<Rightarrow> TC_NetWorkBuffer" where
  "nb_fill a bs nb =
     (let d = nb_store nb a
      in (nb_update a (d\<lparr>bf_buffer := Some (mem_write (bf_writeIdx d) bs (bf_mem d)),
                         bf_writeIdx := bf_writeIdx d + length bs\<rparr>) nb)
           \<lparr>nb_length := nb_length nb + length bs\<rparr>)"

lemma nb_fill_last:
  assumes "nb_wf nb" "nb_list nb = as @ [a]" "length bs \<le> bf_left (nb_store nb a)"
  shows "nb_wf (nb_fill a bs nb)" "nb_contents (nb_fill a bs nb) = nb_contents nb @ bs"
proof -
  let ?d = "nb_store nb a"
  have d: "bf_wf ?d" "bf_buffer ?d \<noteq> None" using assms(1,2) by (auto simp: nb_wf_def)
  then obtain m where m: "bf_buffer ?d = Some m" by auto
  let ?b = "?d\<lparr>bf_buffer := Some (mem_write (bf_writeIdx ?d) bs m), bf_writeIdx := bf_writeIdx ?d + length bs\<rparr>"
  note w = bf_put_wf[OF d(1) m assms(3)]
  have "bf_length ?b = bf_length ?d + length bs" using d(1) by (simp add: bf_length_def bf_wf_def)
  moreover have "bf_length ?d \<le> nb_length nb" using assms(1,2) by (simp add: nb_wf_def)
  ultimately have n: "nb_length nb - bf_length ?d + bf_length ?b = nb_length nb + length bs" by simp
  have f: "nb_fill a bs nb = (nb_update a ?b nb)\<lparr>nb_length := nb_length nb + length bs\<rparr>"
    using m by (simp add: nb_fill_def Let_def bf_mem_def)
  show "nb_wf (nb_fill a bs nb)" using nb_update_last(1)[OF assms(1,2) w(1)] n by (simp add: f)
  show "nb_contents (nb_fill a bs nb) = nb_contents nb @ bs"
    using nb_update_last(2)[OF assms(1,2) w(1)] w(2) assms(2) by (simp add: f nb_contents_def)
qed

lemma nb_addBuffer_stream:
  assumes "nb_wf nb" "length buff < 2 ^ 32"
  shows "\<exists>nb'. nb_addBuffer fresh buff nb = Inr nb' \<and> nb_wf nb' \<and> nb_contents nb' = nb_contents nb @ buff"
proof (cases "buff = []")
  case True
  then show ?thesis using assms(1) by (simp add: nb_addBuffer_def)
next
  case False
  let ?c = "if length buff < 1024 then 1024 else length buff"
  have half: "n \<le> n * 3 div 2" for n :: nat by linarith
  obtain a as nb1 where g: "nb_getOrCreateBuffer fresh ?c (?c * 3 div 2) nb = Inr (a, nb1)" "nb_wf nb1"
    "nb_contents nb1 = nb_contents nb" "nb_list nb1 = as @ [a]" "?c \<le> bf_left (nb_store nb1 a)"
    using nb_getOrCreateBuffer_wf[OF assms(1) half[of ?c], of fresh] by blast
  have l: "length buff \<le> bf_left (nb_store nb1 a)" using g(5) by (simp split: if_splits)
  have "nb_addBuffer fresh buff nb = Inr (nb_fill a buff nb1)"
    using False g(1) l assms(2)
    by (simp add: nb_addBuffer_def nb_fill_def Let_def bf_addWriteIdx_def bf_left_def)
  then show ?thesis using nb_fill_last[OF g(2,4) l] g(3) by simp
qed

text \<open>
  Adding bytes to a connection's buffer appends them to its byte stream, whichever block they
  end up in; the assertions of the code hold and the invariant is kept.
\<close>

theorem nb_addBuffer_appends:
  assumes "nb_wf nb" "length buff < 2 ^ 32"
  shows "\<exists>nb'. nb_addBuffer fresh buff nb = Inr nb' \<and> nb_wf nb' \<and> nb_contents nb' = nb_contents nb @ buff"
  using nb_addBuffer_stream[OF assms] .

theorem nb_addBuffer_appends_witness:
  "\<exists>nb'. nb_addBuffer (\<lambda>_. 0) [1, 2, 3] NetWorkBuffer_new = Inr nb' \<and> nb_wf nb' \<and> nb_contents nb' = [1, 2, 3]"
  using nb_addBuffer_appends[of NetWorkBuffer_new "[1, 2, 3]" "\<lambda>_. 0"] by simp

section \<open>Taking packets out\<close>

lemma nb_getValue4:
  assumes "nb_ok nb" "4 \<le> length (nb_contents nb)"
  shows "nb_getValue 4 nb = Inr (unat (be_word (take 4 (nb_contents nb)) :: 32 word))"
  using net.header_law[OF assms(1), of 4] assms(2) by (simp add: nb_getValue_def load_ntohl)

lemma parseBuffer4_cases:
  assumes "nb_ok nb"
  shows "\<exists>t out' nb'. nb_parseBuffer 4 out mn mx nb = Inr (t, out', nb') \<and> nb_ok nb' \<and>
    (let c = nb_contents nb; L = unat (be_word (take 4 c) :: 32 word)
     in t = (if length c < 4 then PACKET_LESS else if L < max 4 mn \<or> mx < L then PACKET_ERR
             else if length c < L then PACKET_LESS else PACKET_FULL)
        \<and> (if t = PACKET_FULL then out' = drop 4 (take L c) \<and> nb_contents nb' = drop L c
           else out' = out \<and> nb' = nb))"
proof -
  let ?c = "nb_contents nb"
  let ?L = "unat (be_word (take 4 ?c) :: 32 word)"
  have len: "nb_length nb = length ?c" using net.len_law[OF assms] .
  have mn: "(if mn < 4 then 4 else mn) = max 4 mn" by simp
  show ?thesis
  proof (cases "length ?c < 4 \<or> ?L < max 4 mn \<or> mx < ?L \<or> length ?c < ?L")
    case True
    then show ?thesis
      using assms nb_getValue4[OF assms] len mn by (auto simp: nb_parseBuffer_def Let_def not_less)
  next
    case False
    then have f: "4 \<le> length ?c" "max 4 mn \<le> ?L" "?L \<le> mx" "?L \<le> length ?c" "4 \<le> ?L" by auto
    obtain s1 s2 where s: "nb_moveHeader 4 nb = Inr (True, s1)"
      "nb_getHeader (?L - 4) s1 = Inr (Some (take (?L - 4) (drop 4 ?c)))"
      "nb_moveHeader (?L - 4) s1 = Inr (True, s2)" "nb_contents s2 = drop (4 + (?L - 4)) ?c" "nb_ok s2"
      using net.skip_take[OF assms, of 4 "?L - 4"] f by auto
    have "nb_parseBuffer 4 out mn mx nb = Inr (PACKET_FULL, drop 4 (take ?L ?c), s2)"
      using s(1-3) f nb_getValue4[OF assms] len mn
      by (simp add: nb_parseBuffer_def Let_def drop_take not_less)
    moreover have "nb_contents s2 = drop ?L ?c" using s(4) f(5) by simp
    ultimately show ?thesis using s(5) f False by (auto simp: Let_def)
  qed
qed

text \<open>
  C18. The parser for packets with a four-byte length, on every state of the buffer: it waits while
  the prefix or the body is incomplete, rejects a length outside the limits or smaller than the
  prefix itself, and otherwise returns exactly the body and leaves exactly what follows the packet.
  The answer depends on the byte stream only, not on how the network cut it into blocks.
\<close>

theorem parseBuffer4_spec:
  assumes "nb_ok nb"
  shows "\<exists>t out' nb'. nb_parseBuffer 4 out mn mx nb = Inr (t, out', nb') \<and> nb_ok nb' \<and>
    (let c = nb_contents nb; L = unat (be_word (take 4 c) :: 32 word)
     in t = (if length c < 4 then PACKET_LESS else if L < max 4 mn \<or> mx < L then PACKET_ERR
             else if length c < L then PACKET_LESS else PACKET_FULL)
        \<and> (if t = PACKET_FULL then out' = drop 4 (take L c) \<and> nb_contents nb' = drop L c
           else out' = out \<and> nb' = nb))"
  using parseBuffer4_cases[OF assms] .

lemma nb_addBuffer_fresh:
  assumes "length bs < 2 ^ 32"
  obtains nb where "nb_addBuffer fresh bs NetWorkBuffer_new = Inr nb" "nb_ok nb" "nb_contents nb = bs"
  using nb_addBuffer_stream[OF nb_new(1) assms, of fresh] assms nb_length_contents
  by (auto simp: nb_ok_def)

theorem parseBuffer4_spec_witness:
  "\<exists>nb nb'. nb_addBuffer (\<lambda>_. 0) [0, 0, 0, 6, 9, 8, 7] NetWorkBuffer_new = Inr nb
    \<and> nb_parseBuffer 4 [] 0 100 nb = Inr (PACKET_FULL, [9, 8], nb') \<and> nb_contents nb' = [7]"
proof -
  obtain nb where nb: "nb_addBuffer (\<lambda>_. 0) [0, 0, 0, 6, 9, 8, 7] NetWorkBuffer_new = Inr nb" "nb_ok nb"
    "nb_contents nb = [0, 0, 0, 6, 9, 8, 7]"
    by (rule nb_addBuffer_fresh[of "[0, 0, 0, 6, 9, 8, 7]" "\<lambda>_. 0"]) simp_all
  have "unat (be_word [0, 0, 0, 6] :: 32 word) = 6" by (simp add: be_word_def)
  then show ?thesis
    using parseBuffer4_spec[OF nb(2), of "[]" 0 100] nb(1,3) by (auto simp: Let_def)
qed

text \<open>
  Gathering all blocks into one keeps the byte stream and leaves at most one block.
\<close>

theorem mergeBuffers_keeps_stream:
  assumes "nb_ok nb"
  shows "\<exists>nb'. nb_mergeBuffers fresh nb = Inr nb' \<and> nb_wf nb' \<and> nb_contents nb' = nb_contents nb
    \<and> length (nb_list nb') \<le> 1"
proof (cases "length (nb_list nb) > 1")
  case False
  then show ?thesis using assms by (simp add: nb_mergeBuffers_def nb_ok_def)
next
  case True
  have w: "nb_wf nb" "nb_length nb < 2 ^ 32" "nb_length nb = length (nb_contents nb)"
    using assms net.len_law[OF assms] by (auto simp: nb_ok_def)
  let ?a = "bf_alloc fresh (nb_length nb) Buffer_new"
  have a: "bf_wf ?a" "bf_data ?a = []" "nb_length nb \<le> bf_left ?a" "bf_buffer ?a \<noteq> None"
    "bf_writeIdx ?a = 0" "bf_readIdx ?a = 0"
    using bf_alloc_wf[OF bf_new(1), where fresh = fresh and len = "nb_length nb"] by blast+
  then obtain m where m: "bf_buffer ?a = Some m" by auto
  have gb: "nb_getBuffers_n (nb_length nb) nb = Inr (nb_contents nb)"
    using nb_getBuffers_n_take[OF w(1), of "nb_length nb"] w(3) by simp
  let ?b = "?a\<lparr>bf_buffer := Some (mem_write (bf_writeIdx ?a) (nb_contents nb) m),
      bf_writeIdx := bf_writeIdx ?a + length (nb_contents nb)\<rparr>"
  have b: "bf_wf ?b" "bf_data ?b = nb_contents nb" "bf_buffer ?b \<noteq> None"
    using bf_put_wf[OF a(1) m, of "nb_contents nb"] a(2,3) w(3) by simp_all
  have "nb_getBuffers_ptr fresh Buffer_new nb = Inr ?b"
    using gb a m w by (simp add: nb_getBuffers_ptr_def Let_def bf_addWriteIdx_def bf_left_def bf_mem_def)
  moreover obtain z nb1 where z: "nb_alloc ?b nb = (z, nb1)" by (cases "nb_alloc ?b nb")
  ultimately have "nb_mergeBuffers fresh nb = Inr (nb1\<lparr>nb_list := [z]\<rparr>)"
    using True by (simp add: nb_mergeBuffers_def)
  moreover have "nb_wf (nb1\<lparr>nb_list := [z]\<rparr>)" "nb_contents (nb1\<lparr>nb_list := [z]\<rparr>) = nb_contents nb"
    using z w b bf_wf_length[OF b(1)] by (auto simp: nb_alloc_def nb_wf_def nb_contents_def less_Suc_eq)
  ultimately show ?thesis by (auto intro!: exI[of _ "nb1\<lparr>nb_list := [z]\<rparr>"])
qed

theorem mergeBuffers_keeps_stream_witness:
  "\<exists>nb nb'. nb_addBuffer (\<lambda>_. 0) [1, 2, 3] NetWorkBuffer_new = Inr nb
    \<and> nb_mergeBuffers (\<lambda>_. 0) nb = Inr nb' \<and> nb_contents nb' = [1, 2, 3] \<and> length (nb_list nb') \<le> 1"
proof -
  obtain nb where nb: "nb_addBuffer (\<lambda>_. 0) [1, 2, 3] NetWorkBuffer_new = Inr nb" "nb_ok nb"
    "nb_contents nb = [1, 2, 3]"
    by (rule nb_addBuffer_fresh[of "[1, 2, 3]" "\<lambda>_. 0"]) simp_all
  then show ?thesis using mergeBuffers_keeps_stream[OF nb(2), of "\<lambda>_. 0"] by auto
qed

lemma concat_map_dropWhile:
  "(\<And>a. P a \<Longrightarrow> f a = []) \<Longrightarrow> concat (map f (dropWhile P l)) = concat (map f l)"
  by (induction l) auto

lemma nb_compute_wf:
  assumes "nb_wf nb"
  shows "nb_wf (nb_compute nb)" "nb_contents (nb_compute nb) = nb_contents nb"
proof -
  have e: "bf_data (nb_store nb a) = []" if "bf_empty (nb_store nb a)" for a
    using that by (simp add: bf_empty_def bf_data_def bf_length_def)
  show "nb_contents (nb_compute nb) = nb_contents nb"
    using concat_map_dropWhile[OF e] by (simp add: nb_compute_def nb_contents_def Let_def)
  show "nb_wf (nb_compute nb)"
    using assms by (auto simp: nb_compute_def Let_def nb_wf_def distinct_dropWhile dest: set_dropWhileD)
qed

lemma nb_parseEcho_stream:
  assumes "nb_ok nb" "nb_contents nb \<noteq> []"
  shows "nb_parseEcho out nb = Inr (PACKET_FULL, nb_contents nb, nb_clearBuffers nb)"
proof -
  have w: "nb_wf nb" "nb_length nb = length (nb_contents nb)"
    using assms net.len_law[OF assms(1)] by (auto simp: nb_ok_def)
  then have "nb_getBuffers nb = Inr (nb_contents nb)"
    using assms(2) nb_getBuffers_n_take[OF w(1), of "nb_length nb"]
    by (simp add: nb_getBuffers_def mem_write_all)
  then show ?thesis using assms(2) w(2) by (simp add: nb_parseEcho_def nb_empty_def)
qed

end
