(* ===== verification/App_Protocol.thy ===== *)
theory App_Protocol
  imports Request_Packet Network_Buffer
begin

text \<open>
  The framing of packets on a connection: \<^verbatim>\<open>AppProtocol\<close> and \<^verbatim>\<open>ProxyProtocol\<close>
  (\<^verbatim>\<open>servant/servant/AppProtocol.h\<close>, \<^verbatim>\<open>servant/libservant/AppProtocol.cpp\<close>) and the server's
  \<^verbatim>\<open>Current::sendResponse\<close> (\<^verbatim>\<open>servant/libservant/Current.cpp\<close>). It joins the codec of \<open>Request_Packet\<close> to
  the byte streams of \<open>Network_Buffer\<close>. Where the code passes an object that it fills (\<^verbatim>\<open>rsp\<close>, \<^verbatim>\<open>out\<close>,
  \<^verbatim>\<open>in\<close>), the result holds its new value. An exception ends the connection in every caller, so the
  state left by an exception is not kept.

  The partial-header checks set the reader to \<open>head\<close> bytes from offset 4 of a string of \<open>head\<close> bytes:
  the reader covers the terminating zero and three bytes behind the string, the argument \<open>beyond\<close>.
\<close>

section \<open>Results\<close>

datatype proto_exn = DecodeExn tars_exn | NetExn net_exn

definition ebind :: "'e + 'a \<Rightarrow> ('a \<Rightarrow> 'e + 'b) \<Rightarrow> 'e + 'b" where
  "ebind r f = (case r of Inl e \<Rightarrow> Inl e | Inr x \<Rightarrow> f x)"

lemma ebind_simps [simp]: "ebind (Inl e) f = Inl e" "ebind (Inr x) f = f x"
  by (simp_all add: ebind_def)

definition of_net :: "net_exn + 'a \<Rightarrow> proto_exn + 'a" where
  "of_net r = (case r of Inl e \<Rightarrow> Inl (NetExn e) | Inr x \<Rightarrow> Inr x)"

lemma of_net_simps [simp]: "of_net (Inl e) = Inl (NetExn e)" "of_net (Inr x) = Inr x"
  by (simp_all add: of_net_def)

text \<open>A fresh \<^verbatim>\<open>TarsInputStream\<close> set to the bytes.\<close>

definition decode :: "'a dec \<Rightarrow> byte list \<Rightarrow> proto_exn + 'a" where
  "decode m bs = (case fst (m (setBuffer bs)) of Inl e \<Rightarrow> Inl (DecodeExn e) | Inr x \<Rightarrow> Inr x)"

abbreviation bad_packet :: "proto_exn + 'a" where
  "bad_packet \<equiv> Inl (DecodeExn TarsDecodeException)"

abbreviation TARSVERSION :: "16 word" where "TARSVERSION \<equiv> 1"
abbreviation TUPVERSION :: "16 word" where "TUPVERSION \<equiv> 3"
abbreviation JSONVERSION :: "16 word" where "JSONVERSION \<equiv> 5"
abbreviation TARSNORMAL :: byte where "TARSNORMAL \<equiv> 0"
abbreviation TARSONEWAY :: byte where "TARSONEWAY \<equiv> 1"
abbreviation TARSSERVERUNKNOWNERR :: int where "TARSSERVERUNKNOWNERR \<equiv> - 99"
abbreviation TARS_NET_MIN_PACKAGE_SIZE :: nat where "TARS_NET_MIN_PACKAGE_SIZE \<equiv> 5"
abbreviation TARS_NET_MAX_PACKAGE_SIZE :: nat where "TARS_NET_MAX_PACKAGE_SIZE \<equiv> 1024 * 1024 * 100"

section \<open>The server's parser\<close>

definition AppProtocol_parse ::
    "byte list \<Rightarrow> TC_NetWorkBuffer \<Rightarrow> net_exn + PACKET_TYPE \<times> byte list \<times> TC_NetWorkBuffer" where
  "AppProtocol_parse out nb = nb_parseBuffer 4 out TARS_NET_MIN_PACKAGE_SIZE TARS_NET_MAX_PACKAGE_SIZE nb"

text \<open>
  The integer of \<open>k\<close> bytes (1, 2 or 4) copied from the bytes, converted by \<^verbatim>\<open>net2host<T>\<close> if \<open>netorder\<close>.
\<close>

definition net2host :: "nat \<Rightarrow> bool \<Rightarrow> byte list \<Rightarrow> nat" where
  "net2host k netorder bs =
     (if k = 1 then unat (le_word bs :: byte)
      else if k = 2 then unat (if netorder then ntohs (le_word bs) else le_word bs)
      else if k = 4 then unat (if netorder then ntohl (le_word bs) else le_word bs)
      else 0)"

definition AppProtocol_parseStream ::
    "nat \<Rightarrow> nat \<Rightarrow> bool \<Rightarrow> byte list \<Rightarrow> TC_NetWorkBuffer \<Rightarrow> net_exn + PACKET_TYPE \<times> byte list \<times> TC_NetWorkBuffer" where
  "AppProtocol_parseStream offset k netorder out nb =
     (let len = offset + k
      in if nb_length nb < len then Inr (PACKET_LESS, out, nb)
         else ebind (nb_getHeader len nb) (\<lambda>h. case h of
           None \<Rightarrow> Inl AssertionFailed
         | Some header \<Rightarrow>
             let iHeaderLen = net2host k netorder (take k (drop offset header))
             in if iHeaderLen < len mod 2 ^ (8 * k) \<or> iHeaderLen > TARS_NET_MAX_PACKAGE_SIZE
                then Inr (PACKET_ERR, out, nb)
                else if nb_length nb < iHeaderLen then Inr (PACKET_LESS, out, nb)
                else ebind (nb_getHeader iHeaderLen nb) (\<lambda>o'. case o' of
                       None \<Rightarrow> Inl AssertionFailed
                     | Some out' \<Rightarrow> ebind (nb_moveHeader iHeaderLen nb) (\<lambda>(_, nb').
                         Inr (PACKET_FULL, out', nb')))))"

section \<open>The client's requests\<close>

text \<open>\<^verbatim>\<open>toBuffer\<close> hands the writer's memory over to a block; the writer is left empty.\<close>

definition toBuffer :: "writer_state \<Rightarrow> Buffer \<times> writer_state" where
  "toBuffer os =
     (bf_replaceBuffer (take (os_len os) (os_buf os)) Buffer_new,
      os\<lparr>os_buf := [], os_buf_len := 0, os_len := 0\<rparr>)"

text \<open>
  The common body of \<^verbatim>\<open>tarsRequest\<close> and \<^verbatim>\<open>sendResponse\<close>: four bytes are reserved, the packet is written,
  and the total length in network order is copied over the reserved bytes.
\<close>

definition framed :: "(nat \<Rightarrow> byte) \<Rightarrow> writer_state out \<Rightarrow> proto_exn + Buffer" where
  "framed fresh writeTo =
     (case writeTo (writeBuf (BufferWriter_reserve fresh) (le_bytes 4 (0 :: 32 word)) BufferWriter_new) of
        (Inl e, _) \<Rightarrow> Inl (DecodeExn e)
      | (Inr _, os) \<Rightarrow>
          if \<not> os_len os \<ge> 4 then Inl (NetExn AssertionFailed)
          else let iHeaderLen = htonl (of_nat (os_len os))
               in Inr (fst (toBuffer (os\<lparr>os_buf := store_at 0 (le_bytes 4 iHeaderLen) (os_buf os)\<rparr>))))"

definition tarsRequest :: "(nat \<Rightarrow> byte) \<Rightarrow> RequestPacket \<Rightarrow> proto_exn + Buffer" where
  "tarsRequest fresh request =
     framed fresh (RequestPacket_writeTo (writeBuf (BufferWriter_reserve fresh)) request)"

definition streamRequest :: "(nat \<Rightarrow> byte) \<Rightarrow> RequestPacket \<Rightarrow> Buffer" where
  "streamRequest fresh request = bf_addBuffer fresh (rq_sBuffer request) Buffer_new"

section \<open>The client's response parsers\<close>

text \<open>The header check of \<^verbatim>\<open>tarsResponseLen\<close> and \<^verbatim>\<open>totalResponseLen\<close> on an incomplete packet.\<close>

definition tars_head :: "(16 word \<Rightarrow> bool) \<Rightarrow> ResponsePacket \<Rightarrow> ResponsePacket dec" where
  "tars_head version rsp =
     dbind (read_Short 1 False (rs_iVersion rsp)) (\<lambda>iVersion.
       if \<not> version iVersion then dthrow TarsDecodeException
       else
         dbind (read_Char 2 False (rs_cPacketType rsp)) (\<lambda>cPacketType.
           if cPacketType \<noteq> TARSNORMAL then dthrow TarsDecodeException
           else
             dbind (read_Int32 3 False (rs_iRequestId rsp)) (\<lambda>iRequestId.
             dbind (read_Int32 4 False (rs_iMessageType rsp)) (\<lambda>iMessageType.
             dbind (read_Int32 5 False (rs_iRet rsp)) (\<lambda>iRet.
               if sint iRet < TARSSERVERUNKNOWNERR then dthrow TarsDecodeException
               else dret (rsp\<lparr>rs_iVersion := iVersion, rs_cPacketType := cPacketType,
                              rs_iRequestId := iRequestId, rs_iMessageType := iMessageType,
                              rs_iRet := iRet\<rparr>))))))"

text \<open>\<^verbatim>\<open>jsonResponseLen\<close> reads tag 3 into the message type and tag 4 into the request id.\<close>

definition json_head :: "ResponsePacket \<Rightarrow> ResponsePacket dec" where
  "json_head rsp =
     dbind (read_Short 1 False (rs_iVersion rsp)) (\<lambda>iVersion.
       if iVersion \<noteq> JSONVERSION then dthrow TarsDecodeException
       else
         dbind (read_Char 2 False (rs_cPacketType rsp)) (\<lambda>cPacketType.
           if cPacketType \<noteq> TARSNORMAL then dthrow TarsDecodeException
           else
             dbind (read_Int32 3 False (rs_iMessageType rsp)) (\<lambda>iMessageType.
             dbind (read_Int32 4 False (rs_iRequestId rsp)) (\<lambda>iRequestId.
             dbind (read_Int32 5 False (rs_iRet rsp)) (\<lambda>iRet.
               if sint iRet < TARSSERVERUNKNOWNERR then dthrow TarsDecodeException
               else dret (rsp\<lparr>rs_iVersion := iVersion, rs_cPacketType := cPacketType,
                              rs_iRequestId := iRequestId, rs_iMessageType := iMessageType,
                              rs_iRet := iRet\<rparr>))))))"

text \<open>\<^verbatim>\<open>tupResponseLen\<close> checks a local packet with required fields.\<close>

definition tup_head :: "unit dec" where
  "tup_head =
     dbind (read_Short 1 True 0) (\<lambda>iVersion.
       if iVersion \<noteq> TUPVERSION then dthrow TarsDecodeException
       else
         dbind (read_Char 2 True 0) (\<lambda>cPacketType.
           if cPacketType \<noteq> TARSNORMAL then dthrow TarsDecodeException
           else
             dbind (read_Int32 3 True 0) (\<lambda>iMessageType.
             dbind (read_Int32 4 True 0) (\<lambda>iRequestId. dret ()))))"

text \<open>
  The part the four parsers share: wait for the length, check it against the limits, look at the
  first \<open>head\<close> bytes of an incomplete packet, and hand a complete one to \<open>full\<close>.
\<close>

definition response_len ::
    "byte list \<Rightarrow> nat \<Rightarrow> (ResponsePacket \<Rightarrow> ResponsePacket dec) \<Rightarrow>
     (nat \<Rightarrow> proto_exn + PACKET_TYPE \<times> ResponsePacket \<times> TC_NetWorkBuffer) \<Rightarrow>
     nat \<Rightarrow> nat \<Rightarrow> TC_NetWorkBuffer \<Rightarrow> ResponsePacket \<Rightarrow>
     proto_exn + PACKET_TYPE \<times> ResponsePacket \<times> TC_NetWorkBuffer" where
  "response_len beyond head check full iMinLength iMaxLength nb rsp =
     (let len = nb_length nb mod 2 ^ 32
      in if len < 4 then Inr (PACKET_LESS, rsp, nb)
         else ebind (of_net (nb_getValue 4 nb)) (\<lambda>iHeaderLen.
           if iHeaderLen < iMinLength \<or> iHeaderLen > iMaxLength then bad_packet
           else if len < iHeaderLen then
             if len \<ge> head then
               ebind (of_net (nb_getHeader head nb)) (\<lambda>h.
                 let buffer = (case h of None \<Rightarrow> [] | Some b \<Rightarrow> b)
                 in ebind (decode (check rsp) (take head (drop 4 (buffer @ 0 # beyond)))) (\<lambda>rsp'.
                      Inr (PACKET_LESS, rsp', nb)))
             else Inr (PACKET_LESS, rsp, nb)
           else full iHeaderLen))"

text \<open>A complete packet of the versions \<open>version\<close>, through \<^verbatim>\<open>parseBufferOf4\<close>.\<close>

definition full_response ::
    "(16 word \<Rightarrow> bool) \<Rightarrow> nat \<Rightarrow> nat \<Rightarrow> TC_NetWorkBuffer \<Rightarrow>
     proto_exn + PACKET_TYPE \<times> ResponsePacket \<times> TC_NetWorkBuffer" where
  "full_response version iMinLength iMaxLength nb =
     ebind (of_net (nb_parseBuffer 4 [] iMinLength iMaxLength nb)) (\<lambda>(ret, buffer, nb').
       if ret = PACKET_LESS then bad_packet
       else ebind (decode ResponsePacket_readFrom buffer) (\<lambda>rsp'.
         if \<not> version (rs_iVersion rsp') then bad_packet
         else if rs_cPacketType rsp' \<noteq> TARSNORMAL then bad_packet
         else if sint (rs_iRet rsp') < TARSSERVERUNKNOWNERR then bad_packet
         else Inr (PACKET_FULL, rsp', nb')))"

text \<open>
  A complete packet of the tup protocol, which answers with a request structure. The response's
  buffer is the whole packet with its length prefix.
\<close>

definition full_tup ::
    "(16 word \<Rightarrow> bool) \<Rightarrow> TC_NetWorkBuffer \<Rightarrow> ResponsePacket \<Rightarrow> nat \<Rightarrow>
     proto_exn + PACKET_TYPE \<times> ResponsePacket \<times> TC_NetWorkBuffer" where
  "full_tup version nb rsp iHeaderLen =
     ebind (of_net (nb_getHeader iHeaderLen nb)) (\<lambda>h.
       let buffer = (case h of None \<Rightarrow> replicate iHeaderLen 0 | Some b \<Rightarrow> b)
       in ebind (decode RequestPacket_readFrom (drop 4 buffer)) (\<lambda>req.
            if \<not> version (rq_iVersion req) then bad_packet
            else if rq_cPacketType req \<noteq> TARSNORMAL then bad_packet
            else ebind (of_net (nb_moveHeader iHeaderLen nb)) (\<lambda>(_, nb').
              Inr (PACKET_FULL,
                   rsp\<lparr>rs_cPacketType := rq_cPacketType req, rs_iMessageType := rq_iMessageType req,
                       rs_iRequestId := rq_iRequestId req, rs_iVersion := rq_iVersion req,
                       rs_context := rq_context req, rs_sBuffer := buffer\<rparr>,
                   nb'))))"

definition tarsResponseLen ::
    "byte list \<Rightarrow> nat \<Rightarrow> nat \<Rightarrow> TC_NetWorkBuffer \<Rightarrow> ResponsePacket \<Rightarrow>
     proto_exn + PACKET_TYPE \<times> ResponsePacket \<times> TC_NetWorkBuffer" where
  "tarsResponseLen beyond iMinLength iMaxLength nb rsp =
     response_len beyond 20 (tars_head (\<lambda>v. v = TARSVERSION))
       (\<lambda>_. full_response (\<lambda>v. v = TARSVERSION) iMinLength iMaxLength nb) iMinLength iMaxLength nb rsp"

definition jsonResponseLen ::
    "byte list \<Rightarrow> nat \<Rightarrow> nat \<Rightarrow> TC_NetWorkBuffer \<Rightarrow> ResponsePacket \<Rightarrow>
     proto_exn + PACKET_TYPE \<times> ResponsePacket \<times> TC_NetWorkBuffer" where
  "jsonResponseLen beyond iMinLength iMaxLength nb rsp =
     response_len beyond 20 json_head
       (\<lambda>_. full_response (\<lambda>v. v = JSONVERSION) iMinLength iMaxLength nb) iMinLength iMaxLength nb rsp"

definition tupResponseLen ::
    "byte list \<Rightarrow> nat \<Rightarrow> nat \<Rightarrow> TC_NetWorkBuffer \<Rightarrow> ResponsePacket \<Rightarrow>
     proto_exn + PACKET_TYPE \<times> ResponsePacket \<times> TC_NetWorkBuffer" where
  "tupResponseLen beyond iMinLength iMaxLength nb rsp =
     response_len beyond 20 (\<lambda>rsp. dbind tup_head (\<lambda>_. dret rsp))
       (full_tup (\<lambda>v. v = TUPVERSION) nb rsp) iMinLength iMaxLength nb rsp"

text \<open>\<^verbatim>\<open>totalResponseLen\<close> reads the version first and dispatches on it.\<close>

definition totalResponseLen ::
    "byte list \<Rightarrow> nat \<Rightarrow> nat \<Rightarrow> TC_NetWorkBuffer \<Rightarrow> ResponsePacket \<Rightarrow>
     proto_exn + PACKET_TYPE \<times> ResponsePacket \<times> TC_NetWorkBuffer" where
  "totalResponseLen beyond iMinLength iMaxLength nb rsp =
     response_len beyond 18 (tars_head (\<lambda>v. v = TARSVERSION \<or> v = TUPVERSION \<or> v = JSONVERSION))
       (\<lambda>iHeaderLen.
          ebind (of_net (nb_getHeader iHeaderLen nb)) (\<lambda>h.
            let buffer = (case h of None \<Rightarrow> [] | Some b \<Rightarrow> b)
            in ebind (decode (read_Short 1 False (rs_iVersion rsp)) (drop 4 buffer)) (\<lambda>iVersion.
                 if iVersion = TUPVERSION then
                   full_tup (\<lambda>_. True) nb (rsp\<lparr>rs_iVersion := iVersion\<rparr>) iHeaderLen
                 else if iVersion = TARSVERSION \<or> iVersion = JSONVERSION then
                   full_response (\<lambda>_. True) iMinLength iMaxLength nb
                 else bad_packet)))
       iMinLength iMaxLength nb rsp"

definition tarsResponse ::
    "byte list \<Rightarrow> TC_NetWorkBuffer \<Rightarrow> ResponsePacket \<Rightarrow> proto_exn + PACKET_TYPE \<times> ResponsePacket \<times> TC_NetWorkBuffer" where
  "tarsResponse beyond nb rsp =
     tarsResponseLen beyond TARS_NET_MIN_PACKAGE_SIZE TARS_NET_MAX_PACKAGE_SIZE nb rsp"

definition totalResponse ::
    "byte list \<Rightarrow> TC_NetWorkBuffer \<Rightarrow> ResponsePacket \<Rightarrow> proto_exn + PACKET_TYPE \<times> ResponsePacket \<times> TC_NetWorkBuffer" where
  "totalResponse beyond nb rsp =
     totalResponseLen beyond TARS_NET_MIN_PACKAGE_SIZE TARS_NET_MAX_PACKAGE_SIZE nb rsp"

text \<open>
  \<^verbatim>\<open>streamResponse\<close> for protocols with the length of \<open>k\<close> bytes at \<open>offset\<close> and the request id of \<open>kid\<close>
  bytes at \<open>idOffset\<close>. \<open>junk\<close> is the uninitialised \<open>requestId\<close> of the code when \<open>idNetorder\<close> is false;
  otherwise the id is loaded from \<open>tmp\<close>, which is empty if the second \<^verbatim>\<open>getHeader\<close> failed.
\<close>

definition streamResponse ::
    "nat \<Rightarrow> nat \<Rightarrow> nat \<Rightarrow> bool \<Rightarrow> nat \<Rightarrow> nat \<Rightarrow> bool \<Rightarrow> nat \<Rightarrow> TC_NetWorkBuffer \<Rightarrow> ResponsePacket \<Rightarrow>
     proto_exn + PACKET_TYPE \<times> ResponsePacket \<times> TC_NetWorkBuffer" where
  "streamResponse junk offset k netorder idOffset kid idNetorder packetMaxSize nb rsp =
     (let len = offset + k
      in if nb_length nb < len then Inr (PACKET_LESS, rsp, nb)
         else ebind (of_net (nb_getHeader len nb)) (\<lambda>h. case h of
           None \<Rightarrow> Inl (NetExn AssertionFailed)
         | Some header \<Rightarrow>
             let iHeaderLen = net2host k netorder (take k (drop offset header))
             in if iHeaderLen > packetMaxSize \<or> iHeaderLen = 0 then bad_packet
                else if nb_length nb < iHeaderLen then Inr (PACKET_LESS, rsp, nb)
                else ebind (of_net (nb_getHeader iHeaderLen nb)) (\<lambda>o'.
                  let sBuffer = (case o' of None \<Rightarrow> rs_sBuffer rsp | Some b \<Rightarrow> b)
                  in ebind (of_net (nb_moveHeader idOffset nb)) (\<lambda>(_, nb1).
                     ebind (of_net (nb_getHeader kid nb1)) (\<lambda>t.
                     ebind (if idNetorder
                            then (case t of None \<Rightarrow> Inl (NetExn InvalidAccess)
                                  | Some tmp \<Rightarrow> Inr (net2host kid True tmp))
                            else Inr junk) (\<lambda>requestId.
                       Inr (PACKET_FULL,
                            rsp\<lparr>rs_sBuffer := sBuffer, rs_iRequestId := of_nat requestId\<rparr>, nb1)))))))"

section \<open>The server's responses\<close>

text \<open>\<^verbatim>\<open>m.emplace(e)\<close> for every pair of \<open>status\<close>, and \<^verbatim>\<open>m[k] = v\<close>.\<close>

definition emplace_all :: "('k::linorder \<times> 'v) list \<Rightarrow> ('k \<times> 'v) list \<Rightarrow> ('k \<times> 'v) list" where
  "emplace_all status m = fold (\<lambda>(k, v). map_insert k v) status m"

fun map_assign :: "'k::linorder \<Rightarrow> 'v \<Rightarrow> ('k \<times> 'v) list \<Rightarrow> ('k \<times> 'v) list" where
  "map_assign k v [] = [(k, v)]"
| "map_assign k v ((k', v') # m) =
     (if k < k' then (k, v) # (k', v') # m
      else if k = k' then (k, v) # m
      else (k', v') # map_assign k v m)"

lemma map_assign_keys: "set (map fst (map_assign k v m)) = insert k (set (map fst m))"
  by (induction k v m rule: map_assign.induct) auto

lemma map_assign_wf: "map_wf m \<Longrightarrow> map_wf (map_assign k v m)"
proof (induction k v m rule: map_assign.induct)
  case (2 k v k' v' m)
  show ?case
  proof (cases "k' < k")
    case True
    then show ?thesis using 2 map_assign_keys[of k v m] by (auto simp: map_wf_def)
  next
    case False
    then show ?thesis using 2(2) by (auto simp: map_wf_def not_less dest: order.strict_trans)
  qed
qed (simp add: map_wf_def)

lemma map_assign_lookup:
  "map_wf m \<Longrightarrow> map_of (map_assign k v m) = (map_of m)(k \<mapsto> v)"
proof (induction k v m rule: map_assign.induct)
  case (2 k v k' v' m)
  have "map_of m k = None" if "k < k'"
    using that 2(2) by (auto simp: map_wf_def map_of_eq_None_iff dest: order.strict_trans)
  then show ?case using 2 by (auto simp: map_wf_def fun_eq_iff not_less)
qed simp

definition tostr :: "int \<Rightarrow> byte list" where
  "tostr i = (if i < 0 then 45 # dec_digits (nat (- i)) else dec_digits (nat i))"

definition ascii :: "string \<Rightarrow> byte list" where
  "ascii s = map (\<lambda>c. of_nat (of_char c)) s"

text \<open>The packet \<^verbatim>\<open>sendResponse\<close> fills for requests that are not tup.\<close>

definition tars_response ::
    "RequestPacket \<Rightarrow> (byte list \<times> byte list) list \<Rightarrow> 32 word \<Rightarrow> ResponsePacket \<Rightarrow>
     (byte list \<times> byte list) list \<Rightarrow> byte list \<Rightarrow> ResponsePacket" where
  "tars_response request responseContext iRet response status sResultDesc =
     response\<lparr>rs_iRequestId := rq_iRequestId request, rs_cPacketType := TARSNORMAL,
       rs_iMessageType := rq_iMessageType request, rs_iVersion := rq_iVersion request,
       rs_status := emplace_all status (rs_status response), rs_context := responseContext,
       rs_sResultDesc := sResultDesc, rs_iRet := iRet\<rparr>"

text \<open>
  The packet for a tup request. The status pairs are emplaced into \<open>response\<close>, which is not sent, and
  so is the encoding of an empty attribute set for an empty buffer.
\<close>

definition tup_response ::
    "RequestPacket \<Rightarrow> (byte list \<times> byte list) list \<Rightarrow> 32 word \<Rightarrow> ResponsePacket \<Rightarrow>
     (byte list \<times> byte list) list \<Rightarrow> byte list \<Rightarrow> RequestPacket" where
  "tup_response request responseContext iRet response status sResultDesc =
     (let tupResponse = RequestPacket_resetDefautlt
            \<lparr>rq_iRequestId := rq_iRequestId request, rq_iMessageType := rq_iMessageType request,
             rq_cPacketType := TARSNORMAL, rq_iVersion := rq_iVersion request,
             rq_context := responseContext, rq_sBuffer := rs_sBuffer response,
             rq_sServantName := rq_sServantName request, rq_sFuncName := rq_sFuncName request\<rparr>;
          st1 = (if iRet \<noteq> 0 then map_assign (ascii ''STATUS_RESULT_CODE'') (tostr (sint iRet))
                                   (rq_status tupResponse)
                 else rq_status tupResponse);
          st2 = (if sResultDesc \<noteq> [] then map_assign (ascii ''STATUS_RESULT_DESC'') sResultDesc st1 else st1)
      in tupResponse\<lparr>rq_status := st2\<rparr>)"

text \<open>\<^verbatim>\<open>Current::sendResponse\<close>: the block given to the connection, \<open>None\<close> for a one-way call.\<close>

definition Current_sendResponse ::
    "(nat \<Rightarrow> byte) \<Rightarrow> RequestPacket \<Rightarrow> (byte list \<times> byte list) list \<Rightarrow> 32 word \<Rightarrow> ResponsePacket \<Rightarrow>
     (byte list \<times> byte list) list \<Rightarrow> byte list \<Rightarrow> proto_exn + Buffer option" where
  "Current_sendResponse fresh request responseContext iRet response status sResultDesc =
     (if rq_cPacketType request = TARSONEWAY then Inr None
      else ebind
        (if rq_iVersion request \<noteq> TUPVERSION
         then framed fresh (ResponsePacket_writeTo (writeBuf (BufferWriter_reserve fresh))
                (tars_response request responseContext iRet response status sResultDesc))
         else framed fresh (RequestPacket_writeTo (writeBuf (BufferWriter_reserve fresh))
                (tup_response request responseContext iRet response status sResultDesc)))
        (\<lambda>b. Inr (Some b)))"

text \<open>\<^verbatim>\<open>Current::initialize(sRecvBuffer)\<close>: the request of a received packet body.\<close>

definition Current_initialize :: "byte list \<Rightarrow> proto_exn + RequestPacket" where
  "Current_initialize sRecvBuffer = decode RequestPacket_readFrom sRecvBuffer"

section \<open>Frames\<close>

lemma BufferWriter_len: "raw_inv os \<Longrightarrow> os_len os = length (BufferWriter_getByteBuffer os)"
  by (simp add: raw_inv_def BufferWriter_getByteBuffer_def)

lemma framed_data:
  assumes "raw.appends wr bs"
  shows "\<exists>b. framed fresh wr = Inr b \<and> bf_wf b
    \<and> bf_data b = be_bytes 4 (of_nat (4 + length bs) :: 32 word) @ bs"
proof -
  let ?z = "le_bytes 4 (0 :: 32 word)"
  let ?os0 = "writeBuf (BufferWriter_reserve fresh) ?z BufferWriter_new"
  have i: "raw_inv ?os0" "BufferWriter_getByteBuffer ?os0 = ?z"
    using raw.put_inv[of BufferWriter_new fresh ?z] raw.put_contents[of BufferWriter_new fresh ?z] by simp_all
  obtain os where os: "wr ?os0 = (Inr (), os)" "raw_inv os" "BufferWriter_getByteBuffer os = ?z @ bs"
    using raw.appendsE[OF assms i(1)] i(2) by metis
  have l: "os_len os = 4 + length bs" using BufferWriter_len[OF os(2)] os(3) by simp
  let ?h = "le_bytes 4 (htonl (of_nat (os_len os)))"
  have m: "os_len os \<le> length (os_buf os)" using os(2) by (simp add: raw_inv_def)
  have "drop 4 (take (4 + length bs) (os_buf os)) = bs"
    using os(3) l by (simp add: BufferWriter_getByteBuffer_def)
  then have "take (os_len os) (store_at 0 ?h (os_buf os)) = ?h @ bs"
    using l m by (simp add: store_at_def drop_take)
  then have "framed fresh wr = Inr (bf_replaceBuffer (?h @ bs) Buffer_new)"
    using os(1) l by (simp add: framed_def toBuffer_def Let_def)
  moreover have "bf_wf (bf_replaceBuffer x Buffer_new)" "bf_data (bf_replaceBuffer x Buffer_new) = x" for x
    by (simp_all add: bf_replaceBuffer_def bf_wf_def bf_data_def bf_length_def bf_mem_def)
  ultimately show ?thesis using l by (simp add: store_htonl)
qed

text \<open>The length of a frame and its parser.\<close>

lemma frame_length:
  "4 + length bs < 2 ^ 32 \<Longrightarrow>
     unat (be_word (take 4 (be_bytes 4 (of_nat (4 + length bs) :: 32 word) @ rest)) :: 32 word) = 4 + length bs"
  by (simp add: unat_of_nat take_bit_nat_eq_self del: of_nat_add)

lemma parse_frame:
  assumes "nb_ok nb" "nb_contents nb = be_bytes 4 (of_nat (4 + length bs) :: 32 word) @ bs @ rest"
    "mn \<le> 4 + length bs" "4 + length bs \<le> mx" "mx < 2 ^ 32"
  shows "\<exists>nb'. nb_parseBuffer 4 out mn mx nb = Inr (PACKET_FULL, bs, nb') \<and> nb_contents nb' = rest \<and> nb_ok nb'"
proof -
  let ?c = "nb_contents nb"
  have v: "nb_getValue 4 nb = Inr (4 + length bs)"
    using nb_getValue4[OF assms(1)] frame_length[of bs "bs @ rest"] assms(2,4,5) by simp
  have len: "nb_length nb = length ?c" using net.len_law[OF assms(1)] .
  obtain s1 s2 where s: "nb_moveHeader 4 nb = Inr (True, s1)"
    "nb_getHeader (length bs) s1 = Inr (Some (take (length bs) (drop 4 ?c)))"
    "nb_moveHeader (length bs) s1 = Inr (True, s2)" "nb_contents s2 = drop (4 + length bs) ?c" "nb_ok s2"
    using net.skip_take[OF assms(1), of 4 "length bs"] assms(2) by auto
  then show ?thesis
    using v len assms(2-4) by (auto simp: nb_parseBuffer_def Let_def)
qed

text \<open>
  C1. Client to server: the block \<^verbatim>\<open>tarsRequest\<close> builds for a request, arriving in any cut on a
  connection with anything behind it, is taken off by \<^verbatim>\<open>AppProtocol::parse\<close> as one packet, and
  \<^verbatim>\<open>Current::initialize\<close> decodes its body to the same request.
\<close>

theorem request_end_to_end:
  assumes "request_ok p" "4 + length (enc_request p) \<le> TARS_NET_MAX_PACKAGE_SIZE"
  shows "\<exists>b. tarsRequest fresh p = Inr b \<and>
    (\<forall>nb rest out. nb_ok nb \<and> nb_contents nb = bf_data b @ rest \<longrightarrow>
       (\<exists>body nb'. AppProtocol_parse out nb = Inr (PACKET_FULL, body, nb') \<and> nb_contents nb' = rest
          \<and> Current_initialize body = Inr p))"
proof -
  let ?bs = "enc_request p"
  obtain b where b: "tarsRequest fresh p = Inr b"
    "bf_data b = be_bytes 4 (of_nat (4 + length ?bs) :: 32 word) @ ?bs"
    using framed_data[OF raw.appends_request[OF assms(1)]] by (auto simp: tarsRequest_def)
  have l: "1 \<le> length ?bs"
    using is_field_length[OF is_field_Short, of "rq_iVersion p" 1] by (simp add: enc_request_def)
  have d: "Current_initialize ?bs = Inr p"
    using RequestPacket_readFrom_enc[OF assms(1), of "setBuffer ?bs"] at_bytes_setBuffer[of ?bs "[]"]
    by (simp add: Current_initialize_def decode_def)
  have "\<exists>body nb'. AppProtocol_parse out nb = Inr (PACKET_FULL, body, nb') \<and> nb_contents nb' = rest
      \<and> Current_initialize body = Inr p"
    if "nb_ok nb" "nb_contents nb = bf_data b @ rest" for nb rest out
    using parse_frame[OF that(1), of ?bs rest TARS_NET_MIN_PACKAGE_SIZE TARS_NET_MAX_PACKAGE_SIZE out]
      that(2) b(2) l d assms(2)
    by (auto simp: AppProtocol_parse_def)
  then show ?thesis using b(1) by blast
qed

theorem request_end_to_end_witness:
  "\<exists>b. tarsRequest (\<lambda>_. 0) (RequestPacket_resetDefautlt\<lparr>rq_iVersion := 1, rq_sFuncName := [112], rq_sBuffer := [1, 2]\<rparr>) = Inr b \<and>
    (\<forall>nb rest out. nb_ok nb \<and> nb_contents nb = bf_data b @ rest \<longrightarrow>
       (\<exists>body nb'. AppProtocol_parse out nb = Inr (PACKET_FULL, body, nb') \<and> nb_contents nb' = rest
          \<and> Current_initialize body
              = Inr (RequestPacket_resetDefautlt\<lparr>rq_iVersion := 1, rq_sFuncName := [112], rq_sBuffer := [1, 2]\<rparr>)))"
proof (rule request_end_to_end)
  show "request_ok (RequestPacket_resetDefautlt\<lparr>rq_iVersion := 1, rq_sFuncName := [112], rq_sBuffer := [1, 2]\<rparr>)"
    by (simp add: request_ok_def RequestPacket_resetDefautlt_def string_map_ok_def map_wf_def TARS_MAX_STRING_LENGTH_def)
  show "4 + length (enc_request (RequestPacket_resetDefautlt\<lparr>rq_iVersion := 1, rq_sFuncName := [112], rq_sBuffer := [1, 2]\<rparr>))
    \<le> TARS_NET_MAX_PACKAGE_SIZE"
    by (simp add: enc_request_def RequestPacket_resetDefautlt_def enc_Short_def enc_Char_def enc_Int32_def
        enc_string_def enc_vector_Char_def enc_map_def length_head_bytes)
qed

lemma full_response_frame:
  assumes "response_ok r" "nb_ok nb"
    "nb_contents nb = be_bytes 4 (of_nat (4 + length (enc_response r)) :: 32 word) @ enc_response r @ rest"
    "mn \<le> 4 + length (enc_response r)" "4 + length (enc_response r) \<le> mx" "mx < 2 ^ 32"
    "version (rs_iVersion r)" "rs_cPacketType r = TARSNORMAL" "TARSSERVERUNKNOWNERR \<le> sint (rs_iRet r)"
  shows "\<exists>nb'. full_response version mn mx nb = Inr (PACKET_FULL, r, nb') \<and> nb_contents nb' = rest \<and> nb_ok nb'"
proof -
  obtain nb' where nb': "nb_parseBuffer 4 [] mn mx nb = Inr (PACKET_FULL, enc_response r, nb')"
    "nb_contents nb' = rest" "nb_ok nb'"
    using parse_frame[OF assms(2-6)] by blast
  have "later 9 []" by (simp add: later_def)
  then have "decode ResponsePacket_readFrom (enc_response r) = Inr r"
    using ResponsePacket_readFrom_enc[OF assms(1), of "[]" "setBuffer (enc_response r)"]
      unread_setBuffer[of "enc_response r"] by (auto simp: decode_def)
  then show ?thesis using nb' assms(7-9) by (simp add: full_response_def)
qed

lemma response_len_full:
  assumes "nb_ok nb" "nb_contents nb = be_bytes 4 (of_nat (4 + length bs) :: 32 word) @ bs @ rest"
    "mn \<le> 4 + length bs" "4 + length bs \<le> mx" "mx < 2 ^ 32"
  shows "response_len beyond head check full mn mx nb rsp = full (4 + length bs)"
proof -
  have len: "nb_length nb = length (nb_contents nb)" "nb_length nb < 2 ^ 32"
    using net.len_law[OF assms(1)] assms(1) by (simp_all add: nb_ok_def)
  have "nb_getValue 4 nb = Inr (4 + length bs)"
    using nb_getValue4[OF assms(1)] frame_length[of bs "bs @ rest"] assms(2,4,5) by simp
  then show ?thesis using len assms(2-4) by (simp add: response_len_def Let_def)
qed



section \<open>Where the protocol code goes wrong\<close>

text \<open>
  A complete packet of a custom stream protocol stays in the connection's buffer:
  \<^verbatim>\<open>streamResponse\<close> moves only to the request id, so the next packet is parsed from the middle of this
  one.
\<close>

theorem streamResponse_keeps_packet:
  assumes "nb_ok nb" "idOffset \<le> length (nb_contents nb)"
    "streamResponse junk off k netorder idOffset kid idNetorder mx nb rsp = Inr (PACKET_FULL, rsp', nb')"
  shows "nb_contents nb' = drop idOffset (nb_contents nb)
    \<and> rs_sBuffer rsp' = take (net2host k netorder (take k (drop off (nb_contents nb)))) (nb_contents nb)"
proof -
  let ?c = "nb_contents nb"
  have len: "nb_length nb = length ?c" by (rule net.len_law[OF assms(1)])
  note h = net.header_law[OF assms(1)]
  obtain nb1 where m: "nb_moveHeader idOffset nb = Inr (True, nb1)" "nb_contents nb1 = drop idOffset ?c" "nb_ok nb1"
    using net.move_law[OF assms(1,2)] by blast
  have f: "off + k \<le> length ?c"
    using assms(3) len by (auto simp: streamResponse_def Let_def split: if_splits)
  then have d: "take k (drop off (take (off + k) ?c)) = take k (drop off ?c)"
    by (simp add: drop_take)
  show ?thesis
    using assms(3) f m(1,2) net.header_law[OF m(3), of kid]
    by (auto simp: streamResponse_def Let_def len h d split: if_splits option.splits)
qed

theorem streamResponse_keeps_packet_witness:
  "\<exists>nb rsp' nb'. streamResponse 0 0 4 True 4 4 True 100 nb ResponsePacket_resetDefautlt = Inr (PACKET_FULL, rsp', nb')
    \<and> nb_contents nb = [0, 0, 0, 8, 0, 0, 0, 5] \<and> nb_contents nb' = [0, 0, 0, 5]"
proof -
  obtain nb where nb: "nb_ok nb" "nb_contents nb = [0, 0, 0, 8, 0, 0, 0, 5]"
    by (rule nb_addBuffer_fresh[of "[0, 0, 0, 8, 0, 0, 0, 5]" "\<lambda>_. 0"]) simp_all
  obtain nb1 where m: "nb_moveHeader 4 nb = Inr (True, nb1)" "nb_contents nb1 = [0, 0, 0, 5]" "nb_ok nb1"
    using net.move_law[OF nb(1), of 4] nb(2) by auto
  have v: "net2host 4 True [0, 0, 0, 8] = 8" by code_simp
  have "\<exists>rsp'. streamResponse 0 0 4 True 4 4 True 100 nb ResponsePacket_resetDefautlt = Inr (PACKET_FULL, rsp', nb1)"
    using nb net.len_law[OF nb(1)] net.header_law[OF nb(1)] net.header_law[OF m(3)] m(1,2) v
    by (simp add: streamResponse_def Let_def)
  then obtain rsp' where r: "streamResponse 0 0 4 True 4 4 True 100 nb ResponsePacket_resetDefautlt = Inr (PACKET_FULL, rsp', nb1)"
    by blast
  show ?thesis using streamResponse_keeps_packet[OF nb(1) _ r] nb(2) r by auto
qed

text \<open>The status of a tup response is emplaced into a packet that is not sent.\<close>

lemma tup_response_drops_status:
  "rq_iVersion req = TUPVERSION \<Longrightarrow>
     Current_sendResponse fresh req ctx iRet response status desc
       = Current_sendResponse fresh req ctx iRet response [] desc"
  by (simp add: Current_sendResponse_def tup_response_def)

lemma tup_response_empty_buffer:
  "rs_sBuffer response = [] \<Longrightarrow> rq_sBuffer (tup_response req ctx iRet response status desc) = []"
  by (simp add: tup_response_def Let_def)

text \<open>
  The early check of an incomplete json response stores the request id and the message type the
  wrong way round.
\<close>

theorem json_head_swaps:
  assumes "rs_iVersion r = JSONVERSION" "rs_cPacketType r = TARSNORMAL" "TARSSERVERUNKNOWNERR \<le> sint (rs_iRet r)"
  shows "decode (json_head rsp) (enc_response r) =
    Inr (rsp\<lparr>rs_iVersion := rs_iVersion r, rs_cPacketType := rs_cPacketType r, rs_iRequestId := rs_iMessageType r,
             rs_iMessageType := rs_iRequestId r, rs_iRet := rs_iRet r\<rparr>)"
proof -
  have "fst (json_head rsp s) = Inr (rsp\<lparr>rs_iVersion := rs_iVersion r, rs_cPacketType := rs_cPacketType r,
      rs_iRequestId := rs_iMessageType r, rs_iMessageType := rs_iRequestId r, rs_iRet := rs_iRet r\<rparr>)"
    if "at_bytes (enc_response r) s" for s
    using assms that
    by (auto simp: json_head_def dbind_def dret_def enc_response_def short_field.rd_enc
        char_field.rd_enc int32_field.rd_enc add.assoc)
  then show ?thesis using at_bytes_setBuffer[of "enc_response r" "[]"] by (simp add: decode_def)
qed

theorem json_head_swaps_witness:
  "decode (json_head ResponsePacket_resetDefautlt)
     (enc_response (ResponsePacket_resetDefautlt\<lparr>rs_iVersion := 5, rs_iRequestId := 7\<rparr>)) =
   Inr (ResponsePacket_resetDefautlt\<lparr>rs_iVersion := 5, rs_iMessageType := 7\<rparr>)"
  using json_head_swaps[of "ResponsePacket_resetDefautlt\<lparr>rs_iVersion := 5, rs_iRequestId := 7\<rparr>" ResponsePacket_resetDefautlt]
  by (simp add: ResponsePacket_resetDefautlt_def)

end
