(* ===== verification/Uni_Attribute.thy ===== *)
theory Uni_Attribute
  imports App_Protocol
begin

text \<open>
  The attribute sets and packets of the tup protocol (\<^verbatim>\<open>servant/tup/tup.h\<close>): \<^verbatim>\<open>UniAttribute\<close>, a map from
  names to encoded values, and \<^verbatim>\<open>UniPacket\<close>, a request whose buffer is an encoded attribute set. They
  are modelled with the default writer, the raw \<^verbatim>\<open>BufferWriter\<close>, whose \<^verbatim>\<open>swap\<close> copies the bytes out and
  which lives as long as the object; the input stream is reset before every use and keeps nothing.
\<close>

section \<open>Attribute sets\<close>

text \<open>Every exception of the codec derives from \<^verbatim>\<open>runtime_error\<close>; \<open>RuntimeError\<close> is the class itself.\<close>

datatype tup_exn = RuntimeError | CodecError tars_exn | AssertError

record UniAttribute =
  ua_data :: "(byte list \<times> byte list) list"
  ua_iVer :: "16 word"
  ua_os :: writer_state

definition UniAttribute_new :: UniAttribute where
  "UniAttribute_new = \<lparr>ua_data = [], ua_iVer = 3, ua_os = BufferWriter_new\<rparr>"

definition ua_setVersion :: "16 word \<Rightarrow> UniAttribute \<Rightarrow> UniAttribute" where
  "ua_setVersion iVer ua = ua\<lparr>ua_iVer := iVer\<rparr>"

text \<open>\<open>os.reset()\<close>, a write, and \<open>os.swap(v)\<close>: the bytes written and the writer left behind.\<close>

definition os_take :: "writer_state out \<Rightarrow> writer_state \<Rightarrow> tup_exn + byte list \<times> writer_state" where
  "os_take wr os = (case wr (os_reset os) of
     (Inl e, _) \<Rightarrow> Inl (CodecError e)
   | (Inr _, os') \<Rightarrow> Inr (BufferWriter_getByteBuffer os', os'))"

definition ua_put :: "('a \<Rightarrow> byte \<Rightarrow> writer_state out) \<Rightarrow> byte list \<Rightarrow> 'a \<Rightarrow> UniAttribute \<Rightarrow> tup_exn + UniAttribute" where
  "ua_put wr name t ua =
     ebind (os_take (wr t 0) (ua_os ua)) (\<lambda>(v, os).
       Inr (ua\<lparr>ua_data := map_assign name v (ua_data ua), ua_os := os\<rparr>))"

definition ua_putUnknown :: "(nat \<Rightarrow> byte) \<Rightarrow> byte list \<Rightarrow> byte list \<Rightarrow> UniAttribute \<Rightarrow> tup_exn + UniAttribute" where
  "ua_putUnknown fresh name value ua =
     ebind (os_take (writeUnknownV2 (writeBuf (BufferWriter_reserve fresh)) value) (ua_os ua)) (\<lambda>(v, os).
       Inr (ua\<lparr>ua_data := map_assign name v (ua_data ua), ua_os := os\<rparr>))"

text \<open>The bytes between the struct begin and the struct end.\<close>

definition ua_getUnknown :: "byte list \<Rightarrow> UniAttribute \<Rightarrow> tup_exn + byte list" where
  "ua_getUnknown name ua = (case map_of (ua_data ua) name of
     Some v \<Rightarrow> if length v > 2 then Inr (take (length v - 2) (drop 1 v)) else Inl RuntimeError
   | None \<Rightarrow> Inl RuntimeError)"

definition ua_get :: "'a reader \<Rightarrow> byte list \<Rightarrow> 'a \<Rightarrow> UniAttribute \<Rightarrow> tup_exn + 'a" where
  "ua_get rd name t ua = (case map_of (ua_data ua) name of
     Some v \<Rightarrow> (case fst (rd 0 True t (setBuffer v)) of Inl e \<Rightarrow> Inl (CodecError e) | Inr x \<Rightarrow> Inr x)
   | None \<Rightarrow> Inl RuntimeError)"

definition ua_getByDefault :: "'a reader \<Rightarrow> byte list \<Rightarrow> 'a \<Rightarrow> 'a \<Rightarrow> UniAttribute \<Rightarrow> 'a" where
  "ua_getByDefault rd name t def ua = (case ua_get rd name t ua of Inl e \<Rightarrow> def | Inr x \<Rightarrow> x)"

definition ua_clear :: "UniAttribute \<Rightarrow> UniAttribute" where
  "ua_clear ua = ua\<lparr>ua_data := []\<rparr>"

definition write_attributes :: "(nat \<Rightarrow> byte) \<Rightarrow> (byte list \<times> byte list) list \<Rightarrow> writer_state out" where
  "write_attributes fresh data =
     write_map (writeBuf (BufferWriter_reserve fresh)) (write_string (writeBuf (BufferWriter_reserve fresh)))
       (write_vector_Char (writeBuf (BufferWriter_reserve fresh))) data 0"

definition ua_encode :: "(nat \<Rightarrow> byte) \<Rightarrow> UniAttribute \<Rightarrow> tup_exn + byte list \<times> UniAttribute" where
  "ua_encode fresh ua =
     ebind (os_take (write_attributes fresh (ua_data ua)) (ua_os ua)) (\<lambda>(buff, os).
       Inr (buff, ua\<lparr>ua_os := os\<rparr>))"

text \<open>\<^verbatim>\<open>encode(char* buff, size_t\& len)\<close> fails if the encoding is longer than \<open>len\<close>.\<close>

definition ua_encode_ptr :: "(nat \<Rightarrow> byte) \<Rightarrow> nat \<Rightarrow> UniAttribute \<Rightarrow> tup_exn + byte list \<times> UniAttribute" where
  "ua_encode_ptr fresh len ua =
     ebind (os_take (write_attributes fresh (ua_data ua)) (ua_os ua)) (\<lambda>(buff, os).
       if len < length buff then Inl RuntimeError else Inr (buff, ua\<lparr>ua_os := os\<rparr>))"

definition read_attributes :: "byte list \<Rightarrow> tup_exn + (byte list \<times> byte list) list" where
  "read_attributes buff =
     (case fst (read_map [] [] read_string read_vector_Char 0 True [] (setBuffer buff)) of
        Inl e \<Rightarrow> Inl (CodecError e) | Inr m \<Rightarrow> Inr m)"

definition ua_decode :: "byte list \<Rightarrow> UniAttribute \<Rightarrow> tup_exn + UniAttribute" where
  "ua_decode buff ua = ebind (read_attributes buff) (\<lambda>m. Inr (ua\<lparr>ua_data := m\<rparr>))"

definition ua_isEmpty :: "UniAttribute \<Rightarrow> bool" where
  "ua_isEmpty ua \<longleftrightarrow> ua_data ua = []"

definition ua_size :: "UniAttribute \<Rightarrow> nat" where
  "ua_size ua = length (ua_data ua)"

definition ua_containsKey :: "byte list \<Rightarrow> UniAttribute \<Rightarrow> bool" where
  "ua_containsKey key ua \<longleftrightarrow> map_of (ua_data ua) key \<noteq> None"

section \<open>Packets\<close>

record UniPacket =
  up_request :: RequestPacket
  up_attr :: UniAttribute

definition UniPacket_new :: UniPacket where
  "UniPacket_new =
     \<lparr>up_request = RequestPacket_resetDefautlt\<lparr>rq_iVersion := 3\<rparr>, up_attr = UniAttribute_new\<lparr>ua_iVer := 3\<rparr>\<rparr>"

definition up_setVersion :: "16 word \<Rightarrow> UniPacket \<Rightarrow> UniPacket" where
  "up_setVersion iVer up =
     up\<lparr>up_attr := ua_setVersion iVer (up_attr up), up_request := up_request up\<lparr>rq_iVersion := iVer\<rparr>\<rparr>"

definition up_createResponse :: "UniPacket \<Rightarrow> UniPacket" where
  "up_createResponse up =
     UniPacket_new\<lparr>up_request := up_request UniPacket_new
       \<lparr>rq_sServantName := rq_sServantName (up_request up), rq_sFuncName := rq_sFuncName (up_request up),
        rq_iRequestId := rq_iRequestId (up_request up)\<rparr>\<rparr>"

definition up_doEncode :: "(nat \<Rightarrow> byte) \<Rightarrow> UniPacket \<Rightarrow> tup_exn + UniPacket" where
  "up_doEncode fresh up =
     (if rq_sServantName (up_request up) = [] then Inl RuntimeError
      else if rq_sFuncName (up_request up) = [] then Inl RuntimeError
      else ebind (os_take (write_attributes fresh (ua_data (up_attr up))) (ua_os (up_attr up))) (\<lambda>(buff, os).
        Inr (up\<lparr>up_request := up_request up\<lparr>rq_sBuffer := buff\<rparr>, up_attr := up_attr up\<lparr>ua_os := os_reset os\<rparr>\<rparr>)))"

text \<open>\<^verbatim>\<open>encodeBuff\<close>: the encoding of the attributes becomes \<open>sBuffer\<close>, then the packet is framed.\<close>

definition up_encode :: "(nat \<Rightarrow> byte) \<Rightarrow> UniPacket \<Rightarrow> tup_exn + byte list \<times> UniPacket" where
  "up_encode fresh up =
     ebind (up_doEncode fresh up) (\<lambda>up1.
     ebind (os_take (oseq (emit (writeBuf (BufferWriter_reserve fresh)) (le_bytes 4 (0 :: 32 word)))
                          (RequestPacket_writeTo (writeBuf (BufferWriter_reserve fresh)) (up_request up1)))
                    (ua_os (up_attr up1))) (\<lambda>(buff, os).
       if \<not> length buff \<ge> 4 then Inl AssertError
       else Inr (store_at 0 (le_bytes 4 (htonl (of_nat (length buff)))) buff,
                 up1\<lparr>up_attr := up_attr up1\<lparr>ua_os := os\<rparr>\<rparr>)))"

definition up_encode_ptr :: "(nat \<Rightarrow> byte) \<Rightarrow> nat \<Rightarrow> UniPacket \<Rightarrow> tup_exn + byte list \<times> UniPacket" where
  "up_encode_ptr fresh len up =
     ebind (up_doEncode fresh up) (\<lambda>up1.
     ebind (os_take (RequestPacket_writeTo (writeBuf (BufferWriter_reserve fresh)) (up_request up1))
                    (ua_os (up_attr up1))) (\<lambda>(buff, os).
       if len < 4 + length buff then Inl RuntimeError
       else Inr (le_bytes 4 (htonl (of_nat (4 + length buff))) @ buff,
                 up1\<lparr>up_attr := up_attr up1\<lparr>ua_os := os\<rparr>\<rparr>)))"

definition up_decode :: "byte list \<Rightarrow> UniPacket \<Rightarrow> tup_exn + UniPacket" where
  "up_decode buff up =
     (if length buff < 4 then Inl RuntimeError
      else case fst (RequestPacket_readFrom (setBuffer (drop 4 buff))) of
        Inl e \<Rightarrow> Inl (CodecError e)
      | Inr req \<Rightarrow>
          ebind (read_attributes (rq_sBuffer req)) (\<lambda>m.
            Inr \<lparr>up_request = req, up_attr = up_attr up\<lparr>ua_iVer := rq_iVersion req, ua_data := m\<rparr>\<rparr>))"

text \<open>The accessors of \<^verbatim>\<open>UniPacket\<close> and \<^verbatim>\<open>TarsUniPacket\<close>.\<close>

definition up_getVersion :: "UniPacket \<Rightarrow> 16 word" where
  "up_getVersion up = rq_iVersion (up_request up)"

definition up_getRequestId :: "UniPacket \<Rightarrow> 32 word" where
  "up_getRequestId up = rq_iRequestId (up_request up)"

definition up_setRequestId :: "32 word \<Rightarrow> UniPacket \<Rightarrow> UniPacket" where
  "up_setRequestId value up = up\<lparr>up_request := up_request up\<lparr>rq_iRequestId := value\<rparr>\<rparr>"

definition up_getServantName :: "UniPacket \<Rightarrow> byte list" where
  "up_getServantName up = rq_sServantName (up_request up)"

definition up_setServantName :: "byte list \<Rightarrow> UniPacket \<Rightarrow> UniPacket" where
  "up_setServantName value up = up\<lparr>up_request := up_request up\<lparr>rq_sServantName := value\<rparr>\<rparr>"

definition up_getFuncName :: "UniPacket \<Rightarrow> byte list" where
  "up_getFuncName up = rq_sFuncName (up_request up)"

definition up_setFuncName :: "byte list \<Rightarrow> UniPacket \<Rightarrow> UniPacket" where
  "up_setFuncName value up = up\<lparr>up_request := up_request up\<lparr>rq_sFuncName := value\<rparr>\<rparr>"

definition setTarsPacketType :: "byte \<Rightarrow> UniPacket \<Rightarrow> UniPacket" where
  "setTarsPacketType value up = up\<lparr>up_request := up_request up\<lparr>rq_cPacketType := value\<rparr>\<rparr>"

definition setTarsMessageType :: "32 word \<Rightarrow> UniPacket \<Rightarrow> UniPacket" where
  "setTarsMessageType value up = up\<lparr>up_request := up_request up\<lparr>rq_iMessageType := value\<rparr>\<rparr>"

definition setTarsTimeout :: "32 word \<Rightarrow> UniPacket \<Rightarrow> UniPacket" where
  "setTarsTimeout value up = up\<lparr>up_request := up_request up\<lparr>rq_iTimeout := value\<rparr>\<rparr>"

definition setTarsBuffer :: "byte list \<Rightarrow> UniPacket \<Rightarrow> UniPacket" where
  "setTarsBuffer value up = up\<lparr>up_request := up_request up\<lparr>rq_sBuffer := value\<rparr>\<rparr>"

definition setTarsContext :: "(byte list \<times> byte list) list \<Rightarrow> UniPacket \<Rightarrow> UniPacket" where
  "setTarsContext value up = up\<lparr>up_request := up_request up\<lparr>rq_context := value\<rparr>\<rparr>"

definition setTarsStatus :: "(byte list \<times> byte list) list \<Rightarrow> UniPacket \<Rightarrow> UniPacket" where
  "setTarsStatus value up = up\<lparr>up_request := up_request up\<lparr>rq_status := value\<rparr>\<rparr>"

text \<open>
  \<^verbatim>\<open>atoi\<close>: white space, a sign, digits. A value that does not fit a \<^verbatim>\<open>long\<close> saturates there and is cut
  to 32 bits, as the C library does where the standard leaves it open.
\<close>

fun dec_value :: "nat \<Rightarrow> byte list \<Rightarrow> nat" where
  "dec_value acc [] = acc"
| "dec_value acc (c # cs) = (if 48 \<le> c \<and> c \<le> 57 then dec_value (acc * 10 + unat (c - 48)) cs else acc)"

definition is_space :: "byte \<Rightarrow> bool" where
  "is_space c \<longleftrightarrow> c = 32 \<or> 9 \<le> c \<and> c \<le> 13"

definition atoi :: "byte list \<Rightarrow> 32 word" where
  "atoi s = (let s1 = dropWhile is_space s;
                 neg = (s1 \<noteq> [] \<and> hd s1 = 45);
                 ds = (if s1 \<noteq> [] \<and> (hd s1 = 45 \<or> hd s1 = 43) then tl s1 else s1);
                 v = int (dec_value 0 ds)
             in word_of_int (if neg then max (- (2 ^ 63)) (- v) else min (2 ^ 63 - 1) v))"

definition getTarsResultCode :: "UniPacket \<Rightarrow> 32 word" where
  "getTarsResultCode up = (case map_of (rq_status (up_request up)) (ascii ''STATUS_RESULT_CODE'') of
     None \<Rightarrow> 0 | Some v \<Rightarrow> atoi v)"

definition getTarsResultDesc :: "UniPacket \<Rightarrow> byte list" where
  "getTarsResultDesc up = (case map_of (rq_status (up_request up)) (ascii ''STATUS_RESULT_DESC'') of
     None \<Rightarrow> [] | Some v \<Rightarrow> v)"

section \<open>Maps with assignment\<close>

section \<open>The attribute map on the wire\<close>

interpretation attr_pairs: tars_map read_string enc_string "\<lambda>s. length s \<le> TARS_MAX_STRING_LENGTH"
  read_vector_Char enc_vector_Char "\<lambda>v. length v < 2 ^ 32"
  by unfold_locales

definition attr_ok :: "(byte list \<times> byte list) list \<Rightarrow> bool" where
  "attr_ok m \<longleftrightarrow> map_wf m \<and> length m < 2 ^ 31 \<and>
     (\<forall>(k, v) \<in> set m. length k \<le> TARS_MAX_STRING_LENGTH \<and> length v < 2 ^ 32)"

interpretation attr_map: tars_field "read_map [] [] read_string read_vector_Char"
  "enc_map enc_string enc_vector_Char" attr_ok
  using attr_pairs.map_field[of "[]" "[]"] by (simp add: attr_ok_def[abs_def])

lemma appends_attributes:
  "attr_ok m \<Longrightarrow> raw.appends (write_attributes fresh m) (enc_map enc_string enc_vector_Char m 0)"
  unfolding write_attributes_def
  by (intro raw.appends_map raw.appends_string raw.appends_vector_Char) (auto simp: attr_ok_def)

text \<open>A reset writer is as good as a new one.\<close>

lemma os_take_appends:
  assumes "raw.appends wr bs" "raw_inv os"
  shows "\<exists>os'. os_take wr os = Inr (bs, os') \<and> raw_inv os'"
proof -
  have "raw_inv (os_reset os)" "BufferWriter_getByteBuffer (os_reset os) = []"
    using assms(2) by (simp_all add: raw_inv_def os_reset_def BufferWriter_getByteBuffer_def)
  then show ?thesis
    using raw.appendsE[OF assms(1), of "os_reset os"] by (force simp: os_take_def)
qed

section \<open>Attribute sets keep what is put\<close>

definition ua_ok :: "UniAttribute \<Rightarrow> bool" where
  "ua_ok ua \<longleftrightarrow> map_wf (ua_data ua) \<and> raw_inv (ua_os ua)"

lemma ua_ok_new: "ua_ok UniAttribute_new"
  by (simp add: ua_ok_def UniAttribute_new_def map_wf_def)

lemma ua_ok_clear: "ua_ok ua \<Longrightarrow> ua_ok (ua_clear ua)"
  by (simp add: ua_ok_def ua_clear_def map_wf_def)

text \<open>
  A type whose values \<^verbatim>\<open>put\<close> and \<^verbatim>\<open>get\<close> accept: a field the stream reads back, written by the output
  stream as its encoding.
\<close>

locale tup_value = tars_field rd enc ok
  for rd :: "'a reader" and enc :: "'a \<Rightarrow> byte \<Rightarrow> byte list" and ok :: "'a \<Rightarrow> bool" +
  fixes wr :: "'a \<Rightarrow> byte \<Rightarrow> writer_state out"
  assumes wr_appends: "ok x \<Longrightarrow> raw.appends (wr x tag) (enc x tag)"
begin

lemma put_stores:
  assumes "ok t" "ua_ok ua"
  shows "\<exists>ua'. ua_put wr name t ua = Inr ua' \<and> ua_ok ua' \<and>
    map_of (ua_data ua') = (map_of (ua_data ua))(name \<mapsto> enc t 0)"
proof -
  obtain os' where "os_take (wr t 0) (ua_os ua) = Inr (enc t 0, os')" "raw_inv os'"
    using os_take_appends[OF wr_appends[OF assms(1)], of "ua_os ua" 0] assms(2) by (auto simp: ua_ok_def)
  then show ?thesis
    using assms(2) by (simp add: ua_put_def ua_ok_def map_assign_wf map_assign_lookup)
qed

lemma get_stored:
  assumes "ok t" "map_of (ua_data ua) name = Some (enc t 0)"
  shows "ua_get rd name old ua = Inr t"
  using assms rd_enc[OF assms(1), of 0 "setBuffer (enc t 0)"] at_bytes_setBuffer[of "enc t 0" "[]"]
  by (simp add: ua_get_def)

lemma put_get:
  assumes "ok t" "ua_ok ua"
  shows "\<exists>ua'. ua_put wr name t ua = Inr ua' \<and> ua_ok ua' \<and> ua_get rd name old ua' = Inr t \<and>
    (\<forall>n. n \<noteq> name \<longrightarrow> map_of (ua_data ua') n = map_of (ua_data ua) n)"
  using put_stores[OF assms, of name] get_stored[OF assms(1)] by fastforce

end

interpretation tup_string: tup_value read_string enc_string "\<lambda>s. length s \<le> TARS_MAX_STRING_LENGTH"
  "write_string (writeBuf (BufferWriter_reserve fresh))" for fresh
  by unfold_locales (rule raw.appends_string)

interpretation tup_long: tup_value read_Int64 enc_Int64 "\<lambda>_. True"
  "write_Int64 (writeBuf (BufferWriter_reserve fresh))" for fresh
  by unfold_locales (rule raw.appends_Int64)

interpretation tup_string_map: tup_value read_string_map enc_string_map string_map_ok
  "write_map (writeBuf (BufferWriter_reserve fresh)) (write_string (writeBuf (BufferWriter_reserve fresh)))
     (write_string (writeBuf (BufferWriter_reserve fresh)))" for fresh
  by unfold_locales (rule raw.appends_string_map)

text \<open>
  \<^verbatim>\<open>put\<close> of a string that fits the wire never fails, \<^verbatim>\<open>get\<close> returns it, every other attribute keeps
  its bytes, and the attribute set stays well-formed.
\<close>

theorem put_get_string:
  assumes "length s \<le> TARS_MAX_STRING_LENGTH" "ua_ok ua"
  shows "\<exists>ua'. ua_put (write_string (writeBuf (BufferWriter_reserve fresh))) name s ua = Inr ua' \<and> ua_ok ua'
    \<and> ua_get read_string name old ua' = Inr s
    \<and> (\<forall>n. n \<noteq> name \<longrightarrow> map_of (ua_data ua') n = map_of (ua_data ua) n)"
  using tup_string.put_get[OF assms] .

theorem put_get_string_witness:
  "\<exists>ua'. ua_put (write_string (writeBuf (BufferWriter_reserve (\<lambda>_. 0)))) [107] [1, 2] UniAttribute_new = Inr ua'
    \<and> ua_ok ua' \<and> ua_get read_string [107] [] ua' = Inr [1, 2]
    \<and> (\<forall>n. n \<noteq> [107] \<longrightarrow> map_of (ua_data ua') n = map_of (ua_data UniAttribute_new) n)"
  by (rule put_get_string) (simp_all add: TARS_MAX_STRING_LENGTH_def ua_ok_new)

text \<open>
  \<^verbatim>\<open>putUnknown\<close> stores any bytes, but \<^verbatim>\<open>getUnknown\<close> gives them back only if there are some: for an
  empty value it throws as if the attribute did not exist.
\<close>

theorem unknown_attributes:
  assumes "ua_ok ua"
  shows "\<exists>ua'. ua_putUnknown fresh name v ua = Inr ua' \<and> ua_ok ua' \<and> ua_containsKey name ua'
    \<and> ua_getUnknown name ua' = (if v = [] then Inl RuntimeError else Inr v)"
proof -
  let ?bs = "head_bytes TarsHeadeStructBegin 0 @ v @ head_bytes TarsHeadeStructEnd 0"
  have "raw.appends (writeUnknownV2 (writeBuf (BufferWriter_reserve fresh)) v) ?bs"
    unfolding writeUnknownV2_def DataHead_writeTo_def head_bytes_def
    using raw.appends_oseq[OF raw.appends_emit raw.appends_oseq[OF raw.appends_emit raw.appends_emit],
        of fresh "[TarsHeadeStructBegin]" fresh v fresh "[TarsHeadeStructEnd]"] by simp
  then obtain os' where "os_take (writeUnknownV2 (writeBuf (BufferWriter_reserve fresh)) v) (ua_os ua)
      = Inr (?bs, os')" "raw_inv os'"
    using os_take_appends assms unfolding ua_ok_def by blast
  then show ?thesis using assms
    by (simp add: ua_putUnknown_def ua_getUnknown_def ua_containsKey_def ua_ok_def map_assign_wf
        map_assign_lookup head_bytes_def)
qed

theorem unknown_attributes_witness:
  "(\<exists>ua'. ua_putUnknown (\<lambda>_. 0) [1] [] UniAttribute_new = Inr ua' \<and> ua_ok ua' \<and> ua_containsKey [1] ua'
    \<and> ua_getUnknown [1] ua' = Inl RuntimeError)
   \<and> (\<exists>ua'. ua_putUnknown (\<lambda>_. 0) [1] [9] UniAttribute_new = Inr ua' \<and> ua_ok ua' \<and> ua_containsKey [1] ua'
    \<and> ua_getUnknown [1] ua' = Inr [9])"
  using unknown_attributes[OF ua_ok_new, of "\<lambda>_. 0" "[1]" "[]"]
    unknown_attributes[OF ua_ok_new, of "\<lambda>_. 0" "[1]" "[9]"] by simp

section \<open>Encoding and decoding\<close>

lemma read_attributes_enc:
  assumes "attr_ok m"
  shows "read_attributes (enc_map enc_string enc_vector_Char m 0 @ rest) = Inr m"
  using attr_map.rd_enc[OF assms at_bytes_setBuffer] by (simp add: read_attributes_def)

text \<open>
  Decoding the encoding of an attribute set gives the same attributes, whatever the decoding
  object held before and whatever follows in the buffer; encoding into an array that is too short is
  an error.
\<close>

theorem attributes_roundtrip:
  assumes "attr_ok (ua_data ua)" "raw_inv (ua_os ua)"
  shows "\<exists>bs ua'. ua_encode fresh ua = Inr (bs, ua') \<and> ua_data ua' = ua_data ua
    \<and> (\<forall>rest u. ua_decode (bs @ rest) u = Inr (u\<lparr>ua_data := ua_data ua\<rparr>))
    \<and> (\<forall>len. ua_encode_ptr fresh len ua = (if len < length bs then Inl RuntimeError else Inr (bs, ua')))"
proof -
  let ?bs = "enc_map enc_string enc_vector_Char (ua_data ua) 0"
  obtain os' where "os_take (write_attributes fresh (ua_data ua)) (ua_os ua) = Inr (?bs, os')"
    using os_take_appends[OF appends_attributes[OF assms(1)] assms(2)] by blast
  then show ?thesis
    by (simp add: ua_encode_def ua_encode_ptr_def ua_decode_def read_attributes_enc[OF assms(1)])
qed

theorem attributes_roundtrip_witness:
  "\<exists>bs ua'. ua_encode (\<lambda>_. 0) (UniAttribute_new\<lparr>ua_data := [([1], [2, 3]), ([4], [])]\<rparr>) = Inr (bs, ua')
    \<and> ua_data ua' = [([1], [2, 3]), ([4], [])]
    \<and> (\<forall>rest u. ua_decode (bs @ rest) u = Inr (u\<lparr>ua_data := [([1], [2, 3]), ([4], [])]\<rparr>))
    \<and> (\<forall>len. ua_encode_ptr (\<lambda>_. 0) len (UniAttribute_new\<lparr>ua_data := [([1], [2, 3]), ([4], [])]\<rparr>)
          = (if len < length bs then Inl RuntimeError else Inr (bs, ua')))"
  using attributes_roundtrip[of "UniAttribute_new\<lparr>ua_data := [([1], [2, 3]), ([4], [])]\<rparr>" "\<lambda>_. 0"]
  by (simp add: attr_ok_def map_wf_def TARS_MAX_STRING_LENGTH_def UniAttribute_new_def)

section \<open>Tup packets on the wire\<close>

definition up_ok :: "UniPacket \<Rightarrow> bool" where
  "up_ok up \<longleftrightarrow> rq_sServantName (up_request up) \<noteq> [] \<and> rq_sFuncName (up_request up) \<noteq> []
     \<and> attr_ok (ua_data (up_attr up)) \<and> raw_inv (ua_os (up_attr up))
     \<and> request_ok (up_request up\<lparr>rq_sBuffer := enc_map enc_string enc_vector_Char (ua_data (up_attr up)) 0\<rparr>)"

text \<open>The request a tup packet is sent as: the attributes in the place of the buffer.\<close>

definition up_sent :: "UniPacket \<Rightarrow> RequestPacket" where
  "up_sent up = up_request up\<lparr>rq_sBuffer := enc_map enc_string enc_vector_Char (ua_data (up_attr up)) 0\<rparr>"

lemma up_doEncode_sent:
  assumes "up_ok up"
  shows "\<exists>os. up_doEncode fresh up = Inr (up\<lparr>up_request := up_sent up, up_attr := up_attr up\<lparr>ua_os := os\<rparr>\<rparr>) \<and> raw_inv os"
proof -
  let ?bs = "enc_map enc_string enc_vector_Char (ua_data (up_attr up)) 0"
  obtain os where os: "os_take (write_attributes fresh (ua_data (up_attr up))) (ua_os (up_attr up)) = Inr (?bs, os)"
    "raw_inv os"
    using os_take_appends[OF appends_attributes, of "ua_data (up_attr up)" "ua_os (up_attr up)"] assms
    by (auto simp: up_ok_def)
  then have "raw_inv (os_reset os)" by (simp add: raw_inv_def os_reset_def)
  then show ?thesis using os(1) assms by (intro exI[of _ "os_reset os"]) (simp add: up_doEncode_def up_ok_def up_sent_def)
qed

lemma up_encode_sent:
  assumes "up_ok up"
  shows "\<exists>os. up_encode fresh up
      = Inr (be_bytes 4 (of_nat (4 + length (enc_request (up_sent up))) :: 32 word) @ enc_request (up_sent up),
             up\<lparr>up_request := up_sent up, up_attr := up_attr up\<lparr>ua_os := os\<rparr>\<rparr>) \<and> raw_inv os"
proof -
  let ?wb = "writeBuf (BufferWriter_reserve fresh)"
  let ?bs = "le_bytes 4 (0 :: 32 word) @ enc_request (up_sent up)"
  obtain os where os: "up_doEncode fresh up = Inr (up\<lparr>up_request := up_sent up, up_attr := up_attr up\<lparr>ua_os := os\<rparr>\<rparr>)"
    "raw_inv os" using up_doEncode_sent[OF assms] by blast
  have "request_ok (up_sent up)" using assms by (simp add: up_ok_def up_sent_def)
  then have "raw.appends (oseq (emit ?wb (le_bytes 4 (0 :: 32 word))) (RequestPacket_writeTo ?wb (up_sent up))) ?bs"
    by (intro raw.appends_oseq raw.appends_emit raw.appends_request)
  then obtain os' where os': "os_take (oseq (emit ?wb (le_bytes 4 (0 :: 32 word))) (RequestPacket_writeTo ?wb (up_sent up))) os
      = Inr (?bs, os')" "raw_inv os'"
    using os_take_appends os(2) by blast
  then show ?thesis using os(1) by (intro exI[of _ os']) (simp add: up_encode_def store_at_def store_htonl)
qed

lemma up_decode_sent:
  assumes "up_ok up" "length h = 4"
  shows "up_decode (h @ enc_request (up_sent up)) u
    = Inr \<lparr>up_request = up_sent up,
           up_attr = up_attr u\<lparr>ua_iVer := rq_iVersion (up_request up), ua_data := ua_data (up_attr up)\<rparr>\<rparr>"
proof -
  have "request_ok (up_sent up)" "attr_ok (ua_data (up_attr up))"
    using assms(1) by (simp_all add: up_ok_def up_sent_def)
  then show ?thesis
    using RequestPacket_readFrom_enc[of "up_sent up" "setBuffer (enc_request (up_sent up))"]
      at_bytes_setBuffer[of "enc_request (up_sent up)" "[]"] assms(2)
      read_attributes_enc[of "ua_data (up_attr up)" "[]"]
    by (simp add: up_decode_def up_sent_def)
qed


lemma UniPacket_sample_ok: "up_ok (up_setServantName [83] (up_setFuncName [102] UniPacket_new))"
  by (simp add: up_ok_def up_setServantName_def up_setFuncName_def UniPacket_new_def UniAttribute_new_def
      RequestPacket_resetDefautlt_def attr_ok_def map_wf_def request_ok_def string_map_ok_def
      TARS_MAX_STRING_LENGTH_def enc_map_def enc_Int32_def enc_Short_def enc_Char_def length_head_bytes)




text \<open>Packets without a servant or a function name are refused.\<close>

lemma up_encode_refuses:
  "up_getServantName up = [] \<or> up_getFuncName up = [] \<Longrightarrow> up_encode fresh up = Inl RuntimeError"
  "up_getServantName up = [] \<or> up_getFuncName up = [] \<Longrightarrow> up_encode_ptr fresh len up = Inl RuntimeError"
  by (auto simp: up_encode_def up_encode_ptr_def up_doEncode_def up_getServantName_def up_getFuncName_def)

section \<open>Result codes\<close>

lemma dec_value_append:
  "\<forall>c \<in> set ds. 48 \<le> c \<and> c \<le> 57 \<Longrightarrow> dec_value acc (ds @ r) = dec_value (dec_value acc ds) r"
  by (induction ds arbitrary: acc) auto

lemma digit_byte:
  assumes "n < 10"
  shows "48 \<le> (of_nat (48 + n) :: byte)" "(of_nat (48 + n) :: byte) \<le> 57" "unat ((of_nat (48 + n) :: byte) - 48) = n"
proof -
  have "unat (of_nat (48 + n) :: byte) = 48 + n"
    using assms by (subst unat_of_nat) (simp add: take_bit_nat_eq_self)
  then show "48 \<le> (of_nat (48 + n) :: byte)" "(of_nat (48 + n) :: byte) \<le> 57"
    using assms by (simp_all only: word_le_nat_alt) simp_all
  have "(of_nat (48 + n) :: byte) - 48 = of_nat n" by simp
  then show "unat ((of_nat (48 + n) :: byte) - 48) = n"
    using assms by (simp only: unat_of_nat) (simp add: take_bit_nat_eq_self)
qed

lemma dec_digits_are_digits: "c \<in> set (dec_digits n) \<Longrightarrow> 48 \<le> c \<and> c \<le> 57"
proof (induction n rule: dec_digits.induct)
  case (1 n)
  then show ?case using digit_byte[of n] digit_byte[of "n mod 10"]
    by (subst (asm) (2) dec_digits.simps) (auto split: if_splits)
qed

lemma dec_value_digits: "dec_value 0 (dec_digits n) = n"
proof (induction n rule: dec_digits.induct)
  case (1 n)
  show ?case
  proof (cases "n < 10")
    case True
    then show ?thesis using digit_byte[OF True] by (subst dec_digits.simps) simp
  next
    case False
    have "dec_value 0 (dec_digits n) = dec_value (n div 10) [of_nat (48 + n mod 10)]"
      using 1 False dec_digits_are_digits[of _ "n div 10"]
      by (subst dec_digits.simps) (simp add: dec_value_append)
    then show ?thesis using digit_byte[of "n mod 10"] by simp
  qed
qed

lemma dec_digits_nonempty: "dec_digits n \<noteq> []"
  by (subst dec_digits.simps) simp

lemma atoi_tostr: "atoi (tostr (sint (i :: 32 word))) = i"
proof -
  have b: "- (2 ^ 31) \<le> sint i" "sint i < 2 ^ 31" using sint_range_size[of i] by (simp_all add: word_size)
  obtain d ds where d: "dec_digits (nat (sint i)) = d # ds" "48 \<le> d" "d \<le> 57"
    using dec_digits_are_digits[of _ "nat (sint i)"] dec_digits_nonempty[of "nat (sint i)"]
    by (cases "dec_digits (nat (sint i))") auto
  have "\<not> is_space d" "d \<noteq> 45" "d \<noteq> 43" using d(2,3) by (auto simp: is_space_def word_le_nat_alt)
  moreover have "\<not> is_space 45" by (simp add: is_space_def)
  ultimately show ?thesis
    using b d(1) dec_value_digits[of "nat (sint i)"] by (simp add: atoi_def tostr_def Let_def dec_value_digits)
qed

text \<open>
  The result code and the description a server puts into a tup response are what the client reads:
  \<^verbatim>\<open>getTarsResultCode\<close> inverts the decimal encoding for every 32-bit code, and an absent code is 0.
\<close>

theorem tup_result_code:
  "getTarsResultCode \<lparr>up_request = tup_response request ctx iRet response status desc, up_attr = a\<rparr> = iRet
   \<and> getTarsResultDesc \<lparr>up_request = tup_response request ctx iRet response status desc, up_attr = a\<rparr> = desc"
proof -
  have "ascii ''STATUS_RESULT_CODE'' \<noteq> ascii ''STATUS_RESULT_DESC''" by (simp add: ascii_def)
  moreover have "map_wf (map_assign k v ([] :: (byte list \<times> byte list) list))" for k v by (simp add: map_wf_def)
  ultimately show ?thesis
    by (simp add: getTarsResultCode_def getTarsResultDesc_def tup_response_def Let_def RequestPacket_resetDefautlt_def
        map_assign_lookup atoi_tostr map_wf_def)
qed

end
