(* ===== verification/Loop_Queue.thy ===== *)
theory Loop_Queue
  imports Tars_Prelude
begin

text \<open>
  The circular queue \<^verbatim>\<open>TC_LoopQueue\<close> (\<^verbatim>\<open>util/tc_loop_queue.h\<close>) through which a calling thread hands its
  requests to the network thread. It is modelled twice: as a sequential object, with one definition per
  method, and as the step relation of one producer in \<^verbatim>\<open>push_back\<close> and one consumer in \<^verbatim>\<open>pop_front\<close> that
  interleave at every access to a variable they share. The elements are of any type; \<open>fresh\<close> is what
  \<^verbatim>\<open>malloc\<close> returns in its array. Indices and sizes are natural numbers: none of the unsigned subtractions of
  the code is evaluated below zero, as the capacity is at least one and the guards come first.
\<close>

section \<open>The methods\<close>

record 'a LoopQueue =
  lq_p :: "'a list"
  lq_iCapacity :: nat
  lq_iCapacitySub :: nat
  lq_iBegin :: nat
  lq_iEnd :: nat

definition LoopQueue_new :: "(nat \<Rightarrow> 'a) \<Rightarrow> nat \<Rightarrow> 'a LoopQueue" where
  "LoopQueue_new fresh iSize =
     \<lparr>lq_p = map fresh [0..<iSize + 1], lq_iCapacity = iSize + 1, lq_iCapacitySub = iSize,
      lq_iBegin = 0, lq_iEnd = 0\<rparr>"

definition lq_size :: "'a LoopQueue \<Rightarrow> nat" where
  "lq_size q = (if lq_iBegin q < lq_iEnd q then lq_iBegin q + lq_iCapacity q - lq_iEnd q
                else lq_iBegin q - lq_iEnd q)"

definition lq_empty :: "'a LoopQueue \<Rightarrow> bool" where
  "lq_empty q \<longleftrightarrow> lq_iEnd q = lq_iBegin q"

definition lq_getCapacity :: "'a LoopQueue \<Rightarrow> nat" where
  "lq_getCapacity q = lq_iCapacity q"

text \<open>The guard of the single-element \<^verbatim>\<open>push_back\<close>, over the copy \<open>iEnd\<close> it takes of \<^verbatim>\<open>_iEnd\<close>.\<close>

definition lq_full :: "nat \<Rightarrow> 'a LoopQueue \<Rightarrow> bool" where
  "lq_full iEnd q \<longleftrightarrow>
     iEnd > lq_iBegin q \<and> iEnd - lq_iBegin q < 2 \<or>
     lq_iBegin q > iEnd \<and> lq_iBegin q - iEnd > lq_iCapacity q - 2"

text \<open>\<^verbatim>\<open>memcpy(_p+_iBegin,\&t,sizeof(T))\<close>, and the two cursors stepping around the array.\<close>

definition lq_store :: "'a \<Rightarrow> 'a LoopQueue \<Rightarrow> 'a LoopQueue" where
  "lq_store t q = q\<lparr>lq_p := (lq_p q)[lq_iBegin q := t]\<rparr>"

definition lq_stepBegin :: "'a LoopQueue \<Rightarrow> 'a LoopQueue" where
  "lq_stepBegin q = q\<lparr>lq_iBegin := if lq_iBegin q = lq_iCapacitySub q then 0 else lq_iBegin q + 1\<rparr>"

definition lq_stepEnd :: "'a LoopQueue \<Rightarrow> 'a LoopQueue" where
  "lq_stepEnd q = q\<lparr>lq_iEnd := if lq_iEnd q = lq_iCapacitySub q then 0 else lq_iEnd q + 1\<rparr>"

text \<open>
  \<^verbatim>\<open>push_back(t, bEmpty)\<close>: the result, \<open>bEmpty\<close> and the queue. The variant with two more output
  parameters also returns the cursors it started from.
\<close>

definition lq_push_back :: "'a \<Rightarrow> 'a LoopQueue \<Rightarrow> bool \<times> bool \<times> 'a LoopQueue" where
  "lq_push_back t q =
     (if lq_full (lq_iEnd q) q then (False, False, q)
      else let q1 = lq_store t q;
               bEmpty = (lq_iEnd q1 = lq_iBegin q1);
               q2 = lq_stepBegin q1
           in (True, bEmpty \<or> lq_size q2 = 1, q2))"

definition lq_push_back_cursors :: "'a \<Rightarrow> 'a LoopQueue \<Rightarrow> bool \<times> bool \<times> nat \<times> nat \<times> 'a LoopQueue" where
  "lq_push_back_cursors t q =
     (case lq_push_back t q of (r, bEmpty, q') \<Rightarrow> (r, bEmpty, lq_iBegin q, lq_iEnd q, q'))"

definition lq_push_back1 :: "'a \<Rightarrow> 'a LoopQueue \<Rightarrow> bool \<times> 'a LoopQueue" where
  "lq_push_back1 t q = (case lq_push_back t q of (r, _, q') \<Rightarrow> (r, q'))"

definition lq_push_all :: "'a list \<Rightarrow> 'a LoopQueue \<Rightarrow> bool \<times> 'a LoopQueue" where
  "lq_push_all vt q =
     (let iEnd = lq_iEnd q in
      if length vt > lq_iCapacity q - 1 \<or>
         iEnd > lq_iBegin q \<and> iEnd - lq_iBegin q < length vt + 1 \<or>
         lq_iBegin q > iEnd \<and> lq_iBegin q - iEnd > lq_iCapacity q - length vt - 1
      then (False, q)
      else (True, fold (\<lambda>t q. lq_stepBegin (lq_store t q)) vt q))"

text \<open>\<^verbatim>\<open>pop_front(t)\<close> and \<^verbatim>\<open>get_front(t)\<close> leave \<open>t\<close> alone when there is nothing.\<close>

definition lq_pop_front :: "'a LoopQueue \<Rightarrow> 'a option \<times> 'a LoopQueue" where
  "lq_pop_front q =
     (if lq_iEnd q = lq_iBegin q then (None, q) else (Some (lq_p q ! lq_iEnd q), lq_stepEnd q))"

definition lq_pop_front0 :: "'a LoopQueue \<Rightarrow> bool \<times> 'a LoopQueue" where
  "lq_pop_front0 q = (if lq_iEnd q = lq_iBegin q then (False, q) else (True, lq_stepEnd q))"

definition lq_get_front :: "'a LoopQueue \<Rightarrow> 'a option" where
  "lq_get_front q = (if lq_iEnd q = lq_iBegin q then None else Some (lq_p q ! lq_iEnd q))"

section \<open>What the array holds\<close>

definition lq_inv :: "'a LoopQueue \<Rightarrow> bool" where
  "lq_inv q \<longleftrightarrow> lq_iCapacity q = lq_iCapacitySub q + 1 \<and> length (lq_p q) = lq_iCapacity q
     \<and> lq_iBegin q < lq_iCapacity q \<and> lq_iEnd q < lq_iCapacity q"

definition lq_slot :: "'a LoopQueue \<Rightarrow> nat \<Rightarrow> nat" where
  "lq_slot q i = (if lq_iEnd q + i < lq_iCapacity q then lq_iEnd q + i else lq_iEnd q + i - lq_iCapacity q)"

definition lq_contents :: "'a LoopQueue \<Rightarrow> 'a list" where
  "lq_contents q = map (\<lambda>i. lq_p q ! lq_slot q i) [0..<lq_size q]"

lemmas lq_ops = lq_store_def lq_stepBegin_def lq_stepEnd_def

lemma lq_new: "lq_inv (LoopQueue_new fresh n)" "lq_contents (LoopQueue_new fresh n) = []"
  "lq_iCapacitySub (LoopQueue_new fresh n) = n"
  by (simp_all add: LoopQueue_new_def lq_inv_def lq_contents_def lq_size_def)

lemma lq_ops_inv:
  "lq_inv q \<Longrightarrow> lq_inv (lq_store t q)" "lq_inv q \<Longrightarrow> lq_inv (lq_stepBegin q)" "lq_inv q \<Longrightarrow> lq_inv (lq_stepEnd q)"
  by (auto simp: lq_inv_def lq_ops)

lemma lq_ops_sub [simp]:
  "lq_iCapacitySub (lq_store t q) = lq_iCapacitySub q" "lq_iCapacitySub (lq_stepBegin q) = lq_iCapacitySub q"
  "lq_iCapacitySub (lq_stepEnd q) = lq_iCapacitySub q"
  by (simp_all add: lq_ops)

lemma lq_size_le: "lq_inv q \<Longrightarrow> lq_size q \<le> lq_iCapacitySub q"
  by (auto simp: lq_inv_def lq_size_def)

lemma length_lq_contents [simp]: "length (lq_contents q) = lq_size q"
  by (simp add: lq_contents_def)

lemma lq_size_0: "lq_inv q \<Longrightarrow> lq_size q = 0 \<longleftrightarrow> lq_iEnd q = lq_iBegin q"
  by (auto simp: lq_inv_def lq_size_def)

lemma lq_contents_empty: "lq_inv q \<Longrightarrow> lq_contents q = [] \<longleftrightarrow> lq_iEnd q = lq_iBegin q"
  using lq_size_0[of q] by (simp add: lq_contents_def)

lemma lq_full_iff:
  "lq_inv q \<Longrightarrow> 0 < lq_iCapacitySub q \<Longrightarrow> lq_full (lq_iEnd q) q \<longleftrightarrow> lq_size q = lq_iCapacitySub q"
  by (auto simp: lq_inv_def lq_full_def lq_size_def)

text \<open>The slot behind the last element is free as long as the queue is not full.\<close>

lemma lq_slot_free:
  assumes "lq_inv q" "i < lq_size q"
  shows "lq_slot q i \<noteq> lq_iBegin q"
  using assms by (auto simp: lq_inv_def lq_size_def lq_slot_def split: if_splits)

lemma lq_slot_size: "lq_inv q \<Longrightarrow> lq_slot q (lq_size q) = lq_iBegin q"
  by (auto simp: lq_inv_def lq_size_def lq_slot_def)

lemma lq_store_contents: "lq_inv q \<Longrightarrow> lq_contents (lq_store t q) = lq_contents q"
  by (auto simp: lq_contents_def lq_store_def lq_size_def lq_slot_def
      dest!: lq_slot_free[unfolded lq_slot_def lq_size_def] split: if_splits)

lemma lq_size_stepBegin:
  "lq_inv q \<Longrightarrow> lq_size q < lq_iCapacitySub q \<Longrightarrow> lq_size (lq_stepBegin q) = lq_size q + 1"
  by (auto simp: lq_inv_def lq_size_def lq_stepBegin_def)

lemma lq_size_store [simp]: "lq_size (lq_store t q) = lq_size q"
  by (simp add: lq_size_def lq_store_def)

lemma lq_stepBegin_contents:
  assumes "lq_inv q" "lq_size q < lq_iCapacitySub q"
  shows "lq_contents (lq_stepBegin q) = lq_contents q @ [lq_p q ! lq_iBegin q]"
proof -
  have "lq_slot (lq_stepBegin q) = lq_slot q" "lq_p (lq_stepBegin q) = lq_p q"
    by (auto simp: lq_slot_def lq_stepBegin_def)
  then show ?thesis
    using lq_size_stepBegin[OF assms] lq_slot_size[OF assms(1)] by (simp add: lq_contents_def)
qed

lemma lq_stepEnd_contents:
  assumes "lq_inv q" "lq_iEnd q \<noteq> lq_iBegin q"
  shows "lq_contents q = lq_p q ! lq_iEnd q # lq_contents (lq_stepEnd q)"
proof -
  have s: "lq_size q = Suc (lq_size (lq_stepEnd q))"
    using assms by (auto simp: lq_inv_def lq_size_def lq_stepEnd_def)
  have "lq_slot q 0 = lq_iEnd q" using assms(1) by (simp add: lq_slot_def lq_inv_def)
  moreover have "lq_slot q (Suc i) = lq_slot (lq_stepEnd q) i" if "i < lq_size (lq_stepEnd q)" for i
    using assms that by (auto simp: lq_slot_def lq_stepEnd_def lq_inv_def lq_size_def)
  moreover have "lq_p (lq_stepEnd q) = lq_p q" by (simp add: lq_stepEnd_def)
  ultimately show ?thesis
    unfolding lq_contents_def s by (simp add: upt_conv_Cons map_Suc_upt[symmetric] del: upt_Suc)
qed

lemma lq_put_contents:
  assumes "lq_inv q" "lq_size q < lq_iCapacitySub q"
  shows "lq_contents (lq_stepBegin (lq_store t q)) = lq_contents q @ [t]"
proof -
  have "lq_p (lq_store t q) ! lq_iBegin (lq_store t q) = t"
    using assms(1) by (simp add: lq_store_def lq_inv_def)
  then show ?thesis
    using lq_stepBegin_contents[OF lq_ops_inv(1)[OF assms(1)]] assms lq_store_contents[OF assms(1)] by simp
qed

section \<open>A bounded queue\<close>

text \<open>
  The contract of a bounded first-in first-out queue: an operation succeeds exactly when there is room
  or something to take, and the contents change accordingly. Every sequence of operations then behaves
  as on a list.
\<close>

datatype 'a queue_op = Push 'a | Pop

fun fifo_run :: "nat \<Rightarrow> 'a queue_op list \<Rightarrow> 'a list \<Rightarrow> 'a list \<times> 'a list" where
  "fifo_run n [] xs = ([], xs)"
| "fifo_run n (Push t # ops) xs = fifo_run n ops (if length xs < n then xs @ [t] else xs)"
| "fifo_run n (Pop # ops) xs =
     (case xs of [] \<Rightarrow> fifo_run n ops [] | x # ys \<Rightarrow> (case fifo_run n ops ys of (out, zs) \<Rightarrow> (x # out, zs)))"

fun queue_run :: "('a \<Rightarrow> 'q \<Rightarrow> bool \<times> 'q) \<Rightarrow> ('q \<Rightarrow> 'a option \<times> 'q) \<Rightarrow> 'a queue_op list \<Rightarrow> 'q \<Rightarrow> 'a list \<times> 'q" where
  "queue_run push pop [] q = ([], q)"
| "queue_run push pop (Push t # ops) q = queue_run push pop ops (snd (push t q))"
| "queue_run push pop (Pop # ops) q =
     (case queue_run push pop ops (snd (pop q)) of (out, q') \<Rightarrow>
        (case fst (pop q) of None \<Rightarrow> out | Some x \<Rightarrow> x # out, q'))"

locale bounded_queue =
  fixes push :: "'a \<Rightarrow> 'q \<Rightarrow> bool \<times> 'q"
    and pop :: "'q \<Rightarrow> 'a option \<times> 'q"
    and contents :: "'q \<Rightarrow> 'a list"
    and limit :: "'q \<Rightarrow> nat"
    and inv :: "'q \<Rightarrow> bool"
  assumes push_inv: "inv q \<Longrightarrow> inv (snd (push t q))"
    and pop_inv: "inv q \<Longrightarrow> inv (snd (pop q))"
    and push_room: "inv q \<Longrightarrow> fst (push t q) \<longleftrightarrow> length (contents q) < limit q"
    and push_contents: "inv q \<Longrightarrow>
      contents (snd (push t q)) = (if fst (push t q) then contents q @ [t] else contents q)"
    and push_limit: "inv q \<Longrightarrow> limit (snd (push t q)) = limit q"
    and pop_some: "inv q \<Longrightarrow> fst (pop q) = (case contents q of [] \<Rightarrow> None | x # _ \<Rightarrow> Some x)"
    and pop_contents: "inv q \<Longrightarrow> contents (snd (pop q)) = tl (contents q)"
    and pop_limit: "inv q \<Longrightarrow> limit (snd (pop q)) = limit q"
    and within: "inv q \<Longrightarrow> length (contents q) \<le> limit q"
begin

lemma run_fifo:
  "inv q \<Longrightarrow> (case queue_run push pop ops q of (out, q') \<Rightarrow>
     fifo_run (limit q) ops (contents q) = (out, contents q') \<and> inv q' \<and> limit q' = limit q)"
proof (induction ops arbitrary: q)
  case (Cons a ops)
  show ?case
  proof (cases a)
    case (Push t)
    then show ?thesis using Cons.IH[OF push_inv[OF Cons.prems, of t]] Cons.prems
      by (auto simp: push_contents push_room push_limit split: prod.splits)
  next
    case Pop
    then show ?thesis using Cons.IH[OF pop_inv[OF Cons.prems]] Cons.prems
      by (cases "contents q") (auto simp: pop_contents pop_some pop_limit split: prod.splits)
  qed
qed simp

end

definition lq_ok :: "'a LoopQueue \<Rightarrow> bool" where
  "lq_ok q \<longleftrightarrow> lq_inv q \<and> 0 < lq_iCapacitySub q"

lemma lq_push_back_spec:
  assumes "lq_ok q"
  shows "lq_push_back t q =
    (if lq_size q < lq_iCapacitySub q then (True, lq_contents q = [], lq_stepBegin (lq_store t q)) else (False, False, q))"
proof -
  have i: "lq_inv q" "lq_full (lq_iEnd q) q \<longleftrightarrow> lq_size q = lq_iCapacitySub q"
    using assms lq_full_iff by (auto simp: lq_ok_def)
  have c: "lq_size (lq_stepBegin (lq_store t q)) = lq_size q + 1" if "lq_size q < lq_iCapacitySub q"
    using lq_put_contents[OF i(1) that, of t] length_lq_contents[of "lq_stepBegin (lq_store t q)"] by simp
  have "lq_iEnd (lq_store t q) = lq_iEnd q" "lq_iBegin (lq_store t q) = lq_iBegin q" by (simp_all add: lq_store_def)
  then show ?thesis
    using i c lq_size_le[OF i(1)] lq_contents_empty[OF i(1)] lq_size_0[OF i(1)]
    by (auto simp: lq_push_back_def Let_def)
qed

interpretation lq: bounded_queue lq_push_back1 lq_pop_front lq_contents lq_iCapacitySub lq_ok
proof
  fix q :: "'a LoopQueue" and t assume ok: "lq_ok q"
  then have i: "lq_inv q" by (simp add: lq_ok_def)
  show "lq_ok (snd (lq_push_back1 t q))" "lq_iCapacitySub (snd (lq_push_back1 t q)) = lq_iCapacitySub q"
    using ok by (auto simp: lq_push_back1_def lq_push_back_spec lq_ok_def lq_ops_inv)
  show "lq_ok (snd (lq_pop_front q))" "lq_iCapacitySub (snd (lq_pop_front q)) = lq_iCapacitySub q"
    using ok lq_ops_inv(3)[OF i] by (auto simp: lq_pop_front_def lq_ok_def)
  show "fst (lq_push_back1 t q) \<longleftrightarrow> length (lq_contents q) < lq_iCapacitySub q"
    using ok by (simp add: lq_push_back1_def lq_push_back_spec)
  show "lq_contents (snd (lq_push_back1 t q)) = (if fst (lq_push_back1 t q) then lq_contents q @ [t] else lq_contents q)"
    using ok lq_put_contents[OF i] by (simp add: lq_push_back1_def lq_push_back_spec)
  show "fst (lq_pop_front q) = (case lq_contents q of [] \<Rightarrow> None | x # _ \<Rightarrow> Some x)"
    "lq_contents (snd (lq_pop_front q)) = tl (lq_contents q)"
    using lq_contents_empty[OF i] lq_stepEnd_contents[OF i] by (auto simp: lq_pop_front_def)
  show "length (lq_contents q) \<le> lq_iCapacitySub q" using lq_size_le[OF i] by simp
qed



text \<open>A batch is accepted as a whole or not at all.\<close>

lemma fold_put_contents:
  "lq_inv q \<Longrightarrow> lq_size q + length vt \<le> lq_iCapacitySub q \<Longrightarrow>
     lq_contents (fold (\<lambda>t q. lq_stepBegin (lq_store t q)) vt q) = lq_contents q @ vt"
proof (induction vt arbitrary: q)
  case (Cons t vt)
  let ?q = "lq_stepBegin (lq_store t q)"
  have c: "lq_contents ?q = lq_contents q @ [t]" using Cons.prems by (intro lq_put_contents) simp_all
  have "lq_size ?q = lq_size q + 1" using arg_cong[OF c, of length] by simp
  moreover have "lq_inv ?q" "lq_iCapacitySub ?q = lq_iCapacitySub q"
    using Cons.prems(1) by (simp_all add: lq_ops_inv)
  ultimately show ?case using Cons.IH[of ?q] Cons.prems(2) c by simp
qed simp

text \<open>
  Pushing a vector succeeds exactly when all of it fits, and then appends all of it in order;
  otherwise the queue is unchanged.
\<close>

theorem lq_push_all_spec:
  assumes "lq_inv q"
  shows "(fst (lq_push_all vt q) \<longleftrightarrow> length (lq_contents q) + length vt \<le> lq_iCapacitySub q)
    \<and> lq_contents (snd (lq_push_all vt q)) = lq_contents q @ (if fst (lq_push_all vt q) then vt else [])
    \<and> (\<not> fst (lq_push_all vt q) \<longrightarrow> snd (lq_push_all vt q) = q)"
proof -
  have "fst (lq_push_all vt q) \<longleftrightarrow> lq_size q + length vt \<le> lq_iCapacitySub q"
    using assms by (auto simp: lq_push_all_def Let_def lq_inv_def lq_size_def)
  then show ?thesis
    using fold_put_contents[OF assms, of vt] by (auto simp: lq_push_all_def Let_def split: if_splits)
qed

theorem lq_push_all_spec_witness:
  "(fst (lq_push_all [1, 2, 3 :: nat] (LoopQueue_new (\<lambda>_. 0) 2)) \<longleftrightarrow> False)
    \<and> fst (lq_push_all [1, 2 :: nat] (LoopQueue_new (\<lambda>_. 0) 2))
    \<and> lq_contents (snd (lq_push_all [1, 2 :: nat] (LoopQueue_new (\<lambda>_. 0) 2))) = [1, 2]"
  using lq_push_all_spec[OF lq_new(1), of "[1, 2, 3 :: nat]" "\<lambda>_. 0" 2] lq_push_all_spec[OF lq_new(1), of "[1, 2 :: nat]" "\<lambda>_. 0" 2]
  by (simp add: lq_new)

text \<open>
  The capacity must be positive: a queue made for no elements accepts a push and drops the element.
\<close>

lemma zero_capacity_drops:
  "fst (lq_push_back1 t (LoopQueue_new fresh 0))" "lq_contents (snd (lq_push_back1 t (LoopQueue_new fresh 0))) = []"
  by (simp_all add: lq_push_back1_def lq_push_back_def LoopQueue_new_def lq_full_def lq_ops lq_contents_def lq_size_def)

section \<open>One producer and one consumer\<close>

text \<open>
  The producer runs \<^verbatim>\<open>push_back(t, bEmpty)\<close>, the consumer \<^verbatim>\<open>pop_front(t)\<close>, over and over, without a lock.
  Each step makes at most one access to a variable the other thread writes: the producer takes its copy
  of \<^verbatim>\<open>_iEnd\<close> and decides (the guard), writes the slot, compares the cursors, moves \<^verbatim>\<open>_iBegin\<close>, and asks for
  the size; the consumer compares the cursors, reads the slot, and moves \<^verbatim>\<open>_iEnd\<close>. Accesses take effect in
  program order. \<open>pushed\<close> and \<open>popped\<close> record what went in and came out, and \<open>told\<close> whether a push has
  returned \<open>bEmpty\<close> since the last pop that found nothing.
\<close>

datatype 'a producer = PIdle | PStore 'a | PCompare 'a | PStep 'a bool | PSize 'a bool | PDone 'a bool
datatype 'a consumer = CIdle | CRead | CStep 'a | CWait

record 'a lq_sys =
  sys_q :: "'a LoopQueue"
  sys_prod :: "'a producer"
  sys_cons :: "'a consumer"
  sys_pushed :: "'a list"
  sys_popped :: "'a list"
  sys_told :: bool

definition lq_start :: "(nat \<Rightarrow> 'a) \<Rightarrow> nat \<Rightarrow> 'a lq_sys" where
  "lq_start fresh n =
     \<lparr>sys_q = LoopQueue_new fresh n, sys_prod = PIdle, sys_cons = CIdle, sys_pushed = [], sys_popped = [],
      sys_told = False\<rparr>"

inductive lq_step :: "'a lq_sys \<Rightarrow> 'a lq_sys \<Rightarrow> bool" where
  push_fails: "sys_prod s = PIdle \<Longrightarrow> lq_full (lq_iEnd (sys_q s)) (sys_q s) \<Longrightarrow> lq_step s s"
| push_guard: "sys_prod s = PIdle \<Longrightarrow> \<not> lq_full (lq_iEnd (sys_q s)) (sys_q s) \<Longrightarrow>
    lq_step s (s\<lparr>sys_prod := PStore t\<rparr>)"
| push_store: "sys_prod s = PStore t \<Longrightarrow>
    lq_step s (s\<lparr>sys_q := lq_store t (sys_q s), sys_prod := PCompare t\<rparr>)"
| push_compare: "sys_prod s = PCompare t \<Longrightarrow>
    lq_step s (s\<lparr>sys_prod := PStep t (lq_iEnd (sys_q s) = lq_iBegin (sys_q s))\<rparr>)"
| push_step: "sys_prod s = PStep t bEmpty \<Longrightarrow>
    lq_step s (s\<lparr>sys_q := lq_stepBegin (sys_q s), sys_prod := PSize t bEmpty, sys_pushed := sys_pushed s @ [t]\<rparr>)"
| push_size: "sys_prod s = PSize t bEmpty \<Longrightarrow>
    lq_step s (s\<lparr>sys_prod := PDone t (bEmpty \<or> 1 = lq_size (sys_q s))\<rparr>)"
| push_return: "sys_prod s = PDone t bEmpty \<Longrightarrow> lq_step s (s\<lparr>sys_prod := PIdle, sys_told := sys_told s \<or> bEmpty\<rparr>)"
| pop_fails: "sys_cons s = CIdle \<Longrightarrow> lq_iEnd (sys_q s) = lq_iBegin (sys_q s) \<Longrightarrow>
    lq_step s (s\<lparr>sys_cons := CWait, sys_told := False\<rparr>)"
| pop_again: "sys_cons s = CWait \<Longrightarrow> lq_step s (s\<lparr>sys_cons := CIdle\<rparr>)"
| pop_guard: "sys_cons s = CIdle \<Longrightarrow> lq_iEnd (sys_q s) \<noteq> lq_iBegin (sys_q s) \<Longrightarrow>
    lq_step s (s\<lparr>sys_cons := CRead\<rparr>)"
| pop_read: "sys_cons s = CRead \<Longrightarrow>
    lq_step s (s\<lparr>sys_cons := CStep (lq_p (sys_q s) ! lq_iEnd (sys_q s))\<rparr>)"
| pop_step: "sys_cons s = CStep t \<Longrightarrow>
    lq_step s (s\<lparr>sys_q := lq_stepEnd (sys_q s), sys_cons := CIdle, sys_popped := sys_popped s @ [t]\<rparr>)"

definition lq_reach :: "(nat \<Rightarrow> 'a) \<Rightarrow> nat \<Rightarrow> 'a lq_sys \<Rightarrow> bool" where
  "lq_reach fresh n s \<longleftrightarrow> lq_step\<^sup>*\<^sup>* (lq_start fresh n) s"

text \<open>What each thread knows at its program counter.\<close>

fun prod_inv :: "'a LoopQueue \<Rightarrow> 'a producer \<Rightarrow> bool" where
  "prod_inv q PIdle \<longleftrightarrow> True"
| "prod_inv q (PStore t) \<longleftrightarrow> lq_size q < lq_iCapacitySub q"
| "prod_inv q (PCompare t) \<longleftrightarrow> lq_size q < lq_iCapacitySub q \<and> lq_p q ! lq_iBegin q = t"
| "prod_inv q (PStep t b) \<longleftrightarrow> lq_size q < lq_iCapacitySub q \<and> lq_p q ! lq_iBegin q = t \<and> (b \<longrightarrow> lq_contents q = [])"
| "prod_inv q (PSize t b) \<longleftrightarrow> lq_contents q = [] \<or> last (lq_contents q) = t"
| "prod_inv q (PDone t b) \<longleftrightarrow> lq_contents q = [] \<or> last (lq_contents q) = t"

fun cons_inv :: "'a LoopQueue \<Rightarrow> 'a consumer \<Rightarrow> bool" where
  "cons_inv q CIdle \<longleftrightarrow> True"
| "cons_inv q CRead \<longleftrightarrow> lq_contents q \<noteq> []"
| "cons_inv q CWait \<longleftrightarrow> True"
| "cons_inv q (CStep t) \<longleftrightarrow> lq_contents q \<noteq> [] \<and> hd (lq_contents q) = t"

text \<open>While the consumer waits and has not been told, only a push under way can have filled the queue.\<close>

fun wait_inv :: "'a LoopQueue \<Rightarrow> 'a producer \<Rightarrow> bool" where
  "wait_inv q (PSize t b) \<longleftrightarrow> b \<or> lq_size q \<le> 1"
| "wait_inv q (PDone t b) \<longleftrightarrow> b \<or> lq_size q = 0"
| "wait_inv q p \<longleftrightarrow> lq_size q = 0"

definition sys_inv :: "'a lq_sys \<Rightarrow> bool" where
  "sys_inv s \<longleftrightarrow> lq_ok (sys_q s) \<and> prod_inv (sys_q s) (sys_prod s) \<and> cons_inv (sys_q s) (sys_cons s)
     \<and> sys_pushed s = sys_popped s @ lq_contents (sys_q s)
     \<and> (sys_cons s = CWait \<and> \<not> sys_told s \<longrightarrow> wait_inv (sys_q s) (sys_prod s))"

lemma sys_inv_start: "0 < n \<Longrightarrow> sys_inv (lq_start fresh n)"
  by (simp add: sys_inv_def lq_start_def lq_ok_def lq_new)

text \<open>How the other thread's facts survive the three writes to the queue.\<close>

lemma cons_inv_append:
  "cons_inv q c \<Longrightarrow> lq_contents q' = lq_contents q @ xs \<Longrightarrow> cons_inv q' c"
  by (cases c) auto

lemma prod_inv_stepEnd:
  assumes "prod_inv q p" "lq_inv q" "lq_iEnd q \<noteq> lq_iBegin q"
  shows "prod_inv (lq_stepEnd q) p"
proof -
  have c: "lq_contents q = lq_p q ! lq_iEnd q # lq_contents (lq_stepEnd q)"
    using lq_stepEnd_contents[OF assms(2,3)] .
  have "lq_size (lq_stepEnd q) < lq_size q" using arg_cong[OF c, of length] by simp
  moreover have "lq_p (lq_stepEnd q) = lq_p q" "lq_iBegin (lq_stepEnd q) = lq_iBegin q"
    by (simp_all add: lq_stepEnd_def)
  ultimately show ?thesis using assms(1) c by (cases p) (auto split: if_splits)
qed

lemma sys_inv_step: "lq_step s s' \<Longrightarrow> sys_inv s \<Longrightarrow> sys_inv s'"
proof (induction rule: lq_step.induct)
  case (push_guard s t)
  then show ?case using lq_full_iff[of "sys_q s"] lq_size_le[of "sys_q s"] by (auto simp: sys_inv_def lq_ok_def)
next
  case (push_store s t)
  then have "lq_inv (sys_q s)" by (simp add: sys_inv_def lq_ok_def)
  then have c: "lq_contents (lq_store t (sys_q s)) = lq_contents (sys_q s)" "lq_inv (lq_store t (sys_q s))"
    "lq_p (lq_store t (sys_q s)) ! lq_iBegin (lq_store t (sys_q s)) = t"
    by (simp_all add: lq_store_contents lq_ops_inv) (simp add: lq_store_def lq_inv_def)
  then show ?case using push_store cons_inv_append[of "sys_q s" "sys_cons s" _ "[]"]
    by (simp add: sys_inv_def lq_ok_def)
next
  case (push_compare s t)
  then show ?case using lq_contents_empty[of "sys_q s"] by (auto simp: sys_inv_def lq_ok_def)
next
  case (push_step s t bEmpty)
  then have "lq_contents (lq_stepBegin (sys_q s)) = lq_contents (sys_q s) @ [t]"
    using lq_stepBegin_contents[of "sys_q s"] by (simp add: sys_inv_def lq_ok_def)
  moreover have "lq_size (lq_stepBegin (sys_q s)) = lq_size (sys_q s) + 1"
    using push_step lq_size_stepBegin[of "sys_q s"] by (simp add: sys_inv_def lq_ok_def)
  ultimately show ?case using push_step cons_inv_append by (auto simp: sys_inv_def lq_ok_def lq_ops_inv)
next
  case (pop_fails s)
  then have "lq_size (sys_q s) = 0" using lq_size_0[of "sys_q s"] by (simp add: sys_inv_def lq_ok_def)
  then show ?case using pop_fails by (cases "sys_prod s") (auto simp: sys_inv_def)
next
  case (pop_guard s)
  then show ?case using lq_contents_empty[of "sys_q s"] by (auto simp: sys_inv_def lq_ok_def)
next
  case (pop_read s)
  then show ?case using lq_contents_empty[of "sys_q s"] lq_stepEnd_contents[of "sys_q s"]
    by (auto simp: sys_inv_def lq_ok_def)
next
  case (pop_step s t)
  then have i: "lq_inv (sys_q s)" "lq_iEnd (sys_q s) \<noteq> lq_iBegin (sys_q s)"
    using lq_contents_empty[of "sys_q s"] by (auto simp: sys_inv_def lq_ok_def)
  then have "lq_contents (sys_q s) = t # lq_contents (lq_stepEnd (sys_q s))"
    using pop_step lq_stepEnd_contents[OF i] by (simp add: sys_inv_def)
  then show ?case using pop_step i by (simp add: sys_inv_def lq_ok_def lq_ops_inv prod_inv_stepEnd)
qed (auto simp: sys_inv_def)

lemma sys_inv_reach: "lq_reach fresh n s \<Longrightarrow> 0 < n \<Longrightarrow> sys_inv s"
  unfolding lq_reach_def
  by (induction rule: rtranclp_induct) (auto intro: sys_inv_start sys_inv_step)


text \<open>
  C8. With one producer and one consumer running concurrently, whatever the interleaving, what has been
  popped followed by what is in the queue is exactly what has been pushed, in order: nothing is lost,
  duplicated, reordered or read before it is written; and the queue never holds more than it should.
\<close>

theorem spsc_fifo:
  assumes "lq_reach fresh n s" "0 < n"
  shows "sys_pushed s = sys_popped s @ lq_contents (sys_q s) \<and> length (lq_contents (sys_q s)) \<le> lq_iCapacitySub (sys_q s)"
  using sys_inv_reach[OF assms] lq_size_le[of "sys_q s"] by (simp add: sys_inv_def lq_ok_def)

text \<open>
  C24. The flag \<open>bEmpty\<close> misses no wake-up: when the consumer has found the queue empty and waits, and
  the queue has something in it while no push is under way, some push has returned \<open>bEmpty\<close> since.
\<close>

theorem spsc_no_lost_wakeup:
  assumes "lq_reach fresh n s" "0 < n" "sys_cons s = CWait" "sys_prod s = PIdle" "lq_contents (sys_q s) \<noteq> []"
  shows "sys_told s"
proof (rule ccontr)
  assume "\<not> sys_told s"
  then have "lq_size (sys_q s) = 0" using sys_inv_reach[OF assms(1,2)] assms(3,4) by (simp add: sys_inv_def)
  then show False using assms(5) by (simp add: lq_contents_def)
qed

text \<open>A run: the consumer finds nothing and waits, then one element is pushed.\<close>

lemma spsc_run:
  "\<exists>s. lq_reach (\<lambda>_. 0 :: nat) 1 s \<and> sys_cons s = CWait \<and> sys_prod s = PIdle \<and> lq_contents (sys_q s) = [7]
     \<and> sys_pushed s = [7]"
proof -
  let ?s0 = "lq_start (\<lambda>_. 0 :: nat) 1"
  let ?s1 = "?s0\<lparr>sys_cons := CWait, sys_told := False\<rparr>"
  let ?s2 = "?s1\<lparr>sys_prod := PStore 7\<rparr>"
  let ?s3 = "?s2\<lparr>sys_q := lq_store 7 (sys_q ?s2), sys_prod := PCompare 7\<rparr>"
  let ?s4 = "?s3\<lparr>sys_prod := PStep 7 (lq_iEnd (sys_q ?s3) = lq_iBegin (sys_q ?s3))\<rparr>"
  let ?b = "lq_iEnd (sys_q ?s3) = lq_iBegin (sys_q ?s3)"
  let ?s5 = "?s4\<lparr>sys_q := lq_stepBegin (sys_q ?s4), sys_prod := PSize 7 ?b, sys_pushed := sys_pushed ?s4 @ [7]\<rparr>"
  let ?s6 = "?s5\<lparr>sys_prod := PDone 7 (?b \<or> 1 = lq_size (sys_q ?s5))\<rparr>"
  let ?s7 = "?s6\<lparr>sys_prod := PIdle, sys_told := sys_told ?s6 \<or> (?b \<or> 1 = lq_size (sys_q ?s5))\<rparr>"
  have e: "sys_q ?s1 = LoopQueue_new (\<lambda>_. 0) 1" by (simp add: lq_start_def)
  have "lq_step ?s0 ?s1" by (rule lq_step.pop_fails) (simp_all add: lq_start_def LoopQueue_new_def)
  moreover have "lq_step ?s1 ?s2"
    by (rule lq_step.push_guard) (simp_all add: lq_start_def LoopQueue_new_def lq_full_def)
  moreover have "lq_step ?s2 ?s3" by (rule lq_step.push_store) simp
  moreover have "lq_step ?s3 ?s4" by (rule lq_step.push_compare) simp
  moreover have "lq_step ?s4 ?s5" by (rule lq_step.push_step) simp
  moreover have "lq_step ?s5 ?s6" by (rule lq_step.push_size) simp
  moreover have "lq_step ?s6 ?s7" by (rule lq_step.push_return) simp
  ultimately have "lq_reach (\<lambda>_. 0) 1 ?s7"
    unfolding lq_reach_def by (meson converse_rtranclp_into_rtranclp rtranclp.rtrancl_refl)
  moreover have "lq_contents (sys_q ?s7) = [7]"
    by (simp add: lq_start_def LoopQueue_new_def lq_ops lq_contents_def lq_size_def lq_slot_def)
  ultimately show ?thesis by (intro exI[of _ ?s7]) (simp add: lq_start_def)
qed

theorem spsc_fifo_witness:
  "\<exists>s. lq_reach (\<lambda>_. 0 :: nat) 1 s \<and> sys_pushed s = [7] \<and> sys_popped s = [] \<and> lq_contents (sys_q s) = [7]"
  using spsc_run spsc_fifo[of "\<lambda>_. 0" 1] by fastforce

theorem spsc_no_lost_wakeup_witness:
  "\<exists>s. lq_reach (\<lambda>_. 0 :: nat) 1 s \<and> sys_cons s = CWait \<and> sys_prod s = PIdle \<and> lq_contents (sys_q s) = [7] \<and> sys_told s"
  using spsc_run spsc_no_lost_wakeup[of "\<lambda>_. 0" 1] by fastforce

end
