(* ===== verification/Timeout_Queue.thy ===== *)
theory Timeout_Queue
  imports Tars_Prelude
begin

text \<open>
  The table of outstanding requests \<^verbatim>\<open>TC_TimeoutQueueNew\<close> (\<^verbatim>\<open>util/tc_timeout_queue_new.h\<close>) that each
  \<^verbatim>\<open>AdapterProxy\<close> keeps: a hash map from request ids to entries, a multimap that orders the entries by
  deadline, and a list of the entries not sent yet, each pointing into the others with iterators. Iterators
  are addresses: dereferencing or erasing one that no longer points to a node is the error
  \<open>DanglingIterator\<close>. The abstract state at the end forgets the addresses, and the operations are shown to
  implement its operations without that error.
\<close>

section \<open>The three containers\<close>

datatype tq_exn = DanglingIterator | AssertFailed

record 'a PtrInfo =
  pi_ptr :: 'a
  pi_hasSend :: bool
  pi_timeIter :: nat
  pi_sendIter :: nat

text \<open>
  A node of \<^verbatim>\<open>_data\<close> is an address, a key and a value; a node of \<^verbatim>\<open>_time\<close> an address, a deadline and the
  iterator into \<^verbatim>\<open>_data\<close>; a node of \<^verbatim>\<open>_send\<close> an address and that iterator. \<open>tq_next\<close> is the next address.
\<close>

type_synonym 'a data_node = "nat \<times> 32 word \<times> 'a PtrInfo"

record 'a TimeoutQueue =
  tq_uniqId :: "32 word"
  tq_data :: "'a data_node list"
  tq_time :: "(nat \<times> int \<times> nat) list"
  tq_send :: "(nat \<times> nat) list"
  tq_next :: nat

definition TimeoutQueue_new :: "'a TimeoutQueue" where
  "TimeoutQueue_new = \<lparr>tq_uniqId = 0, tq_data = [], tq_time = [], tq_send = [], tq_next = 0\<rparr>"

text \<open>Erasing a node through an iterator, and the entry an iterator into \<^verbatim>\<open>_data\<close> points to.\<close>

definition erase_at :: "nat \<Rightarrow> (nat \<times> 'b) list \<Rightarrow> tq_exn + (nat \<times> 'b) list" where
  "erase_at a ns = (if a \<in> set (map fst ns) then Inr (filter (\<lambda>n. fst n \<noteq> a) ns) else Inl DanglingIterator)"

definition data_at :: "nat \<Rightarrow> 'a TimeoutQueue \<Rightarrow> tq_exn + 32 word \<times> 'a PtrInfo" where
  "data_at a q = (case map_of (tq_data q) a of None \<Rightarrow> Inl DanglingIterator | Some e \<Rightarrow> Inr e)"

definition data_find :: "32 word \<Rightarrow> 'a TimeoutQueue \<Rightarrow> 'a data_node option" where
  "data_find uniqId q = find (\<lambda>(_, k, _). k = uniqId) (tq_data q)"

text \<open>\<^verbatim>\<open>multimap::insert\<close> puts a node behind those with the same key.\<close>

fun time_insert :: "nat \<times> int \<times> nat \<Rightarrow> (nat \<times> int \<times> nat) list \<Rightarrow> (nat \<times> int \<times> nat) list" where
  "time_insert n [] = [n]"
| "time_insert n (m # ms) = (if fst (snd m) \<le> fst (snd n) then m # time_insert n ms else n # m # ms)"

section \<open>The operations\<close>

definition tq_ebind :: "tq_exn + 'b \<Rightarrow> ('b \<Rightarrow> tq_exn + 'c) \<Rightarrow> tq_exn + 'c" where
  "tq_ebind m f = (case m of Inl e \<Rightarrow> Inl e | Inr x \<Rightarrow> f x)"

lemma tq_ebind_simps [simp]: "tq_ebind (Inl e) f = Inl e" "tq_ebind (Inr x) f = f x"
  by (simp_all add: tq_ebind_def)

text \<open>\<^verbatim>\<open>++_uniqId\<close> wraps around; zero is not an id.\<close>

definition tq_generateId :: "'a TimeoutQueue \<Rightarrow> 32 word \<times> 'a TimeoutQueue" where
  "tq_generateId q =
     (let i = tq_uniqId q + 1 in
      if i = 0 then (i + 1, q\<lparr>tq_uniqId := i + 1\<rparr>) else (i, q\<lparr>tq_uniqId := i\<rparr>))"

definition tq_sendListEmpty :: "'a TimeoutQueue \<Rightarrow> bool" where
  "tq_sendListEmpty q \<longleftrightarrow> tq_send q = []"

definition tq_getSendListSize :: "'a TimeoutQueue \<Rightarrow> nat" where
  "tq_getSendListSize q = length (tq_send q)"

definition tq_size :: "'a TimeoutQueue \<Rightarrow> nat" where
  "tq_size q = length (tq_data q)"

definition tq_getSend :: "'a TimeoutQueue \<Rightarrow> tq_exn + 'a option" where
  "tq_getSend q =
     (if tq_send q = [] then Inr None
      else tq_ebind (data_at (snd (last (tq_send q))) q) (\<lambda>(_, pi).
        if pi_hasSend pi then Inl AssertFailed else Inr (Some (pi_ptr pi))))"

definition tq_popSend :: "bool \<Rightarrow> 'a TimeoutQueue \<Rightarrow> tq_exn + 'a TimeoutQueue" where
  "tq_popSend del q =
     (if tq_send q = [] then Inl AssertFailed
      else let a = snd (last (tq_send q)) in
        tq_ebind (data_at a q) (\<lambda>(k, pi).
        let q1 = q\<lparr>tq_data := map (\<lambda>n. if fst n = a then (a, k, pi\<lparr>pi_hasSend := True\<rparr>) else n) (tq_data q)\<rparr> in
        tq_ebind
          (if del
           then tq_ebind (erase_at (pi_timeIter pi) (tq_time q1)) (\<lambda>tm.
                tq_ebind (erase_at a (tq_data q1)) (\<lambda>dt.
                  Inr (q1\<lparr>tq_time := tm, tq_data := dt\<rparr>)))
           else Inr q1)
          (\<lambda>q2. Inr (q2\<lparr>tq_send := butlast (tq_send q2)\<rparr>))))"

text \<open>
  Removing an entry from the three containers. \<^verbatim>\<open>get\<close>, \<^verbatim>\<open>erase\<close> and \<^verbatim>\<open>timeout\<close> erase the three nodes in
  different orders, which makes no difference, as each erasure touches its own container only.
\<close>

definition tq_unlink :: "nat \<Rightarrow> 'a PtrInfo \<Rightarrow> nat \<Rightarrow> 'a TimeoutQueue \<Rightarrow> tq_exn + 'a TimeoutQueue" where
  "tq_unlink a pi t q =
     tq_ebind (if pi_hasSend pi then Inr (tq_send q) else erase_at (pi_sendIter pi) (tq_send q)) (\<lambda>sn.
     tq_ebind (erase_at a (tq_data q)) (\<lambda>dt.
     tq_ebind (erase_at t (tq_time q)) (\<lambda>tm.
       Inr (q\<lparr>tq_send := sn, tq_data := dt, tq_time := tm\<rparr>))))"

definition tq_get :: "32 word \<Rightarrow> bool \<Rightarrow> 'a TimeoutQueue \<Rightarrow> tq_exn + 'a option \<times> 'a TimeoutQueue" where
  "tq_get uniqId bErase q = (case data_find uniqId q of
     None \<Rightarrow> Inr (None, q)
   | Some (a, _, pi) \<Rightarrow>
       if bErase then tq_ebind (tq_unlink a pi (pi_timeIter pi) q) (\<lambda>q'. Inr (Some (pi_ptr pi), q'))
       else Inr (Some (pi_ptr pi), q))"

definition tq_erase :: "32 word \<Rightarrow> 'a TimeoutQueue \<Rightarrow> tq_exn + 'a option \<times> 'a TimeoutQueue" where
  "tq_erase uniqId q = (case data_find uniqId q of
     None \<Rightarrow> Inr (None, q)
   | Some (a, _, pi) \<Rightarrow> tq_ebind (tq_unlink a pi (pi_timeIter pi) q) (\<lambda>q'. Inr (Some (pi_ptr pi), q')))"

text \<open>\<open>junk\<close> is what the uninitialised \<^verbatim>\<open>sendIter\<close> of a sent entry holds.\<close>

definition tq_push :: "nat \<Rightarrow> 'a \<Rightarrow> 32 word \<Rightarrow> int \<Rightarrow> bool \<Rightarrow> 'a TimeoutQueue \<Rightarrow> bool \<times> 'a TimeoutQueue" where
  "tq_push junk ptr uniqId timeout hasSend q =
     (if data_find uniqId q \<noteq> None then (False, q)
      else let a = tq_next q; t = a + 1; s = a + 2;
               pi = \<lparr>pi_ptr = ptr, pi_hasSend = hasSend, pi_timeIter = t,
                     pi_sendIter = if hasSend then junk else s\<rparr>
           in (True, q\<lparr>tq_data := (a, uniqId, pi) # tq_data q,
                       tq_time := time_insert (t, timeout, a) (tq_time q),
                       tq_send := if hasSend then tq_send q else (s, a) # tq_send q,
                       tq_next := a + 3\<rparr>))"

text \<open>\<^verbatim>\<open>timeout(T \& t)\<close> at the time \<open>iNow\<close>: the entry with the earliest deadline, if that has passed.\<close>

definition tq_timeout1 :: "int \<Rightarrow> 'a TimeoutQueue \<Rightarrow> tq_exn + 'a option \<times> 'a TimeoutQueue" where
  "tq_timeout1 iNow q = (case tq_time q of
     [] \<Rightarrow> Inr (None, q)
   | (t, k, a) # _ \<Rightarrow>
       if k > iNow then Inr (None, q)
       else tq_ebind (data_at a q) (\<lambda>(_, pi).
            tq_ebind (tq_unlink a pi t q) (\<lambda>q'. Inr (Some (pi_ptr pi), q'))))"

text \<open>\<^verbatim>\<open>timeout()\<close>: every entry whose deadline has passed. Each round erases a node of \<^verbatim>\<open>_time\<close>.\<close>

function tq_timeout :: "int \<Rightarrow> 'a TimeoutQueue \<Rightarrow> tq_exn + 'a TimeoutQueue" where
  "tq_timeout iNow q = (case tq_timeout1 iNow q of
     Inl e \<Rightarrow> Inl e
   | Inr (None, _) \<Rightarrow> Inr q
   | Inr (Some _, q') \<Rightarrow> tq_timeout iNow q')"
  by pat_completeness auto

lemma erase_at_shrinks: "erase_at a ns = Inr ns' \<Longrightarrow> length ns' < length ns"
  by (auto simp: erase_at_def intro!: length_filter_less split: if_splits)

lemma tq_unlink_shrinks: "tq_unlink a pi t q = Inr q' \<Longrightarrow> length (tq_time q') < length (tq_time q)"
  by (auto simp: tq_unlink_def tq_ebind_def dest: erase_at_shrinks split: sum.splits if_splits)

lemma tq_timeout1_shrinks: "tq_timeout1 iNow q = Inr (Some x, q') \<Longrightarrow> length (tq_time q') < length (tq_time q)"
  using tq_unlink_shrinks[of _ _ _ q]
  by (fastforce simp: tq_timeout1_def tq_ebind_def split: list.splits if_splits sum.splits)

termination tq_timeout
  by (relation "measure (\<lambda>(_, q). length (tq_time q))") (auto dest: tq_timeout1_shrinks)

declare tq_timeout.simps [simp del]

section \<open>Well-formed tables\<close>

definition tq_shape :: "'a TimeoutQueue \<Rightarrow> bool" where
  "tq_shape q \<longleftrightarrow>
     distinct (map fst (tq_data q)) \<and> distinct (map (\<lambda>n. fst (snd n)) (tq_data q)) \<and>
     distinct (map fst (tq_time q)) \<and> distinct (map fst (tq_send q)) \<and>
     sorted (map (\<lambda>n. fst (snd n)) (tq_time q)) \<and>
     (\<forall>n \<in> set (tq_data q). fst n < tq_next q) \<and> (\<forall>n \<in> set (tq_time q). fst n < tq_next q) \<and>
     (\<forall>n \<in> set (tq_send q). fst n < tq_next q)"

definition tq_links :: "'a TimeoutQueue \<Rightarrow> bool" where
  "tq_links q \<longleftrightarrow>
     (\<forall>a k pi. (a, k, pi) \<in> set (tq_data q) \<longrightarrow> (\<exists>d. (pi_timeIter pi, d, a) \<in> set (tq_time q)) \<and>
        (\<not> pi_hasSend pi \<longrightarrow> (pi_sendIter pi, a) \<in> set (tq_send q))) \<and>
     (\<forall>t d a. (t, d, a) \<in> set (tq_time q) \<longrightarrow> (\<exists>k pi. (a, k, pi) \<in> set (tq_data q) \<and> pi_timeIter pi = t)) \<and>
     (\<forall>s a. (s, a) \<in> set (tq_send q) \<longrightarrow>
        (\<exists>k pi. (a, k, pi) \<in> set (tq_data q) \<and> \<not> pi_hasSend pi \<and> pi_sendIter pi = s))"

lemma tq_linksI:
  assumes "\<And>a k pi. (a, k, pi) \<in> set (tq_data q) \<Longrightarrow> \<exists>d. (pi_timeIter pi, d, a) \<in> set (tq_time q)"
    "\<And>a k pi. (a, k, pi) \<in> set (tq_data q) \<Longrightarrow> \<not> pi_hasSend pi \<Longrightarrow> (pi_sendIter pi, a) \<in> set (tq_send q)"
    "\<And>t d a. (t, d, a) \<in> set (tq_time q) \<Longrightarrow> \<exists>k pi. (a, k, pi) \<in> set (tq_data q) \<and> pi_timeIter pi = t"
    "\<And>s a. (s, a) \<in> set (tq_send q) \<Longrightarrow>
       \<exists>k pi. (a, k, pi) \<in> set (tq_data q) \<and> \<not> pi_hasSend pi \<and> pi_sendIter pi = s"
  shows "tq_links q"
  using assms unfolding tq_links_def by blast

definition tq_ok :: "'a TimeoutQueue \<Rightarrow> bool" where
  "tq_ok q \<longleftrightarrow> tq_shape q \<and> tq_links q"

lemma tq_ok_new: "tq_ok TimeoutQueue_new"
  by (simp add: tq_ok_def tq_shape_def tq_links_def TimeoutQueue_new_def)

lemma tq_ok_distinct:
  assumes "tq_ok q"
  shows "distinct (map fst (tq_data q))" "distinct (map (\<lambda>n. fst (snd n)) (tq_data q))"
    "distinct (map fst (tq_time q))" "distinct (map fst (tq_send q))"
  using assms by (simp_all add: tq_ok_def tq_shape_def)

lemma tq_ok_nodes:
  assumes "tq_ok q"
  shows "(a, k, pi) \<in> set (tq_data q) \<Longrightarrow> \<exists>d. (pi_timeIter pi, d, a) \<in> set (tq_time q)"
    "(a, k, pi) \<in> set (tq_data q) \<Longrightarrow> \<not> pi_hasSend pi \<Longrightarrow> (pi_sendIter pi, a) \<in> set (tq_send q)"
    "(t, d, a) \<in> set (tq_time q) \<Longrightarrow> \<exists>k pi. (a, k, pi) \<in> set (tq_data q) \<and> pi_timeIter pi = t"
    "(s, a) \<in> set (tq_send q) \<Longrightarrow> \<exists>k pi. (a, k, pi) \<in> set (tq_data q) \<and> \<not> pi_hasSend pi \<and> pi_sendIter pi = s"
  using assms unfolding tq_ok_def tq_links_def by blast+

lemma tq_ok_data_at:
  assumes "tq_ok q" "(a, k, pi) \<in> set (tq_data q)"
  shows "map_of (tq_data q) a = Some (k, pi)" "data_at a q = Inr (k, pi)"
  using assms tq_ok_distinct(1)[OF assms(1)] by (simp_all add: data_at_def)

lemma tq_ok_data_unique:
  "tq_ok q \<Longrightarrow> (a, e) \<in> set (tq_data q) \<Longrightarrow> (a, e') \<in> set (tq_data q) \<Longrightarrow> e = e'"
  using eq_key_imp_eq_value[OF tq_ok_distinct(1)] .

lemma tq_ok_key_unique:
  assumes "tq_ok q" "(a, k, pi) \<in> set (tq_data q)" "(a', k, pi') \<in> set (tq_data q)"
  shows "a = a' \<and> pi = pi'"
  using tq_ok_distinct(2)[OF assms(1)] assms(2,3) by (force simp: distinct_map inj_on_def)

lemma tq_ok_time_node:
  assumes ok: "tq_ok q" and n: "(a, k, pi) \<in> set (tq_data q)" "(t, d, a') \<in> set (tq_time q)"
  shows "t = pi_timeIter pi \<longleftrightarrow> a' = a"
proof
  obtain d' where d': "(pi_timeIter pi, d', a) \<in> set (tq_time q)" using tq_ok_nodes(1)[OF ok n(1)] by blast
  show "a' = a" if "t = pi_timeIter pi"
    using n(2) d' that eq_key_imp_eq_value[OF tq_ok_distinct(3)[OF ok], of t "(d, a')" "(d', a)"] by simp
  show "t = pi_timeIter pi" if "a' = a"
    using tq_ok_nodes(3)[OF ok n(2)] that tq_ok_data_unique[OF ok n(1)] by auto
qed

lemma tq_ok_send_node:
  assumes ok: "tq_ok q" and n: "(a, k, pi) \<in> set (tq_data q)" "(s, a') \<in> set (tq_send q)"
  shows "a' = a \<longleftrightarrow> \<not> pi_hasSend pi \<and> s = pi_sendIter pi"
proof
  show "\<not> pi_hasSend pi \<and> s = pi_sendIter pi" if "a' = a"
    using tq_ok_nodes(4)[OF ok n(2)] that tq_ok_data_unique[OF ok n(1)] by auto
  show "a' = a" if "\<not> pi_hasSend pi \<and> s = pi_sendIter pi"
    using tq_ok_nodes(2)[OF ok n(1)] n(2) that eq_key_imp_eq_value[OF tq_ok_distinct(4)[OF ok]] by blast
qed

text \<open>Without the entry at \<open>a\<close>.\<close>

definition tq_without :: "nat \<Rightarrow> 'a TimeoutQueue \<Rightarrow> 'a TimeoutQueue" where
  "tq_without a q = q\<lparr>tq_send := filter (\<lambda>n. snd n \<noteq> a) (tq_send q), tq_data := filter (\<lambda>n. fst n \<noteq> a) (tq_data q),
     tq_time := filter (\<lambda>n. snd (snd n) \<noteq> a) (tq_time q)\<rparr>"

lemma erase_time_node:
  assumes "tq_ok q" "(a, k, pi) \<in> set (tq_data q)"
  shows "erase_at (pi_timeIter pi) (tq_time q) = Inr (filter (\<lambda>n. snd (snd n) \<noteq> a) (tq_time q))"
proof -
  obtain d where d: "(pi_timeIter pi, d, a) \<in> set (tq_time q)" using tq_ok_nodes(1)[OF assms] by blast
  have "filter (\<lambda>n. fst n \<noteq> pi_timeIter pi) (tq_time q) = filter (\<lambda>n. snd (snd n) \<noteq> a) (tq_time q)"
    using tq_ok_time_node[OF assms] by (intro filter_cong) auto
  then show ?thesis using d by (force simp: erase_at_def)
qed

lemma tq_unlink_without:
  assumes "tq_ok q" "(a, k, pi) \<in> set (tq_data q)" "t = pi_timeIter pi"
  shows "tq_unlink a pi t q = Inr (tq_without a q)"
proof -
  have s: "\<not> pi_hasSend pi \<Longrightarrow> (pi_sendIter pi, a) \<in> set (tq_send q)" using tq_ok_nodes(2)[OF assms(1,2)] .
  have "erase_at t (tq_time q) = Inr (filter (\<lambda>n. snd (snd n) \<noteq> a) (tq_time q))"
    using erase_time_node[OF assms(1,2)] assms(3) by simp
  moreover have "erase_at a (tq_data q) = Inr (filter (\<lambda>n. fst n \<noteq> a) (tq_data q))"
    using assms(2) by (force simp: erase_at_def)
  moreover have "(if pi_hasSend pi then Inr (tq_send q) else erase_at (pi_sendIter pi) (tq_send q))
      = Inr (filter (\<lambda>n. snd n \<noteq> a) (tq_send q))"
  proof (cases "pi_hasSend pi")
    case True
    then have "filter (\<lambda>n. snd n \<noteq> a) (tq_send q) = tq_send q"
      using tq_ok_send_node[OF assms(1,2)] True by (intro filter_True) fastforce
    then show ?thesis using True by simp
  next
    case False
    then have "filter (\<lambda>n. fst n \<noteq> pi_sendIter pi) (tq_send q) = filter (\<lambda>n. snd n \<noteq> a) (tq_send q)"
      using tq_ok_send_node[OF assms(1,2)] by (intro filter_cong) fastforce+
    then show ?thesis using False s by (force simp: erase_at_def)
  qed
  ultimately show ?thesis by (simp add: tq_unlink_def tq_without_def)
qed

lemma tq_without_ok: "tq_ok q \<Longrightarrow> tq_ok (tq_without a q)"
proof -
  assume ok: "tq_ok q"
  have "tq_shape (tq_without a q)"
    using ok by (simp add: tq_ok_def tq_shape_def tq_without_def distinct_map_filter sorted_filter)
  moreover have "tq_links (tq_without a q)"
    unfolding tq_links_def using tq_ok_nodes[OF ok] by (simp add: tq_without_def) blast
  ultimately show ?thesis by (simp add: tq_ok_def)
qed

section \<open>The abstract table\<close>

text \<open>
  Outstanding calls without addresses: what each id stands for, the ids in the order of their deadlines,
  and the ids not sent yet, the newest first.
\<close>

record 'a calls =
  c_ptr :: "32 word \<rightharpoonup> 'a"
  c_time :: "(int \<times> 32 word) list"
  c_send :: "32 word list"

definition c_remove :: "32 word \<Rightarrow> 'a calls \<Rightarrow> 'a calls" where
  "c_remove k c = c\<lparr>c_ptr := (c_ptr c)(k := None), c_time := filter (\<lambda>e. snd e \<noteq> k) (c_time c),
     c_send := filter (\<lambda>i. i \<noteq> k) (c_send c)\<rparr>"

fun c_time_insert :: "int \<times> 32 word \<Rightarrow> (int \<times> 32 word) list \<Rightarrow> (int \<times> 32 word) list" where
  "c_time_insert e [] = [e]"
| "c_time_insert e (e' # es) = (if fst e' \<le> fst e then e' # c_time_insert e es else e # e' # es)"

definition c_push :: "'a \<Rightarrow> 32 word \<Rightarrow> int \<Rightarrow> bool \<Rightarrow> 'a calls \<Rightarrow> bool \<times> 'a calls" where
  "c_push ptr k d sent c =
     (if c_ptr c k \<noteq> None then (False, c)
      else (True, \<lparr>c_ptr = (c_ptr c)(k \<mapsto> ptr), c_time = c_time_insert (d, k) (c_time c),
                   c_send = if sent then c_send c else k # c_send c\<rparr>))"

definition c_erase :: "32 word \<Rightarrow> 'a calls \<Rightarrow> 'a option \<times> 'a calls" where
  "c_erase k c = (c_ptr c k, if c_ptr c k = None then c else c_remove k c)"

definition c_timeout1 :: "int \<Rightarrow> 'a calls \<Rightarrow> 'a option \<times> 'a calls" where
  "c_timeout1 now c = (case c_time c of [] \<Rightarrow> (None, c)
   | (d, k) # _ \<Rightarrow> if d > now then (None, c) else (c_ptr c k, c_remove k c))"

definition c_popSend :: "bool \<Rightarrow> 'a calls \<Rightarrow> 'a calls" where
  "c_popSend del c =
     (if del then c_remove (last (c_send c)) c else c\<lparr>c_send := butlast (c_send c)\<rparr>)"

definition key_of :: "'a TimeoutQueue \<Rightarrow> nat \<Rightarrow> 32 word" where
  "key_of q a = fst (the (map_of (tq_data q) a))"

definition tq_abs :: "'a TimeoutQueue \<Rightarrow> 'a calls" where
  "tq_abs q = \<lparr>c_ptr = map_of (map (\<lambda>(a, k, pi). (k, pi_ptr pi)) (tq_data q)),
     c_time = map (\<lambda>(t, d, a). (d, key_of q a)) (tq_time q), c_send = map (\<lambda>(s, a). key_of q a) (tq_send q)\<rparr>"

lemma tq_abs_new: "tq_abs TimeoutQueue_new = \<lparr>c_ptr = Map.empty, c_time = [], c_send = []\<rparr>"
  by (simp add: tq_abs_def TimeoutQueue_new_def)

lemma key_of_node: "tq_ok q \<Longrightarrow> (a, k, pi) \<in> set (tq_data q) \<Longrightarrow> key_of q a = k"
  by (simp add: key_of_def tq_ok_data_at(1))

lemma key_of_eq:
  assumes "tq_ok q" "(a, k, pi) \<in> set (tq_data q)" "(a', k', pi') \<in> set (tq_data q)"
  shows "key_of q a' = k \<longleftrightarrow> a' = a"
  using key_of_node[OF assms(1,3)] tq_ok_key_unique[OF assms(1,2)] tq_ok_data_unique[OF assms(1,2)] assms(3) by auto

lemma key_of_without: "a' \<noteq> a \<Longrightarrow> key_of (tq_without a q) a' = key_of q a'"
proof -
  assume "a' \<noteq> a"
  then have "map_of (filter (\<lambda>n. fst n \<noteq> a) ns) a' = map_of ns a'" for ns :: "'a data_node list"
    by (induction ns) auto
  then show ?thesis by (simp add: key_of_def tq_without_def)
qed

lemma abs_ptr_node: "tq_ok q \<Longrightarrow> (a, k, pi) \<in> set (tq_data q) \<Longrightarrow> c_ptr (tq_abs q) k = Some (pi_ptr pi)"
proof -
  assume ok: "tq_ok q" and n: "(a, k, pi) \<in> set (tq_data q)"
  have "map fst (map (\<lambda>(a, k, pi). (k, pi_ptr pi)) (tq_data q)) = map (\<lambda>n. fst (snd n)) (tq_data q)"
    by (simp add: comp_def case_prod_beta)
  then have "distinct (map fst (map (\<lambda>(a, k, pi). (k, pi_ptr pi)) (tq_data q)))"
    using tq_ok_distinct(2)[OF ok] by (simp only:)
  moreover have "(k, pi_ptr pi) \<in> set (map (\<lambda>(a, k, pi). (k, pi_ptr pi)) (tq_data q))" using n by force
  ultimately show ?thesis using map_of_is_SomeI by (simp only: tq_abs_def calls.select_convs)
qed

lemma find_SomeD: "find P xs = Some x \<Longrightarrow> x \<in> set xs \<and> P x"
  by (induction xs) (auto split: if_splits)

lemma data_find_iff:
  assumes "tq_ok q"
  shows "data_find k q = Some (a, k', pi) \<longleftrightarrow> k' = k \<and> (a, k, pi) \<in> set (tq_data q)"
proof
  assume "data_find k q = Some (a, k', pi)"
  then show "k' = k \<and> (a, k, pi) \<in> set (tq_data q)"
    unfolding data_find_def by (auto dest: find_SomeD)
next
  assume n: "k' = k \<and> (a, k, pi) \<in> set (tq_data q)"
  then obtain x where "find (\<lambda>(_, k', _). k' = k) (tq_data q) = Some x"
    by (cases "find (\<lambda>(_, k', _). k' = k) (tq_data q)") (auto simp: find_None_iff)
  moreover from this have "x \<in> set (tq_data q)" "fst (snd x) = k" by (auto dest: find_SomeD)
  ultimately show "data_find k q = Some (a, k', pi)"
    using n tq_ok_key_unique[OF assms, of a k pi] by (cases x) (auto simp: data_find_def)
qed

lemma data_find_None: "data_find k q = None \<longleftrightarrow> c_ptr (tq_abs q) k = None"
proof -
  have "find (\<lambda>(_, k', _). k' = k) ns = None \<longleftrightarrow> map_of (map (\<lambda>(a, k, pi). (k, pi_ptr pi)) ns) k = None"
    for ns :: "'a data_node list" by (induction ns) auto
  then show ?thesis by (simp add: data_find_def tq_abs_def)
qed

lemma map_filter_key:
  "\<forall>n \<in> set ns. (P n \<longleftrightarrow> Q (f n)) \<and> (P n \<longrightarrow> g n = f n) \<Longrightarrow> map g (filter P ns) = filter Q (map f ns)"
  by (induction ns) auto

lemma map_of_without:
  "\<forall>n \<in> set ns. fst n = a \<longleftrightarrow> fst (snd n) = k \<Longrightarrow>
     map_of (map (\<lambda>(a, k, pi). (k, pi_ptr pi)) (filter (\<lambda>n. fst n \<noteq> a) ns))
       = (map_of (map (\<lambda>(a, k, pi). (k, pi_ptr pi)) ns))(k := None)"
  by (induction ns) (auto simp: fun_upd_twist)

lemma tq_without_abs:
  assumes "tq_ok q" "(a, k, pi) \<in> set (tq_data q)"
  shows "tq_abs (tq_without a q) = c_remove k (tq_abs q)"
proof -
  have p: "tq_data (tq_without a q) = filter (\<lambda>n. fst n \<noteq> a) (tq_data q)"
    "tq_time (tq_without a q) = filter (\<lambda>n. snd (snd n) \<noteq> a) (tq_time q)"
    "tq_send (tq_without a q) = filter (\<lambda>n. snd n \<noteq> a) (tq_send q)" by (simp_all add: tq_without_def)
  have "x = a \<longleftrightarrow> y = k" if "(x, y, z) \<in> set (tq_data q)" for x y z
    using that tq_ok_key_unique[OF assms, of x z] tq_ok_data_unique[OF assms, of "(y, z)"] by auto
  then have "\<forall>n \<in> set (tq_data q). fst n = a \<longleftrightarrow> fst (snd n) = k" by (metis prod.collapse)
  note 1 = map_of_without[OF this]
  have "key_of q a' = k \<longleftrightarrow> a' = a" if "(t, d, a') \<in> set (tq_time q)" for t d a'
    using tq_ok_nodes(3)[OF assms(1) that] key_of_eq[OF assms] by blast
  then have "\<forall>n \<in> set (tq_time q). key_of q (snd (snd n)) = k \<longleftrightarrow> snd (snd n) = a" by (metis prod.collapse)
  then have 2: "map (\<lambda>(t, d, a'). (d, key_of (tq_without a q) a')) (filter (\<lambda>n. snd (snd n) \<noteq> a) (tq_time q))
      = filter (\<lambda>e. snd e \<noteq> k) (map (\<lambda>(t, d, a). (d, key_of q a)) (tq_time q))"
    by (intro map_filter_key) (simp add: case_prod_beta key_of_without)
  have "key_of q a' = k \<longleftrightarrow> a' = a" if "(s, a') \<in> set (tq_send q)" for s a'
    using tq_ok_nodes(4)[OF assms(1) that] key_of_eq[OF assms] by blast
  then have "\<forall>n \<in> set (tq_send q). key_of q (snd n) = k \<longleftrightarrow> snd n = a" by (metis prod.collapse)
  then have 3: "map (\<lambda>(s, a'). key_of (tq_without a q) a') (filter (\<lambda>n. snd n \<noteq> a) (tq_send q))
      = filter (\<lambda>i. i \<noteq> k) (map (\<lambda>(s, a). key_of q a) (tq_send q))"
    by (intro map_filter_key) (simp add: case_prod_beta key_of_without)
  show ?thesis unfolding tq_abs_def c_remove_def p 1 2 3 by simp
qed

section \<open>The operations implement the abstract ones\<close>

lemma tq_erase_refines:
  assumes "tq_ok q"
  shows "\<exists>q'. tq_erase k q = Inr (fst (c_erase k (tq_abs q)), q') \<and> tq_ok q' \<and> tq_abs q' = snd (c_erase k (tq_abs q))"
proof (cases "data_find k q")
  case None
  then show ?thesis using assms data_find_None[of k q] by (simp add: tq_erase_def c_erase_def)
next
  case (Some n)
  then obtain a pi where n: "n = (a, k, pi)" "(a, k, pi) \<in> set (tq_data q)"
    using data_find_iff[OF assms] by (cases n) auto
  then show ?thesis
    using Some tq_unlink_without[OF assms n(2) refl] tq_without_ok[OF assms] tq_without_abs[OF assms n(2)]
      abs_ptr_node[OF assms n(2)]
    by (simp add: tq_erase_def c_erase_def)
qed

lemma tq_get_refines:
  assumes "tq_ok q"
  shows "\<exists>q'. tq_get k b q = Inr (c_ptr (tq_abs q) k, q') \<and> tq_ok q'
    \<and> tq_abs q' = (if b then snd (c_erase k (tq_abs q)) else tq_abs q)"
proof (cases "data_find k q")
  case None
  then show ?thesis using assms data_find_None[of k q] by (simp add: tq_get_def c_erase_def)
next
  case (Some n)
  then obtain a pi where n: "n = (a, k, pi)" "(a, k, pi) \<in> set (tq_data q)"
    using data_find_iff[OF assms] by (cases n) auto
  then show ?thesis
    using Some tq_unlink_without[OF assms n(2) refl] tq_without_ok[OF assms] tq_without_abs[OF assms n(2)]
      abs_ptr_node[OF assms n(2)] assms
    by (simp add: tq_get_def c_erase_def)
qed

lemma tq_timeout1_refines:
  assumes "tq_ok q"
  shows "\<exists>q'. tq_timeout1 now q = Inr (fst (c_timeout1 now (tq_abs q)), q') \<and> tq_ok q'
    \<and> tq_abs q' = snd (c_timeout1 now (tq_abs q))"
proof (cases "tq_time q")
  case Nil
  then show ?thesis using assms by (simp add: tq_timeout1_def c_timeout1_def tq_abs_def)
next
  case (Cons n ns)
  obtain t d a where n: "n = (t, d, a)" by (cases n)
  then obtain k pi where p: "(a, k, pi) \<in> set (tq_data q)" "pi_timeIter pi = t"
    using tq_ok_nodes(3)[OF assms, of t d a] Cons by auto
  have "c_time (tq_abs q) = (d, k) # tl (c_time (tq_abs q))"
    using Cons n key_of_node[OF assms p(1)] by (simp add: tq_abs_def)
  then show ?thesis
    using Cons n assms p tq_unlink_without[OF assms p(1)] tq_without_ok[OF assms] tq_without_abs[OF assms p(1)]
      abs_ptr_node[OF assms p(1)] tq_ok_data_at(2)[OF assms p(1)]
    by (auto simp: tq_timeout1_def c_timeout1_def split: list.splits)
qed

lemma set_time_insert [simp]: "set (time_insert n ns) = insert n (set ns)"
  by (induction n ns rule: time_insert.induct) auto

lemma distinct_time_insert: "distinct (map fst (time_insert n ns)) \<longleftrightarrow> fst n \<notin> fst ` set ns \<and> distinct (map fst ns)"
  by (induction n ns rule: time_insert.induct) auto

lemma sorted_time_insert:
  "sorted (map (\<lambda>n. fst (snd n)) ns) \<Longrightarrow> sorted (map (\<lambda>n. fst (snd n)) (time_insert n ns))"
  by (induction n ns rule: time_insert.induct) force+

lemma map_time_insert:
  "map (\<lambda>(t, d, a). (d, f a)) (time_insert (t, d, a) ns) = c_time_insert (d, f a) (map (\<lambda>(t, d, a). (d, f a)) ns)"
  by (induction "(t, d, a)" ns rule: time_insert.induct) auto

definition pushed_info :: "nat \<Rightarrow> 'a \<Rightarrow> bool \<Rightarrow> 'a TimeoutQueue \<Rightarrow> 'a PtrInfo" where
  "pushed_info junk ptr sent q = \<lparr>pi_ptr = ptr, pi_hasSend = sent, pi_timeIter = tq_next q + 1,
     pi_sendIter = if sent then junk else tq_next q + 2\<rparr>"

lemma pushed_info_sel [simp]:
  "pi_ptr (pushed_info junk ptr sent q) = ptr" "pi_hasSend (pushed_info junk ptr sent q) = sent"
  "pi_timeIter (pushed_info junk ptr sent q) = tq_next q + 1"
  "\<not> sent \<Longrightarrow> pi_sendIter (pushed_info junk ptr sent q) = tq_next q + 2"
  by (simp_all add: pushed_info_def)

lemma tq_push_fields:
  fixes junk ptr d sent
  assumes "data_find k q = None"
  defines "q' \<equiv> snd (tq_push junk ptr k d sent q)"
  shows "tq_push junk ptr k d sent q = (True, q')"
    "tq_data q' = (tq_next q, k, pushed_info junk ptr sent q) # tq_data q"
    "tq_time q' = time_insert (tq_next q + 1, d, tq_next q) (tq_time q)" "tq_next q' = tq_next q + 3"
    "tq_send q' = (if sent then tq_send q else (tq_next q + 2, tq_next q) # tq_send q)"
  using assms(1) by (simp_all add: q'_def tq_push_def Let_def pushed_info_def)

lemma tq_push_shape:
  assumes "tq_shape q" "data_find k q = None"
  shows "tq_shape (snd (tq_push junk ptr k d sent q))"
proof -
  have k: "\<forall>n \<in> set (tq_data q). fst (snd n) \<noteq> k" using assms(2) by (auto simp: data_find_def find_None_iff)
  have "tq_next q \<notin> fst ` set (tq_data q)" "tq_next q + 1 \<notin> fst ` set (tq_time q)"
    "tq_next q + 2 \<notin> fst ` set (tq_send q)" "k \<notin> (\<lambda>n. fst (snd n)) ` set (tq_data q)"
    using assms(1) k by (fastforce simp: tq_shape_def)+
  then show ?thesis
    using assms(1) unfolding tq_shape_def tq_push_fields(2-5)[OF assms(2)]
    by (simp add: distinct_time_insert sorted_time_insert trans_less_add1)
qed

lemma tq_push_links:
  assumes "tq_ok q" "data_find k q = None"
  shows "tq_links (snd (tq_push junk ptr k d sent q))"
proof (rule tq_linksI)
  let ?q = "snd (tq_push junk ptr k d sent q)" and ?pi = "pushed_info junk ptr sent q"
  note f = tq_push_fields(2-5)[OF assms(2), of junk ptr d sent]
  have new: "(tq_next q, k, ?pi) \<in> set (tq_data ?q)" "set (tq_data q) \<subseteq> set (tq_data ?q)"
    "(tq_next q + 1, d, tq_next q) \<in> set (tq_time ?q)" "set (tq_time q) \<subseteq> set (tq_time ?q)"
    "set (tq_send q) \<subseteq> set (tq_send ?q)" "\<not> sent \<Longrightarrow> (tq_next q + 2, tq_next q) \<in> set (tq_send ?q)"
    unfolding f set_time_insert by auto
  {
    fix a k' pi assume "(a, k', pi) \<in> set (tq_data ?q)"
    then consider "a = tq_next q" "pi = ?pi" | "(a, k', pi) \<in> set (tq_data q)" unfolding f by auto
    note c = this
    show "\<exists>d. (pi_timeIter pi, d, a) \<in> set (tq_time ?q)"
      using c by cases (use new(3) in auto, use new(4) tq_ok_nodes(1)[OF assms(1)] in blast)
    show "(pi_sendIter pi, a) \<in> set (tq_send ?q)" if "\<not> pi_hasSend pi"
      using c by cases (use new(6) that in auto, use new(5) tq_ok_nodes(2)[OF assms(1)] that in blast)
  }
  {
    fix t d' a assume "(t, d', a) \<in> set (tq_time ?q)"
    then consider "t = tq_next q + 1" "a = tq_next q" | "(t, d', a) \<in> set (tq_time q)" unfolding f by auto
    then show "\<exists>k pi. (a, k, pi) \<in> set (tq_data ?q) \<and> pi_timeIter pi = t"
    proof cases
      case 1
      then have "(a, k, ?pi) \<in> set (tq_data ?q)" "pi_timeIter ?pi = t" using new(1) by simp_all
      then show ?thesis by blast
    qed (use new(2) tq_ok_nodes(3)[OF assms(1)] in blast)
  }
  fix s a assume "(s, a) \<in> set (tq_send ?q)"
  then consider "\<not> sent" "s = tq_next q + 2" "a = tq_next q" | "(s, a) \<in> set (tq_send q)"
    unfolding f by (auto split: if_splits)
  then show "\<exists>k pi. (a, k, pi) \<in> set (tq_data ?q) \<and> \<not> pi_hasSend pi \<and> pi_sendIter pi = s"
  proof cases
    case 1
    then have "(a, k, ?pi) \<in> set (tq_data ?q)" "\<not> pi_hasSend ?pi" "pi_sendIter ?pi = s" using new(1) by simp_all
    then show ?thesis by blast
  qed (use new(2) tq_ok_nodes(4)[OF assms(1)] in blast)
qed

lemma tq_push_abs:
  assumes "tq_ok q" "data_find k q = None"
  shows "tq_abs (snd (tq_push junk ptr k d sent q)) = snd (c_push ptr k d sent (tq_abs q))"
proof -
  define q1 where "q1 = snd (tq_push junk ptr k d sent q)"
  note f = tq_push_fields(2-5)[OF assms(2), of junk ptr d sent, folded q1_def]
  have less: "\<forall>n \<in> set (tq_data q). fst n < tq_next q" using assms(1) by (simp add: tq_ok_def tq_shape_def)
  have a: "key_of q1 a = key_of q a" if "(a, k', pi') \<in> set (tq_data q)" for a k' pi'
    using that less by (fastforce simp: key_of_def f)
  have m: "map (\<lambda>(t, d, a). (d, key_of q1 a)) (tq_time q) = map (\<lambda>(t, d, a). (d, key_of q a)) (tq_time q)"
    "map (\<lambda>(s, a). key_of q1 a) (tq_send q) = map (\<lambda>(s, a). key_of q a) (tq_send q)"
    using tq_ok_nodes(3,4)[OF assms(1)] a by fastforce+
  have "key_of q1 (tq_next q) = k" by (simp add: key_of_def f)
  moreover have "c_ptr (tq_abs q) k = None" using assms(2) data_find_None by blast
  ultimately have "tq_abs q1 = snd (c_push ptr k d sent (tq_abs q))"
    by (simp add: c_push_def) (simp add: tq_abs_def f map_time_insert m)
  then show ?thesis by (simp only: q1_def)
qed

lemma tq_push_refines:
  assumes "tq_ok q"
  shows "\<exists>q'. tq_push junk ptr k d sent q = (fst (c_push ptr k d sent (tq_abs q)), q') \<and> tq_ok q'
    \<and> tq_abs q' = snd (c_push ptr k d sent (tq_abs q))"
proof (cases "data_find k q")
  case (Some n)
  then show ?thesis using assms data_find_None[of k q] by (simp add: tq_push_def c_push_def)
next
  case None
  then have "fst (c_push ptr k d sent (tq_abs q))" using data_find_None[of k q] by (simp add: c_push_def)
  moreover have "tq_ok (snd (tq_push junk ptr k d sent q))"
    using tq_push_links[OF assms None] tq_push_shape[OF _ None] assms by (simp add: tq_ok_def)
  ultimately show ?thesis using tq_push_fields(1)[OF None] tq_push_abs[OF assms None] by metis
qed

text \<open>Sending: the oldest unsent entry is at the end of the list.\<close>

lemma send_last_node:
  assumes "tq_ok q" "tq_send q \<noteq> []"
  obtains a k pi where "last (tq_send q) = (pi_sendIter pi, a)" "(a, k, pi) \<in> set (tq_data q)" "\<not> pi_hasSend pi"
    "last (c_send (tq_abs q)) = k"
proof -
  obtain s a where l: "last (tq_send q) = (s, a)" by (cases "last (tq_send q)")
  then obtain k pi where n: "(a, k, pi) \<in> set (tq_data q)" "\<not> pi_hasSend pi" "pi_sendIter pi = s"
    using tq_ok_nodes(4)[OF assms(1), of s a] last_in_set[OF assms(2)] by auto
  moreover have "last (c_send (tq_abs q)) = k"
    using l assms(2) key_of_node[OF assms(1) n(1)] by (simp add: tq_abs_def last_map)
  ultimately show ?thesis using that l by blast
qed

lemma filter_last_butlast:
  assumes "xs \<noteq> []" "\<forall>x \<in> set xs. f x = a \<longleftrightarrow> x = last xs" "distinct xs"
  shows "filter (\<lambda>x. f x \<noteq> a) xs = butlast xs"
proof -
  have e: "xs = butlast xs @ [last xs]" using assms(1) by simp
  then have "last xs \<notin> set (butlast xs)" using assms(3) by (metis disjoint_insert(1) distinct_append list.simps(15))
  then have "\<forall>x \<in> set (butlast xs). f x \<noteq> a" using assms(2) in_set_butlastD by fastforce
  moreover have "f (last xs) = a" using assms(1,2) by simp
  ultimately show ?thesis by (subst e) simp
qed

lemma send_without_last:
  assumes "tq_ok q" "tq_send q \<noteq> []" "last (tq_send q) = (s, a)"
  shows "filter (\<lambda>n. snd n \<noteq> a) (tq_send q) = butlast (tq_send q)"
proof (rule filter_last_butlast[OF assms(2)])
  obtain a' k pi where n: "last (tq_send q) = (pi_sendIter pi, a')" "(a', k, pi) \<in> set (tq_data q)" "\<not> pi_hasSend pi"
    using send_last_node[OF assms(1,2)] by metis
  show "\<forall>n \<in> set (tq_send q). snd n = a \<longleftrightarrow> n = last (tq_send q)"
    using tq_ok_send_node[OF assms(1) n(2)] n(1,3) assms(3) by fastforce
  show "distinct (tq_send q)" using tq_ok_distinct(4)[OF assms(1)] by (simp add: distinct_map)
qed

definition mark_sent :: "nat \<Rightarrow> 'a data_node list \<Rightarrow> 'a data_node list" where
  "mark_sent a ns = map (\<lambda>(b, k, pi). (b, k, if b = a then pi\<lparr>pi_hasSend := True\<rparr> else pi)) ns"

lemma mark_sent_simps:
  "map fst (mark_sent a ns) = map fst ns" "map (\<lambda>n. fst (snd n)) (mark_sent a ns) = map (\<lambda>n. fst (snd n)) ns"
  "map (\<lambda>(a, k, pi). (k, pi_ptr pi)) (mark_sent a ns) = map (\<lambda>(a, k, pi). (k, pi_ptr pi)) ns"
  "filter (\<lambda>n. fst n \<noteq> a) (mark_sent a ns) = filter (\<lambda>n. fst n \<noteq> a) ns"
  "map_option fst (map_of (mark_sent a ns) b) = map_option fst (map_of ns b)"
  by (induction ns) (auto simp: mark_sent_def)

lemma mark_sent_set:
  "(b, k, pi) \<in> set (mark_sent a ns) \<longleftrightarrow>
     (b \<noteq> a \<and> (b, k, pi) \<in> set ns \<or> b = a \<and> (\<exists>pi'. (a, k, pi') \<in> set ns \<and> pi = pi'\<lparr>pi_hasSend := True\<rparr>))"
  by (auto simp: mark_sent_def split: if_splits intro: rev_image_eqI)

lemma tq_popSend_eq:
  assumes "tq_ok q" "tq_send q \<noteq> []" "last (tq_send q) = (s, a)"
  shows "tq_popSend del q =
    Inr (if del then tq_without a q else q\<lparr>tq_data := mark_sent a (tq_data q), tq_send := butlast (tq_send q)\<rparr>)"
proof -
  obtain k pi where n: "(a, k, pi) \<in> set (tq_data q)" "\<not> pi_hasSend pi" "pi_sendIter pi = s"
    by (rule send_last_node[OF assms(1,2)]) (use assms(3) in auto)
  have "map (\<lambda>n. if fst n = a then (a, k, pi\<lparr>pi_hasSend := True\<rparr>) else n) (tq_data q) = mark_sent a (tq_data q)"
    unfolding mark_sent_def
  proof (rule map_cong[OF refl])
    fix x assume "x \<in> set (tq_data q)"
    then show "(if fst x = a then (a, k, pi\<lparr>pi_hasSend := True\<rparr>) else x)
        = (case x of (b, k, pi) \<Rightarrow> (b, k, if b = a then pi\<lparr>pi_hasSend := True\<rparr> else pi))"
      using tq_ok_data_unique[OF assms(1) n(1)] by (auto split: prod.splits)
  qed
  moreover have "erase_at a (mark_sent a (tq_data q)) = Inr (filter (\<lambda>n. fst n \<noteq> a) (tq_data q))"
    using n(1) by (force simp: erase_at_def mark_sent_simps)
  moreover have "erase_at (pi_timeIter pi) (tq_time q) = Inr (filter (\<lambda>n. snd (snd n) \<noteq> a) (tq_time q))"
    using erase_time_node[OF assms(1) n(1)] .
  ultimately show ?thesis
    using assms(2,3) tq_ok_data_at(2)[OF assms(1) n(1)] send_without_last[OF assms]
    by (simp add: tq_popSend_def tq_without_def)
qed

lemma mark_sent_ok:
  assumes "tq_ok q" "tq_send q \<noteq> []" "last (tq_send q) = (s, a)"
  shows "tq_ok (q\<lparr>tq_data := mark_sent a (tq_data q), tq_send := butlast (tq_send q)\<rparr>)" (is "tq_ok ?q")
proof -
  have "tq_shape ?q"
    using assms(1) unfolding tq_ok_def tq_shape_def
    by (auto simp: mark_sent_simps map_butlast distinct_butlast dest: in_set_butlastD)
      (auto simp: mark_sent_def)
  moreover have "tq_links ?q"
  proof (rule tq_linksI)
    have f: "tq_data ?q = mark_sent a (tq_data q)" "tq_time ?q = tq_time q"
      "tq_send ?q = filter (\<lambda>n. snd n \<noteq> a) (tq_send q)" by (simp_all add: send_without_last[OF assms])
    fix b k pi assume "(b, k, pi) \<in> set (tq_data ?q)"
    then have n: "(b, k, pi) \<in> set (mark_sent a (tq_data q))" by (simp only: f)
    show "\<exists>d. (pi_timeIter pi, d, b) \<in> set (tq_time ?q)"
      using n tq_ok_nodes(1)[OF assms(1)] unfolding f by (auto simp: mark_sent_set)
    show "(pi_sendIter pi, b) \<in> set (tq_send ?q)" if "\<not> pi_hasSend pi"
      using n that tq_ok_nodes(2)[OF assms(1)] unfolding f by (auto simp: mark_sent_set)
  next
    fix t d b assume "(t, d, b) \<in> set (tq_time ?q)"
    then obtain k pi where n: "(b, k, pi) \<in> set (tq_data q)" "pi_timeIter pi = t"
      using tq_ok_nodes(3)[OF assms(1), of t d b] by auto
    then have "(b, k, if b = a then pi\<lparr>pi_hasSend := True\<rparr> else pi) \<in> set (tq_data ?q)" by (auto simp: mark_sent_set)
    moreover have "pi_timeIter (if b = a then pi\<lparr>pi_hasSend := True\<rparr> else pi) = t" using n(2) by simp
    ultimately show "\<exists>k pi. (b, k, pi) \<in> set (tq_data ?q) \<and> pi_timeIter pi = t" by blast
  next
    fix s b assume "(s, b) \<in> set (tq_send ?q)"
    then have "(s, b) \<in> set (tq_send q)" "b \<noteq> a" using send_without_last[OF assms, symmetric] by auto
    then show "\<exists>k pi. (b, k, pi) \<in> set (tq_data ?q) \<and> \<not> pi_hasSend pi \<and> pi_sendIter pi = s"
      using tq_ok_nodes(4)[OF assms(1), of s b] by (simp add: mark_sent_set)
  qed
  ultimately show ?thesis by (simp add: tq_ok_def)
qed

lemma mark_sent_abs:
  "tq_abs (q\<lparr>tq_data := mark_sent a (tq_data q), tq_send := sn\<rparr>)
     = (tq_abs q)\<lparr>c_send := map (\<lambda>(s, a). key_of q a) sn\<rparr>"
proof -
  have "fst (the (map_of (mark_sent a (tq_data q)) b)) = fst (the (map_of (tq_data q) b))" for b
    using mark_sent_simps(5)[of a "tq_data q" b]
    by (cases "map_of (tq_data q) b"; cases "map_of (mark_sent a (tq_data q)) b") auto
  then have "key_of (q\<lparr>tq_data := mark_sent a (tq_data q), tq_send := sn\<rparr>) = key_of q"
    by (simp add: key_of_def fun_eq_iff)
  then show ?thesis by (simp add: tq_abs_def mark_sent_simps)
qed

lemma tq_popSend_refines:
  assumes "tq_ok q" "tq_send q \<noteq> []"
  shows "\<exists>q'. tq_popSend del q = Inr q' \<and> tq_ok q' \<and> tq_abs q' = c_popSend del (tq_abs q)"
proof -
  obtain a k pi where n: "last (tq_send q) = (pi_sendIter pi, a)" "(a, k, pi) \<in> set (tq_data q)"
    "last (c_send (tq_abs q)) = k"
    using send_last_node[OF assms] by metis
  have "map (\<lambda>(s, a). key_of q a) (butlast (tq_send q)) = butlast (c_send (tq_abs q))"
    by (simp add: tq_abs_def map_butlast)
  then show ?thesis
    using tq_popSend_eq[OF assms n(1)] mark_sent_ok[OF assms n(1)] tq_without_ok[OF assms(1)]
      tq_without_abs[OF assms(1) n(2)] n(3)
    by (simp add: c_popSend_def mark_sent_abs)
qed

lemma tq_getSend_refines:
  assumes "tq_ok q"
  shows "tq_getSend q = Inr (if c_send (tq_abs q) = [] then None else c_ptr (tq_abs q) (last (c_send (tq_abs q))))"
proof (cases "tq_send q = []")
  case True
  then show ?thesis by (simp add: tq_getSend_def tq_abs_def)
next
  case False
  then obtain a k pi where n: "last (tq_send q) = (pi_sendIter pi, a)" "(a, k, pi) \<in> set (tq_data q)" "\<not> pi_hasSend pi"
    "last (c_send (tq_abs q)) = k"
    using send_last_node[OF assms] by metis
  moreover have "c_send (tq_abs q) \<noteq> []" using False by (simp add: tq_abs_def)
  ultimately show ?thesis
    using False tq_ok_data_at(2)[OF assms n(2)] abs_ptr_node[OF assms n(2)] by (simp add: tq_getSend_def)
qed

text \<open>The abstract table of a well-formed one: each id has one deadline, and the deadlines are in order.\<close>

lemma tq_abs_time:
  assumes "tq_ok q"
  shows "sorted (map fst (c_time (tq_abs q)))" "distinct (map snd (c_time (tq_abs q)))"
proof -
  have "map fst (c_time (tq_abs q)) = map (\<lambda>n. fst (snd n)) (tq_time q)"
    by (simp add: tq_abs_def case_prod_beta)
  moreover have "sorted (map (\<lambda>n. fst (snd n)) (tq_time q))" using assms by (simp add: tq_ok_def tq_shape_def)
  ultimately show "sorted (map fst (c_time (tq_abs q)))" by (simp only:)
  have "inj_on (\<lambda>n. key_of q (snd (snd n))) (set (tq_time q))"
  proof (rule inj_onI)
    fix m n assume m: "m \<in> set (tq_time q)" and n: "n \<in> set (tq_time q)" and e: "key_of q (snd (snd m)) = key_of q (snd (snd n))"
    obtain t d a where s1: "m = (t, d, a)" by (cases m)
    obtain t' d' a' where s2: "n = (t', d', a')" by (cases n)
    note s = s1 s2
    obtain k pi where p: "(a, k, pi) \<in> set (tq_data q)" "pi_timeIter pi = t" using tq_ok_nodes(3)[OF assms, of t d a] m s by auto
    obtain k' pi' where p': "(a', k', pi') \<in> set (tq_data q)" using tq_ok_nodes(3)[OF assms, of t' d' a'] n s by auto
    have "key_of q a' = k" using e key_of_node[OF assms p(1)] unfolding s by simp
    then have "a' = a" using key_of_eq[OF assms p(1) p'] by blast
    then have "t' = t" using tq_ok_time_node[OF assms p(1), of t' d' a'] n s p(2) by simp
    then show "m = n" using eq_key_imp_eq_value[OF tq_ok_distinct(3)[OF assms], of t "(d, a)" "(d', a')"] m n s by simp
  qed
  moreover have "distinct (tq_time q)" using tq_ok_distinct(3)[OF assms] by (simp add: distinct_map)
  ultimately have "distinct (map (\<lambda>n. key_of q (snd (snd n))) (tq_time q))" by (simp add: distinct_map)
  moreover have "map snd (c_time (tq_abs q)) = map (\<lambda>n. key_of q (snd (snd n))) (tq_time q)"
    by (simp add: tq_abs_def case_prod_beta)
  ultimately show "distinct (map snd (c_time (tq_abs q)))" by (simp only:)
qed

lemma tq_abs_dom:
  assumes "tq_ok q"
  shows "(\<exists>d. (d, k) \<in> set (c_time (tq_abs q))) \<longleftrightarrow> c_ptr (tq_abs q) k \<noteq> None"
proof
  assume "\<exists>d. (d, k) \<in> set (c_time (tq_abs q))"
  then obtain t d a where "(t, d, a) \<in> set (tq_time q)" "key_of q a = k" by (auto simp: tq_abs_def)
  then obtain pi where "(a, k, pi) \<in> set (tq_data q)" using tq_ok_nodes(3)[OF assms, of t d a] key_of_node[OF assms] by blast
  then show "c_ptr (tq_abs q) k \<noteq> None" using abs_ptr_node[OF assms] by simp
next
  assume "c_ptr (tq_abs q) k \<noteq> None"
  then obtain a pi where n: "(a, k, pi) \<in> set (tq_data q)" using data_find_None[of k q] data_find_iff[OF assms] by fastforce
  then obtain d where "(pi_timeIter pi, d, a) \<in> set (tq_time q)" using tq_ok_nodes(1)[OF assms] by blast
  then show "\<exists>d. (d, k) \<in> set (c_time (tq_abs q))" using key_of_node[OF assms n] by (force simp: tq_abs_def)
qed

text \<open>The loop over all expired entries.\<close>

lemma tq_timeout_keeps:
  "tq_ok q \<Longrightarrow> \<exists>q'. tq_timeout now q = Inr q' \<and> tq_ok q' \<and>
     c_time (tq_abs q') = filter (\<lambda>e. now < fst e) (c_time (tq_abs q)) \<and>
     c_ptr (tq_abs q') = (\<lambda>k. if \<exists>d. (d, k) \<in> set (c_time (tq_abs q)) \<and> now < d then c_ptr (tq_abs q) k else None)"
proof (induction now q rule: tq_timeout.induct)
  case (1 now q)
  let ?c = "tq_abs q"
  obtain q1 where q1: "tq_timeout1 now q = Inr (fst (c_timeout1 now ?c), q1)" "tq_ok q1" "tq_abs q1 = snd (c_timeout1 now ?c)"
    using tq_timeout1_refines[OF "1.prems"] by blast
  note t = tq_abs_time[OF "1.prems"]
  show ?case
  proof (cases "\<exists>d k es. c_time ?c = (d, k) # es \<and> d \<le> now")
    case False
    then have "\<forall>e \<in> set (c_time ?c). now < fst e"
      using t(1) by (cases "c_time ?c") (fastforce simp: not_le)+
    then have f: "filter (\<lambda>e. now < fst e) (c_time ?c) = c_time ?c" by simp
    have p: "c_ptr ?c = (\<lambda>k. if \<exists>d. (d, k) \<in> set (c_time ?c) \<and> now < d then c_ptr ?c k else None)"
      using tq_abs_dom[OF "1.prems"] \<open>\<forall>e \<in> set (c_time ?c). now < fst e\<close> by (fastforce simp: fun_eq_iff)
    have "fst (c_timeout1 now ?c) = None"
      using False by (auto simp: c_timeout1_def split: list.splits)
    then have "tq_timeout now q = Inr q" using q1(1) by (subst tq_timeout.simps) simp
    then show ?thesis using "1.prems" f p by simp
  next
    case True
    then obtain d k es where c: "c_time ?c = (d, k) # es" "d \<le> now" by blast
    obtain x where x: "c_ptr ?c k = Some x" using tq_abs_dom[OF "1.prems", of k] c by auto
    have k: "(d', k) \<notin> set es" for d' using t(2) c by force
    then have "filter (\<lambda>e. snd e \<noteq> k) es = es" by (intro filter_True) auto
    then have c1: "c_time (tq_abs q1) = es" "c_ptr (tq_abs q1) = (c_ptr ?c)(k := None)"
      using q1(3) c by (simp_all add: c_timeout1_def c_remove_def)
    have s: "tq_timeout1 now q = Inr (Some x, q1)" using q1(1) c x by (simp add: c_timeout1_def)
    then have "tq_timeout now q = tq_timeout now q1" by (subst tq_timeout.simps) simp
    moreover obtain q' where "tq_timeout now q1 = Inr q'" "tq_ok q'"
      "c_time (tq_abs q') = filter (\<lambda>e. now < fst e) es"
      "c_ptr (tq_abs q') = (\<lambda>j. if \<exists>d. (d, j) \<in> set es \<and> now < d then ((c_ptr ?c)(k := None)) j else None)"
      using "1.IH"[OF s _ _ q1(2)] unfolding c1 by auto
    ultimately show ?thesis using c k by (auto simp: fun_eq_iff)
  qed
qed

section \<open>Sequences of operations\<close>

datatype 'a tq_op = OpPush 'a "32 word" int bool | OpGet "32 word" bool | OpErase "32 word"
  | OpGetSend | OpPopSend bool | OpTimeout int

text \<open>
  What a call returns, as far as it returns something: an entry for \<^verbatim>\<open>get\<close>, \<^verbatim>\<open>erase\<close>, \<^verbatim>\<open>getSend\<close> and
  \<^verbatim>\<open>timeout(t)\<close>, and whether \<^verbatim>\<open>push\<close> took the entry.
\<close>

datatype 'a tq_res = Taken bool | Entry "'a option" | Done

fun tq_exec :: "nat \<Rightarrow> 'a tq_op \<Rightarrow> 'a TimeoutQueue \<Rightarrow> tq_exn + 'a tq_res \<times> 'a TimeoutQueue" where
  "tq_exec junk (OpPush ptr k d sent) q = (case tq_push junk ptr k d sent q of (r, q') \<Rightarrow> Inr (Taken r, q'))"
| "tq_exec junk (OpGet k b) q = tq_ebind (tq_get k b q) (\<lambda>(r, q'). Inr (Entry r, q'))"
| "tq_exec junk (OpErase k) q = tq_ebind (tq_erase k q) (\<lambda>(r, q'). Inr (Entry r, q'))"
| "tq_exec junk OpGetSend q = tq_ebind (tq_getSend q) (\<lambda>r. Inr (Entry r, q))"
| "tq_exec junk (OpPopSend del) q = tq_ebind (tq_popSend del q) (\<lambda>q'. Inr (Done, q'))"
| "tq_exec junk (OpTimeout now) q = tq_ebind (tq_timeout1 now q) (\<lambda>(r, q'). Inr (Entry r, q'))"

fun c_exec :: "'a tq_op \<Rightarrow> 'a calls \<Rightarrow> tq_exn + 'a tq_res \<times> 'a calls" where
  "c_exec (OpPush ptr k d sent) c = (case c_push ptr k d sent c of (r, c') \<Rightarrow> Inr (Taken r, c'))"
| "c_exec (OpGet k b) c = Inr (Entry (c_ptr c k), if b then snd (c_erase k c) else c)"
| "c_exec (OpErase k) c = (case c_erase k c of (r, c') \<Rightarrow> Inr (Entry r, c'))"
| "c_exec OpGetSend c = Inr (Entry (if c_send c = [] then None else c_ptr c (last (c_send c))), c)"
| "c_exec (OpPopSend del) c = (if c_send c = [] then Inl AssertFailed else Inr (Done, c_popSend del c))"
| "c_exec (OpTimeout now) c = (case c_timeout1 now c of (r, c') \<Rightarrow> Inr (Entry r, c'))"

fun op_run :: "('o \<Rightarrow> 's \<Rightarrow> tq_exn + 'r \<times> 's) \<Rightarrow> 'o list \<Rightarrow> 's \<Rightarrow> tq_exn + 'r list \<times> 's" where
  "op_run exec [] s = Inr ([], s)"
| "op_run exec (p # ops) s = tq_ebind (exec p s) (\<lambda>(r, s').
     tq_ebind (op_run exec ops s') (\<lambda>(rs, s''). Inr (r # rs, s'')))"

text \<open>
  The contract between an implementation and the abstract table: each operation returns what the abstract
  one returns and ends in a corresponding state, or fails as it does.
\<close>

locale table_refinement =
  fixes exec :: "'o \<Rightarrow> 's \<Rightarrow> tq_exn + 'r \<times> 's"
    and spec :: "'o \<Rightarrow> 'c \<Rightarrow> tq_exn + 'r \<times> 'c"
    and abs :: "'s \<Rightarrow> 'c"
    and ok :: "'s \<Rightarrow> bool"
  assumes exec_ok: "ok s \<Longrightarrow> exec p s = Inr (r, s') \<Longrightarrow> ok s'"
    and exec_spec: "ok s \<Longrightarrow> map_sum id (map_prod id abs) (exec p s) = spec p (abs s)"
begin

lemma run_spec: "ok s \<Longrightarrow> map_sum id (map_prod id abs) (op_run exec ops s) = op_run spec ops (abs s)"
proof (induction ops arbitrary: s)
  case (Cons p ops)
  show ?case
  proof (cases "exec p s")
    case (Inl e)
    then show ?thesis using exec_spec[OF Cons.prems, of p] by (simp flip: exec_spec[OF Cons.prems])
  next
    case (Inr rs)
    then obtain r s' where e: "exec p s = Inr (r, s')" by (cases rs) auto
    then have "spec p (abs s) = Inr (r, abs s')" using exec_spec[OF Cons.prems, of p] by simp
    moreover have "op_run spec ops (abs s') = map_sum id (map_prod id abs) (op_run exec ops s')"
      by (rule Cons.IH[OF exec_ok[OF Cons.prems e], symmetric])
    ultimately show ?thesis using e by (cases "op_run exec ops s'") auto
  qed
qed simp

end

interpretation tq: table_refinement "tq_exec junk" c_exec tq_abs tq_ok for junk
proof
  fix p :: "'a tq_op" and q :: "'a TimeoutQueue" and r q' assume ok: "tq_ok q"
  have e: "\<exists>r q'. (tq_exec junk p q = Inr (r, q') \<and> tq_ok q' \<and> c_exec p (tq_abs q) = Inr (r, tq_abs q')) \<or>
    (tq_exec junk p q = Inl AssertFailed \<and> c_exec p (tq_abs q) = Inl AssertFailed)"
  proof (cases p)
    case (OpPush ptr k d sent)
    then show ?thesis using tq_push_refines[OF ok, of junk ptr k d sent] by (auto split: prod.splits)
  next
    case (OpGet k b)
    then show ?thesis using tq_get_refines[OF ok, of k b] by auto
  next
    case (OpErase k)
    then show ?thesis using tq_erase_refines[OF ok, of k] by (auto split: prod.splits)
  next
    case OpGetSend
    then show ?thesis using tq_getSend_refines[OF ok] ok by auto
  next
    case (OpPopSend del)
    have "c_send (tq_abs q) = [] \<longleftrightarrow> tq_send q = []" by (simp add: tq_abs_def)
    then show ?thesis using OpPopSend tq_popSend_refines[OF ok, of del]
      by (cases "tq_send q = []") (auto simp: tq_popSend_def)
  next
    case (OpTimeout now)
    then show ?thesis using tq_timeout1_refines[OF ok, of now] by (auto split: prod.splits)
  qed
  then show "map_sum id (map_prod id tq_abs) (tq_exec junk p q) = c_exec p (tq_abs q)" by auto
  show "tq_ok q'" if "tq_exec junk p q = Inr (r, q')" using e that by auto
qed


text \<open>
  C35. \<^verbatim>\<open>timeout()\<close> ends, removes exactly the entries whose deadline has passed, and keeps every other
  entry with its deadline.
\<close>

theorem timeout_removes_expired:
  assumes "tq_ok q"
  shows "\<exists>q'. tq_timeout now q = Inr q' \<and> tq_ok q' \<and>
     c_time (tq_abs q') = filter (\<lambda>e. now < fst e) (c_time (tq_abs q)) \<and>
     c_ptr (tq_abs q') = (\<lambda>k. if \<exists>d. (d, k) \<in> set (c_time (tq_abs q)) \<and> now < d then c_ptr (tq_abs q) k else None)"
  using tq_timeout_keeps[OF assms] .

theorem timeout_removes_expired_witness:
  "\<exists>q q'. tq_push 0 (8 :: nat) 2 90 False (snd (tq_push 0 7 1 50 True TimeoutQueue_new)) = (True, q)
    \<and> tq_timeout 60 q = Inr q' \<and> c_time (tq_abs q') = [(90, 2)] \<and> c_ptr (tq_abs q') = [2 \<mapsto> 8]"
proof -
  obtain q1 where q1: "tq_push 0 (7 :: nat) 1 50 True TimeoutQueue_new = (True, q1)" "tq_ok q1"
    "tq_abs q1 = \<lparr>c_ptr = [1 \<mapsto> 7], c_time = [(50, 1)], c_send = []\<rparr>"
    using tq_push_refines[OF tq_ok_new, of 0 7 1 50 True] by (auto simp: tq_abs_new c_push_def)
  obtain q where q: "tq_push 0 8 2 90 False q1 = (True, q)" "tq_ok q"
    "tq_abs q = \<lparr>c_ptr = [1 \<mapsto> 7, 2 \<mapsto> 8], c_time = [(50, 1), (90, 2)], c_send = [2]\<rparr>"
    using tq_push_refines[OF q1(2), of 0 8 2 90 False] by (auto simp: q1(3) c_push_def)
  then show ?thesis using timeout_removes_expired[OF q(2), of 60] q1(1) by (auto simp: fun_eq_iff)
qed

section \<open>Request ids\<close>

definition next_state :: "'a TimeoutQueue \<Rightarrow> 'a TimeoutQueue" where
  "next_state q = snd (tq_generateId q)"

lemma tq_generateId_unat:
  "fst (tq_generateId q) = tq_uniqId (next_state q)"
  "unat (tq_uniqId (next_state q)) = unat (tq_uniqId q) mod (2 ^ 32 - 1) + 1"
proof -
  show "fst (tq_generateId q) = tq_uniqId (next_state q)" by (simp add: next_state_def tq_generateId_def Let_def)
  have m: "unat (- 1 :: 32 word) = 2 ^ 32 - 1" by (simp add: unsigned_minus_1_eq_mask mask_eq_exp_minus_1)
  show "unat (tq_uniqId (next_state q)) = unat (tq_uniqId q) mod (2 ^ 32 - 1) + 1"
  proof (cases "tq_uniqId q + 1 = 0")
    case True
    then have "tq_uniqId q = - 1" by (simp add: eq_neg_iff_add_eq_0)
    then show ?thesis using m by (simp add: next_state_def tq_generateId_def Let_def)
  next
    case False
    then have "unat (tq_uniqId q + 1) = unat (tq_uniqId q) + 1" by (metis Suc_eq_plus1 add.commute unatSuc)
    moreover from this have "unat (tq_uniqId q) < 2 ^ 32 - 1" using unsigned_less[of "tq_uniqId q + 1", where ?'a = nat] by simp
    ultimately show ?thesis using False by (simp add: next_state_def tq_generateId_def Let_def)
  qed
qed

lemma next_state_iterate:
  "unat (tq_uniqId ((next_state ^^ Suc n) q)) = (unat (tq_uniqId q) + n) mod (2 ^ 32 - 1) + 1"
  by (induction n) (simp_all add: tq_generateId_unat mod_simps)

text \<open>
  C36. Request ids are never zero, and an id comes back only after \<open>2 ^ 32 - 1\<close> calls of \<^verbatim>\<open>generateId\<close>:
  the ids of fewer calls in a row are pairwise different, across the wrap-around too.
\<close>

theorem generateId_distinct:
  assumes "0 < n" "n < 2 ^ 32 - 1"
  shows "fst (tq_generateId q) \<noteq> 0 \<and>
    fst (tq_generateId (((\<lambda>q. snd (tq_generateId q)) ^^ n) q)) \<noteq> fst (tq_generateId q)"
proof -
  have f: "(\<lambda>q. snd (tq_generateId q)) = next_state" by (simp add: next_state_def fun_eq_iff)
  have e: "unat (fst (tq_generateId ((next_state ^^ n) q))) = (unat (tq_uniqId q) + n) mod (2 ^ 32 - 1) + 1"
    using next_state_iterate[of n q] by (simp add: tq_generateId_unat(1))
  have s: "unat (fst (tq_generateId q)) = unat (tq_uniqId q) mod (2 ^ 32 - 1) + 1"
    using tq_generateId_unat[of q] by simp
  have "(unat (tq_uniqId q) + n) mod (2 ^ 32 - 1) \<noteq> unat (tq_uniqId q) mod (2 ^ 32 - 1)"
    using assms mod_eq_dvd_iff_nat[of "unat (tq_uniqId q)" "unat (tq_uniqId q) + n" "2 ^ 32 - 1"]
    by (auto dest: nat_dvd_not_less)
  then have "unat (fst (tq_generateId ((next_state ^^ n) q))) \<noteq> unat (fst (tq_generateId q))" unfolding e s by simp
  moreover have "fst (tq_generateId q) \<noteq> 0" using s by (metis Suc_eq_plus1 nat.distinct(1) unat_0)
  ultimately show ?thesis unfolding f by metis
qed

theorem generateId_distinct_witness:
  "fst (tq_generateId ((TimeoutQueue_new :: nat TimeoutQueue)\<lparr>tq_uniqId := - 1\<rparr>)) \<noteq> 0 \<and>
   fst (tq_generateId (((\<lambda>q. snd (tq_generateId q)) ^^ 1000) ((TimeoutQueue_new :: nat TimeoutQueue)\<lparr>tq_uniqId := - 1\<rparr>)))
     \<noteq> fst (tq_generateId ((TimeoutQueue_new :: nat TimeoutQueue)\<lparr>tq_uniqId := - 1\<rparr>))"
  by (rule generateId_distinct) simp_all

end
