(* ===== verification/Tcp_Transceiver.thy ===== *)
theory Tcp_Transceiver
  imports App_Protocol "HOL-Library.Sublist"
begin

text \<open>
  The connections (\<^verbatim>\<open>util/tc_transceiver.cpp\<close>): how \<^verbatim>\<open>TC_TCPTransceiver\<close> hands packets to the kernel and
  how it cuts what the kernel delivers into packets. The socket is a script: the outcomes of the next
  \<^verbatim>\<open>::send\<close> and \<^verbatim>\<open>::recv\<close> calls are part of the state, and an exhausted script means that the call would
  block. \<open>tr_wire\<close> records the bytes the kernel has taken on the current connection. TLS and connections through
  a proxy are not modelled, timers and epoll registrations neither.
\<close>

section \<open>State\<close>

datatype ConnStatus = eUnconnected | eConnecting | eConnected
datatype ReturnStatus = eRetError | eRetOk | eRetFull | eRetNotSend
datatype trans_exn = TC_Transceiver_Exception | BufferException net_exn

datatype send_outcome = SendBytes nat | SendPending | SendFails
datatype recv_outcome = RecvBytes "byte list" | RecvPending | RecvFails | RecvEnd

record Transceiver =
  tr_fd :: bool
  tr_connStatus :: ConnStatus
  tr_authLocal :: bool
  tr_authSucc :: bool
  tr_isConnTimeout :: bool
  tr_sendBuffer :: TC_NetWorkBuffer
  tr_recvBuffer :: TC_NetWorkBuffer
  tr_sends :: "send_outcome list"
  tr_recvs :: "recv_outcome list"
  tr_wire :: "byte list"
  tr_closed :: nat

definition tr_isValid :: "Transceiver \<Rightarrow> bool" where
  "tr_isValid t \<longleftrightarrow> tr_fd t"

definition tr_hasConnected :: "Transceiver \<Rightarrow> bool" where
  "tr_hasConnected t \<longleftrightarrow> tr_isValid t \<and> tr_connStatus t = eConnected"

definition tr_isConnecting :: "Transceiver \<Rightarrow> bool" where
  "tr_isConnecting t \<longleftrightarrow> tr_isValid t \<and> tr_connStatus t = eConnecting"

text \<open>
  The callbacks of a transceiver, over the state \<open>'c\<close> of its owner: the check of an authentication (with the
  block of the answer on the server's side, \<open>None\<close> on the client's), the parser, the notice of a packet, the notice that all packets of a read are
  taken out, and the request to send what is queued.
\<close>

record 'c Callbacks =
  cb_verify :: "'c \<Rightarrow> Transceiver \<Rightarrow> PACKET_TYPE \<times> nat option \<times> 'c \<times> Transceiver"
  cb_parser :: "'c \<Rightarrow> Transceiver \<Rightarrow> (net_exn + PACKET_TYPE) \<times> 'c \<times> Transceiver"
  cb_package :: "'c \<Rightarrow> Transceiver \<Rightarrow> 'c \<times> Transceiver"
  cb_network :: "'c \<Rightarrow> Transceiver \<Rightarrow> 'c \<times> Transceiver"
  cb_request :: "'c \<Rightarrow> Transceiver \<Rightarrow> (trans_exn + unit) \<times> 'c \<times> Transceiver"

text \<open>\<open>tr_closed\<close> counts the calls of the close callback.\<close>

definition tr_tcpClose :: "Transceiver \<Rightarrow> Transceiver" where
  "tr_tcpClose t =
     (if tr_isValid t
      then t\<lparr>tr_fd := False, tr_connStatus := eUnconnected, tr_sendBuffer := nb_clearBuffers (tr_sendBuffer t),
             tr_recvBuffer := nb_clearBuffers (tr_recvBuffer t), tr_authSucc := False, tr_closed := tr_closed t + 1\<rparr>
      else t)"

definition tr_close :: "Transceiver \<Rightarrow> Transceiver" where
  "tr_close t = (if \<not> tr_isValid t then t else tr_tcpClose t)"

text \<open>
  \<^verbatim>\<open>connect\<close> on a new socket; \<open>bConnected\<close> is what \<^verbatim>\<open>doConnect\<close> returns. A connection starts with nothing
  on the wire.
\<close>

definition tr_connect :: "bool \<Rightarrow> Transceiver \<Rightarrow> Transceiver" where
  "tr_connect bConnected t =
     (if tr_isValid t then t
      else if tr_connStatus t = eConnecting \<or> tr_connStatus t = eConnected then t
      else t\<lparr>tr_fd := True, tr_isConnTimeout := False, tr_wire := [],
             tr_connStatus := if bConnected then eConnected else eConnecting\<rparr>)"

text \<open>\<^verbatim>\<open>checkConnect\<close>: \<open>err\<close> is the pending error of the socket; the connection is closed before the throw.\<close>

definition tr_checkConnect :: "bool \<Rightarrow> Transceiver \<Rightarrow> (trans_exn + unit) \<times> Transceiver" where
  "tr_checkConnect err t =
     (if tr_isConnecting t
      then if err then (Inl TC_Transceiver_Exception, tr_tcpClose t) else (Inr (), t\<lparr>tr_connStatus := eConnected\<rparr>)
      else (Inr (), t))"

section \<open>Sending\<close>

text \<open>\<^verbatim>\<open>TC_TCPTransceiver::send\<close>: the number of bytes taken, \<open>None\<close> for -1.\<close>

definition tcp_send :: "byte list \<Rightarrow> Transceiver \<Rightarrow> (trans_exn + nat option) \<times> Transceiver" where
  "tcp_send buf t =
     (if tr_connStatus t \<noteq> eConnected then (Inr None, t)
      else case tr_sends t of
        [] \<Rightarrow> (Inr None, t)
      | SendPending # k \<Rightarrow> (Inr None, t\<lparr>tr_sends := k\<rparr>)
      | SendFails # k \<Rightarrow> (Inl TC_Transceiver_Exception, tr_tcpClose (t\<lparr>tr_sends := k\<rparr>))
      | SendBytes n # k \<Rightarrow>
          (let m = min n (length buf) in (Inr (Some m), t\<lparr>tr_sends := k, tr_wire := tr_wire t @ take m buf\<rparr>)))"

text \<open>
  The loop of \<^verbatim>\<open>sendRequest\<close>. Every round takes one outcome from the script, so it ends.
\<close>

definition buffer_pointer :: "TC_NetWorkBuffer \<Rightarrow> net_exn + byte list" where
  "buffer_pointer nb = (case nb_getBufferPointer nb of None \<Rightarrow> Inr [] | Some r \<Rightarrow> r)"

lemma tcp_send_shorter:
  "tcp_send buf t = (Inr (Some m), t') \<Longrightarrow> length (tr_sends t') < length (tr_sends t)"
  by (auto simp: tcp_send_def Let_def split: if_splits list.splits send_outcome.splits)

function send_loop :: "Transceiver \<Rightarrow> (trans_exn + ReturnStatus) \<times> Transceiver" where
  "send_loop t =
     (case buffer_pointer (tr_sendBuffer t) of
        Inl e \<Rightarrow> (Inl (BufferException e), t)
      | Inr data \<Rightarrow>
          (case tcp_send data t of
             (Inl e, t1) \<Rightarrow> (Inl e, t1)
           | (Inr None, t1) \<Rightarrow>
               if \<not> tr_isValid t1
               then (Inr eRetError, t1\<lparr>tr_sendBuffer := nb_clearBuffers (tr_sendBuffer t1)\<rparr>)
               else (Inr eRetFull, t1)
           | (Inr (Some n), t1) \<Rightarrow>
               (case nb_moveHeader n (tr_sendBuffer t1) of
                  Inl e \<Rightarrow> (Inl (BufferException e), t1)
                | Inr (_, nb) \<Rightarrow>
                    let t2 = t1\<lparr>tr_sendBuffer := nb\<rparr>
                    in if nb_empty nb then (Inr eRetOk, t2) else send_loop t2)))"
  by pat_completeness auto
termination
  by (relation "measure (\<lambda>t. length (tr_sends t))") (auto dest: tcp_send_shorter[OF sym])

declare send_loop.simps [simp del]

text \<open>
  A packet is a block its owner shares with the send buffer, an address \<open>a\<close> in the store of the blocks:
  what the socket takes is gone from the owner's block too.
\<close>

definition nb_share :: "nat \<Rightarrow> TC_NetWorkBuffer \<Rightarrow> TC_NetWorkBuffer" where
  "nb_share a nb =
     (if bf_empty (nb_store nb a) then nb
      else nb\<lparr>nb_list := nb_list nb @ [a], nb_length := nb_length nb + bf_length (nb_store nb a)\<rparr>)"

definition tr_sendRequest :: "nat \<Rightarrow> Transceiver \<Rightarrow> (trans_exn + ReturnStatus) \<times> Transceiver" where
  "tr_sendRequest a t =
     (if bf_empty (nb_store (tr_sendBuffer t) a) then (Inr eRetOk, t)
      else if \<not> nb_empty (tr_sendBuffer t) then (Inr eRetNotSend, t)
      else if tr_connStatus t \<noteq> eConnected then (Inr eRetNotSend, t)
      else if tr_authLocal t \<and> \<not> tr_authSucc t then (Inr eRetNotSend, t)
      else send_loop (t\<lparr>tr_sendBuffer := nb_share a (tr_sendBuffer t)\<rparr>))"

text \<open>
  \<^verbatim>\<open>doRequest\<close>, when the socket is writable: first what is left in the send buffer; the result of the loop is
  whether that is empty and the request callback is called. An exception of the kernel's call leaves the
  function.
\<close>

function request_loop :: "Transceiver \<Rightarrow> (trans_exn + bool) \<times> Transceiver" where
  "request_loop t =
     (if nb_empty (tr_sendBuffer t) then (Inr True, t)
      else case buffer_pointer (tr_sendBuffer t) of
        Inl e \<Rightarrow> (Inl (BufferException e), t)
      | Inr data \<Rightarrow>
          (case tcp_send data t of
             (Inl e, t1) \<Rightarrow> (Inl e, t1)
           | (Inr None, t1) \<Rightarrow> (Inr False, t1)
           | (Inr (Some n), t1) \<Rightarrow>
               if n = 0 then (Inr False, t1)
               else (case nb_moveHeader n (tr_sendBuffer t1) of
                  Inl e \<Rightarrow> (Inl (BufferException e), t1)
                | Inr (_, nb) \<Rightarrow> request_loop (t1\<lparr>tr_sendBuffer := nb\<rparr>))))"
  by pat_completeness auto
termination
  by (relation "measure (\<lambda>t. length (tr_sends t))") (auto dest: tcp_send_shorter[OF sym])

declare request_loop.simps [simp del]

definition tr_doRequest :: "'c Callbacks \<Rightarrow> bool \<Rightarrow> 'c \<Rightarrow> Transceiver \<Rightarrow> (trans_exn + unit) \<times> 'c \<times> Transceiver" where
  "tr_doRequest cb err c t =
     (if \<not> tr_isValid t then (Inr (), c, t)
      else case tr_checkConnect err t of
        (Inl e, t1) \<Rightarrow> (Inl e, c, t1)
      | (Inr _, t1) \<Rightarrow> (case request_loop t1 of
          (Inl e, t2) \<Rightarrow> (Inl e, c, t2)
        | (Inr False, t2) \<Rightarrow> (Inr (), c, t2)
        | (Inr True, t2) \<Rightarrow> cb_request cb c t2))"

section \<open>Receiving\<close>

text \<open>\<^verbatim>\<open>doAuthCheck\<close>, on the first bytes of a connection that needs an authentication.\<close>

definition tr_doAuthCheck :: "'c Callbacks \<Rightarrow> 'c \<Rightarrow> Transceiver \<Rightarrow> (trans_exn + unit) \<times> 'c \<times> Transceiver" where
  "tr_doAuthCheck cb c t =
     (if \<not> nb_empty (tr_recvBuffer t) \<and> tr_authLocal t \<and> \<not> tr_authSucc t
      then case cb_verify cb c t of (ty, answer, c1, t1) \<Rightarrow>
        if ty = PACKET_FULL
        then let t2 = t1\<lparr>tr_authSucc := True\<rparr>
             in (case answer of
                   Some a \<Rightarrow> (case tr_sendRequest a t2 of (Inl e, t3) \<Rightarrow> (Inl e, c1, t3) | (Inr _, t3) \<Rightarrow> (Inr (), c1, t3))
                 | None \<Rightarrow> cb_request cb c1 t2)
        else if ty = PACKET_ERR then (Inl TC_Transceiver_Exception, c1, tr_tcpClose t1)
        else (Inr (), c1, t1)
      else (Inr (), c, t))"

text \<open>
  \<^verbatim>\<open>doProtocolAnalysis\<close>. The loop goes on as long as the parser returns full packets; it runs on \<open>fuel\<close>, and
  \<open>None\<close> is the result when that is used up.
\<close>

fun analysis_loop ::
    "'c Callbacks \<Rightarrow> nat \<Rightarrow> nat \<Rightarrow> 'c \<Rightarrow> Transceiver \<Rightarrow> ((trans_exn + PACKET_TYPE \<times> nat) \<times> 'c \<times> Transceiver) option" where
  "analysis_loop cb 0 packetCount c t = None"
| "analysis_loop cb (Suc fuel) packetCount c t =
     (let ioriginal = nb_length (tr_recvBuffer t)
      in case cb_parser cb c t of
           (Inl e, c1, t1) \<Rightarrow> Some (Inl (BufferException e), c1, t1)
         | (Inr ret, c1, t1) \<Rightarrow>
             let isurplus = nb_length (tr_recvBuffer t1);
                 count = (if ret = PACKET_FULL \<or> ret = PACKET_FULL_CLOSE then packetCount + 1 else packetCount)
             in case cb_package cb c1 t1 of (c2, t2) \<Rightarrow>
                  let t3 = (if ret = PACKET_FULL_CLOSE then tr_tcpClose t2 else t2)
                  in if ret = PACKET_FULL \<and> ioriginal = isurplus
                     then Some (Inl TC_Transceiver_Exception, c2, tr_tcpClose t3)
                     else if ret = PACKET_FULL then analysis_loop cb fuel count c2 t3
                     else Some (Inr (ret, count), c2, t3))"

text \<open>
  What is thrown inside the loop is caught: the packets of this read are handed over all the same, then the
  connection is closed and \<^verbatim>\<open>TC_Transceiver_Exception\<close> thrown.
\<close>

definition tr_doProtocolAnalysis ::
    "'c Callbacks \<Rightarrow> nat \<Rightarrow> 'c \<Rightarrow> Transceiver \<Rightarrow> ((trans_exn + nat) \<times> 'c \<times> Transceiver) option" where
  "tr_doProtocolAnalysis cb fuel c t = (case tr_doAuthCheck cb c t of
     (Inl e, c1, t1) \<Rightarrow> Some (Inl e, c1, t1)
   | (Inr _, c1, t1) \<Rightarrow> (case analysis_loop cb fuel 0 c1 t1 of
       None \<Rightarrow> None
     | Some (r, c2, t2) \<Rightarrow> (case cb_network cb c2 t2 of (c3, t3) \<Rightarrow>
         (case r of
            Inl _ \<Rightarrow> Some (Inl TC_Transceiver_Exception, c3, tr_tcpClose t3)
          | Inr (ret, packetCount) \<Rightarrow>
              if ret = PACKET_ERR then Some (Inl TC_Transceiver_Exception, c3, tr_tcpClose t3)
              else Some (Inr packetCount, c3, t3)))))"

text \<open>\<^verbatim>\<open>TC_TCPTransceiver::recv\<close> with room for \<open>len\<close> bytes: \<open>None\<close> for -1, \<open>Some []\<close> for 0.\<close>

definition tcp_recv :: "nat \<Rightarrow> Transceiver \<Rightarrow> (trans_exn + byte list option) \<times> Transceiver" where
  "tcp_recv len t =
     (if tr_connStatus t \<noteq> eConnected then (Inr None, t)
      else case tr_recvs t of
        [] \<Rightarrow> (Inr None, t)
      | RecvPending # k \<Rightarrow> (Inr None, t\<lparr>tr_recvs := k\<rparr>)
      | RecvFails # k \<Rightarrow> (Inl TC_Transceiver_Exception, tr_tcpClose (t\<lparr>tr_recvs := k\<rparr>))
      | RecvEnd # k \<Rightarrow> (Inr (Some []), t\<lparr>tr_recvs := k\<rparr>)
      | RecvBytes bs # k \<Rightarrow>
          (Inr (Some (take len bs)),
           t\<lparr>tr_recvs := if length bs \<le> len then k else RecvBytes (drop len bs) # k\<rparr>))"

text \<open>
  \<^verbatim>\<open>doResponse\<close>: room in the receive buffer, one \<^verbatim>\<open>recv\<close> into it, the analysis, and on again unless the call
  has taken too long (\<open>slow\<close>, one flag per round) or the kernel had no more. \<open>fresh\<close> is what new blocks hold.
  The rounds run on \<open>fuel\<close>; the analysis of one round needs no more than one pass per buffered byte.
\<close>

definition BUFFER_SIZE :: nat where "BUFFER_SIZE = 16 * 1024"
definition MAX_BUFFER_SIZE :: nat where "MAX_BUFFER_SIZE = 1024 * 1024 * 10"

fun response_loop ::
    "(nat \<Rightarrow> byte) \<Rightarrow> 'c Callbacks \<Rightarrow> bool list \<Rightarrow> nat \<Rightarrow> 'c \<Rightarrow> Transceiver \<Rightarrow>
     ((trans_exn + bool) \<times> 'c \<times> Transceiver) option" where
  "response_loop fresh cb slow 0 c t = None"
| "response_loop fresh cb slow (Suc fuel) c t =
     (let rb = tr_recvBuffer t;
          expansion = max (min (nb_length rb) MAX_BUFFER_SIZE) BUFFER_SIZE
      in case nb_getOrCreateBuffer fresh (BUFFER_SIZE div 8) expansion rb of
           Inl e \<Rightarrow> Some (Inl (BufferException e), c, t)
         | Inr (a, nb) \<Rightarrow>
             let left = bf_left (nb_store nb a) mod 2 ^ 32
             in case tcp_recv left (t\<lparr>tr_recvBuffer := nb\<rparr>) of
                  (Inl e, t1) \<Rightarrow> Some (Inl e, c, t1)
                | (Inr None, t1) \<Rightarrow> Some (Inr True, c, t1)
                | (Inr (Some bs), t1) \<Rightarrow>
                    if bs = [] then Some (Inr False, c, tr_tcpClose t1)
                    else
                    let t2 = t1\<lparr>tr_recvBuffer := nb_fill a bs (tr_recvBuffer t1)\<rparr>
                    in case tr_doProtocolAnalysis cb (nb_length (tr_recvBuffer t2) + 2) c t2 of
                         None \<Rightarrow> None
                       | Some (Inl e, c1, t3) \<Rightarrow> Some (Inl e, c1, t3)
                       | Some (Inr _, c1, t3) \<Rightarrow>
                           if slow \<noteq> [] \<and> hd slow \<and> tr_isValid t3 \<or> length bs < left
                           then Some (Inr True, c1, t3)
                           else response_loop fresh cb (tl slow) fuel c1 t3)"

definition tr_doResponse ::
    "(nat \<Rightarrow> byte) \<Rightarrow> 'c Callbacks \<Rightarrow> bool list \<Rightarrow> bool \<Rightarrow> nat \<Rightarrow> 'c \<Rightarrow> Transceiver \<Rightarrow>
     ((trans_exn + bool) \<times> 'c \<times> Transceiver) option" where
  "tr_doResponse fresh cb slow err fuel c t = (case tr_checkConnect err t of
     (Inl e, t1) \<Rightarrow> Some (Inl e, c, t1)
   | (Inr _, t1) \<Rightarrow> response_loop fresh cb slow fuel c t1)"

section \<open>What the socket has taken\<close>

text \<open>The blocks of a send buffer are never empty, so a round of the loops always has something to send.\<close>

definition nb_solid :: "TC_NetWorkBuffer \<Rightarrow> bool" where
  "nb_solid nb \<longleftrightarrow> nb_ok nb \<and> (\<forall>a \<in> set (nb_list nb). bf_length (nb_store nb a) \<noteq> 0)"

lemma nb_solid_empty: "nb_solid nb \<Longrightarrow> nb_empty nb \<longleftrightarrow> nb_list nb = []"
  by (auto simp: nb_solid_def nb_ok_def nb_wf_def nb_empty_def)

lemma nb_clear_solid: "nb_ok nb \<Longrightarrow> nb_solid (nb_clearBuffers nb)" "nb_contents (nb_clearBuffers nb) = []"
  by (auto simp: nb_solid_def nb_ok_def nb_wf_def nb_clearBuffers_def nb_contents_def)

lemma bf_addReadIdx_eq:
  assumes "bf_wf b" "n \<le> bf_length b" "n < 2 ^ 32"
  shows "bf_addReadIdx n b = Inr (b\<lparr>bf_readIdx := bf_readIdx b + n\<rparr>)"
  using assms by (auto simp: bf_addReadIdx_def Let_def bf_wf_def bf_length_def)

text \<open>Moving over part of the first block changes nothing but that block.\<close>

lemma nb_moveHeader_head:
  assumes "nb_solid nb" "nb_list nb = a # as" "n \<le> bf_length (nb_store nb a)"
  defines "nb' \<equiv> nb\<lparr>nb_store := (nb_store nb)(a := (nb_store nb a)\<lparr>bf_readIdx := bf_readIdx (nb_store nb a) + n\<rparr>),
      nb_list := if n = bf_length (nb_store nb a) then as else a # as, nb_length := nb_length nb - n\<rparr>"
  shows "nb_moveHeader n nb = Inr (True, nb')" "nb_solid nb'" "nb_contents nb = take n (bf_data (nb_store nb a)) @ nb_contents nb'"
    "n = bf_length (nb_store nb a) \<Longrightarrow> bf_length (nb_store nb' a) = 0"
proof -
  let ?b = "nb_store nb a"
  have w: "bf_wf ?b" "nb_wf nb" "bf_length ?b \<noteq> 0" "bf_length ?b \<le> nb_length nb" "nb_length nb < 2 ^ 32" "a \<notin> set as"
    using assms(1,2) by (auto simp: nb_solid_def nb_ok_def nb_wf_def)
  have e: "bf_addReadIdx n ?b = Inr (?b\<lparr>bf_readIdx := bf_readIdx ?b + n\<rparr>)" using bf_addReadIdx_eq[OF w(1) assms(3)] assms(3) w(4,5) by simp
  have m: "nb_moveHeader n nb = Inr (True, nb')"
    using assms(2,3) w(3,4) e by (auto simp: nb_moveHeader_def Let_def nb'_def)
  then show "nb_moveHeader n nb = Inr (True, nb')" .
  have ok: "nb_ok nb" "n \<le> length (nb_contents nb)"
    using assms(1,3) w(4) net.len_law[of nb] by (auto simp: nb_solid_def)
  then have k: "nb_ok nb'" "nb_contents nb' = drop n (nb_contents nb)" using net.move_law[OF ok] m by auto
  have l: "bf_length (nb_store nb' a) = bf_length ?b - n" by (simp add: nb'_def bf_length_def)
  then show "n = bf_length ?b \<Longrightarrow> bf_length (nb_store nb' a) = 0" by simp
  have "bf_length (nb_store nb' x) \<noteq> 0" if "x \<in> set (nb_list nb')" for x
    using that l assms(1,2,3) w(3,6) by (cases "x = a") (auto simp: nb'_def nb_solid_def split: if_splits)
  then show "nb_solid nb'" using k(1) by (simp add: nb_solid_def)
  have "take n (nb_contents nb) = take n (bf_data ?b)"
    using assms(2,3) w(1) by (simp add: nb_contents_def)
  then show "nb_contents nb = take n (bf_data ?b) @ nb_contents nb'" using k(2) by (metis append_take_drop_id)
qed

lemma tcp_send_cases:
  assumes "tcp_send buf t = (r, t')"
  obtains (none) k where "r = Inr None" "t' = t\<lparr>tr_sends := k\<rparr>"
  | (some) n k where "r = Inr (Some n)" "n \<le> length buf" "t' = t\<lparr>tr_sends := k, tr_wire := tr_wire t @ take n buf\<rparr>"
  | (fail) k where "r = Inl TC_Transceiver_Exception" "t' = tr_tcpClose (t\<lparr>tr_sends := k\<rparr>)"
proof (cases "tr_connStatus t = eConnected")
  case True
  show ?thesis
  proof (cases "tr_sends t")
    case Nil
    then have "r = Inr None" "t' = t\<lparr>tr_sends := tr_sends t\<rparr>" using assms by (auto simp: tcp_send_def split: if_splits)
    then show ?thesis by (rule none)
  next
    case (Cons x k)
    then show ?thesis
    proof (cases x)
      case (SendBytes m)
      then show ?thesis using Cons True assms some[of "min m (length buf)" k] by (auto simp: tcp_send_def Let_def)
    next
      case SendPending
      then show ?thesis using Cons True assms none[of k] by (auto simp: tcp_send_def)
    next
      case SendFails
      then show ?thesis using Cons True assms fail[of k] by (auto simp: tcp_send_def)
    qed
  qed
next
  case False
  then have "r = Inr None" "t' = t\<lparr>tr_sends := tr_sends t\<rparr>" using assms by (auto simp: tcp_send_def)
  then show ?thesis by (rule none)
qed

text \<open>
  \<open>sent t t'\<close>: from \<open>t\<close> to \<open>t'\<close> the kernel has taken some bytes off the front of the send buffer and nothing
  else has happened to the blocks; blocks that have left the buffer are empty.
\<close>

definition sent :: "Transceiver \<Rightarrow> Transceiver \<Rightarrow> bool" where
  "sent t t' \<longleftrightarrow> (\<exists>bs. tr_wire t' = tr_wire t @ bs
      \<and> nb_contents (tr_sendBuffer t) = bs @ nb_contents (tr_sendBuffer t'))
    \<and> suffix (nb_list (tr_sendBuffer t')) (nb_list (tr_sendBuffer t))
    \<and> (\<forall>x. x \<notin> set (nb_list (tr_sendBuffer t)) \<longrightarrow> nb_store (tr_sendBuffer t') x = nb_store (tr_sendBuffer t) x)
    \<and> (\<forall>x \<in> set (nb_list (tr_sendBuffer t)) - set (nb_list (tr_sendBuffer t')). bf_length (nb_store (tr_sendBuffer t') x) = 0)
    \<and> nb_next (tr_sendBuffer t') = nb_next (tr_sendBuffer t)
    \<and> tr_fd t' = tr_fd t \<and> tr_connStatus t' = tr_connStatus t"

lemma sent_refl: "sent t (t\<lparr>tr_sends := k\<rparr>)"
  by (simp add: sent_def)

lemma sent_trans:
  assumes "sent t t1" "sent t1 t2"
  shows "sent t t2"
  unfolding sent_def
proof (intro conjI)
  show "\<exists>bs. tr_wire t2 = tr_wire t @ bs \<and> nb_contents (tr_sendBuffer t) = bs @ nb_contents (tr_sendBuffer t2)"
    using assms unfolding sent_def by (metis append.assoc)
  show "suffix (nb_list (tr_sendBuffer t2)) (nb_list (tr_sendBuffer t))"
    using assms unfolding sent_def by (meson suffix_order.trans)
  have sub: "set (nb_list (tr_sendBuffer t1)) \<subseteq> set (nb_list (tr_sendBuffer t))"
    using assms(1) unfolding sent_def by (meson set_mono_suffix)
  show "\<forall>x. x \<notin> set (nb_list (tr_sendBuffer t)) \<longrightarrow> nb_store (tr_sendBuffer t2) x = nb_store (tr_sendBuffer t) x"
    using assms sub unfolding sent_def by (metis subsetD)
  show "\<forall>x \<in> set (nb_list (tr_sendBuffer t)) - set (nb_list (tr_sendBuffer t2)). bf_length (nb_store (tr_sendBuffer t2) x) = 0"
    using assms sub unfolding sent_def by (metis Diff_iff)
qed (use assms in \<open>simp_all add: sent_def\<close>)

lemma sent_move:
  assumes "nb_solid (tr_sendBuffer t)" "nb_list (tr_sendBuffer t) = a # as"
    "n \<le> length (bf_data (nb_store (tr_sendBuffer t) a))"
  shows "\<exists>nb. nb_moveHeader n (tr_sendBuffer t) = Inr (True, nb) \<and> nb_solid nb
    \<and> sent t (t\<lparr>tr_sends := k, tr_wire := tr_wire t @ take n (bf_data (nb_store (tr_sendBuffer t) a)), tr_sendBuffer := nb\<rparr>)"
proof -
  have "bf_wf (nb_store (tr_sendBuffer t) a)" using assms(1) by (simp add: nb_solid_def nb_ok_def nb_wf_def)
  then have n: "n \<le> bf_length (nb_store (tr_sendBuffer t) a)" using assms(3) by simp
  note h = nb_moveHeader_head[OF assms(1,2) n]
  have "a \<notin> set as" using assms(1,2) by (auto simp: nb_solid_def nb_ok_def nb_wf_def)
  then show ?thesis using h assms(2) by (auto simp: sent_def suffix_def)
qed

lemma buffer_pointer_head:
  assumes "nb_solid nb" "\<not> nb_empty nb"
  obtains a as where "nb_list nb = a # as" "buffer_pointer nb = Inr (bf_data (nb_store nb a))"
proof -
  obtain a as where "nb_list nb = a # as" using assms nb_solid_empty by (cases "nb_list nb") auto
  then show ?thesis using that assms(2) by (simp add: buffer_pointer_def nb_getBufferPointer_def)
qed

text \<open>
  The sending loop ends with everything sent, or with the rest in the buffer and the kernel full, or with
  the connection closed by a failed call, after some bytes were sent.
\<close>

lemma send_loop_sent:
  "nb_solid (tr_sendBuffer t) \<Longrightarrow> \<not> nb_empty (tr_sendBuffer t) \<Longrightarrow> tr_hasConnected t \<Longrightarrow>
   \<exists>t'. nb_solid (tr_sendBuffer t') \<and> sent t t' \<and>
     (send_loop t = (Inr eRetOk, t') \<and> nb_empty (tr_sendBuffer t')
      \<or> send_loop t = (Inr eRetFull, t') \<and> \<not> nb_empty (tr_sendBuffer t')
      \<or> send_loop t = (Inl TC_Transceiver_Exception, tr_tcpClose t'))"
proof (induction t rule: send_loop.induct)
  case (1 t)
  obtain a as where h: "nb_list (tr_sendBuffer t) = a # as"
    "buffer_pointer (tr_sendBuffer t) = Inr (bf_data (nb_store (tr_sendBuffer t) a))"
    using buffer_pointer_head[OF "1.prems"(1,2)] .
  let ?d = "bf_data (nb_store (tr_sendBuffer t) a)"
  obtain r t1 where r: "tcp_send ?d t = (r, t1)" by (cases "tcp_send ?d t")
  then show ?case
  proof (cases rule: tcp_send_cases)
    case (none k)
    then have "send_loop t = (Inr eRetFull, t\<lparr>tr_sends := k\<rparr>)"
      using h r "1.prems"(3) by (subst send_loop.simps) (simp add: tr_hasConnected_def tr_isValid_def)
    then show ?thesis using sent_refl[of t k] "1.prems" by (intro exI[of _ "t\<lparr>tr_sends := k\<rparr>"]) simp
  next
    case (fail k)
    have "send_loop t = (Inl TC_Transceiver_Exception, tr_tcpClose (t\<lparr>tr_sends := k\<rparr>))"
      using h r fail by (subst send_loop.simps) simp
    then show ?thesis using "1.prems"(1) sent_refl[of t k] by (intro exI[of _ "t\<lparr>tr_sends := k\<rparr>"]) simp
  next
    case (some n k)
    let ?t1 = "t\<lparr>tr_sends := k, tr_wire := tr_wire t @ take n ?d\<rparr>"
    obtain nb where nb: "nb_moveHeader n (tr_sendBuffer t) = Inr (True, nb)" "nb_solid nb" "sent t (?t1\<lparr>tr_sendBuffer := nb\<rparr>)"
      using sent_move[OF "1.prems"(1) h(1) some(2), of k] by auto
    let ?t = "?t1\<lparr>tr_sendBuffer := nb\<rparr>"
    note r' = r[unfolded some(1,3)]
    have s: "tr_sendBuffer ?t1 = tr_sendBuffer t" by simp
    show ?thesis
    proof (cases "nb_empty nb")
      case True
      then have "send_loop t = (Inr eRetOk, ?t)" using h r' nb(1) by (subst send_loop.simps) (simp add: Let_def)
      then show ?thesis using nb(2,3) True by (intro exI[of _ ?t]) simp
    next
      case False
      then have l: "send_loop t = send_loop ?t" using h r' nb(1) by (subst send_loop.simps) (simp add: Let_def)
      have "tr_hasConnected ?t" using "1.prems"(3) by (simp add: tr_hasConnected_def tr_isValid_def)
      then show ?thesis
        using "1.IH"[OF h(2) r'[symmetric] refl refl, of "(True, nb)" True nb ?t] nb l False sent_trans[OF nb(3)] by fastforce
    qed
  qed
qed

lemma request_loop_sent:
  "nb_solid (tr_sendBuffer t) \<Longrightarrow>
   \<exists>t'. nb_solid (tr_sendBuffer t') \<and> sent t t' \<and>
     (request_loop t = (Inr True, t') \<and> nb_empty (tr_sendBuffer t')
      \<or> request_loop t = (Inr False, t') \<and> \<not> nb_empty (tr_sendBuffer t')
      \<or> request_loop t = (Inl TC_Transceiver_Exception, tr_tcpClose t'))"
proof (induction t rule: request_loop.induct)
  case (1 t)
  show ?case
  proof (cases "nb_empty (tr_sendBuffer t)")
    case True
    then have "request_loop t = (Inr True, t)" by (subst request_loop.simps) simp
    then show ?thesis using "1.prems" True sent_refl[of t "tr_sends t"] by (intro exI[of _ t]) simp
  next
    case ne: False
    obtain a as where h: "nb_list (tr_sendBuffer t) = a # as"
      "buffer_pointer (tr_sendBuffer t) = Inr (bf_data (nb_store (tr_sendBuffer t) a))"
      using buffer_pointer_head[OF "1.prems" ne] .
    let ?d = "bf_data (nb_store (tr_sendBuffer t) a)"
    obtain r t1 where r: "tcp_send ?d t = (r, t1)" by (cases "tcp_send ?d t")
    then show ?thesis
    proof (cases rule: tcp_send_cases)
      case (none k)
      then have "request_loop t = (Inr False, t\<lparr>tr_sends := k\<rparr>)"
        using h r ne by (subst request_loop.simps) simp
      then show ?thesis using ne sent_refl[of t k] "1.prems" by (intro exI[of _ "t\<lparr>tr_sends := k\<rparr>"]) simp
    next
      case (fail k)
      have "request_loop t = (Inl TC_Transceiver_Exception, tr_tcpClose (t\<lparr>tr_sends := k\<rparr>))"
        using h r fail ne by (subst request_loop.simps) simp
      then show ?thesis using "1.prems"(1) sent_refl[of t k] by (intro exI[of _ "t\<lparr>tr_sends := k\<rparr>"]) simp
    next
      case (some n k)
      let ?t1 = "t\<lparr>tr_sends := k, tr_wire := tr_wire t @ take n ?d\<rparr>"
      note r' = r[unfolded some(1,3)]
      show ?thesis
      proof (cases "n = 0")
        case True
        then have "request_loop t = (Inr False, ?t1)" using h r' ne by (subst request_loop.simps) simp
        then show ?thesis using ne True sent_refl[of t k] "1.prems"
          by (intro exI[of _ ?t1]) (simp add: sent_def)
      next
        case False
        obtain nb where nb: "nb_moveHeader n (tr_sendBuffer t) = Inr (True, nb)" "nb_solid nb" "sent t (?t1\<lparr>tr_sendBuffer := nb\<rparr>)"
          using sent_move[OF "1.prems"(1) h(1) some(2), of k] by auto
        let ?t = "?t1\<lparr>tr_sendBuffer := nb\<rparr>"
        have l: "request_loop t = request_loop ?t" using h r' nb(1) ne False by (subst request_loop.simps) simp
        then show ?thesis
          using "1.IH"[OF ne h(2) r'[symmetric] refl refl False, of "(True, nb)" True nb] nb sent_trans[OF nb(3)] by fastforce
      qed
    qed
  qed
qed

text \<open>
  \<^verbatim>\<open>sendRequest\<close> of a block on an idle connection puts it into the send buffer and sends what the kernel
  takes; on a connection that is not ready nothing happens.
\<close>

lemma nb_share_solid:
  assumes "nb_solid nb" "nb_empty nb" "a < nb_next nb" "bf_length (nb_store nb a) \<noteq> 0" "bf_length (nb_store nb a) < 2 ^ 32"
    "bf_buffer (nb_store nb a) \<noteq> None"
  shows "nb_solid (nb_share a nb)" "nb_contents (nb_share a nb) = bf_data (nb_store nb a)" "nb_list (nb_share a nb) = [a]"
    "nb_store (nb_share a nb) = nb_store nb" "\<not> nb_empty (nb_share a nb)" "nb_next (nb_share a nb) = nb_next nb"
proof -
  have e: "nb_list nb = []" using assms(1,2) nb_solid_empty by blast
  have b: "bf_wf (nb_store nb a)" using assms(1) by (simp add: nb_solid_def nb_ok_def nb_wf_def)
  then have "\<not> bf_empty (nb_store nb a)" using assms(4) by (auto simp: bf_empty_def bf_length_def bf_wf_def)
  moreover have "nb_length nb = 0" using assms(2) by (simp add: nb_empty_def)
  ultimately have s: "nb_share a nb = nb\<lparr>nb_list := [a], nb_length := bf_length (nb_store nb a)\<rparr>"
    using e by (simp add: nb_share_def)
  show "nb_solid (nb_share a nb)"
    using s assms b by (simp add: nb_solid_def nb_ok_def nb_wf_def)
  show "nb_contents (nb_share a nb) = bf_data (nb_store nb a)" "nb_list (nb_share a nb) = [a]"
    "nb_store (nb_share a nb) = nb_store nb" "\<not> nb_empty (nb_share a nb)" "nb_next (nb_share a nb) = nb_next nb"
    using s assms(4) by (simp_all add: nb_contents_def nb_empty_def)
qed

lemma tr_sendRequest_sent:
  assumes "nb_solid (tr_sendBuffer t)" "a < nb_next (tr_sendBuffer t)" "bf_buffer (nb_store (tr_sendBuffer t) a) \<noteq> None"
    "bf_length (nb_store (tr_sendBuffer t) a) < 2 ^ 32" "tr_connStatus t = eConnected \<longrightarrow> tr_fd t"
  obtains (idle) "tr_sendRequest a t = (Inr eRetNotSend, t)"
  | (void) "bf_length (nb_store (tr_sendBuffer t) a) = 0" "tr_sendRequest a t = (Inr eRetOk, t)"
  | (ok) t' where "tr_sendRequest a t = (Inr eRetOk, t')" "nb_empty (tr_sendBuffer t)" "nb_solid (tr_sendBuffer t')"
      "sent (t\<lparr>tr_sendBuffer := nb_share a (tr_sendBuffer t)\<rparr>) t'" "nb_empty (tr_sendBuffer t')"
      "bf_length (nb_store (tr_sendBuffer t) a) \<noteq> 0"
  | (full) t' where "tr_sendRequest a t = (Inr eRetFull, t')" "nb_empty (tr_sendBuffer t)" "nb_solid (tr_sendBuffer t')"
      "sent (t\<lparr>tr_sendBuffer := nb_share a (tr_sendBuffer t)\<rparr>) t'" "\<not> nb_empty (tr_sendBuffer t')"
      "bf_length (nb_store (tr_sendBuffer t) a) \<noteq> 0"
  | (fail) t' where "tr_sendRequest a t = (Inl TC_Transceiver_Exception, tr_tcpClose t')"
proof -
  let ?b = "nb_store (tr_sendBuffer t) a" and ?t = "t\<lparr>tr_sendBuffer := nb_share a (tr_sendBuffer t)\<rparr>"
  have w: "bf_wf ?b" using assms(1) by (simp add: nb_solid_def nb_ok_def nb_wf_def)
  then have e: "bf_empty ?b \<longleftrightarrow> bf_length ?b = 0" by (auto simp: bf_empty_def bf_length_def bf_wf_def)
  consider "bf_length ?b = 0" | "bf_length ?b \<noteq> 0" "tr_sendRequest a t = (Inr eRetNotSend, t)"
    | "bf_length ?b \<noteq> 0" "nb_empty (tr_sendBuffer t)" "tr_connStatus t = eConnected" "tr_sendRequest a t = send_loop ?t"
  proof -
    have "bf_length ?b = 0 \<or> tr_sendRequest a t = (Inr eRetNotSend, t) \<or>
      nb_empty (tr_sendBuffer t) \<and> tr_connStatus t = eConnected \<and> tr_sendRequest a t = send_loop ?t"
      using e by (simp add: tr_sendRequest_def)
    then show ?thesis using that by blast
  qed
  then show ?thesis
  proof cases
    case 1
    then have "tr_sendRequest a t = (Inr eRetOk, t)" using e by (simp add: tr_sendRequest_def)
    with 1 show ?thesis by (rule void)
  next
    case 2
    then show ?thesis by (intro idle)
  next
    case 3
    note s = nb_share_solid[OF assms(1) 3(2) assms(2) 3(1) assms(4,3)]
    have "tr_hasConnected ?t" using 3(3) assms(5) by (simp add: tr_hasConnected_def tr_isValid_def)
    then obtain t' where "nb_solid (tr_sendBuffer t')" "sent ?t t'"
      "send_loop ?t = (Inr eRetOk, t') \<and> nb_empty (tr_sendBuffer t')
      \<or> send_loop ?t = (Inr eRetFull, t') \<and> \<not> nb_empty (tr_sendBuffer t')
      \<or> send_loop ?t = (Inl TC_Transceiver_Exception, tr_tcpClose t')"
      using send_loop_sent[of ?t] s(1,5) by auto
    then show ?thesis using 3(1,2,4) ok[of t'] full[of t'] fail[of t'] by auto
  qed
qed

end
