(* ===== verification/Server_Connection.thy ===== *)
theory Server_Connection
  imports Tcp_Transceiver
begin

text \<open>
  A connection of the server (\<^verbatim>\<open>TC_EpollServer::Connection\<close> in \<^verbatim>\<open>util/tc_epoll_server.cpp\<close>): the packets that come
  in go to the queue of the adapter, the responses go out through the transceiver or wait in \<^verbatim>\<open>_messages\<close>, and
  a client that does not take its responses loses the connection.
\<close>

section \<open>State\<close>

text \<open>
  \<open>cn_messages\<close> holds the blocks of the waiting messages. \<open>cn_queue\<close> records what has been inserted into the
  adapter's queue, each packet with its overload mark, \<open>cn_headers\<close> the calls of the header filter.
\<close>

record BindAdapter =
  ba_iQueueCapacity :: int
  ba_iBackPacketBuffLimit :: "64 word"
  ba_iBackPacketBuffMin :: "64 word"
  ba_onVerify :: "TC_NetWorkBuffer \<Rightarrow> PACKET_TYPE \<times> byte list \<times> TC_NetWorkBuffer"
  ba_protocol :: "byte list \<Rightarrow> TC_NetWorkBuffer \<Rightarrow> net_exn + PACKET_TYPE \<times> byte list \<times> TC_NetWorkBuffer"

record Connection =
  cn_messages :: "nat list"
  cn_recv :: "byte list list"
  cn_messageSize :: "64 word"
  cn_accumulateBufferSize :: "64 word"
  cn_lastCheckTime :: int
  cn_checkSend :: "(64 word \<times> 64 word) list"
  cn_iHeaderLen :: int
  cn_bClose :: bool
  cn_bEmptyConn :: bool
  cn_queue :: "(byte list \<times> bool) list"
  cn_headers :: "(PACKET_TYPE \<times> byte list) list"

section \<open>Packets in\<close>

text \<open>\<open>queued\<close> is the number of packets in the adapter's queue.\<close>

definition isOverloadorDiscard :: "BindAdapter \<Rightarrow> int \<Rightarrow> int" where
  "isOverloadorDiscard ba queued =
     (if queued > ba_iQueueCapacity ba * 4 div 5 \<and> queued < ba_iQueueCapacity ba \<and> ba_iQueueCapacity ba > 0 then - 1
      else if queued > ba_iQueueCapacity ba \<and> ba_iQueueCapacity ba > 0 then - 2
      else 0)"

definition insertRecvQueue :: "BindAdapter \<Rightarrow> int \<Rightarrow> byte list list \<Rightarrow> Connection \<Rightarrow> Connection" where
  "insertRecvQueue ba queued recv c =
     (let iRet = isOverloadorDiscard ba queued
      in if iRet = 0 then c\<lparr>cn_queue := cn_queue c @ map (\<lambda>r. (r, False)) recv\<rparr>
         else if iRet = - 1 then c\<lparr>cn_queue := cn_queue c @ map (\<lambda>r. (r, True)) recv\<rparr>
         else c)"

definition onParserCallback ::
    "BindAdapter \<Rightarrow> Connection \<Rightarrow> Transceiver \<Rightarrow> (net_exn + PACKET_TYPE) \<times> Connection \<times> Transceiver" where
  "onParserCallback ba c t =
     (let rbuf = tr_recvBuffer t;
          protocol = (\<lambda>c1 rbuf1.
            (case ba_protocol ba [] rbuf1 of
               Inl e \<Rightarrow> (Inl e, c1, t\<lparr>tr_recvBuffer := rbuf1\<rparr>)
             | Inr (ret, ro, rbuf2) \<Rightarrow>
                 (Inr ret, if ret = PACKET_FULL then c1\<lparr>cn_bEmptyConn := False, cn_recv := cn_recv c1 @ [ro]\<rparr> else c1,
                  t\<lparr>tr_recvBuffer := rbuf2\<rparr>)))
      in if nb_empty rbuf then (Inr PACKET_LESS, c, t)
         else if cn_iHeaderLen c > 0
         then if int (nb_length rbuf) \<ge> cn_iHeaderLen c
              then case nb_getHeader (nat (cn_iHeaderLen c)) rbuf of
                     Inl e \<Rightarrow> (Inl e, c, t)
                   | Inr h \<Rightarrow>
                       let header = (case h of Some x \<Rightarrow> x | None \<Rightarrow> []);
                           c1 = c\<lparr>cn_headers := cn_headers c @ [(PACKET_FULL, header)]\<rparr>
                       in (case nb_moveHeader (nat (cn_iHeaderLen c)) rbuf of
                             Inl e \<Rightarrow> (Inl e, c1, t)
                           | Inr (_, rbuf1) \<Rightarrow> protocol (c1\<lparr>cn_iHeaderLen := 0\<rparr>) rbuf1)
              else case nb_getBuffers rbuf of
                     Inl e \<Rightarrow> (Inl e, c, t)
                   | Inr header \<Rightarrow>
                       (Inr PACKET_LESS,
                        c\<lparr>cn_headers := cn_headers c @ [(PACKET_LESS, header)],
                          cn_iHeaderLen := cn_iHeaderLen c - int (nb_length rbuf)\<rparr>,
                        t\<lparr>tr_recvBuffer := nb_clearBuffers rbuf\<rparr>)
         else protocol c rbuf)"

definition onCompleteNetworkCallback :: "BindAdapter \<Rightarrow> int \<Rightarrow> Connection \<Rightarrow> Transceiver \<Rightarrow> Connection \<times> Transceiver" where
  "onCompleteNetworkCallback ba queued c t = ((insertRecvQueue ba queued (cn_recv c) c)\<lparr>cn_recv := []\<rparr>, t)"

section \<open>Responses out\<close>

text \<open>
  \<^verbatim>\<open>onRequestCallback\<close>, once for every waiting message at most. The size that is subtracted is what is left in
  the block after the attempt.
\<close>

fun request_messages :: "nat list \<Rightarrow> Connection \<Rightarrow> Transceiver \<Rightarrow> (trans_exn + unit) \<times> Connection \<times> Transceiver" where
  "request_messages [] c t = (Inr (), c, t)"
| "request_messages (a # as) c t =
     (case tr_sendRequest a t of
        (Inl e, t1) \<Rightarrow> (Inl e, c, t1)
      | (Inr iRet, t1) \<Rightarrow>
          if iRet = eRetError then (Inr (), c, t1)
          else let c1 = (if iRet \<noteq> eRetNotSend
                         then c\<lparr>cn_messageSize := cn_messageSize c - of_nat (bf_length (nb_store (tr_sendBuffer t1) a)),
                                cn_messages := as\<rparr>
                         else c)
               in if iRet = eRetNotSend \<or> iRet = eRetFull then (Inr (), c1, t1)
                  else request_messages as c1 t1)"

definition onRequestCallback :: "Connection \<Rightarrow> Transceiver \<Rightarrow> (trans_exn + unit) \<times> Connection \<times> Transceiver" where
  "onRequestCallback c t = request_messages (cn_messages c) c t"

text \<open>The check of a client's authentication is the adapter's; its answer is a new block.\<close>

definition onServerVerify ::
    "BindAdapter \<Rightarrow> Connection \<Rightarrow> Transceiver \<Rightarrow> PACKET_TYPE \<times> nat option \<times> Connection \<times> Transceiver" where
  "onServerVerify ba c t = (case ba_onVerify ba (tr_recvBuffer t) of (ty, answer, rbuf) \<Rightarrow>
     (case nb_alloc (bf_replaceBuffer answer Buffer_new) (tr_sendBuffer t) of (a, sbuf) \<Rightarrow>
        (ty, Some a, c, t\<lparr>tr_recvBuffer := rbuf, tr_sendBuffer := sbuf\<rparr>)))"

definition server_callbacks :: "BindAdapter \<Rightarrow> int \<Rightarrow> Connection Callbacks" where
  "server_callbacks ba queued =
     \<lparr>cb_verify = onServerVerify ba,
      cb_parser = onParserCallback ba, cb_package = (\<lambda>c t. (c, t)),
      cb_network = onCompleteNetworkCallback ba queued, cb_request = onRequestCallback\<rparr>"

text \<open>
  \<^verbatim>\<open>checkFlow\<close> at the time \<open>now\<close>: sizes are \<^verbatim>\<open>size_t\<close> and wrap around. The windows are kept in \<^verbatim>\<open>_checkSend\<close>, each
  with the bytes sent in it and the bytes that were waiting.
\<close>

definition send_slow :: "64 word \<Rightarrow> (64 word \<times> 64 word) list \<Rightarrow> bool" where
  "send_slow mn ws \<longleftrightarrow> 3 \<le> length ws \<and> (\<forall>w \<in> set (drop (length ws - 3) ws). \<not> fst w > mn)"

fun non_decreasing :: "(64 word \<times> 64 word) list \<Rightarrow> bool" where
  "non_decreasing (w # v # ws) \<longleftrightarrow> \<not> snd v < snd w \<and> non_decreasing (v # ws)"
| "non_decreasing _ \<longleftrightarrow> True"

definition checkFlow ::
    "BindAdapter \<Rightarrow> int \<Rightarrow> 64 word \<Rightarrow> Connection \<Rightarrow> TC_NetWorkBuffer \<Rightarrow> int \<times> Connection \<times> TC_NetWorkBuffer" where
  "checkFlow ba now lastLeftBufferSize c sendBuffer =
     (let waiting = cn_messageSize c + of_nat (nb_length sendBuffer);
          nowSendBufferSize = lastLeftBufferSize - waiting;
          limit = ba_iBackPacketBuffLimit ba
      in if limit > 0 \<and> waiting > limit
         then
           let c1 = (if cn_accumulateBufferSize c = 0 then c\<lparr>cn_lastCheckTime := now\<rparr> else c);
               c2 = c1\<lparr>cn_accumulateBufferSize := cn_accumulateBufferSize c1 + nowSendBufferSize\<rparr>
           in if now - cn_lastCheckTime c2 \<ge> 5
              then
                let ws = cn_checkSend c2 @ [(cn_accumulateBufferSize c2, lastLeftBufferSize)];
                    c3 = c2\<lparr>cn_lastCheckTime := now, cn_checkSend := ws, cn_accumulateBufferSize := 0\<rparr>
                in if send_slow (ba_iBackPacketBuffMin ba) ws then (- 5, c3, nb_clearBuffers sendBuffer)
                   else if length ws \<ge> 12
                   then if non_decreasing ws then (- 4, c3, nb_clearBuffers sendBuffer)
                        else (0, c3\<lparr>cn_checkSend := tl ws\<rparr>, sendBuffer)
                   else (0, c3, sendBuffer)
              else (0, c2, sendBuffer)
         else (0, c\<lparr>cn_accumulateBufferSize := 0, cn_lastCheckTime := now, cn_checkSend := []\<rparr>, sendBuffer))"

text \<open>\<^verbatim>\<open>sendBuffer\<close>, when the socket is writable. \<open>err\<close> is the pending error of a socket that is still connecting.\<close>

definition conn_sendBuffer ::
    "BindAdapter \<Rightarrow> int \<Rightarrow> int \<Rightarrow> bool \<Rightarrow> Connection \<Rightarrow> Transceiver \<Rightarrow> (trans_exn + int) \<times> Connection \<times> Transceiver" where
  "conn_sendBuffer ba queued now err c t =
     (let lastLeftBufferSize = cn_messageSize c + of_nat (nb_length (tr_sendBuffer t))
      in case tr_doRequest (server_callbacks ba queued) err c t of
           (Inl e, c1, t1) \<Rightarrow> (Inl e, c1, t1)
         | (Inr _, c1, t1) \<Rightarrow>
             if cn_bClose c1 \<and> nb_empty (tr_sendBuffer t1) then (Inr (- 2), c1, t1)
             else (case checkFlow ba now lastLeftBufferSize c1 (tr_sendBuffer t1) of
                     (ret, c2, nb) \<Rightarrow> (Inr ret, c2, t1\<lparr>tr_sendBuffer := nb\<rparr>)))"

text \<open>\<^verbatim>\<open>send\<close> of the message whose block is \<open>a\<close>.\<close>

definition conn_send :: "nat \<Rightarrow> Connection \<Rightarrow> Transceiver \<Rightarrow> (trans_exn + int) \<times> Connection \<times> Transceiver" where
  "conn_send a c t =
     (case (if cn_messages c = [] then tr_sendRequest a t else (Inr eRetOk, t)) of
           (Inl e, t1) \<Rightarrow> (Inl e, c, t1)
         | (Inr _, t1) \<Rightarrow>
             if \<not> tr_isValid t1 then (Inr (- 1), c, t1)
             else let b = nb_store (tr_sendBuffer t1) a
                  in if \<not> bf_empty b
                     then (Inr 0, c\<lparr>cn_messageSize := cn_messageSize c + of_nat (bf_length b),
                                     cn_messages := cn_messages c @ [a]\<rparr>, t1)
                     else (Inr 0, c, t1))"

definition conn_setClose :: "Connection \<Rightarrow> Transceiver \<Rightarrow> bool \<times> Connection" where
  "conn_setClose c t = (nb_empty (tr_sendBuffer t), c\<lparr>cn_bClose := True\<rparr>)"

text \<open>\<^verbatim>\<open>handleOutputImp\<close> and \<^verbatim>\<open>handleInputImp\<close>: whether the connection is kept, and the transceiver closed if not.\<close>

definition handleOutputImp ::
    "BindAdapter \<Rightarrow> int \<Rightarrow> int \<Rightarrow> bool \<Rightarrow> Connection \<Rightarrow> Transceiver \<Rightarrow> bool \<times> Connection \<times> Transceiver" where
  "handleOutputImp ba queued now err c t = (case conn_sendBuffer ba queued now err c t of
     (r, c1, t1) \<Rightarrow>
       if (case r of Inl _ \<Rightarrow> True | Inr ret \<Rightarrow> ret < 0) then (False, c1, tr_close t1) else (True, c1, t1))"

definition handleInputImp ::
    "(nat \<Rightarrow> byte) \<Rightarrow> BindAdapter \<Rightarrow> int \<Rightarrow> bool list \<Rightarrow> bool \<Rightarrow> nat \<Rightarrow> Connection \<Rightarrow> Transceiver \<Rightarrow>
     (bool \<times> Connection \<times> Transceiver) option" where
  "handleInputImp fresh ba queued slow err fuel c t = (case tr_doResponse fresh (server_callbacks ba queued) slow err fuel c t of
     None \<Rightarrow> None
   | Some (r, c1, t1) \<Rightarrow> if r = Inr True then Some (True, c1, t1) else Some (False, c1, tr_close t1))"

section \<open>Packets out of a stream\<close>

text \<open>
  What a byte stream means: the bodies of its packets, and the incomplete packet behind them, or \<open>None\<close> if
  there is a length outside the limits.
\<close>

function unframe :: "byte list \<Rightarrow> byte list list \<times> byte list option" where
  "unframe c =
     (if length c < 4 then ([], Some c)
      else let L = unat (be_word (take 4 c) :: 32 word)
           in if L < TARS_NET_MIN_PACKAGE_SIZE \<or> TARS_NET_MAX_PACKAGE_SIZE < L then ([], None)
              else if length c < L then ([], Some c)
              else case unframe (drop L c) of (ps, r) \<Rightarrow> (drop 4 (take L c) # ps, r))"
  by pat_completeness auto
termination
  by (relation "measure length") auto

declare unframe.simps [simp del]

text \<open>
  A stream is incomplete, or it is malformed whatever follows, or it starts with a packet, and then what
  follows only concerns the rest.
\<close>

lemma unframe_cases:
  obtains (short) "unframe x = ([], Some x)"
  | (bad) "\<And>y. unframe (x @ y) = ([], None)"
  | (full) p z where "length z < length x" "\<And>y. unframe (x @ y) = (p # fst (unframe (z @ y)), snd (unframe (z @ y)))"
proof -
  let ?L = "unat (be_word (take 4 x) :: 32 word)"
  have t: "take 4 (x @ y) = take 4 x" if "\<not> length x < 4" for y using that by simp
  consider "length x < 4 \<or> length x < ?L \<and> \<not> (?L < TARS_NET_MIN_PACKAGE_SIZE \<or> TARS_NET_MAX_PACKAGE_SIZE < ?L)"
    | "\<not> length x < 4" "?L < TARS_NET_MIN_PACKAGE_SIZE \<or> TARS_NET_MAX_PACKAGE_SIZE < ?L"
    | "\<not> length x < 4" "\<not> (?L < TARS_NET_MIN_PACKAGE_SIZE \<or> TARS_NET_MAX_PACKAGE_SIZE < ?L)" "\<not> length x < ?L"
    by blast
  then show ?thesis
  proof cases
    case 1
    then show ?thesis by (intro short, subst unframe.simps) (auto simp: Let_def)
  next
    case 2
    then have "unframe (x @ y) = ([], None)" for y using t[OF 2(1), of y] by (subst unframe.simps) (auto simp: Let_def)
    then show ?thesis by (rule bad)
  next
    case 3
    have "unframe (x @ y) = (drop 4 (take ?L x) # fst (unframe (drop ?L x @ y)), snd (unframe (drop ?L x @ y)))" for y
      using 3 t[OF 3(1), of y] by (subst unframe.simps) (auto simp: Let_def split: prod.splits)
    then show ?thesis using 3 full[of "drop ?L x" "drop 4 (take ?L x)"] by auto
  qed
qed

lemma unframe_append:
  "unframe x = (ps, Some r) \<Longrightarrow> unframe (x @ y) = (ps @ fst (unframe (r @ y)), snd (unframe (r @ y)))"
proof (induction x arbitrary: ps rule: length_induct)
  case (1 x)
  show ?case
  proof (cases rule: unframe_cases[of x])
    case (full p z)
    then show ?thesis using "1.IH" "1.prems" full(2)[of "[]"] by (cases "unframe z") auto
  qed (use "1.prems" in \<open>auto dest: meta_spec[of _ "[]"]\<close>)
qed

lemma unframe_bad: "unframe x = (ps, None) \<Longrightarrow> unframe (x @ y) = (ps, None)"
proof (induction x arbitrary: ps rule: length_induct)
  case (1 x)
  show ?case
  proof (cases rule: unframe_cases[of x])
    case bad
    then show ?thesis using "1.prems" bad[of "[]"] by simp
  next
    case (full p z)
    then show ?thesis using "1.IH" "1.prems" full(2)[of "[]"] by (cases "unframe z") auto
  qed (use "1.prems" in simp)
qed

lemma unframe_rest: "unframe x = (ps, Some r) \<Longrightarrow> unframe r = ([], Some r) \<and> length r \<le> length x"
proof (induction x arbitrary: ps rule: length_induct)
  case (1 x)
  show ?case
  proof (cases rule: unframe_cases[of x])
    case bad
    then show ?thesis using "1.prems" bad[of "[]"] by simp
  next
    case (full p z)
    then have "unframe r = ([], Some r) \<and> length r \<le> length z"
      using "1.IH" "1.prems" full(2)[of "[]"] by (cases "unframe z") auto
    then show ?thesis using full(1) by simp
  qed (use "1.prems" in simp)
qed

text \<open>One step of the parser against one step of the specification.\<close>

lemma unframe_step:
  assumes "nb_ok nb"
  obtains (less) "AppProtocol_parse [] nb = Inr (PACKET_LESS, [], nb)" "unframe (nb_contents nb) = ([], Some (nb_contents nb))"
  | (err) "AppProtocol_parse [] nb = Inr (PACKET_ERR, [], nb)" "unframe (nb_contents nb) = ([], None)"
  | (full) p nb' ps r where "AppProtocol_parse [] nb = Inr (PACKET_FULL, p, nb')" "nb_ok nb'"
      "length (nb_contents nb') < length (nb_contents nb)"
      "unframe (nb_contents nb') = (ps, r)" "unframe (nb_contents nb) = (p # ps, r)"
proof -
  let ?c = "nb_contents nb"
  let ?L = "unat (be_word (take 4 ?c) :: 32 word)"
  obtain ty out' nb' where p: "AppProtocol_parse [] nb = Inr (ty, out', nb')" "nb_ok nb'"
    "ty = (if length ?c < 4 then PACKET_LESS else if ?L < TARS_NET_MIN_PACKAGE_SIZE \<or> TARS_NET_MAX_PACKAGE_SIZE < ?L then PACKET_ERR
             else if length ?c < ?L then PACKET_LESS else PACKET_FULL)"
    "if ty = PACKET_FULL then out' = drop 4 (take ?L ?c) \<and> nb_contents nb' = drop ?L ?c else out' = [] \<and> nb' = nb"
    using parseBuffer4_cases[OF assms, of "[]" TARS_NET_MIN_PACKAGE_SIZE TARS_NET_MAX_PACKAGE_SIZE]
    by (auto simp: AppProtocol_parse_def Let_def)
  consider "ty = PACKET_LESS" "length ?c < 4 \<or> length ?c < ?L \<and> \<not> (?L < TARS_NET_MIN_PACKAGE_SIZE \<or> TARS_NET_MAX_PACKAGE_SIZE < ?L)"
    | "ty = PACKET_ERR" "\<not> length ?c < 4" "?L < TARS_NET_MIN_PACKAGE_SIZE \<or> TARS_NET_MAX_PACKAGE_SIZE < ?L"
    | "ty = PACKET_FULL" "\<not> length ?c < 4" "\<not> (?L < TARS_NET_MIN_PACKAGE_SIZE \<or> TARS_NET_MAX_PACKAGE_SIZE < ?L)" "\<not> length ?c < ?L"
    using p(3) by (auto split: if_splits)
  then show ?thesis
  proof cases
    case 1
    then have "unframe ?c = ([], Some ?c)" by (subst unframe.simps) (auto simp: Let_def)
    then show ?thesis using p 1(1) by (intro less) auto
  next
    case 2
    then have "unframe ?c = ([], None)" by (subst unframe.simps) (auto simp: Let_def)
    then show ?thesis using p 2(1) by (intro err) auto
  next
    case 3
    obtain ps r where r: "unframe (drop ?L ?c) = (ps, r)" by (cases "unframe (drop ?L ?c)")
    then have "unframe ?c = (drop 4 (take ?L ?c) # ps, r)" using 3 by (subst unframe.simps) (simp add: Let_def)
    then show ?thesis using p 3 r by (intro full[of out' nb' ps r]) auto
  qed
qed

text \<open>The blocks of a receive buffer stay below two gigabytes, so that the sizes of the reads are exact.\<close>

definition rb_small :: "TC_NetWorkBuffer \<Rightarrow> bool" where
  "rb_small nb \<longleftrightarrow> (\<forall>a. bf_capacity (nb_store nb a) < 2 ^ 31)"

lemma bf_addReadIdx_capacity: "bf_addReadIdx n b = Inr b' \<Longrightarrow> bf_capacity b' = bf_capacity b"
  by (auto simp: bf_addReadIdx_def Let_def split: if_splits)

lemma moveHeader_list_capacity:
  "moveHeader_list st l k n = Inr (x, st', l', k') \<Longrightarrow> bf_capacity (st' a) = bf_capacity (st a)"
  by (induction st l k n rule: moveHeader_list.induct)
    (auto simp: Let_def bf_addReadIdx_capacity split: if_splits sum.splits)

lemma nb_moveHeader_small: "nb_moveHeader n nb = Inr (x, nb') \<Longrightarrow> rb_small nb \<Longrightarrow> rb_small nb'"
  by (auto simp: nb_moveHeader_def rb_small_def moveHeader_list_capacity split: sum.splits)

lemma nb_parseBuffer_small: "nb_parseBuffer k out mn mx nb = Inr (ty, out', nb') \<Longrightarrow> rb_small nb \<Longrightarrow> rb_small nb'"
  by (auto simp: nb_parseBuffer_def Let_def split: if_splits sum.splits option.splits; metis nb_moveHeader_small)

lemma bf_alloc_capacity: "bf_capacity (bf_alloc fresh len b) \<le> max len (bf_capacity b)"
  by (auto simp: bf_alloc_def Let_def)

lemma bf_compact_capacity: "bf_capacity (bf_compact fresh b) \<le> bf_capacity b"
  using bf_alloc_capacity[of fresh "bf_capacity b" b] by (auto simp: bf_compact_def Let_def)

lemma bf_expansion_capacity: "bf_capacity (bf_expansion fresh len b) \<le> max len (bf_capacity b)"
  using bf_compact_capacity[of fresh b] by (auto simp: bf_expansion_def Let_def)

lemma nb_getOrCreateBuffer_small:
  assumes "nb_getOrCreateBuffer fresh mn mx nb = Inr (a, nb')" "rb_small nb" "mx < 2 ^ 31"
  shows "rb_small nb'"
proof -
  have "bf_capacity (bf_alloc fresh mx Buffer_new) < 2 ^ 31"
    using bf_alloc_capacity[of fresh mx Buffer_new] assms(3) by (simp add: Buffer_new_def)
  moreover have "bf_capacity (bf_expansion fresh mx (bf_clear (nb_store nb x))) < 2 ^ 31"
    "bf_capacity (bf_compact fresh (nb_store nb x)) < 2 ^ 31" for x
    using assms(2,3) bf_expansion_capacity[of fresh mx "bf_clear (nb_store nb x)"] bf_compact_capacity[of fresh "nb_store nb x"]
    by (auto simp: bf_clear_def rb_small_def intro: le_less_trans)
  ultimately show ?thesis
    using assms(1,2)
    by (auto simp: nb_getOrCreateBuffer_def Let_def nb_alloc_def nb_update_def rb_small_def split: if_splits option.splits)
qed

lemma nb_fill_small: "rb_small nb \<Longrightarrow> rb_small (nb_fill a bs nb)"
  by (simp add: rb_small_def nb_fill_def Let_def nb_update_def)

text \<open>The analysis takes out exactly the packets of the buffered bytes and leaves the incomplete one.\<close>

definition deliver :: "byte list list \<Rightarrow> Connection \<Rightarrow> Connection" where
  "deliver ps c = c\<lparr>cn_bEmptyConn := ps = [] \<and> cn_bEmptyConn c, cn_recv := cn_recv c @ ps\<rparr>"

lemma deliver_simps [simp]: "deliver [] c = c" "deliver ps (c\<lparr>cn_bEmptyConn := False, cn_recv := cn_recv c @ [p]\<rparr>) = deliver (p # ps) c"
  "cn_iHeaderLen (deliver ps c) = cn_iHeaderLen c" "cn_recv (deliver ps c) = cn_recv c @ ps" "cn_queue (deliver ps c) = cn_queue c"
  by (simp_all add: deliver_def)

lemma onParserCallback_app:
  assumes "ba_protocol ba = AppProtocol_parse" "cn_iHeaderLen c \<le> 0" "nb_ok (tr_recvBuffer t)"
  shows "onParserCallback ba c t = (case AppProtocol_parse [] (tr_recvBuffer t) of
     Inl e \<Rightarrow> (Inl e, c, t)
   | Inr (ret, ro, nb) \<Rightarrow> (Inr ret, if ret = PACKET_FULL then c\<lparr>cn_bEmptyConn := False, cn_recv := cn_recv c @ [ro]\<rparr> else c, t\<lparr>tr_recvBuffer := nb\<rparr>))"
proof -
  have "AppProtocol_parse [] (tr_recvBuffer t) = Inr (PACKET_LESS, [], tr_recvBuffer t)" if "nb_empty (tr_recvBuffer t)"
    using that by (simp add: AppProtocol_parse_def nb_parseBuffer_def nb_empty_def)
  moreover have "t\<lparr>tr_recvBuffer := tr_recvBuffer t\<rparr> = t" by simp
  ultimately show ?thesis
    using assms by (auto simp: onParserCallback_def Let_def split: sum.splits)
qed

lemma analysis_loop_unframe:
  assumes "ba_protocol ba = AppProtocol_parse"
  shows "cn_iHeaderLen c \<le> 0 \<Longrightarrow> nb_ok (tr_recvBuffer t) \<Longrightarrow> rb_small (tr_recvBuffer t) \<Longrightarrow>
    length (nb_contents (tr_recvBuffer t)) < fuel \<Longrightarrow> unframe (nb_contents (tr_recvBuffer t)) = (ps, r) \<Longrightarrow>
    \<exists>nb ret. analysis_loop (server_callbacks ba q) fuel n c t = Some (Inr (ret, n + length ps), deliver ps c, t\<lparr>tr_recvBuffer := nb\<rparr>)
      \<and> nb_ok nb \<and> rb_small nb \<and> (case r of None \<Rightarrow> ret = PACKET_ERR | Some x \<Rightarrow> ret = PACKET_LESS \<and> nb_contents nb = x)"
proof (induction fuel arbitrary: n c t ps)
  case 0
  then show ?case by simp
next
  case (Suc fuel)
  note cb = onParserCallback_app[OF assms Suc.prems(1,2)]
  have s: "t\<lparr>tr_recvBuffer := tr_recvBuffer t\<rparr> = t" by simp
  show ?case using Suc.prems(2)
  proof (cases rule: unframe_step)
    case less
    then show ?thesis using Suc.prems cb
      by (intro exI[of _ "tr_recvBuffer t"]) (auto simp: server_callbacks_def Let_def)
  next
    case err
    then show ?thesis using Suc.prems cb
      by (intro exI[of _ "tr_recvBuffer t"]) (auto simp: server_callbacks_def Let_def)
  next
    case (full p nb' qs x)
    let ?c = "c\<lparr>cn_bEmptyConn := False, cn_recv := cn_recv c @ [p]\<rparr>" and ?t = "t\<lparr>tr_recvBuffer := nb'\<rparr>"
    have e: "ps = p # qs" "x = r" using full(5) Suc.prems(5) by auto
    have "nb_length nb' \<noteq> nb_length (tr_recvBuffer t)"
      using full(2,3) Suc.prems(2) net.len_law by (metis less_irrefl)
    then have st: "analysis_loop (server_callbacks ba q) (Suc fuel) n c t = analysis_loop (server_callbacks ba q) fuel (Suc n) ?c ?t"
      using cb full(1) by (simp add: server_callbacks_def Let_def)
    have "rb_small nb'" using nb_parseBuffer_small[of 4 "[]" _ _ "tr_recvBuffer t"] full(1) Suc.prems(3) by (auto simp: AppProtocol_parse_def)
    then obtain nb ret where "analysis_loop (server_callbacks ba q) fuel (Suc n) ?c ?t = Some (Inr (ret, Suc n + length qs), deliver qs ?c, ?t\<lparr>tr_recvBuffer := nb\<rparr>)"
      "nb_ok nb" "rb_small nb" "case r of None \<Rightarrow> ret = PACKET_ERR | Some x \<Rightarrow> ret = PACKET_LESS \<and> nb_contents nb = x"
      using Suc.IH[of ?c ?t qs "Suc n"] Suc.prems(1,4) full(2,3,4) e(2) by auto
    then show ?thesis using st e(1) by (intro exI[of _ nb] exI[of _ ret]) simp
  qed
qed

definition conn_in :: "Connection \<Rightarrow> Transceiver \<Rightarrow> bool" where
  "conn_in c t \<longleftrightarrow> cn_iHeaderLen c \<le> 0 \<and> cn_recv c = [] \<and> tr_hasConnected t \<and> \<not> tr_authLocal t \<and>
     nb_ok (tr_recvBuffer t) \<and> rb_small (tr_recvBuffer t) \<and>
     unframe (nb_contents (tr_recvBuffer t)) = ([], Some (nb_contents (tr_recvBuffer t)))"

abbreviation pending :: "Transceiver \<Rightarrow> byte list" where "pending t \<equiv> nb_contents (tr_recvBuffer t)"

lemma conn_in_refresh:
  assumes "conn_in c t" "nb_wf nb" "rb_small nb" "nb_contents nb = pending t" "nb_length nb = nb_length (tr_recvBuffer t)"
  shows "conn_in c (t\<lparr>tr_recvBuffer := nb, tr_recvs := k\<rparr>)"
  using assms by (simp add: conn_in_def tr_hasConnected_def tr_isValid_def nb_ok_def)

definition handed :: "BindAdapter \<Rightarrow> int \<Rightarrow> byte list list \<Rightarrow> Connection \<Rightarrow> Connection" where
  "handed ba q ps c = fst (onCompleteNetworkCallback ba q (deliver ps c) undefined)"

lemma handed_fields [simp]:
  "cn_recv (handed ba q ps c) = []" "cn_iHeaderLen (handed ba q ps c) = cn_iHeaderLen c"
  by (simp_all add: handed_def onCompleteNetworkCallback_def insertRecvQueue_def Let_def)

lemma handed_queue:
  "isOverloadorDiscard ba q \<noteq> - 2 \<Longrightarrow> cn_recv c = [] \<Longrightarrow> map fst (cn_queue (handed ba q ps c)) = map fst (cn_queue c) @ ps"
  by (auto simp: handed_def onCompleteNetworkCallback_def insertRecvQueue_def Let_def isOverloadorDiscard_def comp_def)

text \<open>The analysis after new bytes have come in.\<close>

lemma doProtocolAnalysis_unframe:
  assumes "ba_protocol ba = AppProtocol_parse" "cn_iHeaderLen c \<le> 0" "nb_ok (tr_recvBuffer t)" "rb_small (tr_recvBuffer t)"
    "\<not> tr_authLocal t" "unframe (pending t) = (ps, r)"
  obtains (good) nb where "r = Some (nb_contents nb)" "nb_ok nb" "rb_small nb"
      "tr_doProtocolAnalysis (server_callbacks ba q) (nb_length (tr_recvBuffer t) + 2) c t
         = Some (Inr (length ps), handed ba q ps c, t\<lparr>tr_recvBuffer := nb\<rparr>)"
  | (bad) nb where "r = None"
      "tr_doProtocolAnalysis (server_callbacks ba q) (nb_length (tr_recvBuffer t) + 2) c t
         = Some (Inl TC_Transceiver_Exception, handed ba q ps c, tr_tcpClose (t\<lparr>tr_recvBuffer := nb\<rparr>))"
proof -
  have f: "length (pending t) < nb_length (tr_recvBuffer t) + 2" using net.len_law[OF assms(3)] by simp
  have h: "onCompleteNetworkCallback ba q (deliver ps c) t' = (handed ba q ps c, t')" for t'
    by (simp add: handed_def onCompleteNetworkCallback_def)
  obtain nb ret where a: "analysis_loop (server_callbacks ba q) (nb_length (tr_recvBuffer t) + 2) 0 c t
      = Some (Inr (ret, length ps), deliver ps c, t\<lparr>tr_recvBuffer := nb\<rparr>)"
    "nb_ok nb" "rb_small nb" "case r of None \<Rightarrow> ret = PACKET_ERR | Some x \<Rightarrow> ret = PACKET_LESS \<and> nb_contents nb = x"
    using analysis_loop_unframe[OF assms(1-4) f assms(6), of q 0] by auto
  have d: "tr_doProtocolAnalysis (server_callbacks ba q) (nb_length (tr_recvBuffer t) + 2) c t
      = (if ret = PACKET_ERR then Some (Inl TC_Transceiver_Exception, handed ba q ps c, tr_tcpClose (t\<lparr>tr_recvBuffer := nb\<rparr>))
         else Some (Inr (length ps), handed ba q ps c, t\<lparr>tr_recvBuffer := nb\<rparr>))"
    using a(1) assms(5) h by (simp add: tr_doProtocolAnalysis_def tr_doAuthCheck_def server_callbacks_def)
  show ?thesis
  proof (cases r)
    case None
    then show ?thesis using bad[of nb] d a(4) by simp
  next
    case (Some x)
    then show ?thesis using good[of nb] d a(2,3,4) by simp
  qed
qed

fun stream :: "recv_outcome list \<Rightarrow> byte list" where
  "stream (RecvBytes bs # k) = bs @ stream k"
| "stream (_ # k) = stream k"
| "stream [] = []"

definition orderly :: "recv_outcome list \<Rightarrow> bool" where
  "orderly k \<longleftrightarrow> RecvFails \<notin> set k \<and> RecvEnd \<notin> set k \<and> RecvBytes [] \<notin> set k"

text \<open>One read of the socket.\<close>

lemma tcp_recv_cases:
  assumes "tr_connStatus t = eConnected" "0 < len"
  obtains (idle) k where "tcp_recv len t = (Inr None, t\<lparr>tr_recvs := k\<rparr>)" "stream (tr_recvs t) = stream k"
      "tr_recvs t = [] \<and> k = [] \<or> length k < length (tr_recvs t)" "set k \<subseteq> set (tr_recvs t)"
  | (over) r k where "tcp_recv len t = (r, k)" "r = Inr (Some []) \<or> r = Inl TC_Transceiver_Exception \<and> (\<exists>t'. k = tr_tcpClose t')"
      "\<not> orderly (tr_recvs t)" "stream (tr_recvs t) = stream (tr_recvs k)"
  | (read) bs k where "tcp_recv len t = (Inr (Some bs), t\<lparr>tr_recvs := k\<rparr>)" "stream (tr_recvs t) = bs @ stream k" "bs \<noteq> []"
      "length bs \<le> len" "length k \<le> length (tr_recvs t)" "orderly (tr_recvs t) \<Longrightarrow> orderly k"
proof (cases "tr_recvs t")
  case Nil
  then show ?thesis using assms idle[of "[]"] by (simp add: tcp_recv_def)
next
  case (Cons x k)
  then show ?thesis
  proof (cases x)
    case (RecvBytes bs)
    show ?thesis
    proof (cases "bs = []")
      case True
      then show ?thesis using over[of "Inr (Some [])" "t\<lparr>tr_recvs := k\<rparr>"] assms Cons RecvBytes by (simp add: tcp_recv_def orderly_def)
    next
      case False
      let ?k = "if length bs \<le> len then k else RecvBytes (drop len bs) # k"
      have "tcp_recv len t = (Inr (Some (take len bs)), t\<lparr>tr_recvs := ?k\<rparr>)" using assms Cons RecvBytes by (simp add: tcp_recv_def)
      moreover have "orderly ?k" if "orderly (tr_recvs t)" using that Cons by (simp add: orderly_def)
      ultimately show ?thesis using read[of "take len bs" ?k] assms(2) False Cons RecvBytes by simp
    qed
  next
    case RecvPending
    then show ?thesis using idle[of k] assms Cons by (auto simp: tcp_recv_def)
  next
    case RecvFails
    have "tr_recvs (tr_tcpClose (t\<lparr>tr_recvs := k\<rparr>)) = k" by (simp add: tr_tcpClose_def)
    then show ?thesis using over[of "Inl TC_Transceiver_Exception" "tr_tcpClose (t\<lparr>tr_recvs := k\<rparr>)"] assms Cons RecvFails
      by (auto simp: tcp_recv_def orderly_def)
  next
    case RecvEnd
    then show ?thesis using over[of "Inr (Some [])" "t\<lparr>tr_recvs := k\<rparr>"] assms Cons by (simp add: tcp_recv_def orderly_def)
  qed
qed

text \<open>
  What a run of reads has done: it took \<open>bs\<close> off the kernel's stream and handed over the packets of what was
  pending and \<open>bs\<close>.
\<close>

definition served :: "Connection \<Rightarrow> Transceiver \<Rightarrow> bool \<Rightarrow> Connection \<Rightarrow> Transceiver \<Rightarrow> bool" where
  "served c t keep c' t' \<longleftrightarrow> (\<exists>bs. stream (tr_recvs t) = bs @ stream (tr_recvs t') \<and>
     map fst (cn_queue c') = map fst (cn_queue c) @ fst (unframe (pending t @ bs)) \<and>
     (keep \<longrightarrow> conn_in c' t' \<and> snd (unframe (pending t @ bs)) = Some (pending t')) \<and>
     (orderly (tr_recvs t) \<and> snd (unframe (pending t @ bs)) \<noteq> None \<longrightarrow> keep) \<and>
     (keep \<longrightarrow> orderly (tr_recvs t) \<longrightarrow> orderly (tr_recvs t')) \<and>
     (keep \<longrightarrow> (tr_recvs t = [] \<and> tr_recvs t' = [] \<or> length (stream (tr_recvs t')) + length (tr_recvs t') < length (stream (tr_recvs t)) + length (tr_recvs t))))"

lemma served_read:
  assumes "conn_in c t" "stream (tr_recvs t) = bs @ stream (tr_recvs t1)" "bs \<noteq> []" "length (tr_recvs t1) \<le> length (tr_recvs t)"
    "orderly (tr_recvs t) \<longrightarrow> orderly (tr_recvs t1)" "unframe (pending t @ bs) = (ps, Some (pending t1))"
    "map fst (cn_queue c1) = map fst (cn_queue c) @ ps" "served c1 t1 keep c' t'"
  shows "served c t keep c' t'"
proof -
  obtain bs' where s: "stream (tr_recvs t1) = bs' @ stream (tr_recvs t')"
    "map fst (cn_queue c') = map fst (cn_queue c1) @ fst (unframe (pending t1 @ bs'))"
    "keep \<longrightarrow> conn_in c' t' \<and> snd (unframe (pending t1 @ bs')) = Some (pending t')"
    "orderly (tr_recvs t1) \<and> snd (unframe (pending t1 @ bs')) \<noteq> None \<longrightarrow> keep"
    "keep \<longrightarrow> orderly (tr_recvs t1) \<longrightarrow> orderly (tr_recvs t')"
    "keep \<longrightarrow> (tr_recvs t1 = [] \<and> tr_recvs t' = [] \<or> length (stream (tr_recvs t')) + length (tr_recvs t') < length (stream (tr_recvs t1)) + length (tr_recvs t1))"
    using assms(8) unfolding served_def by blast
  have u: "unframe (pending t @ bs @ bs') = (ps @ fst (unframe (pending t1 @ bs')), snd (unframe (pending t1 @ bs')))"
    using unframe_append[OF assms(6), of bs'] by simp
  show ?thesis unfolding served_def
  proof (intro exI[of _ "bs @ bs'"] conjI)
    show "stream (tr_recvs t) = (bs @ bs') @ stream (tr_recvs t')" using assms(2) s(1) by simp
    show "map fst (cn_queue c') = map fst (cn_queue c) @ fst (unframe (pending t @ bs @ bs'))" using s(2) u assms(7) by simp
    show "keep \<longrightarrow> conn_in c' t' \<and> snd (unframe (pending t @ bs @ bs')) = Some (pending t')" using s(3) u by simp
    show "orderly (tr_recvs t) \<and> snd (unframe (pending t @ bs @ bs')) \<noteq> None \<longrightarrow> keep" using s(4) u assms(5) by simp
    show "keep \<longrightarrow> orderly (tr_recvs t) \<longrightarrow> orderly (tr_recvs t')" using s(5) assms(5) by blast
    have "length (stream (tr_recvs t1)) < length (stream (tr_recvs t))" using assms(2,3) by simp
    then show "keep \<longrightarrow> (tr_recvs t = [] \<and> tr_recvs t' = [] \<or> length (stream (tr_recvs t')) + length (tr_recvs t') < length (stream (tr_recvs t)) + length (tr_recvs t))"
      using s(6) assms(4) by auto
  qed
qed

lemma served_idle:
  assumes "conn_in c (t\<lparr>tr_recvBuffer := nb, tr_recvs := k\<rparr>)" "unframe (pending t) = ([], Some (pending t))"
    "nb_contents nb = pending t" "stream (tr_recvs t) = stream k"
    "tr_recvs t = [] \<and> k = [] \<or> length k < length (tr_recvs t)" "set k \<subseteq> set (tr_recvs t)"
  shows "served c t True c (t\<lparr>tr_recvBuffer := nb, tr_recvs := k\<rparr>)"
  unfolding served_def using assms by (intro exI[of _ "[]"]) (auto simp: orderly_def)

lemma rb_small_left: "rb_small nb \<Longrightarrow> bf_left (nb_store nb a) < 2 ^ 32"
proof -
  assume "rb_small nb"
  then have "bf_capacity (nb_store nb a) < 2 ^ 31" by (simp add: rb_small_def)
  then show ?thesis by (simp add: bf_left_def)
qed

lemma response_loop_served:
  assumes "ba_protocol ba = AppProtocol_parse" "isOverloadorDiscard ba q \<noteq> - 2"
  shows "conn_in c t \<Longrightarrow> length (pending t) + length (stream (tr_recvs t)) < 2 ^ 32 \<Longrightarrow> length (stream (tr_recvs t)) < fuel \<Longrightarrow>
    \<exists>res c' t'. response_loop fresh (server_callbacks ba q) slow fuel c t = Some (res, c', t') \<and> served c t (res = Inr True) c' t'"
proof (induction fuel arbitrary: slow c t)
  case 0
  then show ?case by simp
next
  case (Suc fuel)
  let ?rb = "tr_recvBuffer t" and ?cb = "server_callbacks ba q"
  let ?ex = "max (min (nb_length ?rb) MAX_BUFFER_SIZE) BUFFER_SIZE"
  note ci = Suc.prems(1)[unfolded conn_in_def]
  have "BUFFER_SIZE div 8 \<le> ?ex" by (simp add: BUFFER_SIZE_def)
  then obtain a as nb where g: "nb_getOrCreateBuffer fresh (BUFFER_SIZE div 8) ?ex ?rb = Inr (a, nb)" "nb_wf nb"
    "nb_contents nb = pending t" "nb_length nb = nb_length ?rb" "nb_list nb = as @ [a]" "BUFFER_SIZE div 8 \<le> bf_left (nb_store nb a)"
    using nb_getOrCreateBuffer_wf[of ?rb "BUFFER_SIZE div 8" ?ex fresh] ci by (auto simp: nb_ok_def)
  have sm: "rb_small nb" using nb_getOrCreateBuffer_small[OF g(1)] ci by (simp add: BUFFER_SIZE_def MAX_BUFFER_SIZE_def)
  let ?left = "bf_left (nb_store nb a)" and ?t = "t\<lparr>tr_recvBuffer := nb\<rparr>"
  have left: "?left mod 2 ^ 32 = ?left" "0 < ?left" using rb_small_left[OF sm, of a] g(6) by (simp_all add: BUFFER_SIZE_def)
  have "tr_connStatus ?t = eConnected" using ci by (simp add: tr_hasConnected_def)
  then show ?case using left(2)
  proof (cases rule: tcp_recv_cases)
    case (idle k)
    have "conn_in c (t\<lparr>tr_recvBuffer := nb, tr_recvs := k\<rparr>)" using conn_in_refresh[OF Suc.prems(1) g(2) sm g(3,4)] .
    then have "served c t True c (t\<lparr>tr_recvBuffer := nb, tr_recvs := k\<rparr>)" using served_idle idle g(3) ci by simp
    moreover have "response_loop fresh ?cb slow (Suc fuel) c t = Some (Inr True, c, t\<lparr>tr_recvBuffer := nb, tr_recvs := k\<rparr>)"
      using g(1) idle(1) left(1) by (simp add: Let_def)
    ultimately show ?thesis by auto
  next
    case (over r t')
    have "served c t False c t'" if "stream (tr_recvs t) = stream (tr_recvs t')" for t'
      unfolding served_def using that over(3) ci by (intro exI[of _ "[]"]) simp
    moreover have "stream (tr_recvs (tr_tcpClose t')) = stream (tr_recvs t')" by (simp add: tr_tcpClose_def)
    moreover have "response_loop fresh ?cb slow (Suc fuel) c t =
        (if r = Inr (Some []) then Some (Inr False, c, tr_tcpClose t') else Some (Inl TC_Transceiver_Exception, c, t'))"
      using g(1) over(1,2) left(1) by (auto simp: Let_def)
    ultimately show ?thesis using over(4) by auto
  next
    case (read bs k)
    let ?nb = "nb_fill a bs nb"
    let ?t2 = "t\<lparr>tr_recvs := k, tr_recvBuffer := ?nb\<rparr>"
    have f: "nb_wf ?nb" "nb_contents ?nb = pending t @ bs" using nb_fill_last[OF g(2,5) read(4)] g(3) by simp_all
    have s: "stream (tr_recvs t) = bs @ stream k" using read(2) by simp
    then have ok: "nb_ok ?nb" using f Suc.prems(2) nb_length_contents[OF f(1)] by (simp add: nb_ok_def)
    obtain ps r where u: "unframe (pending t @ bs) = (ps, r)" by (cases "unframe (pending t @ bs)")
    have q: "map fst (cn_queue (handed ba q ps c)) = map fst (cn_queue c) @ ps" using handed_queue[OF assms(2)] ci by simp
    have step: "response_loop fresh ?cb slow (Suc fuel) c t =
        (case tr_doProtocolAnalysis ?cb (nb_length (tr_recvBuffer ?t2) + 2) c ?t2 of
           None \<Rightarrow> None
         | Some (Inl e, c1, t3) \<Rightarrow> Some (Inl e, c1, t3)
         | Some (Inr _, c1, t3) \<Rightarrow> if slow \<noteq> [] \<and> hd slow \<and> tr_isValid t3 \<or> length bs < ?left mod 4294967296 then Some (Inr True, c1, t3)
             else response_loop fresh ?cb (tl slow) fuel c1 t3)"
      using g(1) read(1,3) left(1) by (simp add: Let_def)
    have pre: "cn_iHeaderLen c \<le> 0" "nb_ok (tr_recvBuffer ?t2)" "rb_small (tr_recvBuffer ?t2)" "\<not> tr_authLocal ?t2"
      "unframe (pending ?t2) = (ps, r)"
      using ci ok nb_fill_small[OF sm] f(2) u by simp_all
    show ?thesis using assms(1) pre
    proof (cases rule: doProtocolAnalysis_unframe[where q = q])
      case (bad nb')
      have "served c t False (handed ba q ps c) (tr_tcpClose (?t2\<lparr>tr_recvBuffer := nb'\<rparr>))"
        unfolding served_def using s u q bad(1) by (intro exI[of _ bs]) (simp add: tr_tcpClose_def)
      then show ?thesis using step bad(2) by simp
    next
      case (good nb')
      let ?t3 = "?t2\<lparr>tr_recvBuffer := nb'\<rparr>" and ?c = "handed ba q ps c"
      have c3: "conn_in ?c ?t3"
        using ci good(1-3) unframe_rest[of _ ps "nb_contents nb'"] u by (simp add: conn_in_def tr_hasConnected_def tr_isValid_def)
      have r: "served ?c ?t3 keep c' t' \<Longrightarrow> served c t keep c' t'" for keep c' t'
        using served_read[OF Suc.prems(1), of bs ?t3 ps ?c keep c' t'] s read(3,5,6) u q good(1) by simp
      show ?thesis
      proof (cases "slow \<noteq> [] \<and> hd slow \<and> tr_isValid ?t3 \<or> length bs < ?left")
        case True
        have "served c t True ?c ?t3"
          unfolding served_def using s u q good(1) c3 read(3,5,6) by (intro exI[of _ bs]) (simp add: add_less_le_mono)
        then show ?thesis using step good(4) True left(1) by simp
      next
        case False
        have "length (pending ?t3) + length (stream (tr_recvs ?t3)) < 2 ^ 32"
          using unframe_rest[of "pending t @ bs" ps "nb_contents nb'"] u good(1) s Suc.prems(2) by simp
        moreover have "length (stream (tr_recvs ?t3)) < fuel" using s read(3) Suc.prems(3) by (cases bs) auto
        moreover have "response_loop fresh ?cb slow (Suc fuel) c t = response_loop fresh ?cb (tl slow) fuel ?c ?t3"
          using step good(4) False left(1) by (auto simp del: response_loop.simps)
        ultimately show ?thesis using Suc.IH[OF c3, of "tl slow"] r by auto
      qed
    qed
  qed
qed

lemma handleInputImp_served:
  assumes "ba_protocol ba = AppProtocol_parse" "isOverloadorDiscard ba q \<noteq> - 2" "conn_in c t"
    "length (pending t) + length (stream (tr_recvs t)) < 2 ^ 32" "length (stream (tr_recvs t)) < fuel"
  shows "\<exists>keep c' t'. handleInputImp fresh ba q slow err fuel c t = Some (keep, c', t') \<and> served c t keep c' t'"
proof -
  have "tr_doResponse fresh (server_callbacks ba q) slow err fuel c t = response_loop fresh (server_callbacks ba q) slow fuel c t"
    using assms(3) by (simp add: tr_doResponse_def tr_checkConnect_def tr_isConnecting_def conn_in_def tr_hasConnected_def)
  then obtain res c' t' where r: "tr_doResponse fresh (server_callbacks ba q) slow err fuel c t = Some (res, c', t')"
    "served c t (res = Inr True) c' t'"
    using response_loop_served[OF assms, of fresh slow] by auto
  moreover have "served c t False c' (tr_close t')" if "served c t False c' t'"
    using that by (auto simp: served_def tr_close_def tr_tcpClose_def)
  ultimately show ?thesis by (cases "res = Inr True") (auto simp: handleInputImp_def)
qed

text \<open>
  The events of a readable socket one after the other, as long as the connection is kept. \<open>slow\<close> gives the
  flags of every call.
\<close>

fun handle_inputs ::
    "(nat \<Rightarrow> byte) \<Rightarrow> BindAdapter \<Rightarrow> int \<Rightarrow> (nat \<Rightarrow> bool list) \<Rightarrow> nat \<Rightarrow> nat \<Rightarrow> Connection \<Rightarrow> Transceiver \<Rightarrow>
     (bool \<times> Connection \<times> Transceiver) option" where
  "handle_inputs fresh ba q slow fuel 0 c t = Some (True, c, t)"
| "handle_inputs fresh ba q slow fuel (Suc n) c t = (case handleInputImp fresh ba q (slow n) False fuel c t of
     Some (True, c', t') \<Rightarrow> handle_inputs fresh ba q slow fuel n c' t'
   | x \<Rightarrow> x)"

lemma handle_inputs_all:
  assumes "ba_protocol ba = AppProtocol_parse" "isOverloadorDiscard ba q \<noteq> - 2"
  shows "conn_in c t \<Longrightarrow> length (pending t) + length (stream (tr_recvs t)) < 2 ^ 32 \<Longrightarrow> length (stream (tr_recvs t)) < fuel \<Longrightarrow>
    orderly (tr_recvs t) \<Longrightarrow> snd (unframe (pending t @ stream (tr_recvs t))) \<noteq> None \<Longrightarrow>
    length (stream (tr_recvs t)) + length (tr_recvs t) \<le> n \<Longrightarrow>
    \<exists>c' t'. handle_inputs fresh ba q slow fuel n c t = Some (True, c', t') \<and> tr_recvs t' = []
      \<and> map fst (cn_queue c') = map fst (cn_queue c) @ fst (unframe (pending t @ stream (tr_recvs t)))
      \<and> snd (unframe (pending t @ stream (tr_recvs t))) = Some (pending t')"
proof (induction n arbitrary: c t)
  case 0
  then show ?case by (simp add: conn_in_def)
next
  case (Suc n)
  obtain keep c' t' where h: "handleInputImp fresh ba q (slow n) False fuel c t = Some (keep, c', t')" "served c t keep c' t'"
    using handleInputImp_served[OF assms Suc.prems(1-3), of fresh "slow n" False] by blast
  obtain bs where bs: "stream (tr_recvs t) = bs @ stream (tr_recvs t')"
    "map fst (cn_queue c') = map fst (cn_queue c) @ fst (unframe (pending t @ bs))"
    "keep \<longrightarrow> conn_in c' t' \<and> snd (unframe (pending t @ bs)) = Some (pending t')"
    "orderly (tr_recvs t) \<and> snd (unframe (pending t @ bs)) \<noteq> None \<longrightarrow> keep"
    "keep \<longrightarrow> orderly (tr_recvs t) \<longrightarrow> orderly (tr_recvs t')"
    "keep \<longrightarrow> tr_recvs t = [] \<and> tr_recvs t' = [] \<or> length (stream (tr_recvs t')) + length (tr_recvs t') < length (stream (tr_recvs t)) + length (tr_recvs t)"
    using h(2) unfolding served_def by blast
  have "snd (unframe (pending t @ bs)) \<noteq> None"
  proof
    assume "snd (unframe (pending t @ bs)) = None"
    then obtain ps where "unframe (pending t @ bs) = (ps, None)" by (cases "unframe (pending t @ bs)") auto
    then show False using unframe_bad[of "pending t @ bs" ps "stream (tr_recvs t')"] Suc.prems(5) bs(1) by simp
  qed
  then have k: "keep" using bs(4) Suc.prems(4) by blast
  obtain ps where u: "unframe (pending t @ bs) = (ps, Some (pending t'))" using bs(3) k by (cases "unframe (pending t @ bs)") auto
  have v: "unframe (pending t @ stream (tr_recvs t)) = (ps @ fst (unframe (pending t' @ stream (tr_recvs t'))), snd (unframe (pending t' @ stream (tr_recvs t'))))"
    using unframe_append[OF u, of "stream (tr_recvs t')"] bs(1) by simp
  have "length (pending t') \<le> length (pending t) + length bs" using unframe_rest[OF u] by simp
  moreover have "length (stream (tr_recvs t)) = length bs + length (stream (tr_recvs t'))" using bs(1) by simp
  moreover have "length (stream (tr_recvs t')) + length (tr_recvs t') \<le> n" using bs(6) k Suc.prems(6) by auto
  ultimately have "\<exists>c'' t''. handle_inputs fresh ba q slow fuel n c' t' = Some (True, c'', t'') \<and> tr_recvs t'' = []
      \<and> map fst (cn_queue c'') = map fst (cn_queue c') @ fst (unframe (pending t' @ stream (tr_recvs t')))
      \<and> snd (unframe (pending t' @ stream (tr_recvs t'))) = Some (pending t'')"
    using Suc.IH[of c' t'] bs(3,5) k Suc.prems(2-5) v by auto
  then show ?case using h(1) k v u bs(2) by auto
qed

section \<open>Every packet arrives\<close>

text \<open>A connection the server has just accepted.\<close>

definition accepted :: "send_outcome list \<Rightarrow> recv_outcome list \<Rightarrow> Connection \<times> Transceiver" where
  "accepted sends recvs =
     (\<lparr>cn_messages = [], cn_recv = [], cn_messageSize = 0, cn_accumulateBufferSize = 0, cn_lastCheckTime = 0, cn_checkSend = [],
       cn_iHeaderLen = 0, cn_bClose = False, cn_bEmptyConn = True, cn_queue = [], cn_headers = []\<rparr>,
      \<lparr>tr_fd = True, tr_connStatus = eConnected, tr_authLocal = False, tr_authSucc = False, tr_isConnTimeout = False,
       tr_sendBuffer = NetWorkBuffer_new, tr_recvBuffer = NetWorkBuffer_new, tr_sends = sends, tr_recvs = recvs, tr_wire = [], tr_closed = 0\<rparr>)"

definition app_adapter :: BindAdapter where
  "app_adapter = \<lparr>ba_iQueueCapacity = 10000, ba_iBackPacketBuffLimit = 1024 * 1024, ba_iBackPacketBuffMin = 1024,
     ba_onVerify = (\<lambda>nb. (PACKET_FULL, [], nb)), ba_protocol = AppProtocol_parse\<rparr>"

lemma nb_new_small [simp]: "nb_ok NetWorkBuffer_new" "rb_small NetWorkBuffer_new" "nb_solid NetWorkBuffer_new" "nb_list NetWorkBuffer_new = []"
  by (simp_all add: nb_solid_def nb_ok_def rb_small_def NetWorkBuffer_new_def Buffer_new_def nb_wf_def bf_wf_def)

lemma accepted_in: "conn_in (fst (accepted sends recvs)) (snd (accepted sends recvs))"
  by (simp add: accepted_def conn_in_def tr_hasConnected_def tr_isValid_def unframe.simps)



end
