(* ===== verification/Server_Responses.thy ===== *)
theory Server_Responses
  imports Server_Connection
begin

text \<open>
  The way out of a server's connection: responses keep their order through the queue \<^verbatim>\<open>_messages\<close> and the send
  buffer, which share the block that is half sent, and \<^verbatim>\<open>checkFlow\<close> decides about slow clients.
\<close>

section \<open>Responses in order\<close>

text \<open>
  The waiting messages that are not in the send buffer: all, but for the first one if it is the block the
  transceiver is sending.
\<close>

definition behind :: "nat list \<Rightarrow> nat list \<Rightarrow> nat list" where
  "behind l ms = (if l \<noteq> [] \<and> ms \<noteq> [] \<and> hd ms = hd l then tl ms else ms)"

definition block_data :: "TC_NetWorkBuffer \<Rightarrow> nat list \<Rightarrow> byte list" where
  "block_data nb l = concat (map (\<lambda>a. bf_data (nb_store nb a)) l)"

definition unsent :: "Connection \<Rightarrow> Transceiver \<Rightarrow> byte list" where
  "unsent c t = nb_contents (tr_sendBuffer t) @ block_data (tr_sendBuffer t) (behind (nb_list (tr_sendBuffer t)) (cn_messages c))"

definition conn_out :: "Connection \<Rightarrow> Transceiver \<Rightarrow> bool" where
  "conn_out c t \<longleftrightarrow> tr_hasConnected t \<and> nb_solid (tr_sendBuffer t) \<and> length (nb_list (tr_sendBuffer t)) \<le> 1 \<and>
     distinct (nb_list (tr_sendBuffer t) @ behind (nb_list (tr_sendBuffer t)) (cn_messages c)) \<and>
     (\<forall>a \<in> set (cn_messages c). a < nb_next (tr_sendBuffer t) \<and> bf_length (nb_store (tr_sendBuffer t) a) < 2 ^ 32)"

lemma block_data_simps [simp]:
  "block_data nb [] = []" "block_data nb (a # l) = bf_data (nb_store nb a) @ block_data nb l"
  "block_data nb (l @ l') = block_data nb l @ block_data nb l'"
  by (simp_all add: block_data_def)

lemma nb_contents_block: "nb_contents nb = block_data nb (nb_list nb)"
  by (simp add: nb_contents_def block_data_def)

lemma block_data_cong: "(\<And>a. a \<in> set l \<Longrightarrow> nb_store nb' a = nb_store nb a) \<Longrightarrow> block_data nb' l = block_data nb l"
  by (simp add: block_data_def cong: map_cong)

lemma bf_data_empty: "bf_length b = 0 \<Longrightarrow> bf_data b = []"
  by (simp add: bf_data_def)

lemma bf_length_small:
  assumes "nb_solid nb" "a \<in> set (nb_list nb)"
  shows "bf_length (nb_store nb a) < 2 ^ 32"
proof -
  have "bf_length (nb_store nb a) \<le> nb_length nb"
    using assms by (auto simp: nb_solid_def nb_ok_def nb_wf_def intro: member_le_sum_list)
  then show ?thesis using assms(1) by (simp add: nb_solid_def nb_ok_def)
qed

text \<open>What the transceiver sends on its own keeps the order.\<close>

lemma conn_out_sent:
  assumes "conn_out c t" "sent t t'" "nb_solid (tr_sendBuffer t')"
  shows "conn_out c t'" "\<exists>bs. tr_wire t' = tr_wire t @ bs \<and> unsent c t = bs @ unsent c t'"
proof -
  let ?s = "tr_sendBuffer t" and ?s' = "tr_sendBuffer t'"
  have s: "suffix (nb_list ?s') (nb_list ?s)" "\<And>x. x \<notin> set (nb_list ?s) \<Longrightarrow> nb_store ?s' x = nb_store ?s x"
    "\<And>x. x \<in> set (nb_list ?s) \<Longrightarrow> x \<notin> set (nb_list ?s') \<Longrightarrow> bf_length (nb_store ?s' x) = 0"
    "nb_next ?s' = nb_next ?s" "tr_fd t' = tr_fd t" "tr_connStatus t' = tr_connStatus t"
    using assms(2) by (auto simp: sent_def)
  obtain bs where bs: "tr_wire t' = tr_wire t @ bs" "nb_contents ?s = bs @ nb_contents ?s'"
    using assms(2) by (auto simp: sent_def)
  note o = assms(1)[unfolded conn_out_def]
  have l: "nb_list ?s' = nb_list ?s \<or> nb_list ?s' = [] \<and> (\<exists>a. nb_list ?s = [a])"
    using s(1) o by (cases "nb_list ?s") (auto simp: suffix_Cons)
  have b: "block_data ?s' (behind (nb_list ?s) (cn_messages c)) = block_data ?s (behind (nb_list ?s) (cn_messages c))"
    using o s(2) by (intro block_data_cong) auto
  have small: "bf_length (nb_store ?s' a) < 2 ^ 32" if "a \<in> set (cn_messages c)" for a
    using that o s(2)[of a] s(3)[of a] bf_length_small[OF assms(3), of a]
    by (cases "a \<in> set (nb_list ?s')"; cases "a \<in> set (nb_list ?s)") auto
  have e: "block_data ?s' (behind (nb_list ?s') (cn_messages c)) = block_data ?s (behind (nb_list ?s) (cn_messages c))
      \<and> distinct (nb_list ?s' @ behind (nb_list ?s') (cn_messages c))"
  proof (cases "nb_list ?s' = nb_list ?s")
    case True
    then show ?thesis using b o by simp
  next
    case False
    then obtain a where a: "nb_list ?s' = []" "nb_list ?s = [a]" using l by auto
    then have "bf_data (nb_store ?s' a) = []" using s(3) bf_data_empty by simp
    then show ?thesis using a b o by (cases "cn_messages c") (auto simp: behind_def split: if_splits)
  qed
  show "conn_out c t'"
    using o e small assms(3) s(4-6) l by (auto simp: conn_out_def tr_hasConnected_def tr_isValid_def)
  show "\<exists>bs. tr_wire t' = tr_wire t @ bs \<and> unsent c t = bs @ unsent c t'"
    using bs e by (auto simp: unsent_def)
qed

text \<open>\<open>advance\<close>: the invariant holds afterwards and the bytes that went out were the next ones.\<close>

definition advance :: "Connection \<Rightarrow> Transceiver \<Rightarrow> Connection \<Rightarrow> Transceiver \<Rightarrow> bool" where
  "advance c t c' t' \<longleftrightarrow> conn_out c' t' \<and> (\<exists>bs. tr_wire t' = tr_wire t @ bs \<and> unsent c t = bs @ unsent c' t')"

lemma advance_refl: "conn_out c t \<Longrightarrow> advance c t c t"
  by (simp add: advance_def)

lemma advance_trans: "advance c t c1 t1 \<Longrightarrow> advance c1 t1 c2 t2 \<Longrightarrow> advance c t c2 t2"
  unfolding advance_def by (metis append.assoc)

lemma advance_sent: "conn_out c t \<Longrightarrow> sent t t' \<Longrightarrow> nb_solid (tr_sendBuffer t') \<Longrightarrow> advance c t c t'"
  using conn_out_sent by (simp add: advance_def)

lemma conn_out_empty: "conn_out c t \<Longrightarrow> nb_empty (tr_sendBuffer t) \<longleftrightarrow> nb_list (tr_sendBuffer t) = []"
  by (simp add: conn_out_def nb_solid_empty)

text \<open>The first waiting message enters the send buffer.\<close>

lemma conn_out_share:
  assumes "conn_out c t" "nb_empty (tr_sendBuffer t)" "cn_messages c = a # as" "bf_length (nb_store (tr_sendBuffer t) a) \<noteq> 0"
  shows "advance c t c (t\<lparr>tr_sendBuffer := nb_share a (tr_sendBuffer t)\<rparr>)"
proof -
  let ?s = "tr_sendBuffer t"
  note c = assms(1)[unfolded conn_out_def]
  have e: "nb_list ?s = []" using conn_out_empty[OF assms(1)] assms(2) by blast
  have a: "a < nb_next ?s" "bf_length (nb_store ?s a) < 2 ^ 32" "bf_buffer (nb_store ?s a) \<noteq> None"
    using c assms(3) by (auto simp: nb_solid_def nb_ok_def nb_wf_def)
  have "nb_solid ?s" using c by blast
  note s = nb_share_solid[OF this assms(2) a(1) assms(4) a(2,3)]
  have "block_data (nb_share a ?s) l = block_data ?s l" for l using s(4) by (simp add: block_data_def)
  then have "unsent c (t\<lparr>tr_sendBuffer := nb_share a ?s\<rparr>) = unsent c t"
    using s(2,3) e assms(3) by (simp add: unsent_def behind_def nb_contents_def)
  moreover have "conn_out c (t\<lparr>tr_sendBuffer := nb_share a ?s\<rparr>)"
    using c s assms(3) e by (simp add: conn_out_def behind_def tr_hasConnected_def tr_isValid_def)
  ultimately show ?thesis by (simp add: advance_def)
qed

text \<open>The first waiting message is taken off the queue when it is sent or in the send buffer.\<close>

lemma conn_out_erase:
  assumes "conn_out c t" "cn_messages c = a # as"
    "nb_list (tr_sendBuffer t) = [a] \<or> nb_list (tr_sendBuffer t) = [] \<and> bf_length (nb_store (tr_sendBuffer t) a) = 0"
    "cn_messages c' = as"
  shows "advance c t c' t"
proof -
  let ?s = "tr_sendBuffer t"
  note c = assms(1)[unfolded conn_out_def]
  have "distinct (a # as)" using assms(3) c assms(2) by (elim disjE) (auto simp: behind_def)
  then have n: "as \<noteq> [] \<Longrightarrow> hd as \<noteq> a" by (cases as) auto
  have d: "bf_data (nb_store ?s a) = []" if "nb_list ?s = []" using that assms(3) bf_data_empty by auto
  have "unsent c' t = unsent c t"
    using assms(2-4) n d by (auto simp: unsent_def behind_def)
  moreover have "conn_out c' t"
    using c assms(2-4) n by (auto simp: conn_out_def behind_def)
  ultimately show ?thesis by (simp add: advance_def)
qed

lemma sendRequest_first:
  assumes "conn_out c t" "cn_messages c = a # as"
  obtains (idle) "tr_sendRequest a t = (Inr eRetNotSend, t)"
  | (ok) t' where "tr_sendRequest a t = (Inr eRetOk, t')" "advance c t c t'" "bf_length (nb_store (tr_sendBuffer t') a) = 0"
      "nb_empty (tr_sendBuffer t) \<or> bf_length (nb_store (tr_sendBuffer t) a) \<noteq> 0 \<Longrightarrow> nb_empty (tr_sendBuffer t')"
  | (full) t' where "tr_sendRequest a t = (Inr eRetFull, t')" "advance c t c t'" "nb_list (tr_sendBuffer t') = [a]"
  | (fail) t' where "tr_sendRequest a t = (Inl TC_Transceiver_Exception, tr_tcpClose t')"
proof -
  let ?s = "tr_sendBuffer t" and ?t = "t\<lparr>tr_sendBuffer := nb_share a (tr_sendBuffer t)\<rparr>"
  note c = assms(1)[unfolded conn_out_def]
  have p: "nb_solid ?s" "a < nb_next ?s" "bf_buffer (nb_store ?s a) \<noteq> None" "bf_length (nb_store ?s a) < 2 ^ 32"
    "tr_connStatus t = eConnected \<longrightarrow> tr_fd t"
    using c assms(2) by (auto simp: nb_solid_def nb_ok_def nb_wf_def tr_hasConnected_def tr_isValid_def)
  have sh: "nb_list (nb_share a ?s) = [a]" if "nb_empty ?s" "bf_length (nb_store ?s a) \<noteq> 0"
    using nb_share_solid(3)[OF p(1) that(1) p(2) that(2) p(4,3)] .
  have adv: "advance c t c t'" if "nb_empty ?s" "bf_length (nb_store ?s a) \<noteq> 0" "sent ?t t'" "nb_solid (tr_sendBuffer t')" for t'
    using conn_out_share[OF assms(1) that(1) assms(2) that(2)] advance_sent[of c ?t t'] that(3,4) advance_trans
    by (metis advance_def)
  show ?thesis using p
  proof (cases rule: tr_sendRequest_sent)
    case idle
    then show ?thesis by (rule that(1))
  next
    case void
    show ?thesis using that(2)[OF void(2) advance_refl[OF assms(1)] void(1)] void(1) by simp
  next
    case (ok t')
    have "nb_list (tr_sendBuffer t') = []" using ok(3,5) nb_solid_empty by blast
    then have "bf_length (nb_store (tr_sendBuffer t') a) = 0" using ok(4) sh[OF ok(2,6)] by (simp add: sent_def)
    then show ?thesis using that(2) ok adv[OF ok(2,6,4,3)] by blast
  next
    case (full t')
    have "nb_list (tr_sendBuffer t') \<noteq> []" using full(3,5) nb_solid_empty by blast
    then have "nb_list (tr_sendBuffer t') = [a]" using full(4) sh[OF full(2,6)] by (auto simp: sent_def suffix_Cons)
    then show ?thesis using that(3) full adv[OF full(2,6,4,3)] by blast
  next
    case (fail t')
    then show ?thesis by (rule that(4))
  qed
qed

lemma request_messages_advance:
  "conn_out c t \<Longrightarrow> nb_empty (tr_sendBuffer t) \<Longrightarrow> cn_messages c = ms \<Longrightarrow>
   (\<exists>c' t'. request_messages ms c t = (Inr (), c', t') \<and> advance c t c' t')
   \<or> (\<exists>c' t'. request_messages ms c t = (Inl TC_Transceiver_Exception, c', tr_tcpClose t'))"
proof (induction ms arbitrary: c t)
  case Nil
  then show ?case using advance_refl by simp
next
  case (Cons a as)
  let ?c = "\<lambda>t1. c\<lparr>cn_messageSize := cn_messageSize c - of_nat (bf_length (nb_store (tr_sendBuffer t1) a)), cn_messages := as\<rparr>"
  show ?case using Cons.prems(1,3)
  proof (cases rule: sendRequest_first)
    case idle
    then show ?thesis using advance_refl[OF Cons.prems(1)] by simp
  next
    case (ok t')
    have c': "conn_out c t'" using ok(2) by (simp add: advance_def)
    have e: "nb_empty (tr_sendBuffer t')" using ok(4) Cons.prems(2) by blast
    then have "nb_list (tr_sendBuffer t') = []" using conn_out_empty[OF c'] by blast
    then have a: "advance c t' (?c t') t'" using conn_out_erase[OF c' Cons.prems(3), of "?c t'"] ok(3) by simp
    then have adv: "advance c t (?c t') t'" using advance_trans ok(2) by blast
    have "conn_out (?c t') t'" using a by (simp add: advance_def)
    then have "(\<exists>c'' t''. request_messages as (?c t') t' = (Inr (), c'', t'') \<and> advance (?c t') t' c'' t'')
       \<or> (\<exists>c'' t''. request_messages as (?c t') t' = (Inl TC_Transceiver_Exception, c'', tr_tcpClose t''))"
      using Cons.IH[of "?c t'" t'] e by simp
    moreover have "request_messages (a # as) c t = request_messages as (?c t') t'" using ok(1) by simp
    ultimately show ?thesis using advance_trans[OF adv] by metis
  next
    case (full t')
    have c': "conn_out c t'" using full(2) by (simp add: advance_def)
    then have "advance c t (?c t') t'"
      using advance_trans[OF full(2)] conn_out_erase[OF c' Cons.prems(3), of "?c t'"] full(3) by simp
    then show ?thesis using full(1) by simp
  next
    case (fail t')
    then show ?thesis by auto
  qed
qed

lemma conn_sendBuffer_advance:
  assumes "conn_out c t" "conn_sendBuffer ba q now err c t = (Inr ret, c', t')" "0 \<le> ret"
  shows "advance c t c' t'"
proof -
  let ?cb = "server_callbacks ba q"
  have v: "tr_isValid t" "tr_checkConnect err t = (Inr (), t)" "nb_solid (tr_sendBuffer t)"
    using assms(1) by (auto simp: conn_out_def tr_hasConnected_def tr_checkConnect_def tr_isConnecting_def)
  obtain c1 t1 where r: "tr_doRequest ?cb err c t = (Inr (), c1, t1)" "\<not> (cn_bClose c1 \<and> nb_empty (tr_sendBuffer t1))"
    "(case checkFlow ba now (cn_messageSize c + of_nat (nb_length (tr_sendBuffer t))) c1 (tr_sendBuffer t1) of
        (ret, c2, nb) \<Rightarrow> (Inr ret, c2, t1\<lparr>tr_sendBuffer := nb\<rparr>)) = (Inr ret :: trans_exn + int, c', t')"
    using assms(2,3) by (auto simp: conn_sendBuffer_def Let_def split: prod.splits sum.splits if_splits)
  have "advance c t c1 t1"
  proof -
    obtain t2 where l: "nb_solid (tr_sendBuffer t2)" "sent t t2"
      "request_loop t = (Inr True, t2) \<and> nb_empty (tr_sendBuffer t2)
      \<or> request_loop t = (Inr False, t2) \<and> \<not> nb_empty (tr_sendBuffer t2)
      \<or> request_loop t = (Inl TC_Transceiver_Exception, tr_tcpClose t2)"
      using request_loop_sent[OF v(3)] by blast
    have a: "advance c t c t2" using advance_sent[OF assms(1) l(2,1)] .
    then have c2: "conn_out c t2" by (simp add: advance_def)
    from l(3) show ?thesis
    proof (elim disjE conjE)
      assume "request_loop t = (Inr True, t2)" "nb_empty (tr_sendBuffer t2)"
      then show ?thesis using request_messages_advance[OF c2, of "cn_messages c"] r(1) v advance_trans[OF a]
        by (auto simp: tr_doRequest_def server_callbacks_def onRequestCallback_def)
    qed (use r(1) v a in \<open>auto simp: tr_doRequest_def\<close>)
  qed
  moreover have "t' = t1" "cn_messages c' = cn_messages c1"
    using r(3) assms(3) by (auto simp: checkFlow_def Let_def split: if_splits)
  then have "unsent c' t' = unsent c1 t1" "conn_out c' t' = conn_out c1 t1" by (simp_all add: unsent_def conn_out_def)
  ultimately show ?thesis using \<open>t' = t1\<close> by (simp add: advance_def)
qed

text \<open>A new block, as \<^verbatim>\<open>TC_NetWorkBuffer::Buffer\<close> holds a response.\<close>

lemma conn_out_alloc:
  assumes "conn_out c t" "nb_alloc (bf_replaceBuffer bs Buffer_new) (tr_sendBuffer t) = (a, sb)"
  shows "conn_out c (t\<lparr>tr_sendBuffer := sb\<rparr>)" "unsent c (t\<lparr>tr_sendBuffer := sb\<rparr>) = unsent c t"
    "a \<notin> set (nb_list sb)" "a \<notin> set (cn_messages c)" "a < nb_next sb" "bf_data (nb_store sb a) = bs" "bf_length (nb_store sb a) = length bs"
proof -
  let ?s = "tr_sendBuffer t" and ?b = "bf_replaceBuffer bs Buffer_new"
  have b: "bf_wf ?b" "bf_data ?b = bs" "bf_length ?b = length bs" "bf_buffer ?b \<noteq> None"
    by (simp_all add: bf_replaceBuffer_def bf_wf_def bf_data_def bf_length_def bf_mem_def)
  have s: "a = nb_next ?s" "sb = ?s\<lparr>nb_store := (nb_store ?s)(a := ?b), nb_next := Suc a\<rparr>"
    using assms(2) by (auto simp: nb_alloc_def)
  note c = assms(1)[unfolded conn_out_def nb_solid_def nb_ok_def nb_wf_def]
  have n: "a \<notin> set (nb_list ?s)" "a \<notin> set (cn_messages c)" using c s(1) by auto
  have u: "set (behind l ms) \<subseteq> set ms" for l ms :: "nat list" by (auto simp: behind_def dest: list.set_sel(2))
  show "a \<notin> set (nb_list sb)" "a \<notin> set (cn_messages c)" "a < nb_next sb" "bf_data (nb_store sb a) = bs"
    "bf_length (nb_store sb a) = length bs" using s n b by simp_all
  have d: "block_data sb l = block_data ?s l" if "a \<notin> set l" for l
    using that s(2) by (intro block_data_cong) auto
  have "a \<notin> set (behind (nb_list ?s) (cn_messages c))" using n(2) u by blast
  then show "unsent c (t\<lparr>tr_sendBuffer := sb\<rparr>) = unsent c t"
    using d n(1) s(2) by (simp add: unsent_def nb_contents_block)
  have "nb_solid sb"
    using c b n s by (auto simp: nb_solid_def nb_ok_def nb_wf_def less_Suc_eq)
  then show "conn_out c (t\<lparr>tr_sendBuffer := sb\<rparr>)"
    using c n(2) s by (auto simp: conn_out_def tr_hasConnected_def tr_isValid_def less_Suc_eq)
qed

lemma conn_out_queue:
  assumes "conn_out c t" "a \<notin> set (nb_list (tr_sendBuffer t))" "a \<notin> set (cn_messages c)" "a < nb_next (tr_sendBuffer t)"
    "bf_length (nb_store (tr_sendBuffer t) a) < 2 ^ 32" "cn_messages c' = cn_messages c @ [a]"
  shows "conn_out c' t" "unsent c' t = unsent c t @ bf_data (nb_store (tr_sendBuffer t) a)"
proof -
  let ?l = "nb_list (tr_sendBuffer t)"
  have b: "behind ?l (cn_messages c @ [a]) = behind ?l (cn_messages c) @ [a]"
    using assms(2) by (cases "cn_messages c"; cases ?l) (auto simp: behind_def)
  have u: "set (behind l ms) \<subseteq> set ms" for l ms :: "nat list" by (auto simp: behind_def dest: list.set_sel(2))
  show "conn_out c' t" using assms b u[of ?l "cn_messages c"] by (auto simp: conn_out_def)
  show "unsent c' t = unsent c t @ bf_data (nb_store (tr_sendBuffer t) a)" using b assms(6) by (simp add: unsent_def)
qed

lemma conn_send_advance:
  assumes "conn_out c t" "a \<notin> set (nb_list (tr_sendBuffer t))" "a \<notin> set (cn_messages c)" "a < nb_next (tr_sendBuffer t)"
    "bf_length (nb_store (tr_sendBuffer t) a) < 2 ^ 32" "conn_send a c t = (Inr 0, c', t')"
  shows "\<exists>bs. tr_wire t' = tr_wire t @ bs \<and> unsent c t @ bf_data (nb_store (tr_sendBuffer t) a) = bs @ unsent c' t'" "conn_out c' t'"
proof -
  let ?c = "c\<lparr>cn_messages := cn_messages c @ [a]\<rparr>"
  have q: "conn_out ?c t" "unsent ?c t = unsent c t @ bf_data (nb_store (tr_sendBuffer t) a)"
    using conn_out_queue[OF assms(1-5), of ?c] by simp_all
  have emp: "bf_empty (nb_store (tr_sendBuffer x) a) \<longleftrightarrow> bf_length (nb_store (tr_sendBuffer x) a) = 0" if "conn_out ?c x" for x
    using that by (auto simp: conn_out_def nb_solid_def nb_ok_def nb_wf_def bf_empty_def bf_length_def bf_wf_def le_antisym)
  have "advance ?c t c' t'"
  proof (cases "bf_length (nb_store (tr_sendBuffer t) a) = 0")
    case True
    then have "t' = t" "c' = c"
      using assms(6) emp[OF q(1)] by (auto simp: conn_send_def tr_sendRequest_def Let_def split: if_splits)
    then show ?thesis using q(2) assms(1) True bf_data_empty by (simp add: advance_def)
  next
    case ne: False
    have keep: "advance ?c t c' t'" if "advance ?c t ?c t'" "cn_messages c' = cn_messages c @ [a]"
      using that by (simp add: advance_def unsent_def conn_out_def)
    show ?thesis
    proof (cases "cn_messages c")
      case (Cons x xs)
      then have "t' = t" "cn_messages c' = cn_messages c @ [a]"
        using assms(6) emp[OF q(1)] ne by (auto simp: conn_send_def Let_def split: if_splits)
      then show ?thesis using keep advance_refl[OF q(1)] by simp
    next
      case Nil
      have after: "t' = t1 \<and> cn_messages c' = (if bf_length (nb_store (tr_sendBuffer t1) a) = 0 then [] else [a])"
        if "tr_sendRequest a t = (Inr r, t1)" "conn_out ?c t1" for r t1
        using that assms(6) emp[OF that(2)] Nil by (auto simp: conn_send_def Let_def split: if_splits)
      have m: "cn_messages ?c = [a]" using Nil by simp
      show ?thesis using q(1) m
      proof (cases rule: sendRequest_first)
        case idle
        then show ?thesis using keep after[OF idle q(1)] ne Nil advance_refl[OF q(1)] by simp
      next
        case (ok t1)
        then have o1: "conn_out ?c t1" by (simp add: advance_def)
        have "nb_list (tr_sendBuffer t1) = []" using ok(4) ne conn_out_empty[OF o1] by blast
        then have "advance ?c t1 c' t1" using conn_out_erase[OF o1, of a "[]" c'] Nil ok(3) after[OF ok(1) o1] by simp
        then show ?thesis using advance_trans[OF ok(2)] after[OF ok(1) o1] by simp
      next
        case (full t1)
        then have o1: "conn_out ?c t1" by (simp add: advance_def)
        then have "bf_length (nb_store (tr_sendBuffer t1) a) \<noteq> 0" using full(3) by (simp add: conn_out_def nb_solid_def)
        then show ?thesis using keep after[OF full(1) o1] full(2) Nil by simp
      next
        case (fail t1)
        then show ?thesis using assms(6) Nil by (simp add: conn_send_def)
      qed
    qed
  qed
  then show "\<exists>bs. tr_wire t' = tr_wire t @ bs \<and> unsent c t @ bf_data (nb_store (tr_sendBuffer t) a) = bs @ unsent c' t'" "conn_out c' t'"
    using q(2) by (auto simp: advance_def)
qed

text \<open>
  What happens to a connection: the server answers a request, or the socket becomes writable. The run ends
  with \<open>None\<close> when the connection is closed.
\<close>

datatype conn_event = Response "byte list" | Writable int

definition conn_answer :: "byte list \<Rightarrow> Connection \<Rightarrow> Transceiver \<Rightarrow> (trans_exn + int) \<times> Connection \<times> Transceiver" where
  "conn_answer bs c t = (case nb_alloc (bf_replaceBuffer bs Buffer_new) (tr_sendBuffer t) of
     (a, sb) \<Rightarrow> conn_send a c (t\<lparr>tr_sendBuffer := sb\<rparr>))"

fun conn_step :: "BindAdapter \<Rightarrow> int \<Rightarrow> conn_event \<Rightarrow> Connection \<times> Transceiver \<Rightarrow> (Connection \<times> Transceiver) option" where
  "conn_step ba q (Response bs) (c, t) = (case conn_answer bs c t of
     (Inr r, c1, t1) \<Rightarrow> if r = 0 then Some (c1, t1) else None
   | _ \<Rightarrow> None)"
| "conn_step ba q (Writable now) (c, t) = (case handleOutputImp ba q now False c t of
     (True, c1, t1) \<Rightarrow> Some (c1, t1)
   | _ \<Rightarrow> None)"

fun answer :: "conn_event \<Rightarrow> byte list" where
  "answer (Response bs) = bs"
| "answer (Writable _) = []"

lemma conn_answer_advance:
  assumes "conn_out c t" "length bs < 2 ^ 32" "conn_answer bs c t = (Inr 0, c', t')"
  shows "conn_out c' t'" "\<exists>x. tr_wire t' = tr_wire t @ x \<and> unsent c t @ bs = x @ unsent c' t'"
proof -
  obtain a sb where a: "nb_alloc (bf_replaceBuffer bs Buffer_new) (tr_sendBuffer t) = (a, sb)"
    by (cases "nb_alloc (bf_replaceBuffer bs Buffer_new) (tr_sendBuffer t)")
  note l = conn_out_alloc[OF assms(1) a]
  let ?t = "t\<lparr>tr_sendBuffer := sb\<rparr>"
  have s: "conn_send a c ?t = (Inr 0, c', t')" using assms(3) a by (simp add: conn_answer_def)
  have p: "a \<notin> set (nb_list (tr_sendBuffer ?t))" "a < nb_next (tr_sendBuffer ?t)"
    "bf_length (nb_store (tr_sendBuffer ?t) a) < 2 ^ 32" using l(3,5,7) assms(2) by simp_all
  note r = conn_send_advance[OF l(1) p(1) l(4) p(2,3) s]
  show "conn_out c' t'" by (rule r(2))
  show "\<exists>x. tr_wire t' = tr_wire t @ x \<and> unsent c t @ bs = x @ unsent c' t'" using r(1) l(2,6) by simp
qed

lemma conn_step_ordered:
  assumes "conn_out (fst s) (snd s)" "length (answer e) < 2 ^ 32" "conn_step ba q e s = Some s'"
  shows "conn_out (fst s') (snd s') \<and> (\<exists>x. tr_wire (snd s') = tr_wire (snd s) @ x
    \<and> unsent (fst s) (snd s) @ answer e = x @ unsent (fst s') (snd s'))"
proof -
  obtain c t c' t' where st: "s = (c, t)" "s' = (c', t')" by (cases s, cases s')
  show ?thesis
  proof (cases e)
    case (Response bs)
    then have "conn_answer bs c t = (Inr 0, c', t')"
      using assms(3) st by (auto split: prod.splits sum.splits if_splits)
    then show ?thesis using conn_answer_advance[of c t bs c' t'] assms(1,2) Response st by simp
  next
    case (Writable now)
    have "handleOutputImp ba q now False c t = (True, c', t')"
      using assms(3) st Writable by (auto split: prod.splits bool.splits)
    then obtain ret where "conn_sendBuffer ba q now False c t = (Inr ret, c', t')" "0 \<le> ret"
      by (auto simp: handleOutputImp_def not_less split: prod.splits sum.splits if_splits)
    then have "advance c t c' t'" using conn_sendBuffer_advance assms(1) st by simp
    then show ?thesis using Writable st by (simp add: advance_def)
  qed
qed

text \<open>
  The contract of a sender: each step puts some of the next bytes on the wire and takes the bytes of its event
  in behind those that wait. It carries over to every run.
\<close>

fun run_steps :: "('e \<Rightarrow> 's \<Rightarrow> 's option) \<Rightarrow> 'e list \<Rightarrow> 's \<Rightarrow> 's option" where
  "run_steps step [] s = Some s"
| "run_steps step (e # es) s = (case step e s of None \<Rightarrow> None | Some s' \<Rightarrow> run_steps step es s')"

locale ordered_sender =
  fixes step :: "'e \<Rightarrow> 's \<Rightarrow> 's option"
    and good :: "'s \<Rightarrow> bool"
    and wire :: "'s \<Rightarrow> byte list"
    and left :: "'s \<Rightarrow> byte list"
    and taken :: "'e \<Rightarrow> byte list"
    and fits :: "'e \<Rightarrow> bool"
  assumes step_law: "good s \<Longrightarrow> fits e \<Longrightarrow> step e s = Some s' \<Longrightarrow>
    good s' \<and> (\<exists>x. wire s' = wire s @ x \<and> left s @ taken e = x @ left s')"
begin

lemma run_law:
  "good s \<Longrightarrow> list_all fits es \<Longrightarrow> run_steps step es s = Some s' \<Longrightarrow>
    good s' \<and> (\<exists>x. wire s' = wire s @ x \<and> left s @ concat (map taken es) = x @ left s')"
proof (induction es arbitrary: s)
  case (Cons e es)
  obtain s1 where s1: "step e s = Some s1" "run_steps step es s1 = Some s'"
    using Cons.prems(3) by (auto split: option.splits)
  have f: "fits e" "list_all fits es" using Cons.prems(2) by simp_all
  obtain x where x: "good s1" "wire s1 = wire s @ x" "left s @ taken e = x @ left s1"
    using step_law[OF Cons.prems(1) f(1) s1(1)] by blast
  obtain y where y: "good s'" "wire s' = wire s1 @ y" "left s1 @ concat (map taken es) = y @ left s'"
    using Cons.IH[OF x(1) f(2) s1(2)] by blast
  have "left s @ taken e @ concat (map taken es) = x @ y @ left s'" using x(3) y(3) by (metis append.assoc)
  then show ?case using x(2) y(1,2) by auto
qed simp

end

definition conn_run :: "BindAdapter \<Rightarrow> int \<Rightarrow> conn_event list \<Rightarrow> Connection \<times> Transceiver \<Rightarrow> (Connection \<times> Transceiver) option" where
  "conn_run ba q = run_steps (conn_step ba q)"

interpretation conn: ordered_sender "conn_step ba q" "\<lambda>(c, t). conn_out c t" "\<lambda>(c, t). tr_wire t" "\<lambda>(c, t). unsent c t" answer
    "\<lambda>e. length (answer e) < 2 ^ 32" for ba q
  by unfold_locales (use conn_step_ordered in \<open>auto simp: split_def\<close>)

section \<open>Draining\<close>

text \<open>The next \<open>n\<close> calls of \<^verbatim>\<open>::send\<close> take everything.\<close>

definition willing :: "nat \<Rightarrow> Transceiver \<Rightarrow> bool" where
  "willing n t \<longleftrightarrow> n \<le> length (tr_sends t) \<and> (\<forall>x \<in> set (take n (tr_sends t)). \<exists>k \<ge> 2 ^ 32. x = SendBytes k)"

lemma willing_Suc: "willing (Suc n) t \<Longrightarrow> \<exists>k ks. tr_sends t = SendBytes k # ks \<and> 2 ^ 32 \<le> k \<and> willing n (t\<lparr>tr_sends := ks\<rparr>)"
  by (cases "tr_sends t") (auto simp: willing_def)

lemma willing_mono: "willing n t \<Longrightarrow> m \<le> n \<Longrightarrow> tr_sends t' = tr_sends t \<Longrightarrow> willing m t'"
  unfolding willing_def by (auto dest: set_take_subset_set_take[THEN subsetD])

text \<open>One call empties a send buffer of one block.\<close>

lemma willing_round:
  assumes "nb_solid (tr_sendBuffer t)" "nb_list (tr_sendBuffer t) = [a]" "tr_hasConnected t" "willing (Suc n) t"
  shows "\<exists>nb t'. tcp_send (bf_data (nb_store (tr_sendBuffer t) a)) t = (Inr (Some (length (bf_data (nb_store (tr_sendBuffer t) a)))), t')
    \<and> nb_moveHeader (length (bf_data (nb_store (tr_sendBuffer t) a))) (tr_sendBuffer t') = Inr (True, nb)
    \<and> length (bf_data (nb_store (tr_sendBuffer t) a)) \<noteq> 0 \<and> nb_empty nb \<and> nb_solid nb \<and> sent t (t'\<lparr>tr_sendBuffer := nb\<rparr>)
    \<and> willing n (t'\<lparr>tr_sendBuffer := nb\<rparr>) \<and> tr_authLocal t' = tr_authLocal t"
proof -
  let ?d = "bf_data (nb_store (tr_sendBuffer t) a)"
  obtain k ks where k: "tr_sends t = SendBytes k # ks" "2 ^ 32 \<le> k" "willing n (t\<lparr>tr_sends := ks\<rparr>)"
    using willing_Suc[OF assms(4)] by blast
  have b: "length ?d = bf_length (nb_store (tr_sendBuffer t) a)" "bf_length (nb_store (tr_sendBuffer t) a) \<noteq> 0"
    using assms(1,2) by (auto simp: nb_solid_def nb_ok_def nb_wf_def)
  have l: "length ?d < 2 ^ 32" using bf_length_small[OF assms(1), of a] assms(2) b(1) by simp
  let ?t = "t\<lparr>tr_sends := ks, tr_wire := tr_wire t @ take (length ?d) ?d\<rparr>"
  have s: "tcp_send ?d t = (Inr (Some (length ?d)), ?t)"
    using assms(3) k(1,2) l by (simp add: tcp_send_def tr_hasConnected_def Let_def min_def)
  obtain nb where nb: "nb_moveHeader (length ?d) (tr_sendBuffer t) = Inr (True, nb)" "nb_solid nb"
    "sent t (t\<lparr>tr_sends := ks, tr_wire := tr_wire t @ take (length ?d) ?d, tr_sendBuffer := nb\<rparr>)"
    using sent_move[OF assms(1,2), of "length ?d" ks] by auto
  have "nb_contents (tr_sendBuffer t) = ?d" using assms(2) by (simp add: nb_contents_def)
  then have "nb_contents nb = []" using nb(3) by (auto simp: sent_def)
  then have "nb_empty nb" using nb(2) net.len_law[of nb] by (simp add: nb_solid_def nb_empty_def)
  then show ?thesis using s nb b k(3) by (intro exI[of _ nb] exI[of _ ?t]) (simp add: willing_def)
qed

lemma willing_request:
  assumes "conn_out c t" "cn_messages c = a # as" "nb_empty (tr_sendBuffer t)" "\<not> tr_authLocal t" "willing (Suc n) t"
  shows "\<exists>t'. tr_sendRequest a t = (Inr eRetOk, t') \<and> advance c t c t' \<and> nb_empty (tr_sendBuffer t')
    \<and> bf_length (nb_store (tr_sendBuffer t') a) = 0 \<and> willing n t' \<and> \<not> tr_authLocal t'"
proof -
  let ?s = "tr_sendBuffer t" and ?t = "t\<lparr>tr_sendBuffer := nb_share a (tr_sendBuffer t)\<rparr>"
  note c = assms(1)[unfolded conn_out_def]
  have e: "bf_empty (nb_store ?s a) \<longleftrightarrow> bf_length (nb_store ?s a) = 0"
    using c by (auto simp: nb_solid_def nb_ok_def nb_wf_def bf_empty_def bf_length_def bf_wf_def le_antisym)
  show ?thesis
  proof (cases "bf_length (nb_store ?s a) = 0")
    case True
    then show ?thesis using e assms(3,4) advance_refl[OF assms(1)] willing_mono[OF assms(5), of n t]
      by (simp add: tr_sendRequest_def)
  next
    case False
    have a: "a < nb_next ?s" "bf_length (nb_store ?s a) < 2 ^ 32" "bf_buffer (nb_store ?s a) \<noteq> None" "nb_solid ?s"
      using c assms(2) by (auto simp: nb_solid_def nb_ok_def nb_wf_def)
    note sh = nb_share_solid[OF a(4) assms(3) a(1) False a(2,3)]
    have v: "conn_out c ?t" "advance c t c ?t"
      using conn_out_share[OF assms(1,3,2) False] by (simp_all add: advance_def)
    have w: "willing (Suc n) ?t" using willing_mono[OF assms(5)] by simp
    have "nb_solid (tr_sendBuffer ?t)" "nb_list (tr_sendBuffer ?t) = [a]" "tr_hasConnected ?t"
      using sh c by (simp_all add: tr_hasConnected_def tr_isValid_def)
    note r = willing_round[OF this w]
    let ?d = "bf_data (nb_store (tr_sendBuffer ?t) a)"
    obtain nb t1 where t1: "tcp_send ?d ?t = (Inr (Some (length ?d)), t1)" "nb_moveHeader (length ?d) (tr_sendBuffer t1) = Inr (True, nb)"
      "nb_empty nb" "nb_solid nb" "sent ?t (t1\<lparr>tr_sendBuffer := nb\<rparr>)" "willing n (t1\<lparr>tr_sendBuffer := nb\<rparr>)" "tr_authLocal t1 = tr_authLocal ?t"
      using r by blast
    let ?t' = "t1\<lparr>tr_sendBuffer := nb\<rparr>"
    have bp: "buffer_pointer (tr_sendBuffer ?t) = Inr ?d"
      using sh(3,5) by (simp add: buffer_pointer_def nb_getBufferPointer_def)
    have "send_loop ?t = (Inr eRetOk, ?t')"
      using bp t1(1-3) by (subst send_loop.simps) (simp add: Let_def)
    then have q: "tr_sendRequest a t = (Inr eRetOk, ?t')"
      using e False assms(3,4) c by (simp add: tr_sendRequest_def tr_hasConnected_def)
    have z: "bf_length (nb_store (tr_sendBuffer ?t') a) = 0"
      using t1(3,4,5) sh(3) nb_solid_empty[OF t1(4)] by (simp add: sent_def)
    have "advance c t c ?t'" using advance_trans[OF v(2)] advance_sent[OF v(1) t1(5)] t1(4) by simp
    then show ?thesis using q z t1(3,6,7) assms(4) by simp
  qed
qed

lemma willing_messages:
  "conn_out c t \<Longrightarrow> cn_messages c = ms \<Longrightarrow> nb_empty (tr_sendBuffer t) \<Longrightarrow> \<not> tr_authLocal t \<Longrightarrow> willing (length ms) t \<Longrightarrow>
   \<exists>t'. request_messages ms c t = (Inr (), c\<lparr>cn_messages := []\<rparr>, t') \<and> nb_empty (tr_sendBuffer t') \<and> advance c t (c\<lparr>cn_messages := []\<rparr>) t'"
proof (induction ms arbitrary: c t)
  case Nil
  then have eq: "c\<lparr>cn_messages := []\<rparr> = c" by simp
  show ?case unfolding eq using Nil.prems(1,3) advance_refl[OF Nil.prems(1)] by simp
next
  case (Cons a as)
  have "willing (Suc (length as)) t" using Cons.prems(5) by simp
  from willing_request[OF Cons.prems(1-4) this]
  obtain t1 where t1: "tr_sendRequest a t = (Inr eRetOk, t1)" "advance c t c t1" "nb_empty (tr_sendBuffer t1)"
    "bf_length (nb_store (tr_sendBuffer t1) a) = 0" "willing (length as) t1" "\<not> tr_authLocal t1"
    by blast
  let ?c = "c\<lparr>cn_messages := as\<rparr>"
  have o1: "conn_out c t1" using t1(2) by (simp add: advance_def)
  have l: "nb_list (tr_sendBuffer t1) = []" using conn_out_empty[OF o1] t1(3) by blast
  then have a1: "advance c t1 ?c t1" using conn_out_erase[OF o1 Cons.prems(2), of ?c] t1(4) by simp
  then have "conn_out ?c t1" by (simp add: advance_def)
  then obtain t2 where t2: "request_messages as ?c t1 = (Inr (), ?c\<lparr>cn_messages := []\<rparr>, t2)" "nb_empty (tr_sendBuffer t2)"
    "advance ?c t1 (?c\<lparr>cn_messages := []\<rparr>) t2"
    using Cons.IH[of ?c t1] t1(3,5,6) by auto
  have "advance c t (?c\<lparr>cn_messages := []\<rparr>) t2" using advance_trans[OF t1(2) advance_trans[OF a1 t2(3)]] .
  then show ?case using t1(1,4) t2 by (intro exI[of _ t2]) simp
qed

text \<open>When the kernel takes everything, one writable event sends all that waits.\<close>

lemma doRequest_drains:
  assumes "conn_out c t" "\<not> tr_authLocal t" "willing (Suc (length (cn_messages c))) t"
  shows "\<exists>t'. tr_doRequest (server_callbacks ba q) err c t = (Inr (), c\<lparr>cn_messages := []\<rparr>, t') \<and> nb_empty (tr_sendBuffer t')
    \<and> tr_wire t' = tr_wire t @ unsent c t"
proof -
  note c = assms(1)[unfolded conn_out_def]
  have "\<exists>t1. request_loop t = (Inr True, t1) \<and> nb_empty (tr_sendBuffer t1) \<and> advance c t c t1
      \<and> willing (length (cn_messages c)) t1 \<and> \<not> tr_authLocal t1"
  proof (cases "nb_empty (tr_sendBuffer t)")
    case True
    then have "request_loop t = (Inr True, t)" by (subst request_loop.simps) simp
    then show ?thesis using True advance_refl[OF assms(1)] assms(2) willing_mono[OF assms(3)] by simp
  next
    case False
    then have "nb_list (tr_sendBuffer t) \<noteq> []" using conn_out_empty[OF assms(1)] by blast
    then obtain a where l: "nb_list (tr_sendBuffer t) = [a]" using c by (cases "nb_list (tr_sendBuffer t)") auto
    have "nb_solid (tr_sendBuffer t)" "tr_hasConnected t" using c by blast+
    note r = willing_round[OF this(1) l this(2) assms(3)]
    let ?d = "bf_data (nb_store (tr_sendBuffer t) a)"
    obtain nb t1 where t1: "tcp_send ?d t = (Inr (Some (length ?d)), t1)" "nb_moveHeader (length ?d) (tr_sendBuffer t1) = Inr (True, nb)"
      "length ?d \<noteq> 0" "nb_empty nb" "nb_solid nb" "sent t (t1\<lparr>tr_sendBuffer := nb\<rparr>)"
      "willing (length (cn_messages c)) (t1\<lparr>tr_sendBuffer := nb\<rparr>)" "tr_authLocal t1 = tr_authLocal t"
      using r by blast
    let ?t' = "t1\<lparr>tr_sendBuffer := nb\<rparr>"
    have bp: "buffer_pointer (tr_sendBuffer t) = Inr ?d"
      using l False by (simp add: buffer_pointer_def nb_getBufferPointer_def)
    have "request_loop ?t' = (Inr True, ?t')" using t1(4) by (subst request_loop.simps) simp
    then have "request_loop t = (Inr True, ?t')"
      using bp t1(1-3) False by (subst request_loop.simps) simp
    moreover have "advance c t c ?t'" using advance_sent[OF assms(1) t1(6)] t1(5) by simp
    ultimately show ?thesis using t1(4,7,8) assms(2) by simp
  qed
  then obtain t1 where t1: "request_loop t = (Inr True, t1)" "nb_empty (tr_sendBuffer t1)" "advance c t c t1"
    "willing (length (cn_messages c)) t1" "\<not> tr_authLocal t1" by blast
  have "conn_out c t1" using t1(3) by (simp add: advance_def)
  then obtain t2 where t2: "request_messages (cn_messages c) c t1 = (Inr (), c\<lparr>cn_messages := []\<rparr>, t2)" "nb_empty (tr_sendBuffer t2)"
    "advance c t1 (c\<lparr>cn_messages := []\<rparr>) t2"
    using willing_messages[OF _ refl t1(2,5,4)] by blast
  have "tr_doRequest (server_callbacks ba q) err c t = (Inr (), c\<lparr>cn_messages := []\<rparr>, t2)"
    using t1(1) t2(1) c by (simp add: tr_doRequest_def tr_checkConnect_def tr_isConnecting_def tr_hasConnected_def server_callbacks_def onRequestCallback_def)
  moreover have "unsent (c\<lparr>cn_messages := []\<rparr>) t2 = []"
    using t2(2,3) conn_out_empty[of "c\<lparr>cn_messages := []\<rparr>" t2] by (simp add: advance_def unsent_def behind_def nb_contents_block)
  then have "tr_wire t2 = tr_wire t @ unsent c t"
    using advance_trans[OF t1(3) t2(3)] by (auto simp: advance_def)
  ultimately show ?thesis using t2(2) by blast
qed

section \<open>Properties\<close>

lemma accepted_out:
  "conn_out (fst (accepted sends recvs)) (snd (accepted sends recvs))"
  "unsent (fst (accepted sends recvs)) (snd (accepted sends recvs)) = []"
  by (simp_all add: accepted_def conn_out_def tr_hasConnected_def tr_isValid_def behind_def unsent_def)

lemmas run_simps = conn_run_def accepted_def conn_answer_def conn_send_def nb_alloc_def bf_replaceBuffer_def Buffer_new_def NetWorkBuffer_new_def
  tr_sendRequest_def send_loop.simps nb_share_def bf_empty_def bf_length_def nb_empty_def buffer_pointer_def nb_getBufferPointer_def
  bf_data_def bf_mem_def tcp_send_def nb_moveHeader_def bf_addReadIdx_def tr_isValid_def Let_def

text \<open>
  C6. A connection delivers its responses in order. After any sequence of answers and writable events, whatever
  the kernel took each time, the bytes on the wire followed by the bytes that wait are the responses one after
  the other: none is lost, doubled or overtaken while the connection lives, although a response that is
  half sent is in the send buffer and in the queue.
\<close>

theorem responses_in_order:
  assumes "conn_out c t" "list_all (\<lambda>e. length (answer e) < 2 ^ 32) es" "conn_run ba q es (c, t) = Some (c', t')"
  shows "conn_out c' t' \<and> (\<exists>x. tr_wire t' = tr_wire t @ x \<and> unsent c t @ concat (map answer es) = x @ unsent c' t')"
  using conn.run_law[of "(c, t)" es ba q "(c', t')"] assms by (simp add: conn_run_def)

theorem responses_in_order_witness:
  "\<exists>c' t'. conn_run app_adapter 0 [Response [1, 2, 3], Response [4]] (accepted [SendBytes 2] []) = Some (c', t')
    \<and> tr_wire t' = [1, 2] \<and> unsent c' t' = [3, 4]"
proof -
  let ?c = "fst (accepted [SendBytes 2] [])" and ?t = "snd (accepted [SendBytes 2] [])" and ?es = "[Response [1, 2, 3], Response [4]]"
  have "map_option (\<lambda>(c, t). tr_wire t) (conn_run app_adapter 0 ?es (?c, ?t)) = Some [1, 2]" by (simp add: run_simps)
  then obtain c' t' where r: "conn_run app_adapter 0 ?es (?c, ?t) = Some (c', t')" "tr_wire t' = [1, 2]" by auto
  have "conn_out c' t' \<and> (\<exists>x. tr_wire t' = tr_wire ?t @ x \<and> unsent ?c ?t @ concat (map answer ?es) = x @ unsent c' t')"
    by (rule responses_in_order[OF accepted_out(1) _ r(1)]) simp
  then show ?thesis using r accepted_out(2)[of "[SendBytes 2]" "[]"] by (auto simp: accepted_def)
qed

text \<open>
  When the kernel takes everything it is given, one writable event sends all that waits, and the queue
  and the send buffer are empty; but \<^verbatim>\<open>_messageSize\<close>, the size of the queue that \<^verbatim>\<open>checkFlow\<close> compares with
  the limit, is what it was before: the size subtracted for a message is read after the message was sent,
  when its block is empty.
\<close>

theorem drained_queue_keeps_size:
  assumes "conn_out c t" "\<not> tr_authLocal t" "willing (Suc (length (cn_messages c))) t"
  shows "\<exists>c' t'. tr_doRequest (server_callbacks ba q) err c t = (Inr (), c', t')
    \<and> cn_messages c' = [] \<and> nb_empty (tr_sendBuffer t') \<and> tr_wire t' = tr_wire t @ unsent c t
    \<and> cn_messageSize c' = cn_messageSize c"
  using doRequest_drains[OF assms, of ba q err] by auto

theorem drained_queue_keeps_size_witness:
  "\<exists>c t c' t'. conn_run app_adapter 0 [Response [1, 2, 3]] (accepted [SendPending, SendBytes (2 ^ 32), SendBytes (2 ^ 32)] []) = Some (c, t)
    \<and> tr_doRequest (server_callbacks app_adapter 0) False c t = (Inr (), c', t')
    \<and> tr_wire t' = [1, 2, 3] \<and> cn_messages c' = [] \<and> nb_empty (tr_sendBuffer t') \<and> cn_messageSize c' = 3"
proof -
  let ?s = "[SendPending, SendBytes (2 ^ 32), SendBytes (2 ^ 32)]"
  let ?c = "fst (accepted ?s [])" and ?t = "snd (accepted ?s [])" and ?es = "[Response [1, 2, 3]]"
  have "map_option (\<lambda>(c, t). (tr_wire t, tr_authLocal t, tr_sends t, cn_messages c, cn_messageSize c)) (conn_run app_adapter 0 ?es (?c, ?t))
      = Some ([], False, [SendBytes (2 ^ 32), SendBytes (2 ^ 32)], [0], 3)" by (simp add: run_simps)
  then obtain c t where r: "conn_run app_adapter 0 ?es (?c, ?t) = Some (c, t)" "tr_wire t = []" "\<not> tr_authLocal t"
    "tr_sends t = [SendBytes (2 ^ 32), SendBytes (2 ^ 32)]" "cn_messages c = [0]" "cn_messageSize c = 3" by auto
  have k: "conn_out c t \<and> (\<exists>x. tr_wire t = tr_wire ?t @ x \<and> unsent ?c ?t @ concat (map answer ?es) = x @ unsent c t)"
    using conn.run_law[of "(?c, ?t)" ?es app_adapter 0 "(c, t)"] accepted_out(1)[of ?s "[]"] r(1) by (simp add: conn_run_def split_def)
  then have "unsent c t = [1, 2, 3]" using r(2) accepted_out(2)[of ?s "[]"] by (auto simp: accepted_def)
  moreover have "willing (Suc (length (cn_messages c))) t" using r(4,5) by (simp add: willing_def)
  ultimately show ?thesis using drained_queue_keeps_size[of c t app_adapter 0 False] k r by auto
qed

section \<open>Slow clients\<close>

lemma non_decreasing_sorted: "non_decreasing ws \<longleftrightarrow> sorted (map snd ws)"
  by (induction ws rule: non_decreasing.induct) (auto simp: not_less)

text \<open>
  What \<^verbatim>\<open>checkFlow\<close> decides. A connection is given up only over the limit and at the end of a window: with -5
  exactly if the last three windows sent no more than the minimum each, else with -4 exactly if twelve windows are
  recorded and the backlog never shrank between them. Otherwise the result is 0 and nothing in the send buffer
  is touched; below the limit the record is cleared. At most eleven windows are kept.
\<close>

theorem checkFlow_decides:
  assumes "length (cn_checkSend c) \<le> 11" "checkFlow ba now lastLeft c sb = (ret, c', sb')"
  shows "let waiting = cn_messageSize c + of_nat (nb_length sb);
      over = (0 < ba_iBackPacketBuffLimit ba \<and> ba_iBackPacketBuffLimit ba < waiting);
      closing = (over \<and> cn_accumulateBufferSize c \<noteq> 0 \<and> 5 \<le> now - cn_lastCheckTime c);
      ws = cn_checkSend c @ [(cn_accumulateBufferSize c + (lastLeft - waiting), lastLeft)]
    in (ret = - 5 \<longleftrightarrow> closing \<and> 3 \<le> length ws \<and> (\<forall>w \<in> set (drop (length ws - 3) ws). fst w \<le> ba_iBackPacketBuffMin ba))
     \<and> (ret = - 4 \<longleftrightarrow> closing \<and> ret \<noteq> - 5 \<and> length ws = 12 \<and> sorted (map snd ws))
     \<and> ret \<in> {0, - 4, - 5} \<and> (ret = 0 \<longrightarrow> sb' = sb \<and> length (cn_checkSend c') \<le> 11)
     \<and> (\<not> over \<longrightarrow> cn_checkSend c' = [] \<and> cn_accumulateBufferSize c' = 0)"
proof -
  let ?w = "cn_messageSize c + of_nat (nb_length sb)"
  let ?ws = "cn_checkSend c @ [(cn_accumulateBufferSize c + (lastLeft - ?w), lastLeft)]"
  let ?over = "0 < ba_iBackPacketBuffLimit ba \<and> ba_iBackPacketBuffLimit ba < ?w"
  let ?closing = "?over \<and> cn_accumulateBufferSize c \<noteq> 0 \<and> 5 \<le> now - cn_lastCheckTime c"
  let ?slow = "3 \<le> length ?ws \<and> (\<forall>w \<in> set (drop (length ?ws - 3) ?ws). fst w \<le> ba_iBackPacketBuffMin ba)"
  let ?stuck = "length ?ws = 12 \<and> sorted (map snd ?ws)"
  have sl: "send_slow (ba_iBackPacketBuffMin ba) ?ws \<longleftrightarrow> ?slow" by (simp add: send_slow_def not_less)
  have "(ret = - 5 \<longleftrightarrow> ?closing \<and> ?slow) \<and> (ret = - 4 \<longleftrightarrow> ?closing \<and> ret \<noteq> - 5 \<and> ?stuck)
    \<and> ret \<in> {0, - 4, - 5} \<and> (ret = 0 \<longrightarrow> sb' = sb \<and> length (cn_checkSend c') \<le> 11)
    \<and> (\<not> ?over \<longrightarrow> cn_checkSend c' = [] \<and> cn_accumulateBufferSize c' = 0)"
  proof (cases ?over)
    case False
    then have "ret = 0 \<and> sb' = sb \<and> cn_checkSend c' = [] \<and> cn_accumulateBufferSize c' = 0"
      using assms(2) unfolding checkFlow_def Let_def by (subst (asm) if_not_P) auto
    then show ?thesis using False by auto
  next
    case over: True
    show ?thesis
    proof (cases ?closing)
      case False
      then have "ret = 0 \<and> sb' = sb \<and> cn_checkSend c' = cn_checkSend c"
        using assms(2) over by (cases "cn_accumulateBufferSize c = 0") (auto simp: checkFlow_def Let_def)
      then show ?thesis using False over assms(1) by auto
    next
      case True
      have r: "checkFlow ba now lastLeft c sb =
          (let c3 = c\<lparr>cn_lastCheckTime := now, cn_checkSend := ?ws, cn_accumulateBufferSize := 0\<rparr>
           in if send_slow (ba_iBackPacketBuffMin ba) ?ws then (- 5, c3, nb_clearBuffers sb)
              else if length ?ws \<ge> 12
              then if non_decreasing ?ws then (- 4, c3, nb_clearBuffers sb) else (0, c3\<lparr>cn_checkSend := tl ?ws\<rparr>, sb)
              else (0, c3, sb))"
        using True by (simp add: checkFlow_def Let_def)
      have l: "12 \<le> length ?ws \<longleftrightarrow> length ?ws = 12" using assms(1) by auto
      show ?thesis
      proof (cases ?slow)
        case s: True
        then have "ret = - 5" using r assms(2) sl by (simp add: Let_def)
        then show ?thesis using True s by simp
      next
        case s: False
        then have "(ret = - 4 \<longleftrightarrow> ?stuck) \<and> ret \<noteq> - 5 \<and> ret \<in> {0, - 4} \<and> (ret = 0 \<longrightarrow> sb' = sb \<and> length (cn_checkSend c') \<le> 11)"
          using assms(2) unfolding r sl Let_def non_decreasing_sorted l using assms(1) by (auto split: if_splits)
        then show ?thesis using True s by auto
      qed
    qed
  qed
  then show ?thesis unfolding Let_def .
qed

theorem checkFlow_decides_witness:
  "\<exists>c' sb'. checkFlow app_adapter 100 (2 ^ 21) ((fst (accepted [] []))\<lparr>cn_messageSize := 2 ^ 21 - 10, cn_accumulateBufferSize := 5,
      cn_lastCheckTime := 95, cn_checkSend := [(3, 0), (7, 0)]\<rparr>) NetWorkBuffer_new = (- 5, c', sb')"
proof -
  let ?c = "(fst (accepted [] []))\<lparr>cn_messageSize := 2 ^ 21 - 10, cn_accumulateBufferSize := 5, cn_lastCheckTime := 95, cn_checkSend := [(3, 0), (7, 0)]\<rparr>"
  obtain ret c' sb' where r: "checkFlow app_adapter 100 (2 ^ 21) ?c NetWorkBuffer_new = (ret, c', sb')"
    by (cases "checkFlow app_adapter 100 (2 ^ 21) ?c NetWorkBuffer_new")
  have "length (cn_checkSend ?c) \<le> 11" by simp
  from checkFlow_decides[OF this r] have "ret = - 5"
    by (simp add: Let_def app_adapter_def NetWorkBuffer_new_def)
  then show ?thesis using r by blast
qed

end
