(* ===== verification/Adapter_Proxy.thy ===== *)
theory Adapter_Proxy
  imports Tcp_Transceiver Timeout_Queue
begin

text \<open>
  The client's end of a connection (\<^verbatim>\<open>servant/AdapterProxy.cpp\<close>): it decides whether its server is alive, and it
  carries each request from the call to the response, the timeout or the error. Messages are addresses,
  as the code hands pointers around; \<open>ap_released\<close> records each time one is given back, by waking up the
  caller, by the callback or by its deletion. Statistics, logging, tracing and the notification of other
  adapters of the same server are not modelled.
\<close>

section \<open>State\<close>

text \<open>
  \<^verbatim>\<open>CheckTimeoutInfo\<close>. \<open>ci_radio f n\<close> is the comparison \<^verbatim>\<open>f >= radio * n\<close>, which the code does in single precision.
\<close>

record CheckTimeoutInfo =
  ci_minTimeoutInvoke :: "16 word"
  ci_checkTimeoutInterval :: "32 word"
  ci_frequenceFailInvoke :: "32 word"
  ci_minFrequenceFailTime :: "32 word"
  ci_radio :: "32 word \<Rightarrow> 32 word \<Rightarrow> bool"
  ci_tryTimeInterval :: "32 word"
  ci_maxConnectExc :: "32 word"

datatype CallType = SYNC_CALL | ASYNC_CALL | ONE_WAY
datatype ReqStatus = REQ_REQ | REQ_RSP | REQ_TIME | REQ_EXC

record ReqMessage =
  m_eStatus :: ReqStatus
  m_eType :: CallType
  m_bFromRpc :: bool
  m_iRequestId :: "32 word"
  m_iTimeout :: int
  m_iBeginTime :: int
  m_iRet :: int
  m_sReqData :: nat
  m_body :: "byte list"

datatype adapter_exn = TransExn trans_exn | TableExn tq_exn | AssertionFails | PushCallbackNull

record AdapterProxy =
  ap_requestMsg :: "nat option"
  ap_trans :: Transceiver
  ap_timeoutQueue :: "nat TimeoutQueue"
  ap_activeStatus :: bool
  ap_totalInvoke :: "32 word"
  ap_timeoutInvoke :: "32 word"
  ap_nextFinishInvokeTime :: int
  ap_frequenceFailInvoke :: "32 word"
  ap_frequenceFailTime :: int
  ap_nextRetryTime :: int
  ap_connExc :: bool
  ap_connExcCnt :: "32 word"
  ap_noSendQueueLimit :: nat
  ap_serial :: bool
  ap_pushCallback :: bool
  ap_info :: CheckTimeoutInfo
  ap_msgs :: "nat \<Rightarrow> ReqMessage"
  ap_released :: "nat list"
  ap_pushed :: nat

section \<open>Is the server alive?\<close>

definition resetRetryTime :: "int \<Rightarrow> bool \<Rightarrow> AdapterProxy \<Rightarrow> AdapterProxy" where
  "resetRetryTime now next a =
     (if next then a\<lparr>ap_nextRetryTime := now + uint (ci_tryTimeInterval (ap_info a))\<rparr>
      else a\<lparr>ap_nextRetryTime := now\<rparr>)"

definition onSetInactive :: "int \<Rightarrow> AdapterProxy \<Rightarrow> AdapterProxy" where
  "onSetInactive now a =
     (let b = resetRetryTime now True (a\<lparr>ap_activeStatus := False\<rparr>)
      in b\<lparr>ap_trans := tr_close (ap_trans b)\<rparr>)"

definition setInactive :: "int \<Rightarrow> AdapterProxy \<Rightarrow> AdapterProxy" where
  "setInactive now a = onSetInactive now a"

definition addConnExc :: "int \<Rightarrow> bool \<Rightarrow> AdapterProxy \<Rightarrow> AdapterProxy" where
  "addConnExc now bExc a =
     (if bExc
      then if ap_connExc a then a
           else let b = a\<lparr>ap_connExcCnt := ap_connExcCnt a + 1\<rparr>
                in if ap_connExcCnt b \<ge> ci_maxConnectExc (ap_info b)
                   then (setInactive now b)\<lparr>ap_connExc := True\<rparr> else b
      else a\<lparr>ap_connExc := False, ap_connExcCnt := 0, ap_activeStatus := True\<rparr>)"

text \<open>\<^verbatim>\<open>finishInvoke(bool)\<close>, the record of one result at the time \<open>now\<close>. The counters are 32 bits wide.\<close>

definition finishInvoke_bool :: "int \<Rightarrow> bool \<Rightarrow> AdapterProxy \<Rightarrow> AdapterProxy" where
  "finishInvoke_bool now bFail a =
     (let info = ap_info a
      in if \<not> ap_activeStatus a
         then if \<not> bFail
              then a\<lparr>ap_activeStatus := True, ap_frequenceFailInvoke := 0,
                     ap_nextFinishInvokeTime := now + uint (ci_checkTimeoutInterval info),
                     ap_totalInvoke := 1, ap_timeoutInvoke := 0,
                     ap_trans := (ap_trans a)\<lparr>tr_isConnTimeout := False\<rparr>, ap_connExc := False\<rparr>
              else a
         else
           let b = a\<lparr>ap_totalInvoke := ap_totalInvoke a + 1\<rparr>;
               c = (if bFail
                    then let c1 = b\<lparr>ap_timeoutInvoke := ap_timeoutInvoke b + 1\<rparr>;
                             c2 = (if ap_frequenceFailInvoke c1 = 0
                                   then c1\<lparr>ap_frequenceFailTime := now + uint (ci_minFrequenceFailTime info)\<rparr> else c1)
                         in c2\<lparr>ap_frequenceFailInvoke := ap_frequenceFailInvoke c2 + 1\<rparr>
                    else b\<lparr>ap_frequenceFailInvoke := 0\<rparr>)
           in if bFail \<and> ap_frequenceFailInvoke c \<ge> ci_frequenceFailInvoke info
                 \<and> (now \<ge> ap_frequenceFailTime c \<or> ci_frequenceFailInvoke info = 1)
              then resetRetryTime now True ((setInactive now c)\<lparr>ap_activeStatus := False\<rparr>)
              else if now > ap_nextFinishInvokeTime c
              then let d = c\<lparr>ap_nextFinishInvokeTime := now + uint (ci_checkTimeoutInterval info)\<rparr>
                   in if bFail \<and> ap_timeoutInvoke d \<ge> ucast (ci_minTimeoutInvoke info)
                         \<and> ci_radio info (ap_timeoutInvoke d) (ap_totalInvoke d)
                      then setInactive now d
                      else d\<lparr>ap_totalInvoke := 0, ap_timeoutInvoke := 0\<rparr>
              else c)"

text \<open>
  \<^verbatim>\<open>checkActive\<close>. \<open>conn\<close> is what \<^verbatim>\<open>connect\<close> would do: \<open>Some b\<close> with \<open>b\<close> for a connection made at once, or \<open>None\<close> for an
  exception.
\<close>

definition checkActive :: "int \<Rightarrow> bool option \<Rightarrow> bool \<Rightarrow> AdapterProxy \<Rightarrow> bool \<times> AdapterProxy" where
  "checkActive now conn connecting a =
     (if \<not> connecting \<and> \<not> ap_activeStatus a \<and> now < ap_nextRetryTime a then (False, a)
      else
        let b = (if \<not> ap_activeStatus a then resetRetryTime now True a else a);
            c = (if \<not> tr_isValid (ap_trans b)
                 then (case conn of
                         Some bConnected \<Rightarrow> b\<lparr>ap_trans := tr_connect bConnected (ap_trans b)\<rparr>
                       | None \<Rightarrow> b\<lparr>ap_activeStatus := False, ap_trans := tr_close (ap_trans b)\<rparr>)
                 else b)
        in if connecting \<and> ap_activeStatus c
           then (tr_hasConnected (ap_trans c) \<or> tr_isConnecting (ap_trans c), c)
           else (tr_hasConnected (ap_trans c), c))"

section \<open>The life of a request\<close>

text \<open>
  \<^verbatim>\<open>finishInvoke(ReqMessage*)\<close> gives the message back, after its result was counted, unless the client
  itself refused it. \<open>now\<close> is the time in seconds.
\<close>

definition msg_update :: "nat \<Rightarrow> (ReqMessage \<Rightarrow> ReqMessage) \<Rightarrow> AdapterProxy \<Rightarrow> AdapterProxy" where
  "msg_update m f a = a\<lparr>ap_msgs := (ap_msgs a)(m := f (ap_msgs a m))\<rparr>"

definition finishInvoke_msg :: "int \<Rightarrow> nat \<Rightarrow> AdapterProxy \<Rightarrow> AdapterProxy" where
  "finishInvoke_msg now m a =
     (let b = (if m_eStatus (ap_msgs a m) \<noteq> REQ_EXC then finishInvoke_bool now (m_iRet (ap_msgs a m) \<noteq> 0) a else a)
      in b\<lparr>ap_released := ap_released b @ [m]\<rparr>)"

text \<open>\<^verbatim>\<open>sReqData = requestFunc(request, trans)\<close>: a new block; \<open>enc\<close> is the protocol's encoder.\<close>

definition encode_request :: "(ReqMessage \<Rightarrow> byte list) \<Rightarrow> nat \<Rightarrow> AdapterProxy \<Rightarrow> AdapterProxy" where
  "encode_request enc m a =
     (case nb_alloc (bf_replaceBuffer (enc (ap_msgs a m)) Buffer_new) (tr_sendBuffer (ap_trans a)) of
        (x, sb) \<Rightarrow> msg_update m (\<lambda>r. r\<lparr>m_sReqData := x\<rparr>) (a\<lparr>ap_trans := (ap_trans a)\<lparr>tr_sendBuffer := sb\<rparr>\<rparr>))"

definition send_msg :: "nat \<Rightarrow> AdapterProxy \<Rightarrow> (adapter_exn + ReturnStatus) \<times> AdapterProxy" where
  "send_msg m a = (case tr_sendRequest (m_sReqData (ap_msgs a m)) (ap_trans a) of
     (Inl e, t) \<Rightarrow> (Inl (TransExn e), a\<lparr>ap_trans := t\<rparr>)
   | (Inr r, t) \<Rightarrow> (Inr r, a\<lparr>ap_trans := t\<rparr>))"

text \<open>The entry in the table, or the refusal when the id is taken.\<close>

definition push_msg :: "nat \<Rightarrow> int \<Rightarrow> nat \<Rightarrow> bool \<Rightarrow> AdapterProxy \<Rightarrow> bool \<times> AdapterProxy" where
  "push_msg junk now m hasSend a =
     (let r = ap_msgs a m
      in case tq_push junk m (m_iRequestId r) (m_iTimeout r + m_iBeginTime r) hasSend (ap_timeoutQueue a) of
           (bFlag, q) \<Rightarrow> (bFlag, a\<lparr>ap_timeoutQueue := q\<rparr>))"

definition refuse :: "int \<Rightarrow> nat \<Rightarrow> AdapterProxy \<Rightarrow> AdapterProxy" where
  "refuse now m a = finishInvoke_msg now m (msg_update m (\<lambda>r. r\<lparr>m_eStatus := REQ_EXC\<rparr>) a)"

definition generate_id :: "nat \<Rightarrow> AdapterProxy \<Rightarrow> AdapterProxy" where
  "generate_id m a = (case tq_generateId (ap_timeoutQueue a) of
     (i, q) \<Rightarrow> msg_update m (\<lambda>r. r\<lparr>m_iRequestId := i\<rparr>) (a\<lparr>ap_timeoutQueue := q\<rparr>))"

definition queue_unsent :: "nat \<Rightarrow> int \<Rightarrow> nat \<Rightarrow> AdapterProxy \<Rightarrow> (adapter_exn + int) \<times> AdapterProxy" where
  "queue_unsent junk now m a = (case push_msg junk now m False a of
     (bFlag, b) \<Rightarrow> (Inr 0, if bFlag then b else refuse now m b))"

definition invoke_connection_serial ::
    "(ReqMessage \<Rightarrow> byte list) \<Rightarrow> nat \<Rightarrow> int \<Rightarrow> nat \<Rightarrow> AdapterProxy \<Rightarrow> (adapter_exn + int) \<times> AdapterProxy" where
  "invoke_connection_serial enc junk now m a =
     (if m_eType (ap_msgs a m) = ONE_WAY then (Inl AssertionFails, a)
      else
        let b = generate_id m (encode_request enc m a)
        in if ap_requestMsg b = None \<and> tq_sendListEmpty (ap_timeoutQueue b)
           then (case send_msg m b of
                   (Inl e, c) \<Rightarrow> (Inl e, c)
                 | (Inr ret, c) \<Rightarrow>
                     if ret = eRetOk \<or> ret = eRetFull
                     then (case push_msg junk now m True (c\<lparr>ap_requestMsg := Some m\<rparr>) of
                             (bFlag, d) \<Rightarrow> (Inr 0, if bFlag then d else refuse now m (d\<lparr>ap_requestMsg := None\<rparr>)))
                     else if ret = eRetError then (Inr (- 1), refuse now m (c\<lparr>ap_requestMsg := None\<rparr>))
                     else queue_unsent junk now m c)
           else queue_unsent junk now m b)"

definition invoke_connection_parallel ::
    "(ReqMessage \<Rightarrow> byte list) \<Rightarrow> nat \<Rightarrow> int \<Rightarrow> nat \<Rightarrow> AdapterProxy \<Rightarrow> (adapter_exn + int) \<times> AdapterProxy" where
  "invoke_connection_parallel enc junk now m a =
     (let b = encode_request enc m a
      in if tq_sendListEmpty (ap_timeoutQueue b)
         then (case send_msg m b of
                 (Inl e, c) \<Rightarrow> (Inl e, c)
               | (Inr ret, c) \<Rightarrow>
                   if ret = eRetOk \<or> ret = eRetFull
                   then if m_eType (ap_msgs c m) = ONE_WAY
                        then (Inr 0, c\<lparr>ap_released := ap_released c @ [m]\<rparr>)
                        else (case push_msg junk now m True c of
                                (bFlag, d) \<Rightarrow> (Inr 0, if bFlag then d else refuse now m d))
                   else if ret = eRetError then (Inr (- 1), refuse now m c)
                   else queue_unsent junk now m c)
         else queue_unsent junk now m b)"

abbreviation TARSSENDREQUESTERR :: int where "TARSSENDREQUESTERR \<equiv> - 13"
abbreviation TARSASYNCCALLTIMEOUT :: int where "TARSASYNCCALLTIMEOUT \<equiv> - 7"
abbreviation TARSPROXYCONNECTERR :: int where "TARSPROXYCONNECTERR \<equiv> - 8"

definition ap_invoke ::
    "(ReqMessage \<Rightarrow> byte list) \<Rightarrow> nat \<Rightarrow> int \<Rightarrow> nat \<Rightarrow> AdapterProxy \<Rightarrow> (adapter_exn + int) \<times> AdapterProxy" where
  "ap_invoke enc junk now m a =
     (if tq_getSendListSize (ap_timeoutQueue a) > ap_noSendQueueLimit a
      then (Inr 0, refuse now m (msg_update m (\<lambda>r. r\<lparr>m_iRet := TARSSENDREQUESTERR\<rparr>) a))
      else
        let b = (if \<not> m_bFromRpc (ap_msgs a m) then generate_id m a else a)
        in if ap_serial b then invoke_connection_serial enc junk now m b
           else invoke_connection_parallel enc junk now m b)"

text \<open>When the connection can take more. In the serial mode one request is under way at a time.\<close>

definition doInvoke_serial :: "int \<Rightarrow> AdapterProxy \<Rightarrow> (adapter_exn + unit) \<times> AdapterProxy" where
  "doInvoke_serial now a =
     (if ap_requestMsg a \<noteq> None \<or> tq_sendListEmpty (ap_timeoutQueue a) then (Inr (), a)
      else case tq_getSend (ap_timeoutQueue a) of
        Inl e \<Rightarrow> (Inl (TableExn e), a)
      | Inr None \<Rightarrow> (Inl AssertionFails, a)
      | Inr (Some m) \<Rightarrow>
          (case send_msg m a of
             (Inl e, b) \<Rightarrow> (Inl e, b)
           | (Inr iRet, b) \<Rightarrow>
               if iRet = eRetError
               then (case tq_popSend True (ap_timeoutQueue b) of
                       Inl e \<Rightarrow> (Inl (TableExn e), b)
                     | Inr q \<Rightarrow>
                         (Inr (), finishInvoke_msg now m (msg_update m (\<lambda>r. r\<lparr>m_iRet := TARSSENDREQUESTERR\<rparr>)
                            (b\<lparr>ap_requestMsg := None, ap_timeoutQueue := q\<rparr>))))
               else if iRet = eRetOk \<or> iRet = eRetFull
               then (case tq_popSend False (ap_timeoutQueue b) of
                       Inl e \<Rightarrow> (Inl (TableExn e), b)
                     | Inr q \<Rightarrow> (Inr (), b\<lparr>ap_requestMsg := Some m, ap_timeoutQueue := q\<rparr>))
               else (Inr (), b)))"

lemma send_msg_table: "send_msg m a = (r, b) \<Longrightarrow> ap_timeoutQueue b = ap_timeoutQueue a"
  by (auto simp: send_msg_def split: prod.splits sum.splits)

lemma tq_popSend_shrinks: "tq_popSend del q = Inr q' \<Longrightarrow> length (tq_send q') < length (tq_send q)"
  by (cases "tq_send q = []") (auto simp: tq_popSend_def Let_def tq_ebind_def split: sum.splits if_splits prod.splits)

function doInvoke_parallel :: "AdapterProxy \<Rightarrow> (adapter_exn + unit) \<times> AdapterProxy" where
  "doInvoke_parallel a =
     (if tq_sendListEmpty (ap_timeoutQueue a) then (Inr (), a)
      else case tq_getSend (ap_timeoutQueue a) of
        Inl e \<Rightarrow> (Inl (TableExn e), a)
      | Inr None \<Rightarrow> (Inl AssertionFails, a)
      | Inr (Some m) \<Rightarrow>
          (case send_msg m a of
             (Inl e, b) \<Rightarrow> (Inl e, b)
           | (Inr iRet, b) \<Rightarrow>
               if iRet = eRetError \<or> iRet = eRetNotSend then (Inr (), b)
               else (case tq_popSend (m_eType (ap_msgs b m) = ONE_WAY) (ap_timeoutQueue b) of
                       Inl e \<Rightarrow> (Inl (TableExn e), b)
                     | Inr q \<Rightarrow>
                         let c = b\<lparr>ap_timeoutQueue := q\<rparr>;
                             d = (if m_eType (ap_msgs b m) = ONE_WAY then c\<lparr>ap_released := ap_released c @ [m]\<rparr> else c)
                         in if iRet = eRetFull then (Inr (), d) else doInvoke_parallel d)))"
  by pat_completeness auto
termination
  by (relation "measure (\<lambda>a. length (tq_send (ap_timeoutQueue a)))")
    (auto dest!: tq_popSend_shrinks send_msg_table[OF sym])

declare doInvoke_parallel.simps [simp del]

definition doInvoke :: "int \<Rightarrow> AdapterProxy \<Rightarrow> (adapter_exn + unit) \<times> AdapterProxy" where
  "doInvoke now a = (if ap_serial a then doInvoke_serial now a else doInvoke_parallel a)"

text \<open>A response with the id \<open>i\<close> and the result \<open>ret\<close> has arrived.\<close>

definition finishInvoke_serial :: "int \<Rightarrow> int \<Rightarrow> AdapterProxy \<Rightarrow> (adapter_exn + unit) \<times> AdapterProxy" where
  "finishInvoke_serial now ret a = (case ap_requestMsg a of
     None \<Rightarrow> (Inr (), a)
   | Some m \<Rightarrow>
       (case tq_erase (m_iRequestId (ap_msgs a m)) (ap_timeoutQueue a) of
          Inl e \<Rightarrow> (Inl (TableExn e), a)
        | Inr (r, q) \<Rightarrow>
            if r \<noteq> Some m \<or> m_eType (ap_msgs a m) = ONE_WAY \<or> m_eStatus (ap_msgs a m) \<noteq> REQ_REQ
            then (Inl AssertionFails, a\<lparr>ap_timeoutQueue := q\<rparr>)
            else (Inr (), finishInvoke_msg now m (msg_update m (\<lambda>x. x\<lparr>m_eStatus := REQ_RSP, m_iRet := ret\<rparr>)
                    (a\<lparr>ap_timeoutQueue := q, ap_requestMsg := None\<rparr>)))))"

definition finishInvoke_parallel :: "int \<Rightarrow> 32 word \<Rightarrow> int \<Rightarrow> AdapterProxy \<Rightarrow> (adapter_exn + unit) \<times> AdapterProxy" where
  "finishInvoke_parallel now i ret a =
     (if i = 0
      then if \<not> ap_pushCallback a then (Inl PushCallbackNull, a) else (Inr (), a\<lparr>ap_pushed := ap_pushed a + 1\<rparr>)
      else case tq_erase i (ap_timeoutQueue a) of
        Inl e \<Rightarrow> (Inl (TableExn e), a)
      | Inr (None, q) \<Rightarrow> (Inr (), a\<lparr>ap_timeoutQueue := q\<rparr>)
      | Inr (Some m, q) \<Rightarrow>
          if m_eStatus (ap_msgs a m) \<noteq> REQ_REQ then (Inl AssertionFails, a\<lparr>ap_timeoutQueue := q\<rparr>)
          else (Inr (), finishInvoke_msg now m (msg_update m (\<lambda>x. x\<lparr>m_eStatus := REQ_RSP, m_iRet := ret\<rparr>)
                  (a\<lparr>ap_timeoutQueue := q\<rparr>))))"

definition finishInvoke_rsp :: "int \<Rightarrow> 32 word \<Rightarrow> int \<Rightarrow> AdapterProxy \<Rightarrow> (adapter_exn + unit) \<times> AdapterProxy" where
  "finishInvoke_rsp now i ret a = (if ap_serial a then finishInvoke_serial now ret a else finishInvoke_parallel now i ret a)"

text \<open>\<^verbatim>\<open>doTimeout\<close> at the time \<open>ms\<close> in milliseconds. Each round takes an entry off the table.\<close>

definition timeout_msg :: "int \<Rightarrow> nat \<Rightarrow> AdapterProxy \<Rightarrow> AdapterProxy" where
  "timeout_msg now m a =
     (let b = (if ap_requestMsg a = Some m then a\<lparr>ap_requestMsg := None, ap_trans := tr_close (ap_trans a)\<rparr> else a);
          c = msg_update m (\<lambda>x. x\<lparr>m_eStatus := REQ_TIME\<rparr>) b;
          d = (case m_eType (ap_msgs c m) of
                 ASYNC_CALL \<Rightarrow> msg_update m (\<lambda>x. x\<lparr>m_iRet := if ap_connExcCnt c > 0 then TARSPROXYCONNECTERR else TARSASYNCCALLTIMEOUT\<rparr>) c
               | SYNC_CALL \<Rightarrow> msg_update m (\<lambda>x. x\<lparr>m_iRet := TARSASYNCCALLTIMEOUT\<rparr>) c
               | ONE_WAY \<Rightarrow> c)
      in finishInvoke_msg now m d)"

lemma keeps_table [simp]:
  "ap_timeoutQueue (msg_update m f a) = ap_timeoutQueue a"
  "ap_timeoutQueue (resetRetryTime now b a) = ap_timeoutQueue a"
  "ap_timeoutQueue (setInactive now a) = ap_timeoutQueue a"
  "ap_timeoutQueue (finishInvoke_bool now b a) = ap_timeoutQueue a"
  "ap_timeoutQueue (finishInvoke_msg now m a) = ap_timeoutQueue a"
  "ap_timeoutQueue (timeout_msg now m a) = ap_timeoutQueue a"
proof -
  show r: "ap_timeoutQueue (resetRetryTime now b a) = ap_timeoutQueue a" for a b by (simp add: resetRetryTime_def)
  show m: "ap_timeoutQueue (msg_update m f a) = ap_timeoutQueue a" for a f by (simp add: msg_update_def)
  show s: "ap_timeoutQueue (setInactive now a) = ap_timeoutQueue a" for a by (simp add: setInactive_def onSetInactive_def r Let_def)
  show b: "ap_timeoutQueue (finishInvoke_bool now b a) = ap_timeoutQueue a" for b a
    by (simp add: finishInvoke_bool_def r s Let_def)
  show f: "ap_timeoutQueue (finishInvoke_msg now m a) = ap_timeoutQueue a" for a by (simp add: finishInvoke_msg_def b Let_def)
  show "ap_timeoutQueue (timeout_msg now m a) = ap_timeoutQueue a"
    by (simp add: timeout_msg_def f m Let_def split: CallType.split)
qed

function doTimeout :: "int \<Rightarrow> int \<Rightarrow> AdapterProxy \<Rightarrow> (adapter_exn + unit) \<times> AdapterProxy" where
  "doTimeout ms now a = (case tq_timeout1 ms (ap_timeoutQueue a) of
     Inl e \<Rightarrow> (Inl (TableExn e), a)
   | Inr (None, q) \<Rightarrow> (Inr (), a\<lparr>ap_timeoutQueue := q\<rparr>)
   | Inr (Some m, q) \<Rightarrow> doTimeout ms now (timeout_msg now m (a\<lparr>ap_timeoutQueue := q\<rparr>)))"
  by pat_completeness auto
termination
  by (relation "measure (\<lambda>(_, _, a). length (tq_time (ap_timeoutQueue a)))") (auto dest: tq_timeout1_shrinks)

declare doTimeout.simps [simp del]

section \<open>Giving a server up and taking it back\<close>

lemma tr_close_closed: "\<not> tr_isValid (tr_close t)"
  by (simp add: tr_close_def tr_tcpClose_def tr_isValid_def)

lemma setInactive_fields [simp]:
  "ap_activeStatus (setInactive now a) = False" "\<not> tr_isValid (ap_trans (setInactive now a))"
  "ap_nextRetryTime (setInactive now a) = now + uint (ci_tryTimeInterval (ap_info a))"
  "ap_info (setInactive now a) = ap_info a"
  by (simp_all add: setInactive_def onSetInactive_def resetRetryTime_def Let_def tr_close_closed)

text \<open>
  The counters after one more result for an active server: the failures in a row, and whether the server
  is given up for these or for the share of failures.
\<close>

definition row_limit :: "int \<Rightarrow> AdapterProxy \<Rightarrow> bool" where
  "row_limit now a \<longleftrightarrow> ci_frequenceFailInvoke (ap_info a) \<le> ap_frequenceFailInvoke a + 1 \<and>
     ((if ap_frequenceFailInvoke a = 0 then now + uint (ci_minFrequenceFailTime (ap_info a)) else ap_frequenceFailTime a) \<le> now
      \<or> ci_frequenceFailInvoke (ap_info a) = 1)"

definition share_limit :: "int \<Rightarrow> AdapterProxy \<Rightarrow> bool" where
  "share_limit now a \<longleftrightarrow> ap_nextFinishInvokeTime a < now \<and> ucast (ci_minTimeoutInvoke (ap_info a)) \<le> ap_timeoutInvoke a + 1 \<and>
     ci_radio (ap_info a) (ap_timeoutInvoke a + 1) (ap_totalInvoke a + 1)"

definition counted :: "int \<Rightarrow> AdapterProxy \<Rightarrow> AdapterProxy" where
  "counted now a = a\<lparr>ap_totalInvoke := ap_totalInvoke a + 1, ap_timeoutInvoke := ap_timeoutInvoke a + 1,
     ap_frequenceFailTime := (if ap_frequenceFailInvoke a = 0 then now + uint (ci_minFrequenceFailTime (ap_info a)) else ap_frequenceFailTime a),
     ap_frequenceFailInvoke := ap_frequenceFailInvoke a + 1\<rparr>"

lemma finishInvoke_bool_fail:
  assumes "ap_activeStatus a"
  shows "finishInvoke_bool now True a =
    (if row_limit now a then resetRetryTime now True ((setInactive now (counted now a))\<lparr>ap_activeStatus := False\<rparr>)
     else if ap_nextFinishInvokeTime a < now
     then let d = (counted now a)\<lparr>ap_nextFinishInvokeTime := now + uint (ci_checkTimeoutInterval (ap_info a))\<rparr>
          in if share_limit now a then setInactive now d else d\<lparr>ap_totalInvoke := 0, ap_timeoutInvoke := 0\<rparr>
     else counted now a)"
proof (cases "ap_frequenceFailInvoke a = 0")
  case True
  then show ?thesis using assms
    by (auto simp: finishInvoke_bool_def Let_def row_limit_def share_limit_def counted_def)
next
  case False
  then have "counted now a = a\<lparr>ap_totalInvoke := ap_totalInvoke a + 1, ap_timeoutInvoke := ap_timeoutInvoke a + 1,
     ap_frequenceFailInvoke := ap_frequenceFailInvoke a + 1\<rparr>" by (simp add: counted_def)
  then show ?thesis using assms False
    by (auto simp: finishInvoke_bool_def Let_def row_limit_def share_limit_def)
qed

lemma finishInvoke_bool_fails:
  assumes "ap_activeStatus a"
  shows "ap_activeStatus (finishInvoke_bool now True a) \<longleftrightarrow> \<not> row_limit now a \<and> \<not> share_limit now a"
    "ap_activeStatus (finishInvoke_bool now True a) \<Longrightarrow> ap_frequenceFailInvoke (finishInvoke_bool now True a) = ap_frequenceFailInvoke a + 1"
    "ap_activeStatus (finishInvoke_bool now True a) \<Longrightarrow> ap_frequenceFailTime (finishInvoke_bool now True a)
       = (if ap_frequenceFailInvoke a = 0 then now + uint (ci_minFrequenceFailTime (ap_info a)) else ap_frequenceFailTime a)"
proof -
  note e = finishInvoke_bool_fail[OF assms, of now]
  have act: "ap_activeStatus (counted now a)" using assms by (simp add: counted_def)
  show st: "ap_activeStatus (finishInvoke_bool now True a) \<longleftrightarrow> \<not> row_limit now a \<and> \<not> share_limit now a"
    unfolding e using act by (simp add: Let_def resetRetryTime_def share_limit_def)
  assume "ap_activeStatus (finishInvoke_bool now True a)"
  then have n: "\<not> row_limit now a" "\<not> share_limit now a" using st by simp_all
  show "ap_frequenceFailInvoke (finishInvoke_bool now True a) = ap_frequenceFailInvoke a + 1"
    "ap_frequenceFailTime (finishInvoke_bool now True a)
       = (if ap_frequenceFailInvoke a = 0 then now + uint (ci_minFrequenceFailTime (ap_info a)) else ap_frequenceFailTime a)"
    unfolding e using n by (simp_all add: Let_def counted_def)
qed

lemma finishInvoke_bool_succeeds:
  "ap_activeStatus (finishInvoke_bool now False a)" "ap_frequenceFailInvoke (finishInvoke_bool now False a) = 0"
  by (auto simp: finishInvoke_bool_def Let_def)

lemma finishInvoke_bool_inactive: "\<not> ap_activeStatus a \<Longrightarrow> finishInvoke_bool now True a = a"
  by (simp add: finishInvoke_bool_def Let_def)

lemma finishInvoke_bool_info [simp]: "ap_info (finishInvoke_bool now b a) = ap_info a"
  by (simp add: finishInvoke_bool_def Let_def resetRetryTime_def)

text \<open>A row of failures at the times \<open>ts\<close>.\<close>

fun failures :: "int list \<Rightarrow> AdapterProxy \<Rightarrow> AdapterProxy" where
  "failures [] a = a"
| "failures (t # ts) a = failures ts (finishInvoke_bool t True a)"

lemma failures_inactive: "\<not> ap_activeStatus a \<Longrightarrow> failures ts a = a"
  by (induction ts) (simp_all add: finishInvoke_bool_inactive)

lemma failures_row:
  assumes "ap_frequenceFailTime a \<le> last ts" "ts \<noteq> []" "ap_frequenceFailInvoke a \<noteq> 0"
    "unat (ap_frequenceFailInvoke a) + length ts < 2 ^ 32"
    "unat (ci_frequenceFailInvoke (ap_info a)) \<le> unat (ap_frequenceFailInvoke a) + length ts"
  shows "\<not> ap_activeStatus (failures ts a)"
  using assms
proof (induction ts arbitrary: a)
  case (Cons t ts)
  let ?b = "finishInvoke_bool t True a"
  show ?case
  proof (cases "ap_activeStatus a")
    case False
    then show ?thesis by (simp add: failures_inactive finishInvoke_bool_inactive)
  next
    case act: True
    note f = finishInvoke_bool_fails[OF act, of t]
    have u: "unat (ap_frequenceFailInvoke a + 1) = unat (ap_frequenceFailInvoke a) + 1"
      using Cons.prems(4) by (simp add: unat_word_ariths)
    show ?thesis
    proof (cases "ap_activeStatus ?b")
      case False
      then show ?thesis by (simp add: failures_inactive)
    next
      case True
      show ?thesis
      proof (cases "ts = []")
        case n: True
        have "row_limit t a" using Cons.prems n u by (auto simp: row_limit_def word_le_nat_alt)
        then show ?thesis using True f(1) by blast
      next
        case n: False
        have i: "ap_frequenceFailInvoke ?b \<noteq> 0"
        proof
          assume "ap_frequenceFailInvoke ?b = 0"
          then have "unat (ap_frequenceFailInvoke a + 1) = 0" using f(2)[OF True] by simp
          then show False using u by simp
        qed
        have "\<not> ap_activeStatus (failures ts ?b)"
          using Cons.IH[of ?b] Cons.prems n i f(2,3)[OF True] u by simp
        then show ?thesis by simp
      qed
    qed
  qed
qed simp

lemma failures_closed: "ap_activeStatus a \<Longrightarrow> \<not> ap_activeStatus (failures ts a) \<Longrightarrow> \<not> tr_isValid (ap_trans (failures ts a))"
proof (induction ts arbitrary: a)
  case (Cons t ts)
  let ?b = "finishInvoke_bool t True a"
  show ?case
  proof (cases "ap_activeStatus ?b")
    case True
    then show ?thesis using Cons by simp
  next
    case False
    have "\<not> tr_isValid (ap_trans ?b)"
      using False finishInvoke_bool_fails(1)[OF Cons.prems(1), of t] finishInvoke_bool_fail[OF Cons.prems(1), of t]
      by (auto simp: Let_def resetRetryTime_def share_limit_def)
    then show ?thesis using False by (simp add: failures_inactive)
  qed
qed simp

text \<open>
  C28. A server that keeps failing is given up: after a success, failures only, at least as many as
  \<^verbatim>\<open>frequenceFailInvoke\<close> and over at least \<^verbatim>\<open>minFrequenceFailTime\<close> seconds (one is enough if the number is one), leave the
  adapter inactive and its connection closed. The counter of the row is 32 bits wide.
\<close>

theorem failing_server_given_up:
  assumes "ts \<noteq> []" "unat (ci_frequenceFailInvoke (ap_info a)) \<le> length ts" "length ts < 2 ^ 32"
    "hd ts + uint (ci_minFrequenceFailTime (ap_info a)) \<le> last ts \<or> ci_frequenceFailInvoke (ap_info a) = 1"
  shows "\<not> ap_activeStatus (failures ts (finishInvoke_bool now False a))
    \<and> \<not> tr_isValid (ap_trans (failures ts (finishInvoke_bool now False a)))"
proof -
  let ?a = "finishInvoke_bool now False a"
  obtain t us where ts: "ts = t # us" using assms(1) by (cases ts) auto
  let ?b = "finishInvoke_bool t True ?a"
  note s = finishInvoke_bool_succeeds[of now a]
  note f = finishInvoke_bool_fails[OF s(1), of t]
  have "\<not> ap_activeStatus (failures us ?b)"
  proof (cases "ap_activeStatus ?b")
    case False
    then show ?thesis by (simp add: failures_inactive)
  next
    case True
    then have r: "\<not> row_limit t ?a" using f(1) by blast
    have n: "us \<noteq> []"
    proof
      assume "us = []"
      then have "row_limit t ?a" using assms(2,4) ts s(2) by (auto simp: row_limit_def word_le_nat_alt)
      then show False using r by blast
    qed
    have one: "ci_frequenceFailInvoke (ap_info a) \<noteq> 1" using r s(2) by (auto simp: row_limit_def)
    show ?thesis
      using failures_row[of ?b us] n one assms(2-4) ts f(2,3)[OF True] s(2) by simp
  qed
  then show ?thesis using ts failures_closed[OF s(1), of ts] by simp
qed

text \<open>The default limits, with the share of failures as a quotient, on a connected adapter.\<close>

definition default_info :: CheckTimeoutInfo where
  "default_info = \<lparr>ci_minTimeoutInvoke = 2, ci_checkTimeoutInterval = 5, ci_frequenceFailInvoke = 3, ci_minFrequenceFailTime = 2,
     ci_radio = (\<lambda>f n. 3 * unat n \<le> 10 * unat f), ci_tryTimeInterval = 10, ci_maxConnectExc = 1\<rparr>"

definition new_msg :: "CallType \<Rightarrow> byte list \<Rightarrow> ReqMessage" where
  "new_msg ty body = \<lparr>m_eStatus = REQ_REQ, m_eType = ty, m_bFromRpc = False, m_iRequestId = 0, m_iTimeout = 3000, m_iBeginTime = 0,
     m_iRet = 0, m_sReqData = 0, m_body = body\<rparr>"

definition connected_adapter :: "bool \<Rightarrow> send_outcome list \<Rightarrow> AdapterProxy" where
  "connected_adapter serial sends =
     \<lparr>ap_requestMsg = None,
      ap_trans = \<lparr>tr_fd = True, tr_connStatus = eConnected, tr_authLocal = False, tr_authSucc = False, tr_isConnTimeout = False,
        tr_sendBuffer = NetWorkBuffer_new, tr_recvBuffer = NetWorkBuffer_new, tr_sends = sends, tr_recvs = [], tr_wire = [], tr_closed = 0\<rparr>,
      ap_timeoutQueue = TimeoutQueue_new, ap_activeStatus = True, ap_totalInvoke = 0, ap_timeoutInvoke = 0, ap_nextFinishInvokeTime = 0,
      ap_frequenceFailInvoke = 0, ap_frequenceFailTime = 0, ap_nextRetryTime = 0, ap_connExc = False, ap_connExcCnt = 0,
      ap_noSendQueueLimit = 100000, ap_serial = serial, ap_pushCallback = False, ap_info = default_info,
      ap_msgs = (\<lambda>m. new_msg (if even m then SYNC_CALL else ASYNC_CALL) [of_nat m]), ap_released = [], ap_pushed = 0\<rparr>"

theorem failing_server_given_up_witness:
  "\<not> ap_activeStatus (failures [1, 2, 3] (finishInvoke_bool 0 False (connected_adapter False [])))
    \<and> \<not> tr_isValid (ap_trans (failures [1, 2, 3] (finishInvoke_bool 0 False (connected_adapter False []))))"
  by (rule failing_server_given_up) (simp_all add: connected_adapter_def default_info_def)



end
