(* ===== verification/Request_Flow.thy ===== *)
theory Request_Flow
  imports Adapter_Proxy
begin

text \<open>
  What becomes of a request in \<^verbatim>\<open>AdapterProxy\<close>: the invariant between the table of outstanding requests, the messages
  and the ones given back, that every operation keeps it, and what follows for any sequence of events.
\<close>

section \<open>Every request is given back once\<close>

text \<open>
  The invariant of the requests, over the parts of the adapter it is about: the table is well-formed, its
  messages wait under their own ids and were not given back, no message was given back twice, and the
  request under way in the serial mode is in the table and not on the list of unsent ones.
\<close>

abbreviation entries :: "nat TimeoutQueue \<Rightarrow> 32 word \<Rightarrow> nat option" where "entries q \<equiv> c_ptr (tq_abs q)"

definition flow :: "nat TimeoutQueue \<Rightarrow> (nat \<Rightarrow> ReqMessage) \<Rightarrow> nat list \<Rightarrow> nat option \<Rightarrow> bool \<Rightarrow> bool" where
  "flow q ms rel req serial \<longleftrightarrow> tq_ok q \<and> distinct rel \<and>
     (\<forall>k m. entries q k = Some m \<longrightarrow> m_iRequestId (ms m) = k \<and> m_eStatus (ms m) = REQ_REQ \<and> m \<notin> set rel
        \<and> (serial \<longrightarrow> m_eType (ms m) \<noteq> ONE_WAY)) \<and>
     (\<forall>m. req = Some m \<longrightarrow> serial \<and> entries q (m_iRequestId (ms m)) = Some m)"

abbreviation flow_ok :: "AdapterProxy \<Rightarrow> bool" where
  "flow_ok a \<equiv> flow (ap_timeoutQueue a) (ap_msgs a) (ap_released a) (ap_requestMsg a) (ap_serial a)"

definition waiting :: "AdapterProxy \<Rightarrow> nat set" where
  "waiting a = ran (entries (ap_timeoutQueue a))"

lemma flowD: "flow q ms rel req serial \<Longrightarrow> tq_ok q" "flow q ms rel req serial \<Longrightarrow> distinct rel"
  by (simp_all add: flow_def)

lemma flowI:
  assumes "tq_ok q" "distinct rel"
    "\<And>k m. entries q k = Some m \<Longrightarrow> m_iRequestId (ms m) = k \<and> m_eStatus (ms m) = REQ_REQ \<and> m \<notin> set rel \<and> (serial \<longrightarrow> m_eType (ms m) \<noteq> ONE_WAY)"
    "\<And>m. req = Some m \<Longrightarrow> serial \<and> entries q (m_iRequestId (ms m)) = Some m"
  shows "flow q ms rel req serial"
  using assms unfolding flow_def by blast

lemma flow_entry:
  "flow q ms rel req serial \<Longrightarrow> entries q k = Some m \<Longrightarrow>
     m_iRequestId (ms m) = k \<and> m_eStatus (ms m) = REQ_REQ \<and> m \<notin> set rel \<and> (serial \<longrightarrow> m_eType (ms m) \<noteq> ONE_WAY)"
  unfolding flow_def by blast

lemma flow_request: "flow q ms rel req serial \<Longrightarrow> req = Some m \<Longrightarrow> serial \<and> entries q (m_iRequestId (ms m)) = Some m"
  unfolding flow_def by blast

text \<open>A message outside the table may change, and may be given back if it was not yet.\<close>

lemma flow_msg:
  assumes "flow q ms rel req serial" "m \<notin> ran (entries q)"
  shows "flow q (ms(m := r)) rel req serial"
proof -
  have n: "(ms(m := r)) m' = ms m'" if "entries q k = Some m'" for k m' using that assms(2) by (auto simp: ran_def)
  show ?thesis
  proof (rule flowI)
    fix m' assume r: "req = Some m'"
    note e = flow_request[OF assms(1) r]
    then show "serial \<and> entries q (m_iRequestId ((ms(m := r)) m')) = Some m'" using n[OF conjunct2[OF e]] by simp
  qed (use flowD(1,2)[OF assms(1)] flow_entry[OF assms(1)] n in simp_all)
qed

lemma flow_release:
  assumes "flow q ms rel req serial" "m \<notin> ran (entries q)" "m \<notin> set rel"
  shows "flow q ms (rel @ [m]) req serial"
proof (rule flowI)
  fix k m' assume e: "entries q k = Some m'"
  then have "m' \<noteq> m" using assms(2) by (auto simp: ran_def)
  then show "m_iRequestId (ms m') = k \<and> m_eStatus (ms m') = REQ_REQ \<and> m' \<notin> set (rel @ [m]) \<and> (serial \<longrightarrow> m_eType (ms m') \<noteq> ONE_WAY)"
    using flow_entry[OF assms(1) e] by simp
qed (use flowD(1,2)[OF assms(1)] flow_request[OF assms(1)] assms(3) in simp_all)

lemma flow_enter:
  assumes "flow q ms rel req serial" "m \<notin> ran (entries q)" "m \<notin> set rel" "m_eStatus (ms m) = REQ_REQ" "serial \<longrightarrow> m_eType (ms m) \<noteq> ONE_WAY"
    "tq_push junk m (m_iRequestId (ms m)) d s q = (b, q')"
  shows "flow q' ms rel req serial" "ran (entries q') = (if b then insert m (ran (entries q)) else ran (entries q))"
    "b \<Longrightarrow> serial \<Longrightarrow> flow q' ms rel (Some m) serial"
proof -
  let ?k = "m_iRequestId (ms m)"
  obtain q1 where "tq_push junk m ?k d s q = (fst (c_push m ?k d s (tq_abs q)), q1)" "tq_ok q1"
    "tq_abs q1 = snd (c_push m ?k d s (tq_abs q))"
    using tq_push_refines[OF flowD(1)[OF assms(1)]] by blast
  then have r: "b = fst (c_push m ?k d s (tq_abs q))" "tq_ok q'" "tq_abs q' = snd (c_push m ?k d s (tq_abs q))"
    using assms(6) by auto
  have t: "entries q ?k = None \<and> entries q' = (entries q)(?k \<mapsto> m)" if b
    using that r(1,3) by (cases "entries q ?k") (simp_all add: c_push_def)
  have n: "tq_abs q' = tq_abs q" if "\<not> b"
    using that r(1,3) by (cases "entries q ?k") (simp_all add: c_push_def)
  have e: "m_iRequestId (ms m') = k \<and> m_eStatus (ms m') = REQ_REQ \<and> m' \<notin> set rel \<and> (serial \<longrightarrow> m_eType (ms m') \<noteq> ONE_WAY)"
    if "entries q' k = Some m'" for k m'
  proof (cases "b \<and> k = ?k")
    case True
    then show ?thesis using that t assms(3-5) by simp
  next
    case False
    then have "entries q k = Some m'" using that t n by (cases b) simp_all
    then show ?thesis using flow_entry[OF assms(1)] by blast
  qed
  have f: "serial \<and> entries q' (m_iRequestId (ms m')) = Some m'" if "req = Some m'" for m'
    using flow_request[OF assms(1) that] t n by (cases b) auto
  show "flow q' ms rel req serial" by (rule flowI[OF r(2) flowD(2)[OF assms(1)] e f])
  show "flow q' ms rel (Some m) serial" if b serial
  proof (rule flowI[OF r(2) flowD(2)[OF assms(1)] e])
    fix m' assume "Some m = Some m'"
    then show "serial \<and> entries q' (m_iRequestId (ms m')) = Some m'" using t that by simp
  qed
  show "ran (entries q') = (if b then insert m (ran (entries q)) else ran (entries q))"
    using t n by (cases b) simp_all
qed

text \<open>An entry leaves the table.\<close>

lemma ran_leave:
  assumes "f k = Some m" "\<And>k'. f k' = Some m \<Longrightarrow> k' = k"
  shows "ran (f(k := None)) = ran f - {m}"
proof (intro equalityI subsetI)
  fix x assume "x \<in> ran (f(k := None))"
  then obtain k' where k': "k' \<noteq> k" "f k' = Some x" by (auto simp: ran_def split: if_splits)
  then have "x \<noteq> m" using assms(2)[of k'] by blast
  then show "x \<in> ran f - {m}" using k'(2) ranI[of f k' x] by simp
next
  fix x assume x: "x \<in> ran f - {m}"
  then obtain k' where k': "f k' = Some x" by (auto simp: ran_def)
  then have "k' \<noteq> k" using x assms(1) by auto
  then show "x \<in> ran (f(k := None))" using k' by (intro ranI[of _ k']) simp
qed

lemma flow_leave:
  assumes "flow q ms rel req serial" "tq_ok q'" "entries q' = (entries q)(k := None)" "entries q k = Some m" "req \<noteq> Some m"
  shows "flow q' ms rel req serial" "ran (entries q') = ran (entries q) - {m}"
proof -
  have i: "k' = k" if "entries q k' = Some m" for k'
    using flow_entry[OF assms(1) that] flow_entry[OF assms(1,4)] by simp
  show "ran (entries q') = ran (entries q) - {m}" unfolding assms(3) using assms(4) i by (rule ran_leave)
  show "flow q' ms rel req serial"
  proof (rule flowI)
    fix k' m' assume "entries q' k' = Some m'"
    then have "entries q k' = Some m'" using assms(3) by (cases "k' = k") simp_all
    then show "m_iRequestId (ms m') = k' \<and> m_eStatus (ms m') = REQ_REQ \<and> m' \<notin> set rel \<and> (serial \<longrightarrow> m_eType (ms m') \<noteq> ONE_WAY)"
      using flow_entry[OF assms(1)] by blast
  next
    fix m' assume r: "req = Some m'"
    note f = flow_request[OF assms(1) r]
    have "m' \<noteq> m" using r assms(5) by blast
    then have "m_iRequestId (ms m') \<noteq> k" using f assms(4) by auto
    then show "serial \<and> entries q' (m_iRequestId (ms m')) = Some m'" using f assms(3) by simp
  qed (rule assms(2), rule flowD(2)[OF assms(1)])
qed

lemma flow_no_request: "flow q ms rel req serial \<Longrightarrow> flow q ms rel None serial"
  by (simp add: flow_def)

lemma flow_same_table: "flow q ms rel req serial \<Longrightarrow> tq_ok q' \<Longrightarrow> entries q' = entries q \<Longrightarrow> flow q' ms rel req serial"
  by (simp add: flow_def)

lemma health_frame [simp]:
  "ap_msgs (resetRetryTime now b a) = ap_msgs a" "ap_released (resetRetryTime now b a) = ap_released a"
  "ap_requestMsg (resetRetryTime now b a) = ap_requestMsg a" "ap_serial (resetRetryTime now b a) = ap_serial a"
  "ap_msgs (setInactive now a) = ap_msgs a" "ap_released (setInactive now a) = ap_released a"
  "ap_requestMsg (setInactive now a) = ap_requestMsg a" "ap_serial (setInactive now a) = ap_serial a"
  by (simp_all add: resetRetryTime_def setInactive_def onSetInactive_def Let_def)

lemma result_frame [simp]:
  "ap_msgs (finishInvoke_bool now b a) = ap_msgs a" "ap_released (finishInvoke_bool now b a) = ap_released a"
  "ap_requestMsg (finishInvoke_bool now b a) = ap_requestMsg a" "ap_serial (finishInvoke_bool now b a) = ap_serial a"
  by (simp_all add: finishInvoke_bool_def Let_def)

lemma finish_frame [simp]:
  "ap_msgs (finishInvoke_msg now m a) = ap_msgs a" "ap_released (finishInvoke_msg now m a) = ap_released a @ [m]"
  "ap_requestMsg (finishInvoke_msg now m a) = ap_requestMsg a" "ap_serial (finishInvoke_msg now m a) = ap_serial a"
  by (simp_all add: finishInvoke_msg_def Let_def)

lemma update_frame [simp]:
  "ap_msgs (msg_update m f a) = (ap_msgs a)(m := f (ap_msgs a m))" "ap_released (msg_update m f a) = ap_released a"
  "ap_requestMsg (msg_update m f a) = ap_requestMsg a" "ap_serial (msg_update m f a) = ap_serial a" "ap_trans (msg_update m f a) = ap_trans a"
  by (simp_all add: msg_update_def)

text \<open>
  \<open>books a X a'\<close>: the invariant holds in \<open>a'\<close>, and the messages it waits for or has given back are those of \<open>a\<close> and \<open>X\<close>.
\<close>

definition books :: "AdapterProxy \<Rightarrow> nat set \<Rightarrow> AdapterProxy \<Rightarrow> bool" where
  "books a X a' \<longleftrightarrow> flow_ok a' \<and> waiting a' \<union> set (ap_released a') = waiting a \<union> set (ap_released a) \<union> X"

definition fresh_msg :: "nat \<Rightarrow> AdapterProxy \<Rightarrow> bool" where
  "fresh_msg m a \<longleftrightarrow> m \<notin> waiting a \<and> m \<notin> set (ap_released a) \<and> m_eStatus (ap_msgs a m) = REQ_REQ
     \<and> (ap_serial a \<longrightarrow> m_eType (ap_msgs a m) \<noteq> ONE_WAY)"

lemma books_release:
  assumes "flow_ok a" "m \<notin> waiting a" "m \<notin> set (ap_released a)"
  shows "books a {m} (finishInvoke_msg now m (msg_update m f a))"
  using flow_release[OF flow_msg[OF assms(1)], of m m "f (ap_msgs a m)"] assms(2,3) by (auto simp: books_def waiting_def)

lemma books_refuse: "flow_ok a \<Longrightarrow> m \<notin> waiting a \<Longrightarrow> m \<notin> set (ap_released a) \<Longrightarrow> books a {m} (refuse now m a)"
  unfolding refuse_def by (rule books_release)

text \<open>What happens to a message before it is sent or queued.\<close>

definition prepared :: "nat \<Rightarrow> AdapterProxy \<Rightarrow> AdapterProxy \<Rightarrow> bool" where
  "prepared m a a' \<longleftrightarrow> flow_ok a' \<and> fresh_msg m a' \<and> waiting a' = waiting a \<and> ap_released a' = ap_released a
     \<and> ap_requestMsg a' = ap_requestMsg a \<and> ap_serial a' = ap_serial a"

lemma prepared_trans: "prepared m a b \<Longrightarrow> prepared m b c \<Longrightarrow> prepared m a c"
  unfolding prepared_def by (elim conjE) (intro conjI; simp)

lemma prepared_books: "prepared m a b \<Longrightarrow> books b X c \<Longrightarrow> books a X c"
  by (simp add: prepared_def books_def)

lemma generate_id_prepared:
  assumes "flow_ok a" "fresh_msg m a"
  shows "prepared m a (generate_id m a)"
proof -
  obtain i q where q: "tq_generateId (ap_timeoutQueue a) = (i, q)" by (cases "tq_generateId (ap_timeoutQueue a)")
  then have "\<exists>u. q = (ap_timeoutQueue a)\<lparr>tq_uniqId := u\<rparr>" by (auto simp: tq_generateId_def Let_def split: if_splits)
  then obtain u where u: "q = (ap_timeoutQueue a)\<lparr>tq_uniqId := u\<rparr>" ..
  have k: "tq_ok q = tq_ok (ap_timeoutQueue a)" "tq_abs q = tq_abs (ap_timeoutQueue a)"
    by (simp_all add: u tq_ok_def tq_shape_def tq_links_def tq_abs_def key_of_def)
  have "flow q (ap_msgs a) (ap_released a) (ap_requestMsg a) (ap_serial a)"
    using flow_same_table[OF assms(1)] k flowD(1)[OF assms(1)] by simp
  then have "flow q ((ap_msgs a)(m := r)) (ap_released a) (ap_requestMsg a) (ap_serial a)" for r
    using flow_msg assms(2) k(2) by (simp add: fresh_msg_def waiting_def)
  then show ?thesis using assms(2) q k(2) by (simp add: prepared_def generate_id_def fresh_msg_def waiting_def)
qed

lemma encode_request_prepared:
  assumes "flow_ok a" "fresh_msg m a"
  shows "prepared m a (encode_request enc m a)"
proof -
  have "flow (ap_timeoutQueue a) ((ap_msgs a)(m := r)) (ap_released a) (ap_requestMsg a) (ap_serial a)" for r
    using flow_msg[OF assms(1)] assms(2) by (simp add: fresh_msg_def waiting_def)
  then show ?thesis using assms(2)
    by (auto simp: prepared_def encode_request_def fresh_msg_def waiting_def split: prod.split)
qed

lemma send_msg_frame:
  assumes "send_msg m a = (r, b)"
  shows "\<exists>t. b = a\<lparr>ap_trans := t\<rparr>" "r = Inl e \<Longrightarrow> \<exists>x. e = TransExn x"
  using assms by (auto simp: send_msg_def split: prod.splits sum.splits)

lemma send_msg_prepared:
  assumes "send_msg m a = (r, b)" "flow_ok a" "fresh_msg m a"
  shows "prepared m a b"
proof -
  obtain t where "b = a\<lparr>ap_trans := t\<rparr>" using send_msg_frame(1)[OF assms(1)] ..
  then show ?thesis using assms(2,3) by (simp add: prepared_def fresh_msg_def waiting_def)
qed

lemma queue_unsent_books:
  assumes "flow_ok a" "fresh_msg m a" "queue_unsent junk now m a = (r, b)"
  shows "books a {m} b \<and> r = Inr 0"
proof -
  let ?r = "ap_msgs a m"
  obtain f q where p: "tq_push junk m (m_iRequestId ?r) (m_iTimeout ?r + m_iBeginTime ?r) False (ap_timeoutQueue a) = (f, q)"
    by (cases "tq_push junk m (m_iRequestId ?r) (m_iTimeout ?r + m_iBeginTime ?r) False (ap_timeoutQueue a)")
  have fm: "m \<notin> ran (entries (ap_timeoutQueue a))" "m \<notin> set (ap_released a)" "m_eStatus ?r = REQ_REQ" "ap_serial a \<longrightarrow> m_eType ?r \<noteq> ONE_WAY"
    using assms(2) by (simp_all add: fresh_msg_def waiting_def)
  note e = flow_enter[OF assms(1) fm p]
  let ?a = "a\<lparr>ap_timeoutQueue := q\<rparr>"
  have rb: "r = Inr 0" "b = (if f then ?a else refuse now m ?a)"
    using assms(3) p by (simp_all add: queue_unsent_def push_msg_def Let_def)
  have w: "flow_ok ?a" "waiting ?a = (if f then insert m (waiting a) else waiting a)"
    using e(1,2) by (simp_all add: waiting_def)
  show ?thesis
  proof (cases f)
    case True
    then show ?thesis using rb w by (simp add: books_def)
  next
    case False
    then have "books ?a {m} (refuse now m ?a)" using w assms(2) by (intro books_refuse) (simp_all add: fresh_msg_def)
    then show ?thesis using False rb w(2) by (simp add: books_def)
  qed
qed

text \<open>The same for a message that was sent; in the serial mode it is the request under way.\<close>

lemma push_sent_books:
  assumes "flow_ok a" "fresh_msg m a" "push_msg junk now m True a = (f, b)"
  shows "books a {m} (if f then b else refuse now m b)"
    "f \<Longrightarrow> ap_serial a \<Longrightarrow> books a {m} (b\<lparr>ap_requestMsg := Some m\<rparr>)"
proof -
  let ?r = "ap_msgs a m"
  obtain q where p: "tq_push junk m (m_iRequestId ?r) (m_iTimeout ?r + m_iBeginTime ?r) True (ap_timeoutQueue a) = (f, q)" "b = a\<lparr>ap_timeoutQueue := q\<rparr>"
    using assms(3) by (auto simp: push_msg_def Let_def split: prod.splits)
  have fm: "m \<notin> ran (entries (ap_timeoutQueue a))" "m \<notin> set (ap_released a)" "m_eStatus ?r = REQ_REQ" "ap_serial a \<longrightarrow> m_eType ?r \<noteq> ONE_WAY"
    using assms(2) by (simp_all add: fresh_msg_def waiting_def)
  note e = flow_enter[OF assms(1) fm p(1)]
  have w: "flow_ok b" "waiting b = (if f then insert m (waiting a) else waiting a)" "ap_released b = ap_released a"
    using e(1,2) p(2) by (simp_all add: waiting_def)
  show "books a {m} (if f then b else refuse now m b)"
  proof (cases f)
    case True
    then show ?thesis using w by (simp add: books_def)
  next
    case False
    then have "books b {m} (refuse now m b)" using w fm(2) assms(2) by (intro books_refuse) (simp_all add: fresh_msg_def)
    then show ?thesis using False w(2,3) by (simp add: books_def)
  qed
  show "books a {m} (b\<lparr>ap_requestMsg := Some m\<rparr>)" if f "ap_serial a"
    using e(3)[OF that] w(2,3) p(2) that by (simp add: books_def waiting_def)
qed

text \<open>The outcome of a call: on an exception, which only the transceiver throws, the message is forgotten.\<close>

definition invoked :: "nat \<Rightarrow> AdapterProxy \<Rightarrow> (adapter_exn + int) \<times> AdapterProxy \<Rightarrow> bool" where
  "invoked m a x \<longleftrightarrow> (case fst x of Inr _ \<Rightarrow> books a {m} (snd x) | Inl e \<Rightarrow> books a {} (snd x) \<and> (\<exists>t. e = TransExn t))"

lemma invoked_prepared: "prepared m a b \<Longrightarrow> invoked m b x \<Longrightarrow> invoked m a x"
  by (auto simp: invoked_def intro: prepared_books split: sum.splits)

lemma invoked_queue: "flow_ok a \<Longrightarrow> fresh_msg m a \<Longrightarrow> invoked m a (queue_unsent junk now m a)"
  using queue_unsent_books[of a m junk now] by (cases "queue_unsent junk now m a") (auto simp: invoked_def)

lemma prepared_flow: "prepared m a b \<Longrightarrow> flow_ok b \<and> fresh_msg m b"
  unfolding prepared_def by blast

lemma invoked_throw: "prepared m a b \<Longrightarrow> (\<exists>t. e = TransExn t) \<Longrightarrow> invoked m a (Inl e, b)"
  by (auto simp: invoked_def books_def prepared_def)

lemma flow_ok_no_request: "flow_ok a \<Longrightarrow> flow_ok (a\<lparr>ap_requestMsg := None\<rparr>)"
  using flow_no_request by simp

lemma invoke_connection_parallel_books:
  assumes "flow_ok a" "fresh_msg m a"
  shows "invoked m a (invoke_connection_parallel enc junk now m a)"
proof -
  let ?b = "encode_request enc m a"
  have b: "prepared m a ?b" using encode_request_prepared[OF assms] .
  note b' = prepared_flow[OF b]
  have "invoked m ?b (invoke_connection_parallel enc junk now m a)"
  proof (cases "tq_sendListEmpty (ap_timeoutQueue ?b)")
    case False
    then show ?thesis using invoked_queue b' by (simp add: invoke_connection_parallel_def Let_def)
  next
    case True
    obtain r c where s: "send_msg m ?b = (r, c)" by (cases "send_msg m ?b")
    have c: "prepared m ?b c" using send_msg_prepared[OF s] b' by blast
    note c' = prepared_flow[OF c]
    show ?thesis
    proof (cases r)
      case (Inl e)
      then show ?thesis using True s invoked_throw[OF c] send_msg_frame(2)[OF s] by (simp add: invoke_connection_parallel_def Let_def)
    next
      case (Inr ret)
      have one: "books c {m} (c\<lparr>ap_released := ap_released c @ [m]\<rparr>)"
        using flow_release[of "ap_timeoutQueue c" _ _ _ _ m] c' by (simp add: books_def fresh_msg_def waiting_def)
      obtain f d where p: "push_msg junk now m True c = (f, d)" by (cases "push_msg junk now m True c")
      have push: "books c {m} (if f then d else refuse now m d)" using push_sent_books(1)[OF _ _ p] c' by blast
      have ref: "books c {m} (refuse now m c)" using books_refuse[of c m now] c' by (simp add: fresh_msg_def)
      have "invoked m c (invoke_connection_parallel enc junk now m a)"
        using True s Inr one push ref p invoked_queue[of c m junk now] c'
        by (simp add: invoke_connection_parallel_def Let_def invoked_def)
      then show ?thesis using invoked_prepared[OF c] by blast
    qed
  qed
  then show ?thesis using invoked_prepared[OF b] by blast
qed

lemma invoke_connection_serial_books:
  assumes "flow_ok a" "fresh_msg m a" "ap_serial a"
  shows "invoked m a (invoke_connection_serial enc junk now m a)"
proof -
  let ?b = "generate_id m (encode_request enc m a)"
  have "prepared m (encode_request enc m a) ?b"
    using generate_id_prepared prepared_flow[OF encode_request_prepared[OF assms(1,2)]] by blast
  then have b: "prepared m a ?b" using prepared_trans encode_request_prepared[OF assms(1,2)] by blast
  note b' = prepared_flow[OF b]
  have ty: "m_eType (ap_msgs a m) \<noteq> ONE_WAY" using assms(2,3) by (simp add: fresh_msg_def)
  have "invoked m ?b (invoke_connection_serial enc junk now m a)"
  proof (cases "ap_requestMsg ?b = None \<and> tq_sendListEmpty (ap_timeoutQueue ?b)")
    case False
    then show ?thesis using ty invoked_queue b' by (auto simp: invoke_connection_serial_def Let_def)
  next
    case True
    obtain r c where s: "send_msg m ?b = (r, c)" by (cases "send_msg m ?b")
    have c: "prepared m ?b c" using send_msg_prepared[OF s] b' by blast
    note c' = prepared_flow[OF c]
    show ?thesis
    proof (cases r)
      case (Inl e)
      then show ?thesis using True ty s invoked_throw[OF c] send_msg_frame(2)[OF s] by (simp add: invoke_connection_serial_def Let_def)
    next
      case (Inr ret)
      have q: "ap_requestMsg c = None" "ap_serial c" using c b True assms(3) by (simp_all add: prepared_def)
      have n: "c\<lparr>ap_requestMsg := None\<rparr> = c" using q(1) by simp
      obtain f d where p: "push_msg junk now m True c = (f, d)" by (cases "push_msg junk now m True c")
      then have pr: "push_msg junk now m True (c\<lparr>ap_requestMsg := Some m\<rparr>) = (f, d\<lparr>ap_requestMsg := Some m\<rparr>)"
        by (auto simp: push_msg_def Let_def split: prod.splits)
      have dn: "(d\<lparr>ap_requestMsg := Some m\<rparr>)\<lparr>ap_requestMsg := None\<rparr> = d"
        using p q(1) by (auto simp: push_msg_def Let_def split: prod.splits)
      have push: "books c {m} (if f then d\<lparr>ap_requestMsg := Some m\<rparr> else refuse now m d)"
        using push_sent_books[OF _ _ p] c' q(2) by (cases f) auto
      have ref: "books c {m} (refuse now m c)" using books_refuse[of c m now] c' by (simp add: fresh_msg_def)
      have "invoke_connection_serial enc junk now m a =
          (if ret = eRetOk \<or> ret = eRetFull then (Inr 0, if f then d\<lparr>ap_requestMsg := Some m\<rparr> else refuse now m d)
           else if ret = eRetError then (Inr (- 1), refuse now m c) else queue_unsent junk now m c)"
        using True ty s Inr pr dn n by (simp add: invoke_connection_serial_def Let_def)
      then have "invoked m c (invoke_connection_serial enc junk now m a)"
        using push ref invoked_queue[of c m junk now] c' by (simp add: invoked_def)
      then show ?thesis using invoked_prepared[OF c] by blast
    qed
  qed
  then show ?thesis using invoked_prepared[OF b] by blast
qed

lemma ap_invoke_books:
  assumes "flow_ok a" "fresh_msg m a"
  shows "invoked m a (ap_invoke enc junk now m a)"
proof (cases "tq_getSendListSize (ap_timeoutQueue a) > ap_noSendQueueLimit a")
  case True
  let ?b = "msg_update m (\<lambda>r. r\<lparr>m_iRet := TARSSENDREQUESTERR\<rparr>) a"
  have "flow_ok ?b" using flow_msg[OF assms(1)] assms(2) by (simp add: fresh_msg_def waiting_def)
  then have "books ?b {m} (refuse now m ?b)" using assms(2) by (intro books_refuse) (simp_all add: fresh_msg_def waiting_def)
  then show ?thesis using True by (simp add: ap_invoke_def invoked_def books_def waiting_def)
next
  case False
  let ?b = "if \<not> m_bFromRpc (ap_msgs a m) then generate_id m a else a"
  have "prepared m a a" using assms unfolding prepared_def by blast
  then have b: "prepared m a ?b" using generate_id_prepared[OF assms] by simp
  note b' = prepared_flow[OF b]
  have "invoked m ?b (ap_invoke enc junk now m a)"
    using False invoke_connection_serial_books[of ?b m] invoke_connection_parallel_books[of ?b m] b'
    by (cases "ap_serial ?b") (simp_all add: ap_invoke_def Let_def)
  then show ?thesis using invoked_prepared[OF b] by blast
qed

text \<open>Sending from the queue.\<close>

lemma books_refl: "flow_ok a \<Longrightarrow> books a {} a"
  by (simp add: books_def)

lemma books_trans: "books a X b \<Longrightarrow> books b Y c \<Longrightarrow> books a (X \<union> Y) c"
  by (auto simp: books_def)

lemma books_same:
  assumes "flow_ok a" "ap_timeoutQueue b = ap_timeoutQueue a" "ap_msgs b = ap_msgs a" "ap_released b = ap_released a"
    "ap_requestMsg b = ap_requestMsg a" "ap_serial b = ap_serial a"
  shows "books a {} b"
  using assms by (simp add: books_def waiting_def)

lemma send_msg_books: "flow_ok a \<Longrightarrow> send_msg m a = (r, b) \<Longrightarrow> books a {} b \<and> ap_msgs b = ap_msgs a \<and> ap_timeoutQueue b = ap_timeoutQueue a"
  using send_msg_frame(1)[of m a r b] by (auto intro: books_same)

text \<open>The last message on the list of unsent ones, and the table without it or with it marked as sent.\<close>

lemma unsent_last:
  assumes "tq_ok q" "\<not> tq_sendListEmpty q"
  obtains k m where "last (c_send (tq_abs q)) = k" "entries q k = Some m" "tq_getSend q = Inr (Some m)"
    "\<exists>q'. tq_popSend True q = Inr q' \<and> tq_ok q' \<and> entries q' = (entries q)(k := None)"
    "\<exists>q'. tq_popSend False q = Inr q' \<and> tq_ok q' \<and> entries q' = entries q"
proof -
  have ne: "tq_send q \<noteq> []" using assms(2) by (simp add: tq_sendListEmpty_def)
  obtain s a where sa: "last (tq_send q) = (s, a)" by (cases "last (tq_send q)")
  then have "(s, a) \<in> set (tq_send q)" using ne last_in_set by metis
  then obtain k pi where d: "(a, k, pi) \<in> set (tq_data q)" using tq_ok_nodes(4)[OF assms(1)] by blast
  have "last (c_send (tq_abs q)) = key_of q a" using ne sa by (simp add: tq_abs_def last_map)
  then have l: "last (c_send (tq_abs q)) = k" using key_of_node[OF assms(1) d] by simp
  have e: "entries q k = Some (pi_ptr pi)" using abs_ptr_node[OF assms(1) d] .
  have "c_send (tq_abs q) \<noteq> []" using ne by (simp add: tq_abs_def)
  then have "tq_getSend q = Inr (Some (pi_ptr pi))" using tq_getSend_refines[OF assms(1)] l e by simp
  moreover have "\<exists>q'. tq_popSend True q = Inr q' \<and> tq_ok q' \<and> entries q' = (entries q)(k := None)"
    using tq_popSend_refines[OF assms(1) ne, of True] l by (auto simp: c_popSend_def c_remove_def)
  moreover have "\<exists>q'. tq_popSend False q = Inr q' \<and> tq_ok q' \<and> entries q' = entries q"
    using tq_popSend_refines[OF assms(1) ne, of False] by (auto simp: c_popSend_def)
  ultimately show ?thesis using that l e by blast
qed

definition handled :: "AdapterProxy \<Rightarrow> (adapter_exn + unit) \<times> AdapterProxy \<Rightarrow> bool" where
  "handled a x \<longleftrightarrow> books a {} (snd x) \<and> (\<forall>e. fst x = Inl e \<longrightarrow> e = PushCallbackNull \<or> (\<exists>t. e = TransExn t))"

lemma handled_trans: "books a {} b \<Longrightarrow> handled b x \<Longrightarrow> handled a x"
  by (auto simp: handled_def books_def)

lemma leave_release:
  assumes "flow q ms rel req serial" "tq_ok q'" "entries q' = (entries q)(k := None)" "entries q k = Some m" "req' = None \<or> req' = req \<and> req \<noteq> Some m"
  shows "flow q' (ms(m := r)) (rel @ [m]) req' serial" "ran (entries q') \<union> set (rel @ [m]) = ran (entries q) \<union> set rel"
proof -
  have f: "flow q ms rel req' serial" "req' \<noteq> Some m" using assms(1,5) flow_no_request by auto
  note l = flow_leave[OF f(1) assms(2-4) f(2)]
  have m: "m \<notin> ran (entries q')" "m \<notin> set rel" "m \<in> ran (entries q)"
    using l(2) flow_entry[OF assms(1,4)] assms(4) by (auto simp: ran_def)
  show "flow q' (ms(m := r)) (rel @ [m]) req' serial" using flow_release[OF flow_msg[OF l(1) m(1)] m(1,2)] .
  show "ran (entries q') \<union> set (rel @ [m]) = ran (entries q) \<union> set rel" using l(2) m(3) by auto
qed

lemma books_leave:
  assumes "flow_ok a" "tq_ok q'" "entries q' = (entries (ap_timeoutQueue a))(k := None)" "entries (ap_timeoutQueue a) k = Some m"
    "ap_timeoutQueue b = q'" "ap_msgs b = (ap_msgs a)(m := r)" "ap_released b = ap_released a @ [m]" "ap_serial b = ap_serial a"
    "ap_requestMsg b = None \<or> ap_requestMsg b = ap_requestMsg a \<and> ap_requestMsg a \<noteq> Some m"
  shows "books a {} b"
  using leave_release[OF assms(1-4), of "ap_requestMsg b"] assms(5-9) by (simp add: books_def waiting_def)

lemma doInvoke_serial_handled:
  assumes "flow_ok a" "ap_serial a"
  shows "handled a (doInvoke_serial now a)"
proof (cases "ap_requestMsg a \<noteq> None \<or> tq_sendListEmpty (ap_timeoutQueue a)")
  case True
  then show ?thesis using books_refl[OF assms(1)] by (auto simp: doInvoke_serial_def handled_def)
next
  case False
  then have ne: "\<not> tq_sendListEmpty (ap_timeoutQueue a)" "ap_requestMsg a = None" by auto
  obtain k m where g: "entries (ap_timeoutQueue a) k = Some m" "tq_getSend (ap_timeoutQueue a) = Inr (Some m)"
    "\<exists>q'. tq_popSend True (ap_timeoutQueue a) = Inr q' \<and> tq_ok q' \<and> entries q' = (entries (ap_timeoutQueue a))(k := None)"
    "\<exists>q'. tq_popSend False (ap_timeoutQueue a) = Inr q' \<and> tq_ok q' \<and> entries q' = entries (ap_timeoutQueue a)"
    using unsent_last[OF flowD(1)[OF assms(1)] ne(1)] by metis
  obtain q1 where q1: "tq_popSend True (ap_timeoutQueue a) = Inr q1" "tq_ok q1" "entries q1 = (entries (ap_timeoutQueue a))(k := None)"
    using g(3) by blast
  obtain q2 where q2: "tq_popSend False (ap_timeoutQueue a) = Inr q2" "tq_ok q2" "entries q2 = entries (ap_timeoutQueue a)"
    using g(4) by blast
  obtain r b where s: "send_msg m a = (r, b)" by (cases "send_msg m a")
  obtain t where b: "b = a\<lparr>ap_trans := t\<rparr>" using send_msg_frame(1)[OF s] ..
  have ba: "books a {} b" using send_msg_books[OF assms(1) s] by blast
  show ?thesis
  proof (cases r)
    case (Inl e)
    then show ?thesis using ne g(2) s ba send_msg_frame(2)[OF s] by (simp add: doInvoke_serial_def handled_def)
  next
    case (Inr ret)
    let ?err = "finishInvoke_msg now m (msg_update m (\<lambda>r. r\<lparr>m_iRet := TARSSENDREQUESTERR\<rparr>) (b\<lparr>ap_requestMsg := None, ap_timeoutQueue := q1\<rparr>))"
    let ?ok = "b\<lparr>ap_requestMsg := Some m, ap_timeoutQueue := q2\<rparr>"
    have err: "books a {} ?err" using books_leave[OF assms(1) q1(2,3) g(1), of ?err] b by simp
    have id: "m_iRequestId (ap_msgs a m) = k" using flow_entry[OF assms(1) g(1)] by blast
    have "flow q2 (ap_msgs a) (ap_released a) (Some m) (ap_serial a)"
      using flow_same_table[OF flow_no_request[OF assms(1)] q2(2,3)] id g(1) q2(3) assms(2) by (simp add: flow_def)
    then have ok: "books a {} ?ok" using b q2(3) by (simp add: books_def waiting_def)
    have "doInvoke_serial now a = (if ret = eRetError then (Inr (), ?err) else if ret = eRetOk \<or> ret = eRetFull then (Inr (), ?ok) else (Inr (), b))"
      using ne g(2) s Inr q1(1) q2(1) b by (simp add: doInvoke_serial_def)
    then show ?thesis using err ok ba by (simp add: handled_def)
  qed
qed

lemma doInvoke_parallel_handled: "flow_ok a \<Longrightarrow> ap_requestMsg a = None \<Longrightarrow> handled a (doInvoke_parallel a)"
proof (induction a rule: doInvoke_parallel.induct)
  case (1 a)
  show ?case
  proof (cases "tq_sendListEmpty (ap_timeoutQueue a)")
    case True
    then show ?thesis using books_refl[OF "1.prems"(1)] by (subst doInvoke_parallel.simps) (simp add: handled_def)
  next
    case ne: False
    obtain k m where g: "entries (ap_timeoutQueue a) k = Some m" "tq_getSend (ap_timeoutQueue a) = Inr (Some m)"
      "\<exists>q'. tq_popSend True (ap_timeoutQueue a) = Inr q' \<and> tq_ok q' \<and> entries q' = (entries (ap_timeoutQueue a))(k := None)"
      "\<exists>q'. tq_popSend False (ap_timeoutQueue a) = Inr q' \<and> tq_ok q' \<and> entries q' = entries (ap_timeoutQueue a)"
      using unsent_last[OF flowD(1)[OF "1.prems"(1)] ne] by metis
    obtain r b where s: "send_msg m a = (r, b)" by (cases "send_msg m a")
    obtain t where b: "b = a\<lparr>ap_trans := t\<rparr>" using send_msg_frame(1)[OF s] ..
    have ba: "books a {} b" using send_msg_books[OF "1.prems"(1) s] by blast
    show ?thesis
    proof (cases r)
      case (Inl e)
      then show ?thesis using ne g(2) s ba send_msg_frame(2)[OF s] by (subst doInvoke_parallel.simps) (simp add: handled_def)
    next
      case (Inr ret)
      show ?thesis
      proof (cases "ret = eRetError \<or> ret = eRetNotSend")
        case True
        then show ?thesis using ne g(2) s Inr ba by (subst doInvoke_parallel.simps) (auto simp: handled_def)
      next
        case False
        let ?one = "m_eType (ap_msgs b m) = ONE_WAY"
        obtain q where q: "tq_popSend ?one (ap_timeoutQueue b) = Inr q" "tq_ok q"
          "entries q = (if ?one then (entries (ap_timeoutQueue a))(k := None) else entries (ap_timeoutQueue a))"
          using g(3,4) b by (cases ?one) auto
        let ?c = "b\<lparr>ap_timeoutQueue := q\<rparr>"
        let ?d = "if ?one then ?c\<lparr>ap_released := ap_released ?c @ [m]\<rparr> else ?c"
        have d: "books a {} ?d"
        proof (cases ?one)
          case True
          have "ap_msgs a = (ap_msgs a)(m := ap_msgs a m)" by simp
          then show ?thesis using books_leave[OF "1.prems"(1) q(2) _ g(1), of ?d "ap_msgs a m"] True q(3) b "1.prems"(2) by simp
        next
          case False
          then show ?thesis using flow_same_table[OF "1.prems"(1) q(2)] q(3) b by (simp add: books_def waiting_def)
        qed
        then have fd: "flow_ok ?d" unfolding books_def by blast
        have rd: "ap_requestMsg ?d = None" using b "1.prems"(2) by simp
        have e: "doInvoke_parallel a = (if ret = eRetFull then (Inr (), ?d) else doInvoke_parallel ?d)"
          using ne g(2) s Inr False q(1) by (subst doInvoke_parallel.simps) (simp add: Let_def)
        show ?thesis
        proof (cases "ret = eRetFull")
          case True
          then show ?thesis using e d by (simp add: handled_def)
        next
          case n: False
          have "handled ?d (doInvoke_parallel ?d)"
            using "1.IH"[OF ne g(2) refl s[symmetric] Inr False q(1) refl refl n fd rd] .
          then show ?thesis using e n handled_trans[OF d] by simp
        qed
      qed
    qed
  qed
qed

lemma erase_entry:
  assumes "tq_ok q"
  obtains q' where "tq_erase k q = Inr (entries q k, q')" "tq_ok q'"
    "entries q' = (if entries q k = None then entries q else (entries q)(k := None))"
  using tq_erase_refines[OF assms, of k] that by (auto simp: c_erase_def c_remove_def split: if_splits)

lemma finishInvoke_serial_handled:
  assumes "flow_ok a"
  shows "handled a (finishInvoke_serial now ret a)"
proof (cases "ap_requestMsg a")
  case None
  then show ?thesis using books_refl[OF assms] by (simp add: finishInvoke_serial_def handled_def)
next
  case (Some m)
  let ?k = "m_iRequestId (ap_msgs a m)"
  have e: "ap_serial a" "entries (ap_timeoutQueue a) ?k = Some m" using flow_request[OF assms Some] by simp_all
  have c: "m_eType (ap_msgs a m) \<noteq> ONE_WAY" "m_eStatus (ap_msgs a m) = REQ_REQ" using flow_entry[OF assms e(2)] e(1) by simp_all
  obtain q where q: "tq_erase ?k (ap_timeoutQueue a) = Inr (Some m, q)" "tq_ok q" "entries q = (entries (ap_timeoutQueue a))(?k := None)"
    using erase_entry[OF flowD(1)[OF assms], of ?k] e(2) by auto
  let ?b = "finishInvoke_msg now m (msg_update m (\<lambda>x. x\<lparr>m_eStatus := REQ_RSP, m_iRet := ret\<rparr>) (a\<lparr>ap_timeoutQueue := q, ap_requestMsg := None\<rparr>))"
  have "books a {} ?b" using books_leave[OF assms q(2,3) e(2), of ?b] by simp
  then show ?thesis using Some q(1) c by (simp add: finishInvoke_serial_def handled_def)
qed

lemma flow_parallel: "flow_ok a \<Longrightarrow> \<not> ap_serial a \<Longrightarrow> ap_requestMsg a = None"
  by (cases "ap_requestMsg a") (auto simp: flow_def)

lemma finishInvoke_parallel_handled:
  assumes "flow_ok a" "ap_requestMsg a = None"
  shows "handled a (finishInvoke_parallel now i ret a)"
proof (cases "i = 0")
  case True
  have "books a {} (a\<lparr>ap_pushed := ap_pushed a + 1\<rparr>)" using books_same[OF assms(1)] by simp
  then show ?thesis using True books_refl[OF assms(1)] by (simp add: finishInvoke_parallel_def handled_def)
next
  case i: False
  obtain q where q: "tq_erase i (ap_timeoutQueue a) = Inr (entries (ap_timeoutQueue a) i, q)" "tq_ok q"
    "entries q = (if entries (ap_timeoutQueue a) i = None then entries (ap_timeoutQueue a) else (entries (ap_timeoutQueue a))(i := None))"
    using erase_entry[OF flowD(1)[OF assms(1)]] by blast
  show ?thesis
  proof (cases "entries (ap_timeoutQueue a) i")
    case None
    then have "books a {} (a\<lparr>ap_timeoutQueue := q\<rparr>)"
      using flow_same_table[OF assms(1) q(2)] q(3) by (simp add: books_def waiting_def)
    then show ?thesis using i q(1) None by (simp add: finishInvoke_parallel_def handled_def)
  next
    case (Some m)
    have c: "m_eStatus (ap_msgs a m) = REQ_REQ" using flow_entry[OF assms(1) Some] by simp
    let ?b = "finishInvoke_msg now m (msg_update m (\<lambda>x. x\<lparr>m_eStatus := REQ_RSP, m_iRet := ret\<rparr>) (a\<lparr>ap_timeoutQueue := q\<rparr>))"
    have "books a {} ?b" using books_leave[OF assms(1) q(2) _ Some, of ?b] q(3) Some assms(2) by simp
    then show ?thesis using i q(1) Some c by (simp add: finishInvoke_parallel_def handled_def)
  qed
qed

text \<open>Timeouts. The entry with the earliest deadline leaves the table and its message is given back.\<close>

lemma timeout_entry:
  assumes "tq_ok q"
  obtains (none) "tq_timeout1 ms q = Inr (None, q)" "\<forall>(d, k) \<in> set (c_time (tq_abs q)). ms < d"
  | (some) k m q' where "tq_timeout1 ms q = Inr (Some m, q')" "tq_ok q'" "entries q k = Some m" "entries q' = (entries q)(k := None)"
proof (cases "c_time (tq_abs q)")
  case Nil
  then have "tq_time q = []" by (simp add: tq_abs_def)
  then show ?thesis using none Nil by (simp add: tq_timeout1_def)
next
  case (Cons e es)
  obtain d k where e: "e = (d, k)" by (cases e)
  show ?thesis
  proof (cases "ms < d")
    case True
    have "\<forall>(d', k') \<in> set (c_time (tq_abs q)). ms < d'" using tq_abs_time(1)[OF assms] Cons e True by auto
    moreover obtain t a ts where "tq_time q = (t, d, a) # ts" using Cons e by (auto simp: tq_abs_def)
    then have "tq_timeout1 ms q = Inr (None, q)" using True by (simp add: tq_timeout1_def)
    ultimately show ?thesis using none by blast
  next
    case False
    have "c_ptr (tq_abs q) k \<noteq> None" using tq_abs_dom[OF assms, of k] Cons e by auto
    then obtain m where m: "entries q k = Some m" by blast
    obtain q' where "tq_timeout1 ms q = Inr (Some m, q')" "tq_ok q'" "entries q' = (entries q)(k := None)"
      using tq_timeout1_refines[OF assms, of ms] Cons e False m by (auto simp: c_timeout1_def c_remove_def)
    then show ?thesis using some m by blast
  qed
qed

lemma timeout_msg_frame [simp]:
  "ap_msgs (timeout_msg now m a) = (ap_msgs a)(m := (ap_msgs a m)\<lparr>m_eStatus := REQ_TIME,
     m_iRet := (case m_eType (ap_msgs a m) of ASYNC_CALL \<Rightarrow> if ap_connExcCnt a > 0 then TARSPROXYCONNECTERR else TARSASYNCCALLTIMEOUT
       | SYNC_CALL \<Rightarrow> TARSASYNCCALLTIMEOUT | ONE_WAY \<Rightarrow> m_iRet (ap_msgs a m))\<rparr>)"
  "ap_released (timeout_msg now m a) = ap_released a @ [m]" "ap_serial (timeout_msg now m a) = ap_serial a"
  "ap_requestMsg (timeout_msg now m a) = (if ap_requestMsg a = Some m then None else ap_requestMsg a)"
  by (auto simp: timeout_msg_def Let_def msg_update_def split: CallType.split)

lemma doTimeout_handled:
  "flow_ok a \<Longrightarrow> fst (doTimeout ms now a) = Inr () \<and> books a {} (snd (doTimeout ms now a))
     \<and> (\<forall>(d, k) \<in> set (c_time (tq_abs (ap_timeoutQueue (snd (doTimeout ms now a))))). ms < d)"
proof (induction ms now a rule: doTimeout.induct)
  case (1 ms now a)
  show ?case using flowD(1)[OF "1.prems"]
  proof (cases rule: timeout_entry[where ms = ms])
    case none
    then have "doTimeout ms now a = (Inr (), a\<lparr>ap_timeoutQueue := ap_timeoutQueue a\<rparr>)" by (subst doTimeout.simps) simp
    then show ?thesis using none(2) books_refl[OF "1.prems"] by simp
  next
    case (some k m q)
    let ?b = "timeout_msg now m (a\<lparr>ap_timeoutQueue := q\<rparr>)"
    have b: "books a {} ?b" by (rule books_leave[OF "1.prems" some(2,4,3)]) simp_all
    then have "flow_ok ?b" unfolding books_def by blast
    note ih = "1.IH"[OF some(1) refl refl this]
    have "doTimeout ms now a = doTimeout ms now ?b" using some(1) by (subst doTimeout.simps) simp
    then show ?thesis using ih books_trans[OF b, of "{}"] by simp
  qed
qed

text \<open>
  What happens to an adapter: a call, room on the connection, a response, the timer, a failed or a made
  connection, or anything that changes the connection only. The events are handled one after the other by the
  network thread, which catches the exceptions.
\<close>

datatype adapter_event = Invoke nat | CanSend | Arrived "32 word" int | Timer int | ConnExc bool | Network Transceiver

fun adapter_step ::
    "(ReqMessage \<Rightarrow> byte list) \<Rightarrow> nat \<Rightarrow> int \<Rightarrow> adapter_event \<Rightarrow> AdapterProxy \<Rightarrow> (adapter_exn + unit) \<times> AdapterProxy" where
  "adapter_step enc junk now (Invoke m) a = map_prod (map_sum id (\<lambda>_. ())) id (ap_invoke enc junk now m a)"
| "adapter_step enc junk now CanSend a = doInvoke now a"
| "adapter_step enc junk now (Arrived i ret) a = finishInvoke_rsp now i ret a"
| "adapter_step enc junk now (Timer ms) a = doTimeout ms now a"
| "adapter_step enc junk now (ConnExc bExc) a = (Inr (), addConnExc now bExc a)"
| "adapter_step enc junk now (Network t) a = (Inr (), a\<lparr>ap_trans := t\<rparr>)"

text \<open>The messages of the calls that returned, the exceptions, and the adapter in the end.\<close>

fun adapter_run ::
    "(ReqMessage \<Rightarrow> byte list) \<Rightarrow> nat \<Rightarrow> (int \<times> adapter_event) list \<Rightarrow> AdapterProxy \<Rightarrow> nat list \<times> adapter_exn list \<times> AdapterProxy" where
  "adapter_run enc junk [] a = ([], [], a)"
| "adapter_run enc junk ((now, ev) # evs) a = (case adapter_step enc junk now ev a of
     (r, a1) \<Rightarrow> (case adapter_run enc junk evs a1 of
       (ms, es, a2) \<Rightarrow> ((case (ev, r) of (Invoke m, Inr _) \<Rightarrow> m # ms | _ \<Rightarrow> ms), (case r of Inl e \<Rightarrow> e # es | Inr _ \<Rightarrow> es), a2)))"

fun invocations :: "(int \<times> adapter_event) list \<Rightarrow> nat list" where
  "invocations ((_, Invoke m) # evs) = m # invocations evs"
| "invocations (_ # evs) = invocations evs"
| "invocations [] = []"

text \<open>A message that can be passed to \<^verbatim>\<open>invoke\<close>: a new one, and not a one-way call in the serial mode.\<close>

definition callable :: "AdapterProxy \<Rightarrow> nat \<Rightarrow> bool" where
  "callable a m \<longleftrightarrow> m_eStatus (ap_msgs a m) = REQ_REQ \<and> (ap_serial a \<longrightarrow> m_eType (ap_msgs a m) \<noteq> ONE_WAY)"

definition untouched :: "nat \<Rightarrow> AdapterProxy \<Rightarrow> AdapterProxy \<Rightarrow> bool" where
  "untouched m a b \<longleftrightarrow> ap_msgs b m = ap_msgs a m \<and> ap_serial b = ap_serial a"

lemma step_handled:
  assumes "flow_ok a" "\<And>m. ev = Invoke m \<Longrightarrow> fresh_msg m a" "adapter_step enc junk now ev a = (r, b)"
  shows "books a (case ev of Invoke m \<Rightarrow> (case r of Inr _ \<Rightarrow> {m} | Inl _ \<Rightarrow> {}) | _ \<Rightarrow> {}) b"
    "r = Inl e \<Longrightarrow> e = PushCallbackNull \<or> (\<exists>t. e = TransExn t)"
proof -
  have h: "books a {} b \<and> (\<forall>e. r = Inl e \<longrightarrow> e = PushCallbackNull \<or> (\<exists>t. e = TransExn t))" if "\<forall>m. ev \<noteq> Invoke m"
  proof (cases ev)
    case CanSend
    have "handled a (doInvoke now a)"
      using doInvoke_serial_handled[OF assms(1)] doInvoke_parallel_handled[OF assms(1)] flow_parallel[OF assms(1)] by (simp add: doInvoke_def)
    then show ?thesis using CanSend assms(3) by (simp add: handled_def)
  next
    case (Arrived i ret)
    have "handled a (finishInvoke_rsp now i ret a)"
      using finishInvoke_serial_handled[OF assms(1)] finishInvoke_parallel_handled[OF assms(1)] flow_parallel[OF assms(1)]
      by (simp add: finishInvoke_rsp_def)
    then show ?thesis using Arrived assms(3) by (simp add: handled_def)
  next
    case (Timer ms)
    then show ?thesis using doTimeout_handled[OF assms(1), of ms now] assms(3) by simp
  next
    case (ConnExc x)
    have "books a {} (addConnExc now x a)" by (rule books_same[OF assms(1)]) (simp_all add: addConnExc_def Let_def)
    then show ?thesis using ConnExc assms(3) by auto
  next
    case (Network t)
    have "books a {} (a\<lparr>ap_trans := t\<rparr>)" by (rule books_same[OF assms(1)]) simp_all
    then show ?thesis using Network assms(3) by auto
  qed (use that in blast)
  show "books a (case ev of Invoke m \<Rightarrow> (case r of Inr _ \<Rightarrow> {m} | Inl _ \<Rightarrow> {}) | _ \<Rightarrow> {}) b"
    "r = Inl e \<Longrightarrow> e = PushCallbackNull \<or> (\<exists>t. e = TransExn t)"
  proof -
    have i: "invoked m a (ap_invoke enc junk now m a)" if "ev = Invoke m" for m using ap_invoke_books[OF assms(1,2)] that by blast
    show "books a (case ev of Invoke m \<Rightarrow> (case r of Inr _ \<Rightarrow> {m} | Inl _ \<Rightarrow> {}) | _ \<Rightarrow> {}) b"
    proof (cases ev)
      case (Invoke m)
      obtain x y where x: "ap_invoke enc junk now m a = (x, y)" by (cases "ap_invoke enc junk now m a")
      show ?thesis using i[OF Invoke] x assms(3) Invoke by (cases x) (auto simp: invoked_def)
    qed (use h in simp_all)
    assume e: "r = Inl e"
    show "e = PushCallbackNull \<or> (\<exists>t. e = TransExn t)"
    proof (cases "\<exists>m. ev = Invoke m")
      case True
      then obtain m where m: "ev = Invoke m" ..
      obtain x y where x: "ap_invoke enc junk now m a = (x, y)" by (cases "ap_invoke enc junk now m a")
      show ?thesis using i[OF m] x assms(3) m e by (cases x) (auto simp: invoked_def)
    qed (use h e in blast)
  qed
qed

text \<open>No step touches a message that is neither called nor in the table.\<close>

lemma untouched_trans: "untouched x a b \<Longrightarrow> untouched x b c \<Longrightarrow> untouched x a c"
  by (simp add: untouched_def)

lemma untouched_refl: "untouched x a a" by (simp add: untouched_def)

lemma untouched_call:
  assumes "x \<noteq> m"
  shows "untouched x a (generate_id m a)" "untouched x a (encode_request enc m a)" "untouched x a (refuse now m a)"
    "untouched x a (msg_update m f a)" "untouched x a (finishInvoke_msg now y a)"
  using assms by (simp_all add: untouched_def generate_id_def encode_request_def refuse_def split: prod.split)

lemma untouched_fields: "untouched x a (a\<lparr>ap_requestMsg := r\<rparr>)" "untouched x a (a\<lparr>ap_timeoutQueue := q\<rparr>)"
  "untouched x a (a\<lparr>ap_released := l\<rparr>)" "untouched x a (a\<lparr>ap_trans := t\<rparr>)"
  by (simp_all add: untouched_def)

lemma untouched_send: "send_msg m a = (r, b) \<Longrightarrow> untouched x a b"
  by (auto simp: send_msg_def untouched_def split: prod.splits sum.splits)

lemma untouched_push: "push_msg junk now m s a = (f, b) \<Longrightarrow> untouched x a b"
  by (auto simp: push_msg_def Let_def untouched_def split: prod.splits)

lemma untouched_queue:
  assumes "x \<noteq> m" "queue_unsent junk now m a = (r, b)"
  shows "untouched x a b"
proof -
  obtain f c where p: "push_msg junk now m False a = (f, c)" by (cases "push_msg junk now m False a")
  then have "b = (if f then c else refuse now m c)" using assms(2) by (simp add: queue_unsent_def)
  then show ?thesis using untouched_push[OF p] untouched_trans[OF untouched_push[OF p] untouched_call(3)[OF assms(1)]] by simp
qed

lemma untouched_parallel:
  assumes "x \<noteq> m" "invoke_connection_parallel enc junk now m a = (r, b)"
  shows "untouched x a b"
proof -
  let ?c = "encode_request enc m a"
  have c: "untouched x a ?c" using untouched_call(2)[OF assms(1)] .
  have "untouched x ?c b"
  proof (cases "tq_sendListEmpty (ap_timeoutQueue ?c)")
    case False
    then show ?thesis using assms untouched_queue by (simp add: invoke_connection_parallel_def Let_def)
  next
    case True
    obtain s d where s: "send_msg m ?c = (s, d)" by (cases "send_msg m ?c")
    obtain f e where p: "push_msg junk now m True d = (f, e)" by (cases "push_msg junk now m True d")
    obtain u v where q: "queue_unsent junk now m d = (u, v)" by (cases "queue_unsent junk now m d")
    have "b \<in> {d, d\<lparr>ap_released := ap_released d @ [m]\<rparr>, e, refuse now m e, refuse now m d, v}"
      using True s p q assms(2) by (auto simp: invoke_connection_parallel_def Let_def split: sum.splits if_splits)
    moreover have "untouched x d e" "untouched x d v" using untouched_push[OF p] untouched_queue[OF assms(1) q] .
    ultimately have "untouched x d b" using untouched_call(3)[OF assms(1)] untouched_fields(3) untouched_refl untouched_trans by blast
    then show ?thesis using untouched_trans[OF untouched_send[OF s]] by blast
  qed
  then show ?thesis using untouched_trans[OF c] by blast
qed

lemma untouched_serial:
  assumes "x \<noteq> m" "invoke_connection_serial enc junk now m a = (r, b)"
  shows "untouched x a b"
proof (cases "m_eType (ap_msgs a m) = ONE_WAY")
  case True
  then show ?thesis using assms(2) untouched_refl by (simp add: invoke_connection_serial_def)
next
  case ty: False
  let ?c = "generate_id m (encode_request enc m a)"
  have c: "untouched x a ?c" using untouched_trans[OF untouched_call(2)[OF assms(1)] untouched_call(1)[OF assms(1)]] .
  have "untouched x ?c b"
  proof (cases "ap_requestMsg ?c = None \<and> tq_sendListEmpty (ap_timeoutQueue ?c)")
    case False
    then show ?thesis using ty assms untouched_queue by (auto simp: invoke_connection_serial_def Let_def)
  next
    case True
    obtain s d where s: "send_msg m ?c = (s, d)" by (cases "send_msg m ?c")
    let ?d = "d\<lparr>ap_requestMsg := Some m\<rparr>"
    obtain f e where p: "push_msg junk now m True ?d = (f, e)" by (cases "push_msg junk now m True ?d")
    obtain u v where q: "queue_unsent junk now m d = (u, v)" by (cases "queue_unsent junk now m d")
    have "b \<in> {d, e, refuse now m (e\<lparr>ap_requestMsg := None\<rparr>), refuse now m (d\<lparr>ap_requestMsg := None\<rparr>), v}"
      using True ty s p q assms(2) by (auto simp: invoke_connection_serial_def Let_def split: sum.splits if_splits)
    moreover have "untouched x d e" "untouched x d v"
      using untouched_trans[OF untouched_fields(1) untouched_push[OF p]] untouched_queue[OF assms(1) q] .
    moreover have "untouched x y (refuse now m (y\<lparr>ap_requestMsg := None\<rparr>))" for y
      using untouched_trans[OF untouched_fields(1) untouched_call(3)[OF assms(1)]] .
    ultimately have "untouched x d b" using untouched_refl untouched_trans by blast
    then show ?thesis using untouched_trans[OF untouched_send[OF s]] by blast
  qed
  then show ?thesis using untouched_trans[OF c] by blast
qed

lemma untouched_invoke:
  assumes "x \<noteq> m" "ap_invoke enc junk now m a = (r, b)"
  shows "untouched x a b"
proof (cases "tq_getSendListSize (ap_timeoutQueue a) > ap_noSendQueueLimit a")
  case True
  then show ?thesis
    using assms(2) untouched_trans[OF untouched_call(4)[OF assms(1)] untouched_call(3)[OF assms(1)]] by (auto simp: ap_invoke_def)
next
  case False
  let ?c = "if \<not> m_bFromRpc (ap_msgs a m) then generate_id m a else a"
  have c: "untouched x a ?c" using untouched_call(1)[OF assms(1)] untouched_refl by simp
  have "untouched x ?c b"
    using False assms(2) untouched_serial[OF assms(1), of enc junk now ?c r b] untouched_parallel[OF assms(1), of enc junk now ?c r b]
    by (cases "ap_serial ?c") (simp_all add: ap_invoke_def Let_def)
  then show ?thesis using untouched_trans[OF c] by blast
qed

lemma untouched_doInvoke_parallel: "doInvoke_parallel a = (r, b) \<Longrightarrow> untouched x a b"
proof (induction a rule: doInvoke_parallel.induct)
  case (1 a)
  note step = "1.prems"[unfolded doInvoke_parallel.simps[of a]]
  show ?case
  proof (cases "tq_sendListEmpty (ap_timeoutQueue a) \<or> (\<forall>m. tq_getSend (ap_timeoutQueue a) \<noteq> Inr (Some m))")
    case True
    then show ?thesis using step untouched_refl by (auto split: if_splits sum.splits option.splits)
  next
    case False
    then obtain m where g: "\<not> tq_sendListEmpty (ap_timeoutQueue a)" "tq_getSend (ap_timeoutQueue a) = Inr (Some m)" by blast
    obtain s c where s: "send_msg m a = (s, c)" by (cases "send_msg m a")
    have c: "untouched x a c" using untouched_send[OF s] .
    show ?thesis
    proof (cases "\<exists>ret q. s = Inr ret \<and> \<not> (ret = eRetError \<or> ret = eRetNotSend)
        \<and> tq_popSend (m_eType (ap_msgs c m) = ONE_WAY) (ap_timeoutQueue c) = Inr q")
      case False
      then have "b = c" using step g s by (auto split: if_splits sum.splits)
      then show ?thesis using c by simp
    next
      case True
      then obtain ret q where q: "s = Inr ret" "\<not> (ret = eRetError \<or> ret = eRetNotSend)"
        "tq_popSend (m_eType (ap_msgs c m) = ONE_WAY) (ap_timeoutQueue c) = Inr q" by blast
      let ?c = "c\<lparr>ap_timeoutQueue := q\<rparr>"
      let ?d = "if m_eType (ap_msgs c m) = ONE_WAY then ?c\<lparr>ap_released := ap_released ?c @ [m]\<rparr> else ?c"
      have d: "untouched x a ?d" using c by (simp add: untouched_def)
      have e: "(if ret = eRetFull then (Inr (), ?d) else doInvoke_parallel ?d) = (r, b)" using step g s q by (simp add: Let_def)
      show ?thesis
      proof (cases "ret = eRetFull")
        case True
        then show ?thesis using e d by simp
      next
        case False
        then show ?thesis using "1.IH"[OF g refl s[symmetric] q refl refl False] e untouched_trans[OF d] by simp
      qed
    qed
  qed
qed

lemma untouched_doTimeout: "flow_ok a \<Longrightarrow> x \<notin> waiting a \<Longrightarrow> untouched x a (snd (doTimeout ms now a))"
proof (induction ms now a rule: doTimeout.induct)
  case (1 ms now a)
  show ?case using flowD(1)[OF "1.prems"(1)]
  proof (cases rule: timeout_entry[where ms = ms])
    case none
    then have "doTimeout ms now a = (Inr (), a\<lparr>ap_timeoutQueue := ap_timeoutQueue a\<rparr>)" by (subst doTimeout.simps) simp
    then show ?thesis using untouched_refl by simp
  next
    case (some k m q)
    let ?b = "timeout_msg now m (a\<lparr>ap_timeoutQueue := q\<rparr>)"
    have "books a {} ?b" by (rule books_leave[OF "1.prems"(1) some(2,4,3)]) simp_all
    then have f: "flow_ok ?b" unfolding books_def by blast
    have n: "x \<notin> ran (entries (ap_timeoutQueue a))" using "1.prems"(2) by (simp add: waiting_def)
    then have "x \<noteq> m" using some(3) by (auto simp: ran_def)
    then have b: "untouched x a ?b" by (simp add: untouched_def)
    have "ran (entries q) \<subseteq> ran (entries (ap_timeoutQueue a))" unfolding some(4) by (auto simp: ran_def split: if_splits)
    then have "x \<notin> waiting ?b" using n by (auto simp: waiting_def)
    note ih = "1.IH"[OF some(1) refl refl f this]
    have "doTimeout ms now a = doTimeout ms now ?b" using some(1) by (subst doTimeout.simps) simp
    then show ?thesis using untouched_trans[OF b ih] by simp
  qed
qed

lemma untouched_doInvoke_serial:
  assumes "flow_ok a" "x \<notin> waiting a" "doInvoke_serial now a = (r, b)"
  shows "untouched x a b"
proof (cases "\<exists>m. ap_requestMsg a = None \<and> \<not> tq_sendListEmpty (ap_timeoutQueue a) \<and> tq_getSend (ap_timeoutQueue a) = Inr (Some m)")
  case False
  then show ?thesis using assms(3) untouched_refl by (auto simp: doInvoke_serial_def split: if_splits sum.splits option.splits)
next
  case True
  then obtain m where g: "ap_requestMsg a = None" "\<not> tq_sendListEmpty (ap_timeoutQueue a)" "tq_getSend (ap_timeoutQueue a) = Inr (Some m)" by blast
  obtain k m' where "entries (ap_timeoutQueue a) k = Some m'" "tq_getSend (ap_timeoutQueue a) = Inr (Some m')"
    using unsent_last[OF flowD(1)[OF assms(1)] g(2)] by metis
  then have n: "x \<noteq> m" using assms(2) g(3) by (auto simp: waiting_def ran_def)
  obtain s c where s: "send_msg m a = (s, c)" by (cases "send_msg m a")
  have "untouched x c b"
    using assms(3) g s n by (auto simp: doInvoke_serial_def untouched_def split: if_splits sum.splits)
  then show ?thesis using untouched_trans[OF untouched_send[OF s]] by blast
qed

lemma untouched_rsp:
  assumes "flow_ok a" "x \<notin> waiting a" "finishInvoke_rsp now i ret a = (r, b)"
  shows "untouched x a b"
proof (cases "ap_serial a")
  case True
  show ?thesis
  proof (cases "ap_requestMsg a")
    case None
    then show ?thesis using True assms(3) untouched_refl by (simp add: finishInvoke_rsp_def finishInvoke_serial_def)
  next
    case (Some m)
    have "x \<noteq> m" using flow_request[OF assms(1) Some] assms(2) by (auto simp: waiting_def ran_def)
    then show ?thesis using True Some assms(3)
      by (auto simp: finishInvoke_rsp_def finishInvoke_serial_def untouched_def split: sum.splits if_splits)
  qed
next
  case False
  obtain q where q: "tq_erase i (ap_timeoutQueue a) = Inr (entries (ap_timeoutQueue a) i, q)"
    using erase_entry[OF flowD(1)[OF assms(1)]] by blast
  show ?thesis
  proof (cases "entries (ap_timeoutQueue a) i")
    case None
    then show ?thesis using False q assms(3)
      by (auto simp: finishInvoke_rsp_def finishInvoke_parallel_def untouched_def split: if_splits)
  next
    case (Some m)
    then have "x \<noteq> m" using assms(2) by (auto simp: waiting_def ran_def)
    then show ?thesis using False q Some assms(3)
      by (auto simp: finishInvoke_rsp_def finishInvoke_parallel_def untouched_def split: if_splits)
  qed
qed

lemma step_untouched:
  assumes "flow_ok a" "x \<notin> waiting a" "ev \<noteq> Invoke x" "adapter_step enc junk now ev a = (r, b)"
  shows "untouched x a b"
proof (cases ev)
  case (Invoke m)
  obtain s c where s: "ap_invoke enc junk now m a = (s, c)" by (cases "ap_invoke enc junk now m a")
  then show ?thesis using untouched_invoke[OF _ s, of x] assms(3,4) Invoke by simp
next
  case CanSend
  then show ?thesis using assms untouched_doInvoke_serial untouched_doInvoke_parallel by (auto simp: doInvoke_def split: if_splits)
next
  case (Arrived i ret)
  then show ?thesis using untouched_rsp assms by simp
next
  case (Timer ms)
  then show ?thesis using untouched_doTimeout[OF assms(1,2), of ms now] assms(4) by simp
next
  case (ConnExc e)
  have "ap_msgs (addConnExc now e a) = ap_msgs a" "ap_serial (addConnExc now e a) = ap_serial a"
    by (simp_all add: addConnExc_def Let_def)
  then show ?thesis using ConnExc assms(4) by (auto simp: untouched_def)
next
  case (Network t)
  then show ?thesis using assms(4) by (auto simp: untouched_def)
qed

lemma adapter_run_books:
  assumes "flow_ok a" "distinct (invocations evs)" "\<And>m. m \<in> set (invocations evs) \<Longrightarrow> fresh_msg m a" "adapter_run enc junk evs a = (ms, es, b)"
  shows "books a (set ms) b \<and> set ms \<subseteq> set (invocations evs) \<and> (\<forall>e \<in> set es. e = PushCallbackNull \<or> (\<exists>t. e = TransExn t))"
  using assms
proof (induction evs arbitrary: a ms es b)
  case Nil
  then show ?case by (simp add: books_def)
next
  case (Cons nev evs)
  obtain now ev where nev: "nev = (now, ev)" by (cases nev)
  obtain r a1 where s: "adapter_step enc junk now ev a = (r, a1)" by (cases "adapter_step enc junk now ev a")
  obtain ms1 es1 b1 where t: "adapter_run enc junk evs a1 = (ms1, es1, b1)" by (cases "adapter_run enc junk evs a1")
  let ?X = "case ev of Invoke m \<Rightarrow> (case r of Inr _ \<Rightarrow> {m} | Inl _ \<Rightarrow> {}) | _ \<Rightarrow> {}"
  have inv: "set (invocations (nev # evs)) = (case ev of Invoke m \<Rightarrow> insert m (set (invocations evs)) | _ \<Rightarrow> set (invocations evs))"
    using nev by (cases ev) simp_all
  have new: "ev \<noteq> Invoke m" if "m \<in> set (invocations evs)" for m using that Cons.prems(2) nev by auto
  have fr: "fresh_msg m a" if "ev = Invoke m" for m using that Cons.prems(3) inv by simp
  note h = step_handled[OF Cons.prems(1) fr s]
  have f1: "flow_ok a1" using h(1) unfolding books_def by blast
  have X: "?X \<subseteq> {m. ev = Invoke m}" by (auto split: adapter_event.splits sum.splits)
  have fresh1: "fresh_msg m a1" if m: "m \<in> set (invocations evs)" for m
  proof -
    have f: "fresh_msg m a" using Cons.prems(3) inv m by (cases ev) simp_all
    have "m \<notin> waiting a1 \<union> set (ap_released a1)" using h(1) X f new[OF m] unfolding books_def fresh_msg_def by blast
    moreover have "untouched m a a1" using step_untouched[OF Cons.prems(1) _ new[OF m] s] f by (simp add: fresh_msg_def)
    ultimately show ?thesis using f by (simp add: fresh_msg_def untouched_def)
  qed
  have d: "distinct (invocations evs)" using Cons.prems(2) nev by (cases ev) simp_all
  have ih: "books a1 (set ms1) b1 \<and> set ms1 \<subseteq> set (invocations evs) \<and> (\<forall>e \<in> set es1. e = PushCallbackNull \<or> (\<exists>t. e = TransExn t))"
    using Cons.IH[OF f1 d fresh1 t] .
  have res: "ms = (case (ev, r) of (Invoke m, Inr _) \<Rightarrow> m # ms1 | _ \<Rightarrow> ms1)" "es = (case r of Inl e \<Rightarrow> e # es1 | Inr _ \<Rightarrow> es1)" "b = b1"
    using Cons.prems(4) nev s t by (auto split: adapter_event.splits sum.splits)
  have "set ms = ?X \<union> set ms1" using res(1) by (auto split: adapter_event.splits sum.splits)
  moreover have "books a (?X \<union> set ms1) b" using books_trans[OF h(1)] ih res(3) by simp
  moreover have "?X \<union> set ms1 \<subseteq> set (invocations (nev # evs))" using X ih inv by (auto split: adapter_event.splits sum.splits)
  moreover have "\<forall>e \<in> set es. e = PushCallbackNull \<or> (\<exists>t. e = TransExn t)" using res(2) ih h(2) by (cases r) auto
  ultimately show ?case by simp
qed



text \<open>
  C27. A request does not wait for ever. When the timer runs at the time \<open>ms\<close>, every request whose deadline has passed
  is given back: the call ends without an exception, and what is left in the table has a later deadline.
\<close>

theorem deadlines_are_kept:
  assumes "flow_ok a"
  shows "\<exists>b. doTimeout ms now a = (Inr (), b) \<and> flow_ok b \<and> waiting b \<union> set (ap_released b) = waiting a \<union> set (ap_released a)
    \<and> (\<forall>(d, k) \<in> set (c_time (tq_abs (ap_timeoutQueue b))). ms < d)"
proof -
  obtain x b where d: "doTimeout ms now a = (x, b)" by (cases "doTimeout ms now a")
  have h: "x = Inr ()" "books a {} b" "\<forall>(d, k) \<in> set (c_time (tq_abs (ap_timeoutQueue b))). ms < d"
    using doTimeout_handled[OF assms, of ms now] d by simp_all
  then show ?thesis using d unfolding books_def by blast
qed

lemma send_fails:
  assumes "tr_connStatus t = eConnected" "\<not> tr_authLocal t" "nb_empty (tr_sendBuffer t)" "nb_list (tr_sendBuffer t) = []"
    "tr_sends t = SendFails # k" "bf_length (nb_store (tr_sendBuffer t) x) \<noteq> 0"
  shows "\<exists>t'. tr_sendRequest x t = (Inl TC_Transceiver_Exception, t')"
proof -
  have e: "\<not> bf_empty (nb_store (tr_sendBuffer t) x)" using assms(6) by (auto simp: bf_empty_def bf_length_def)
  let ?t = "t\<lparr>tr_sendBuffer := nb_share x (tr_sendBuffer t)\<rparr>"
  have "tr_sendRequest x t = send_loop ?t" using e assms(1-3) by (simp add: tr_sendRequest_def)
  moreover have "buffer_pointer (tr_sendBuffer ?t) = Inr (bf_data (nb_store (tr_sendBuffer t) x))"
    using e assms(3,4,6) by (simp add: nb_share_def buffer_pointer_def nb_getBufferPointer_def nb_empty_def)
  then have "\<exists>t'. send_loop ?t = (Inl TC_Transceiver_Exception, t')"
    using assms(1,5) by (subst send_loop.simps) (simp add: tcp_send_def)
  ultimately show ?thesis by simp
qed

text \<open>
  C40. A call on a connection that breaks at that moment loses its request: when the kernel reports an error for the
  send, the exception leaves \<^verbatim>\<open>invoke\<close> before the message is in the table, so that it is neither waiting, with a
  deadline, nor given back. The result \<^verbatim>\<open>eRetError\<close> that the code expects for this is not returned by a
  TCP transceiver.
\<close>

theorem broken_connection_loses_request:
  assumes "flow_ok a" "fresh_msg m a" "\<not> ap_serial a" "tq_send (ap_timeoutQueue a) = []" "\<And>r. enc r \<noteq> []"
    "tr_connStatus (ap_trans a) = eConnected" "\<not> tr_authLocal (ap_trans a)" "nb_empty (tr_sendBuffer (ap_trans a))"
    "nb_list (tr_sendBuffer (ap_trans a)) = []" "tr_sends (ap_trans a) = SendFails # k"
  shows "\<exists>b. ap_invoke enc junk now m a = (Inl (TransExn TC_Transceiver_Exception), b) \<and> m \<notin> waiting b \<and> m \<notin> set (ap_released b)"
proof -
  let ?b = "if \<not> m_bFromRpc (ap_msgs a m) then generate_id m a else a"
  have g: "ap_trans ?b = ap_trans a" "tq_send (ap_timeoutQueue ?b) = []" "\<not> ap_serial ?b"
    using assms(3,4) by (auto simp: generate_id_def tq_generateId_def Let_def)
  let ?c = "encode_request enc m ?b"
  let ?s = "tr_sendBuffer (ap_trans a)" and ?blk = "bf_replaceBuffer (enc (ap_msgs ?b m)) Buffer_new"
  have tc: "ap_trans ?c = (ap_trans a)\<lparr>tr_sendBuffer := ?s\<lparr>nb_store := (nb_store ?s)(nb_next ?s := ?blk), nb_next := Suc (nb_next ?s)\<rparr>\<rparr>"
    "m_sReqData (ap_msgs ?c m) = nb_next ?s" "ap_timeoutQueue ?c = ap_timeoutQueue ?b"
    using g(1) by (simp_all add: encode_request_def nb_alloc_def)
  have "bf_length ?blk \<noteq> 0" using assms(5) by (simp add: bf_replaceBuffer_def bf_length_def)
  then obtain t where "tr_sendRequest (nb_next ?s) (ap_trans ?c) = (Inl TC_Transceiver_Exception, t)"
    using send_fails[of "ap_trans ?c" k "nb_next ?s"] assms(6-10) tc(1) by (auto simp: nb_empty_def)
  then have s: "send_msg m ?c = (Inl (TransExn TC_Transceiver_Exception), ?c\<lparr>ap_trans := t\<rparr>)"
    using tc(2) by (simp add: send_msg_def)
  have "tq_sendListEmpty (ap_timeoutQueue ?c)" using g(2) tc(3) by (simp add: tq_sendListEmpty_def)
  then have "invoke_connection_parallel enc junk now m ?b = (Inl (TransExn TC_Transceiver_Exception), ?c\<lparr>ap_trans := t\<rparr>)"
    using s by (simp add: invoke_connection_parallel_def Let_def)
  moreover have "ap_invoke enc junk now m a = invoke_connection_parallel enc junk now m ?b"
    using assms(4) g(3) by (simp add: ap_invoke_def tq_getSendListSize_def Let_def)
  ultimately have r: "ap_invoke enc junk now m a = (Inl (TransExn TC_Transceiver_Exception), ?c\<lparr>ap_trans := t\<rparr>)" by simp
  then have "books a {} (?c\<lparr>ap_trans := t\<rparr>)" using ap_invoke_books[OF assms(1,2), of enc junk now] by (simp add: invoked_def)
  then have "m \<notin> waiting (?c\<lparr>ap_trans := t\<rparr>) \<union> set (ap_released (?c\<lparr>ap_trans := t\<rparr>))"
    using assms(2) unfolding books_def fresh_msg_def by blast
  then show ?thesis using r by blast
qed

lemma connected_adapter_flow: "flow_ok (connected_adapter serial sends)" "waiting (connected_adapter serial sends) = {}"
  by (simp_all add: connected_adapter_def flow_def waiting_def tq_ok_new tq_abs_new)

theorem broken_connection_loses_request_witness:
  "\<exists>b. ap_invoke (\<lambda>r. [1]) 0 0 2 (connected_adapter False [SendFails]) = (Inl (TransExn TC_Transceiver_Exception), b)
    \<and> 2 \<notin> waiting b \<and> 2 \<notin> set (ap_released b)"
proof (rule broken_connection_loses_request)
  show "flow_ok (connected_adapter False [SendFails])" by (rule connected_adapter_flow)
  show "fresh_msg 2 (connected_adapter False [SendFails])"
    using connected_adapter_flow(2)[of False "[SendFails]"] by (simp add: fresh_msg_def connected_adapter_def new_msg_def)
qed (simp_all add: connected_adapter_def TimeoutQueue_new_def NetWorkBuffer_new_def nb_empty_def)

lemmas call_simps = connected_adapter_def new_msg_def ap_invoke_def invoke_connection_parallel_def encode_request_def generate_id_def
  msg_update_def send_msg_def push_msg_def tq_push_def tq_generateId_def TimeoutQueue_new_def data_find_def tq_sendListEmpty_def tq_getSendListSize_def
  nb_alloc_def bf_replaceBuffer_def Buffer_new_def NetWorkBuffer_new_def tr_sendRequest_def send_loop.simps nb_share_def bf_empty_def bf_length_def
  nb_empty_def buffer_pointer_def nb_getBufferPointer_def bf_data_def bf_mem_def tcp_send_def nb_moveHeader_def bf_addReadIdx_def tr_isValid_def Let_def

theorem deadlines_are_kept_witness:
  "\<exists>a b. ap_invoke (\<lambda>r. [1]) 0 0 2 (connected_adapter False [SendBytes 1]) = (Inr 0, a) \<and> doTimeout 4000 4 a = (Inr (), b)
    \<and> waiting b \<union> set (ap_released b) = {2} \<and> (\<forall>(d, k) \<in> set (c_time (tq_abs (ap_timeoutQueue b))). 4000 < d)"
proof -
  let ?c = "connected_adapter False [SendBytes 1]"
  have f: "fst (ap_invoke (\<lambda>r. [1]) 0 0 2 ?c) = Inr 0" by (simp add: call_simps)
  then obtain a where a: "ap_invoke (\<lambda>r. [1]) 0 0 2 ?c = (Inr 0, a)" by (cases "ap_invoke (\<lambda>r. [1]) 0 0 2 ?c") auto
  have "fresh_msg 2 ?c" using connected_adapter_flow(2)[of False "[SendBytes 1]"] by (simp add: fresh_msg_def connected_adapter_def new_msg_def)
  then have "books ?c {2} a" using ap_invoke_books[OF connected_adapter_flow(1), of 2 False "[SendBytes 1]" "\<lambda>r. [1]" 0 0] a by (simp add: invoked_def)
  then have w: "flow_ok a" "waiting a \<union> set (ap_released a) = {2}"
    using connected_adapter_flow(2)[of False "[SendBytes 1]"] by (simp_all add: books_def connected_adapter_def)
  then show ?thesis using deadlines_are_kept[OF w(1), of 4000 4] a by auto
qed

end
