(* ===== verification/Md5_Digest.thy ===== *)
theory Md5_Digest
  imports Buffer_Writer
begin

text \<open>
  The MD5 digest (\<^verbatim>\<open>util/src/tc_md5.cpp\<close>) that places servers and keys on the ring of consistent hashing. The code
  computes with \<^verbatim>\<open>unsigned long\<close>, 64 bits wide on the host modelled, and keeps the buffer of an incomplete block
  between calls. The second half states the algorithm of RFC 1321 on 32-bit words and whole messages, and shows
  that the code computes it.
\<close>

section \<open>The code\<close>

type_synonym 'w regs = "'w \<times> 'w \<times> 'w \<times> 'w"

record MD5_CTX =
  md_state :: "32 word regs"
  md_count0 :: "32 word"
  md_count1 :: "32 word"
  md_buffer :: "byte list"

text \<open>The context is a local variable: \<open>junk\<close> is what its buffer holds before.\<close>

definition md5init :: "byte list \<Rightarrow> MD5_CTX" where
  "md5init junk = \<lparr>md_state = (0x67452301, 0xefcdab89, 0x98badcfe, 0x10325476),
     md_count0 = 0, md_count1 = 0, md_buffer = junk\<rparr>"

definition GET_ULONG_LE :: "byte list \<Rightarrow> nat \<Rightarrow> 64 word" where
  "GET_ULONG_LE b i =
     ucast (b ! i) OR push_bit 8 (ucast (b ! (i + 1))) OR push_bit 16 (ucast (b ! (i + 2)))
     OR push_bit 24 (ucast (b ! (i + 3)))"

definition PUT_ULONG_LE :: "32 word \<Rightarrow> byte list" where
  "PUT_ULONG_LE n = [ucast n, ucast (drop_bit 8 n), ucast (drop_bit 16 n), ucast (drop_bit 24 n)]"

text \<open>The macros \<^verbatim>\<open>S\<close>, \<^verbatim>\<open>F\<close> and \<^verbatim>\<open>P\<close> of \<^verbatim>\<open>md5_process\<close>.\<close>

definition md5_S :: "64 word \<Rightarrow> nat \<Rightarrow> 64 word" where
  "md5_S x n = push_bit n x OR drop_bit (32 - n) (x AND 0xFFFFFFFF)"

definition md5_F1 :: "64 word \<Rightarrow> 64 word \<Rightarrow> 64 word \<Rightarrow> 64 word" where
  "md5_F1 x y z = z XOR (x AND (y XOR z))"

definition md5_F2 :: "64 word \<Rightarrow> 64 word \<Rightarrow> 64 word \<Rightarrow> 64 word" where
  "md5_F2 x y z = y XOR (z AND (x XOR y))"

definition md5_F3 :: "64 word \<Rightarrow> 64 word \<Rightarrow> 64 word \<Rightarrow> 64 word" where
  "md5_F3 x y z = x XOR y XOR z"

definition md5_F4 :: "64 word \<Rightarrow> 64 word \<Rightarrow> 64 word \<Rightarrow> 64 word" where
  "md5_F4 x y z = y XOR (x OR NOT z)"

text \<open>
  Every use of \<^verbatim>\<open>P\<close> names the registers in the next rotation, \<^verbatim>\<open>(A, B, C, D)\<close>, \<^verbatim>\<open>(D, A, B, C)\<close>, \<dots>, and assigns
  the first of them. Here the registers rotate instead: the new value of \<open>a\<close> is the \<open>b\<close> of the next step. After
  sixteen steps every register is back under its name.
\<close>

definition md5_P ::
    "(64 word \<Rightarrow> 64 word \<Rightarrow> 64 word \<Rightarrow> 64 word) \<Rightarrow> 64 word list \<Rightarrow> nat \<times> nat \<times> 64 word \<Rightarrow> 64 word regs \<Rightarrow> 64 word regs" where
  "md5_P F X = (\<lambda>(k, s, t) (a, b, c, d). (d, md5_S (a + (F b c d + X ! k + t)) s + b, b, c))"

definition md5_steps1 :: "(nat \<times> nat \<times> 64 word) list" where
  "md5_steps1 =
    [(0, 7, 0xD76AA478), (1, 12, 0xE8C7B756), (2, 17, 0x242070DB), (3, 22, 0xC1BDCEEE),
     (4, 7, 0xF57C0FAF), (5, 12, 0x4787C62A), (6, 17, 0xA8304613), (7, 22, 0xFD469501),
     (8, 7, 0x698098D8), (9, 12, 0x8B44F7AF), (10, 17, 0xFFFF5BB1), (11, 22, 0x895CD7BE),
     (12, 7, 0x6B901122), (13, 12, 0xFD987193), (14, 17, 0xA679438E), (15, 22, 0x49B40821)]"

definition md5_steps2 :: "(nat \<times> nat \<times> 64 word) list" where
  "md5_steps2 =
    [(1, 5, 0xF61E2562), (6, 9, 0xC040B340), (11, 14, 0x265E5A51), (0, 20, 0xE9B6C7AA),
     (5, 5, 0xD62F105D), (10, 9, 0x02441453), (15, 14, 0xD8A1E681), (4, 20, 0xE7D3FBC8),
     (9, 5, 0x21E1CDE6), (14, 9, 0xC33707D6), (3, 14, 0xF4D50D87), (8, 20, 0x455A14ED),
     (13, 5, 0xA9E3E905), (2, 9, 0xFCEFA3F8), (7, 14, 0x676F02D9), (12, 20, 0x8D2A4C8A)]"

definition md5_steps3 :: "(nat \<times> nat \<times> 64 word) list" where
  "md5_steps3 =
    [(5, 4, 0xFFFA3942), (8, 11, 0x8771F681), (11, 16, 0x6D9D6122), (14, 23, 0xFDE5380C),
     (1, 4, 0xA4BEEA44), (4, 11, 0x4BDECFA9), (7, 16, 0xF6BB4B60), (10, 23, 0xBEBFBC70),
     (13, 4, 0x289B7EC6), (0, 11, 0xEAA127FA), (3, 16, 0xD4EF3085), (6, 23, 0x04881D05),
     (9, 4, 0xD9D4D039), (12, 11, 0xE6DB99E5), (15, 16, 0x1FA27CF8), (2, 23, 0xC4AC5665)]"

definition md5_steps4 :: "(nat \<times> nat \<times> 64 word) list" where
  "md5_steps4 =
    [(0, 6, 0xF4292244), (7, 10, 0x432AFF97), (14, 15, 0xAB9423A7), (5, 21, 0xFC93A039),
     (12, 6, 0x655B59C3), (3, 10, 0x8F0CCC92), (10, 15, 0xFFEFF47D), (1, 21, 0x85845DD1),
     (8, 6, 0x6FA87E4F), (15, 10, 0xFE2CE6E0), (6, 15, 0xA3014314), (13, 21, 0x4E0811A1),
     (4, 6, 0xF7537E82), (11, 10, 0xBD3AF235), (2, 15, 0x2AD7D2BB), (9, 21, 0xEB86D391)]"

definition md5_process :: "MD5_CTX \<Rightarrow> byte list \<Rightarrow> MD5_CTX" where
  "md5_process ctx data =
     (let X = map (\<lambda>i. GET_ULONG_LE data (4 * i)) [0..<16];
          r0 = (case md_state ctx of (a, b, c, d) \<Rightarrow> (ucast a, ucast b, ucast c, ucast d));
          r1 = fold (md5_P md5_F1 X) md5_steps1 r0;
          r2 = fold (md5_P md5_F2 X) md5_steps2 r1;
          r3 = fold (md5_P md5_F3 X) md5_steps3 r2;
          r4 = fold (md5_P md5_F4 X) md5_steps4 r3
      in ctx\<lparr>md_state := (case (md_state ctx, r4) of ((a, b, c, d), (A, B, C, D)) \<Rightarrow>
               (a + ucast A, b + ucast B, c + ucast C, d + ucast D))\<rparr>)"

text \<open>\<^verbatim>\<open>while (ilen >= 64)\<close>: the rest of the input and of its length come back with the context.\<close>

fun md5_blocks :: "MD5_CTX \<Rightarrow> byte list \<Rightarrow> nat \<Rightarrow> MD5_CTX \<times> byte list \<times> nat" where
  "md5_blocks ctx input ilen =
     (if ilen \<ge> 64 then md5_blocks (md5_process ctx (take 64 input)) (drop 64 input) (ilen - 64)
      else (ctx, input, ilen))"

definition md5update :: "MD5_CTX \<Rightarrow> byte list \<Rightarrow> 32 word \<Rightarrow> MD5_CTX" where
  "md5update ctx input ilen =
     (if ilen = 0 then ctx
      else
        let left = unat (md_count0 ctx AND 0x3F);
            fill = 64 - left;
            c0 = md_count0 ctx + ilen;
            ctx1 = ctx\<lparr>md_count0 := c0, md_count1 := if c0 < ilen then md_count1 ctx + 1 else md_count1 ctx\<rparr>;
            (ctx2, input2, ilen2, left2) =
              (if left \<noteq> 0 \<and> unat ilen \<ge> fill
               then let b = store_at left (take fill input) (md_buffer ctx1)
                    in (md5_process (ctx1\<lparr>md_buffer := b\<rparr>) b, drop fill input, unat ilen - fill, 0)
               else (ctx1, input, unat ilen, left));
            (ctx3, input3, ilen3) = md5_blocks ctx2 input2 ilen2
        in if ilen3 > 0 then ctx3\<lparr>md_buffer := store_at left2 (take ilen3 input3) (md_buffer ctx3)\<rparr> else ctx3)"

definition md5_PADDING :: "byte list" where
  "md5_PADDING = 0x80 # replicate 63 0"

definition md5final :: "MD5_CTX \<Rightarrow> byte list" where
  "md5final ctx =
     (let high = drop_bit 29 (md_count0 ctx) OR push_bit 3 (md_count1 ctx);
          low = push_bit 3 (md_count0 ctx);
          msglen = PUT_ULONG_LE low @ PUT_ULONG_LE high;
          last = md_count0 ctx AND 0x3F;
          padn = (if last < 56 then 56 - last else 120 - last);
          ctx1 = md5update ctx md5_PADDING padn;
          ctx2 = md5update ctx1 msglen 8
      in case md_state ctx2 of (a, b, c, d) \<Rightarrow> PUT_ULONG_LE a @ PUT_ULONG_LE b @ PUT_ULONG_LE c @ PUT_ULONG_LE d)"

definition md5bin :: "byte list \<Rightarrow> byte list \<Rightarrow> byte list" where
  "md5bin junk buffer = md5final (md5update (md5init junk) buffer (of_nat (length buffer)))"

text \<open>\<^verbatim>\<open>md5file\<close> reads the file in pieces: the loop over what \<^verbatim>\<open>fread\<close> returns.\<close>

definition md5file_loop :: "byte list \<Rightarrow> byte list list \<Rightarrow> byte list" where
  "md5file_loop junk pieces = md5final (fold (\<lambda>p ctx. md5update ctx p (of_nat (length p))) pieces (md5init junk))"

definition hex_digit :: "byte \<Rightarrow> byte" where
  "hex_digit d = (if d < 10 then 48 + d else 87 + d)"

definition bin2str :: "byte list \<Rightarrow> byte list \<Rightarrow> byte list" where
  "bin2str sSep buf = concat (map (\<lambda>p. [hex_digit (drop_bit 4 p), hex_digit (p AND 0xF)] @ sSep) buf)"

definition md5str :: "byte list \<Rightarrow> byte list \<Rightarrow> byte list" where
  "md5str junk buffer = bin2str [] (md5bin junk buffer)"

section \<open>The algorithm\<close>

text \<open>RFC 1321: the four functions, the schedule of words and rotations, and the table of sines.\<close>

definition rfc_f :: "nat \<Rightarrow> 32 word \<Rightarrow> 32 word \<Rightarrow> 32 word \<Rightarrow> 32 word" where
  "rfc_f i x y z =
     (if i < 16 then (x AND y) OR (NOT x AND z)
      else if i < 32 then (x AND z) OR (y AND NOT z)
      else if i < 48 then x XOR y XOR z
      else y XOR (x OR NOT z))"

definition rfc_k :: "nat \<Rightarrow> nat" where
  "rfc_k i = (if i < 16 then i else if i < 32 then (5 * i + 1) mod 16
     else if i < 48 then (3 * i + 5) mod 16 else 7 * i mod 16)"

definition rfc_s :: "nat \<Rightarrow> nat" where
  "rfc_s i = [[7, 12, 17, 22], [5, 9, 14, 20], [4, 11, 16, 23], [6, 10, 15, 21]] ! (i div 16) ! (i mod 4)"

definition rfc_T :: "32 word list" where
  "rfc_T =
    [0xD76AA478, 0xE8C7B756, 0x242070DB, 0xC1BDCEEE, 0xF57C0FAF, 0x4787C62A,
     0xA8304613, 0xFD469501, 0x698098D8, 0x8B44F7AF, 0xFFFF5BB1, 0x895CD7BE,
     0x6B901122, 0xFD987193, 0xA679438E, 0x49B40821, 0xF61E2562, 0xC040B340,
     0x265E5A51, 0xE9B6C7AA, 0xD62F105D, 0x02441453, 0xD8A1E681, 0xE7D3FBC8,
     0x21E1CDE6, 0xC33707D6, 0xF4D50D87, 0x455A14ED, 0xA9E3E905, 0xFCEFA3F8,
     0x676F02D9, 0x8D2A4C8A, 0xFFFA3942, 0x8771F681, 0x6D9D6122, 0xFDE5380C,
     0xA4BEEA44, 0x4BDECFA9, 0xF6BB4B60, 0xBEBFBC70, 0x289B7EC6, 0xEAA127FA,
     0xD4EF3085, 0x04881D05, 0xD9D4D039, 0xE6DB99E5, 0x1FA27CF8, 0xC4AC5665,
     0xF4292244, 0x432AFF97, 0xAB9423A7, 0xFC93A039, 0x655B59C3, 0x8F0CCC92,
     0xFFEFF47D, 0x85845DD1, 0x6FA87E4F, 0xFE2CE6E0, 0xA3014314, 0x4E0811A1,
     0xF7537E82, 0xBD3AF235, 0x2AD7D2BB, 0xEB86D391]"

definition rfc_step :: "32 word list \<Rightarrow> nat \<Rightarrow> 32 word regs \<Rightarrow> 32 word regs" where
  "rfc_step X i = (\<lambda>(a, b, c, d). (d, b + word_rotl (rfc_s i) (a + rfc_f i b c d + X ! rfc_k i + rfc_T ! i), b, c))"

definition rfc_compress :: "byte list \<Rightarrow> 32 word regs \<Rightarrow> 32 word regs" where
  "rfc_compress block st =
     (let X = map (\<lambda>i. le_word (take 4 (drop (4 * i) block))) [0..<16]
      in case (st, fold (rfc_step X) [0..<64] st) of ((a, b, c, d), (A, B, C, D)) \<Rightarrow> (a + A, b + B, c + C, d + D))"

definition low_regs :: "64 word regs \<Rightarrow> 32 word regs" where
  "low_regs = (\<lambda>(a, b, c, d). (ucast a, ucast b, ucast c, ucast d))"

lemma ucast_hom:
  fixes x y :: "64 word"
  shows "(ucast (x + y) :: 32 word) = ucast x + ucast y" "(ucast (x AND y) :: 32 word) = ucast x AND ucast y"
    "(ucast (x OR y) :: 32 word) = ucast x OR ucast y" "(ucast (x XOR y) :: 32 word) = ucast x XOR ucast y"
    "(ucast (NOT x) :: 32 word) = NOT (ucast x)"
  subgoal by (simp add: word_uint_eq_iff uint_word_arith_bintrs unsigned_ucast_eq mod_add_eq take_bit_eq_mod mod_mod_cancel)
  by (rule bit_eqI; auto simp: bit_simps)+

lemma ucast_md5_S:
  assumes "0 < n" "n < 32"
  shows "(ucast (md5_S x n) :: 32 word) = word_rotl n (ucast x)"
proof (rule bit_eqI)
  fix i assume "possible_bit TYPE(32 word) i"
  then have i: "i < 32" by simp
  have m: "(0xFFFFFFFF :: 64 word) = mask 32" by (simp add: mask_eq_exp_minus_1)
  have r: "bit (word_rotl n (ucast x :: 32 word)) i \<longleftrightarrow> bit (ucast x :: 32 word) ((i + (32 - n)) mod 32)"
    using i assms by (simp add: bit_word_rotl_iff)
  have l: "bit (ucast (md5_S x n) :: 32 word) i \<longleftrightarrow> n \<le> i \<and> bit x (i - n) \<or> bit x (32 - n + i) \<and> 32 - n + i < 32"
    using i assms by (auto simp: md5_S_def m bit_simps dest: bit_imp_le_length)
  show "bit (ucast (md5_S x n) :: 32 word) i \<longleftrightarrow> bit (word_rotl n (ucast x :: 32 word)) i"
  proof (cases "i < n")
    case True
    then have "(i + (32 - n)) mod 32 = 32 - n + i" "32 - n + i < 32" using assms by simp_all
    then show ?thesis unfolding r l using True by (simp add: bit_simps add.commute)
  next
    case False
    then have "i + (32 - n) = (i - n) + 32" using assms by simp
    then have "(i + (32 - n)) mod 32 = i - n" using i by (metis less_imp_diff_less mod_add_self2 mod_less)
    then show ?thesis unfolding r l using False i assms by (auto simp: bit_simps)
  qed
qed
lemma md5_F_low:
  "(ucast (md5_F1 x y z) :: 32 word) = rfc_f 0 (ucast x) (ucast y) (ucast z)"
  "(ucast (md5_F2 x y z) :: 32 word) = rfc_f 16 (ucast x) (ucast y) (ucast z)"
  "(ucast (md5_F3 x y z) :: 32 word) = rfc_f 32 (ucast x) (ucast y) (ucast z)"
  "(ucast (md5_F4 x y z) :: 32 word) = rfc_f 48 (ucast x) (ucast y) (ucast z)"
  by (rule bit_eqI; auto simp: md5_F1_def md5_F2_def md5_F3_def md5_F4_def rfc_f_def bit_simps)+

text \<open>One step of the code, on registers and words whose upper halves are unknown.\<close>

lemma md5_P_low:
  assumes "\<And>x y z. (ucast (F x y z) :: 32 word) = rfc_f i (ucast x) (ucast y) (ucast z)"
    and "k = rfc_k i" "s = rfc_s i" "ucast t = rfc_T ! i" "0 < s" "s < 32" "k < length X" "map ucast X = Y"
  shows "low_regs (md5_P F X (k, s, t) r) = rfc_step Y i (low_regs r)"
proof (cases r)
  case (fields a b c d)
  have "(ucast (X ! k) :: 32 word) = Y ! k" using assms(7,8) by (auto simp: nth_map)
  then show ?thesis
    using assms(1-6) by (simp add: fields md5_P_def rfc_step_def low_regs_def ucast_hom ucast_md5_S add_ac)
qed

lemma md5_round_low:
  assumes "\<And>x y z. (ucast (F x y z) :: 32 word) = rfc_f i0 (ucast x) (ucast y) (ucast z)"
    and "\<And>i. i0 \<le> i \<Longrightarrow> i < i0 + length st \<Longrightarrow> rfc_f i = rfc_f i0"
    and "list_all2 (\<lambda>(k, s, t) i. k = rfc_k i \<and> s = rfc_s i \<and> ucast t = rfc_T ! i \<and> 0 < s \<and> s < 32 \<and> k < 16) st [i0 ..< i0 + length st]"
    and "length X = 16" "map ucast X = Y"
  shows "low_regs (fold (md5_P F X) st r) = fold (rfc_step Y) [i0 ..< i0 + length st] (low_regs r)"
proof -
  have "low_regs (fold (md5_P F X) xs r) = fold (rfc_step Y) is (low_regs r)"
    if "list_all2 (\<lambda>(k, s, t) i. k = rfc_k i \<and> s = rfc_s i \<and> ucast t = rfc_T ! i \<and> 0 < s \<and> s < 32 \<and> k < 16) xs is"
      "\<And>i. i \<in> set is \<Longrightarrow> rfc_f i = rfc_f i0" for xs "is" r
    using that
  proof (induction arbitrary: r rule: list_all2_induct)
    case (Cons x xs i "is")
    obtain k s t where x: "x = (k, s, t)" by (cases x)
    have "low_regs (md5_P F X (k, s, t) r) = rfc_step Y i (low_regs r)"
      using Cons.hyps(1) Cons.prems assms(1,4,5) by (intro md5_P_low) (auto simp: x)
    then show ?case using Cons.IH Cons.prems by (simp add: x)
  qed simp
  from this[OF assms(3)] show ?thesis using assms(2) by simp
qed

lemma md5_rounds_low:
  assumes "length X = 16" "map ucast X = Y"
  shows "low_regs (fold (md5_P md5_F1 X) md5_steps1 r) = fold (rfc_step Y) [0 ..< 16] (low_regs r)"
    "low_regs (fold (md5_P md5_F2 X) md5_steps2 r) = fold (rfc_step Y) [16 ..< 32] (low_regs r)"
    "low_regs (fold (md5_P md5_F3 X) md5_steps3 r) = fold (rfc_step Y) [32 ..< 48] (low_regs r)"
    "low_regs (fold (md5_P md5_F4 X) md5_steps4 r) = fold (rfc_step Y) [48 ..< 64] (low_regs r)"
  using md5_round_low[OF md5_F_low(1), of md5_steps1, OF _ _ assms]
    md5_round_low[OF md5_F_low(2), of md5_steps2, OF _ _ assms]
    md5_round_low[OF md5_F_low(3), of md5_steps3, OF _ _ assms]
    md5_round_low[OF md5_F_low(4), of md5_steps4, OF _ _ assms]
  by (simp_all add: md5_steps1_def md5_steps2_def md5_steps3_def md5_steps4_def rfc_f_def rfc_k_def rfc_s_def
      rfc_T_def upt_rec fun_eq_iff)

lemma GET_ULONG_LE_low:
  assumes "i + 4 \<le> length b"
  shows "(ucast (GET_ULONG_LE b i) :: 32 word) = le_word (take 4 (drop i b))"
proof -
  have "take 4 (drop i b) = [b ! i, b ! (i + 1), b ! (i + 2), b ! (i + 3)]"
    using assms by (auto simp: list_eq_iff_nth_eq less_Suc_eq numeral_eq_Suc)
  moreover have "(ucast (ucast x :: 64 word) :: 32 word) = ucast x" for x :: byte
    by (rule bit_eqI) (auto simp: bit_simps)
  moreover have "(ucast (push_bit k (ucast x :: 64 word)) :: 32 word) = push_bit k (ucast x)" for k and x :: byte
    by (rule bit_eqI) (auto simp: bit_simps)
  ultimately show ?thesis
    by (simp add: GET_ULONG_LE_def ucast_hom push_bit_or or.assoc)
qed

lemma md5_process_eq:
  assumes "length data = 64"
  shows "md5_process ctx data = ctx\<lparr>md_state := rfc_compress data (md_state ctx)\<rparr>"
proof -
  define X where "X = map (\<lambda>i. GET_ULONG_LE data (4 * i)) [0..<16]"
  have X: "length X = 16" "map ucast X = map (\<lambda>i. le_word (take 4 (drop (4 * i) data)) :: 32 word) [0..<16]"
    using assms by (simp_all add: X_def GET_ULONG_LE_low)
  obtain a b c d where st: "md_state ctx = (a, b, c, d)" by (cases "md_state ctx")
  let ?r0 = "(ucast a, ucast b, ucast c, ucast d) :: 64 word regs"
  let ?r4 = "fold (md5_P md5_F4 X) md5_steps4 (fold (md5_P md5_F3 X) md5_steps3
    (fold (md5_P md5_F2 X) md5_steps2 (fold (md5_P md5_F1 X) md5_steps1 ?r0)))"
  have up: "(ucast (ucast x :: 64 word) :: 32 word) = x" for x :: "32 word"
    by (rule bit_eqI) (auto simp: bit_simps)
  have r0: "low_regs ?r0 = (a, b, c, d)" by (simp add: low_regs_def up)
  have split: "[0 ..< 64] = [0 ..< 16] @ [16 ..< 32] @ [32 ..< 48] @ [48 ..< (64 :: nat)]"
    using upt_add_eq_append[of 0 16 48] upt_add_eq_append[of 16 32 32] upt_add_eq_append[of 32 48 16] by simp
  have l: "low_regs ?r4 = fold (rfc_step (map ucast X)) [0..<64] (a, b, c, d)"
    unfolding split fold_append comp_apply md5_rounds_low[OF X(1) refl] r0 ..
  obtain A B C D where r4: "?r4 = (A, B, C, D)" by (cases ?r4)
  have l': "fold (rfc_step (map ucast X)) [0..<64] (a, b, c, d) = (ucast A, ucast B, ucast C, ucast D)"
    using l unfolding r4 by (simp add: low_regs_def)
  show ?thesis
    by (simp add: md5_process_def Let_def st flip: X_def) (simp add: r4 rfc_compress_def l' flip: X(2))
qed

text \<open>The message with its padding, cut into blocks of 64 bytes.\<close>

fun md5_chunks :: "byte list \<Rightarrow> byte list list" where
  "md5_chunks bs = (if length bs \<ge> 64 then take 64 bs # md5_chunks (drop 64 bs) else [])"

definition rfc_pad :: "byte list \<Rightarrow> byte list" where
  "rfc_pad msg = 0x80 # replicate ((119 - length msg mod 64) mod 64) 0 @ le_bytes 8 (of_nat (8 * length msg) :: 64 word)"

definition rfc_md5 :: "byte list \<Rightarrow> byte list" where
  "rfc_md5 msg = (case fold rfc_compress (md5_chunks (msg @ rfc_pad msg)) (0x67452301, 0xefcdab89, 0x98badcfe, 0x10325476)
     of (a, b, c, d) \<Rightarrow> le_bytes 4 a @ le_bytes 4 b @ le_bytes 4 c @ le_bytes 4 d)"

declare md5_chunks.simps [simp del] md5_blocks.simps [simp del]

lemma md5_chunks_step: "length b = 64 \<Longrightarrow> md5_chunks (b @ bs) = b # md5_chunks bs"
  by (simp add: md5_chunks.simps[of "b @ bs"])

lemma md5_chunks_append:
  "64 dvd length as \<Longrightarrow> md5_chunks (as @ bs) = md5_chunks as @ md5_chunks bs"
proof (induction as rule: md5_chunks.induct)
  case (1 as)
  show ?case
  proof (cases "length as \<ge> 64")
    case True
    have "md5_chunks (take 64 as @ (drop 64 as @ bs)) = take 64 as # md5_chunks (drop 64 as @ bs)"
      by (rule md5_chunks_step) (use True in simp)
    moreover have "md5_chunks (drop 64 as @ bs) = md5_chunks (drop 64 as) @ md5_chunks bs"
      using 1 True by (simp add: dvd_minus_self)
    ultimately show ?thesis using True by (simp add: md5_chunks.simps[of as] flip: append_assoc)
  next
    case False
    then have "as = []" using 1 by (auto dest: dvd_imp_le)
    then show ?thesis by (simp add: md5_chunks.simps[of "[]"])
  qed
qed

lemma md5_chunks_short: "length bs < 64 \<Longrightarrow> md5_chunks bs = []"
  by (simp add: md5_chunks.simps)

lemma md5_blocks_eq:
  assumes "ilen \<le> length input"
  shows "md5_blocks ctx input ilen =
    (ctx\<lparr>md_state := fold rfc_compress (md5_chunks (take ilen input)) (md_state ctx)\<rparr>,
     drop (64 * (ilen div 64)) input, ilen mod 64)"
  using assms
proof (induction ctx input ilen rule: md5_blocks.induct)
  case (1 ctx input ilen)
  show ?case
  proof (cases "ilen \<ge> 64")
    case True
    then have "(ilen - 64) mod 64 = ilen mod 64" "64 * ((ilen - 64) div 64) + 64 = 64 * (ilen div 64)"
      by (simp_all add: le_mod_geq le_div_geq)
    then show ?thesis
      using 1 True by (simp add: md5_blocks.simps[of ctx] md5_chunks.simps[of "take ilen input"] md5_process_eq
          min_def drop_take)
  qed (simp add: md5_blocks.simps[of ctx] md5_chunks_short 1)
qed

section \<open>The context after a prefix of the message\<close>

definition md_tail :: "byte list \<Rightarrow> byte list" where
  "md_tail pre = drop (64 * (length pre div 64)) pre"

definition md_after :: "byte list \<Rightarrow> MD5_CTX \<Rightarrow> bool" where
  "md_after pre ctx \<longleftrightarrow>
     md_state ctx = fold rfc_compress (md5_chunks pre) (0x67452301, 0xefcdab89, 0x98badcfe, 0x10325476) \<and>
     md_count0 ctx = of_nat (length pre) \<and> md_count1 ctx = of_nat (length pre div 2 ^ 32) \<and>
     length (md_buffer ctx) = 64 \<and> take (length pre mod 64) (md_buffer ctx) = md_tail pre"

lemma md_tail_split:
  obtains full where "pre = full @ md_tail pre" "64 dvd length full" "length (md_tail pre) = length pre mod 64"
proof
  show "pre = take (64 * (length pre div 64)) pre @ md_tail pre" by (simp add: md_tail_def)
  show "64 dvd length (take (64 * (length pre div 64)) pre)"
    by (simp add: min_absorb2)
  show "length (md_tail pre) = length pre mod 64" by (simp add: md_tail_def minus_mult_div_eq_mod)
qed

lemma length_md_tail: "length (md_tail pre) = length pre mod 64"
  by (simp add: md_tail_def minus_mult_div_eq_mod)

lemma md_tail_unique:
  assumes "64 dvd length full" "length t < 64"
  shows "md_tail (full @ t) = t" "md5_chunks (full @ t) = md5_chunks full"
proof -
  from assms(1) obtain k where k: "length full = 64 * k" by auto
  show "md_tail (full @ t) = t" using assms(2) by (simp add: md_tail_def k)
  show "md5_chunks (full @ t) = md5_chunks full"
    using assms by (simp add: md5_chunks_append md5_chunks_short)
qed

lemma md_tail_append: "64 dvd length full \<Longrightarrow> md_tail (full @ bs) = md_tail bs"
  by (auto simp: md_tail_def elim!: dvdE)

lemma carry_of_count:
  fixes ilen :: "32 word"
  shows "(of_nat ((len + unat ilen) div 2 ^ 32) :: 32 word) =
    (if (of_nat len + ilen :: 32 word) < ilen then of_nat (len div 2 ^ 32) + 1 else of_nat (len div 2 ^ 32))"
proof -
  define m q where "m = len mod 2 ^ 32" and "q = len div 2 ^ 32"
  have len: "len = q * 2 ^ 32 + m" "m < 2 ^ 32" by (simp_all add: m_def q_def)
  have n: "unat ilen < 2 ^ 32" using unsigned_less[of ilen] by simp
  have c: "unat (of_nat len + ilen) = (m + unat ilen) mod 2 ^ 32"
    by (simp add: unat_word_ariths unat_of_nat m_def mod_simps)
  show ?thesis
  proof (cases "m + unat ilen < 2 ^ 32")
    case True
    then have "(len + unat ilen) div 2 ^ 32 = q" using len by simp
    moreover have "\<not> (of_nat len + ilen) < ilen" using True c by (simp add: word_less_nat_alt)
    ultimately show ?thesis by (simp add: q_def)
  next
    case False
    then have "(m + unat ilen) mod 2 ^ 32 = m + unat ilen - 2 ^ 32" "(m + unat ilen) div 2 ^ 32 = 1"
      using len(2) n by (simp_all add: mod_if div_if)
    moreover have "(len + unat ilen) div 2 ^ 32 = q + (m + unat ilen) div 2 ^ 32" using len(1) by simp
    ultimately have "(len + unat ilen) div 2 ^ 32 = q + 1" "(of_nat len + ilen) < ilen"
      using c len(2) n by (simp_all add: word_less_nat_alt)
    then show ?thesis by (simp add: q_def)
  qed
qed

lemma unat_mask6: "unat ((w :: 32 word) AND 0x3F) = unat w mod 64"
proof -
  have m: "(0x3F :: 32 word) = mask 6" by (simp add: mask_eq_exp_minus_1)
  show ?thesis unfolding m by (simp only: flip: take_bit_eq_mask) (simp add: unsigned_take_bit_eq take_bit_eq_mod unat_mod)
qed

text \<open>The end of \<^verbatim>\<open>md5update\<close>: whole blocks, and what is left of the input goes to the buffer.\<close>

definition md5_rest :: "MD5_CTX \<Rightarrow> byte list \<Rightarrow> nat \<Rightarrow> nat \<Rightarrow> MD5_CTX" where
  "md5_rest c input ilen left =
     (case md5_blocks c input ilen of (c', input', ilen') \<Rightarrow>
        if ilen' > 0 then c'\<lparr>md_buffer := store_at left (take ilen' input') (md_buffer c')\<rparr> else c')"

lemma md5_rest_eq:
  assumes "ilen \<le> length input"
  shows "md5_rest c input ilen left =
    c\<lparr>md_state := fold rfc_compress (md5_chunks (take ilen input)) (md_state c),
      md_buffer := store_at left (md_tail (take ilen input)) (md_buffer c)\<rparr>"
proof -
  have "take (ilen mod 64) (drop (64 * (ilen div 64)) input) = md_tail (take ilen input)"
    using assms by (simp add: md_tail_def drop_take min_absorb2 minus_mult_div_eq_mod)
  moreover have "store_at left (md_tail (take ilen input)) b = b" if "ilen mod 64 = 0" for b
  proof -
    have "md_tail (take ilen input) = []"
      using that assms length_md_tail[of "take ilen input"] by (simp add: min_absorb2)
    then show ?thesis by (simp add: store_at_def)
  qed
  ultimately show ?thesis using assms by (simp add: md5_rest_def md5_blocks_eq)
qed

lemma md5update_after:
  assumes inv: "md_after pre ctx" and n: "unat ilen \<le> length input"
  shows "md_after (pre @ take (unat ilen) input) (md5update ctx input ilen)"
proof (cases "ilen = 0")
  case True
  then show ?thesis using inv by (simp add: md5update_def)
next
  case False
  define m where "m = take (unat ilen) input"
  have lm: "length m = unat ilen" using n by (simp add: m_def)
  obtain full where f: "pre = full @ md_tail pre" "64 dvd length full" "length (md_tail pre) = length pre mod 64"
    using md_tail_split .
  define t where "t = md_tail pre"
  have t: "length t < 64" "length t = length pre mod 64" using f(3) by (simp_all add: t_def)
  have cp: "md5_chunks pre = md5_chunks full" using md_tail_unique(2)[OF f(2), of t] f(1) t(1) by (simp add: t_def)
  have left: "unat (md_count0 ctx AND 0x3F) = length t"
    using inv t(2) by (simp add: md_after_def unat_mask6 unat_of_nat mod_mod_cancel)
  define ctx1 where "ctx1 = ctx\<lparr>md_count0 := md_count0 ctx + ilen,
    md_count1 := if md_count0 ctx + ilen < ilen then md_count1 ctx + 1 else md_count1 ctx\<rparr>"
  have c1: "md_count0 ctx1 = of_nat (length (pre @ m))" "md_count1 ctx1 = of_nat (length (pre @ m) div 2 ^ 32)"
    "md_state ctx1 = md_state ctx" "md_buffer ctx1 = md_buffer ctx"
    using inv carry_of_count[of "length pre" ilen] lm by (simp_all add: ctx1_def md_after_def)
  have b: "length (md_buffer ctx) = 64" "take (length t) (md_buffer ctx) = t"
    using inv t(2) by (simp_all add: md_after_def t_def)
  have goal: "md_after (pre @ m) c" if "md_count0 c = md_count0 ctx1" "md_count1 c = md_count1 ctx1"
    "md_state c = fold rfc_compress (md5_chunks (pre @ m)) (0x67452301, 0xefcdab89, 0x98badcfe, 0x10325476)"
    "length (md_buffer c) = 64" "take (length (md_tail (pre @ m))) (md_buffer c) = md_tail (pre @ m)" for c
    using that c1(1,2) unfolding md_after_def by (simp only: length_md_tail)
  show ?thesis
  proof (cases "length t \<noteq> 0 \<and> unat ilen \<ge> 64 - length t")
    case fill: True
    let ?fill = "64 - length t"
    let ?b = "t @ take ?fill input" and ?r = "drop ?fill m"
    have lb: "length ?b = 64" using fill n t(1) by simp
    have st: "store_at (length t) (take ?fill input) (md_buffer ctx) = ?b"
      using b fill n by (simp add: store_at_def)
    have "m = take ?fill input @ ?r" using fill by (simp add: m_def drop_take take_add[symmetric])
    then have m: "pre @ m = (full @ ?b) @ ?r" using f(1) by (simp add: t_def)
    have d: "64 dvd length (full @ ?b)" using f(2) lb by simp
    have e: "md5_chunks (pre @ m) = md5_chunks full @ ?b # md5_chunks ?r" "md_tail (pre @ m) = md_tail ?r"
      using md5_chunks_append[OF d, of ?r] md5_chunks_append[OF f(2), of ?b] md5_chunks_step[OF lb, of "[]"]
        md_tail_append[OF d, of ?r]
      by (simp_all add: m md5_chunks_short)
    have r: "?r = take (unat ilen - ?fill) (drop ?fill input)" by (simp add: m_def drop_take)
    have u: "md5update ctx input ilen = md5_rest (md5_process (ctx1\<lparr>md_buffer := ?b\<rparr>) ?b) (drop ?fill input) (unat ilen - ?fill) 0"
      using False fill st by (simp add: md5update_def md5_rest_def Let_def left flip: ctx1_def) (simp add: c1)
    have s0: "md_state ctx1 = fold rfc_compress (md5_chunks full) (0x67452301, 0xefcdab89, 0x98badcfe, 0x10325476)"
      using inv c1(3) cp by (simp add: md_after_def)
    have lr: "0 + length (md_tail ?r) \<le> length ?b" unfolding lb by (simp add: length_md_tail)
    have buf: "md_buffer (md5update ctx input ilen) = store_at 0 (md_tail ?r) ?b"
      using n lb by (simp add: u md5_rest_eq md5_process_eq r)
    have "md_after (pre @ m) (md5update ctx input ilen)"
    proof (rule goal)
      show "take (length (md_tail (pre @ m))) (md_buffer (md5update ctx input ilen)) = md_tail (pre @ m)"
        unfolding buf e(2) using store_at_in(2)[OF lr] by simp
      show "length (md_buffer (md5update ctx input ilen)) = 64"
        unfolding buf using store_at_in(1)[OF lr] lb by simp
    qed (use n lb c1 in \<open>simp_all add: u md5_rest_eq md5_process_eq e(1) s0 r\<close>)
    then show ?thesis by (simp add: m_def)
  next
    case small: False
    have u: "md5update ctx input ilen = md5_rest ctx1 input (unat ilen) (length t)"
      using False small by (auto simp: md5update_def md5_rest_def Let_def left simp flip: ctx1_def)
    have e: "md5_chunks (pre @ m) = md5_chunks full @ md5_chunks m" "md_tail (pre @ m) = t @ md_tail m"
    proof -
      have "md5_chunks (pre @ m) = md5_chunks full @ md5_chunks m \<and> md_tail (pre @ m) = t @ md_tail m"
      proof (cases "t = []")
        case True
        then show ?thesis
          using f(1,2) by (metis append_Nil append_Nil2 md5_chunks_append md_tail_append t_def)
      next
        case notNil: False
        then have short: "length (t @ m) < 64" using small lm t(1) by simp
        have "pre @ m = full @ t @ m" using f(1) by (simp add: t_def)
        moreover have "md_tail m = m" "md5_chunks m = []"
          using short by (simp_all add: md_tail_def md5_chunks_short)
        ultimately show ?thesis using md_tail_unique[OF f(2) short] by simp
      qed
      then show "md5_chunks (pre @ m) = md5_chunks full @ md5_chunks m" "md_tail (pre @ m) = t @ md_tail m"
        by simp_all
    qed
    have lt: "length (t @ md_tail m) \<le> 64"
      using length_md_tail[of "pre @ m"] by (simp add: e(2)[symmetric])
    have s0: "md_state ctx1 = fold rfc_compress (md5_chunks full) (0x67452301, 0xefcdab89, 0x98badcfe, 0x10325476)"
      using inv c1(3) cp by (simp add: md_after_def)
    have lt': "length t + length (md_tail m) \<le> length (md_buffer ctx)" using lt b(1) by simp
    have buf: "md_buffer (md5update ctx input ilen) = store_at (length t) (md_tail m) (md_buffer ctx)"
      using n by (simp add: u md5_rest_eq c1(4) m_def)
    have "md_after (pre @ m) (md5update ctx input ilen)"
    proof (rule goal)
      show "take (length (md_tail (pre @ m))) (md_buffer (md5update ctx input ilen)) = md_tail (pre @ m)"
        unfolding buf e(2) using store_at_in(2)[OF lt'] b(2) by simp
      show "length (md_buffer (md5update ctx input ilen)) = 64"
        unfolding buf using store_at_in(1)[OF lt'] b(1) by simp
    qed (use n s0 in \<open>simp_all add: u md5_rest_eq e(1) flip: m_def\<close>)
    then show ?thesis by (simp add: m_def)
  qed
qed

section \<open>The code computes the algorithm\<close>

lemma md5init_after: "length junk = 64 \<Longrightarrow> md_after [] (md5init junk)"
  by (simp add: md_after_def md5init_def md_tail_def md5_chunks_short)

lemma PUT_ULONG_LE_eq: "PUT_ULONG_LE n = le_bytes 4 n"
  by (simp add: PUT_ULONG_LE_def numeral_eq_Suc)

lemma msglen_bytes:
  "le_bytes 4 (push_bit 3 (of_nat len :: 32 word))
     @ le_bytes 4 (drop_bit 29 (of_nat len :: 32 word) OR push_bit 3 (of_nat (len div 2 ^ 32)))
   = le_bytes 8 (of_nat (8 * len) :: 64 word)"
proof -
  let ?W = "push_bit 3 (of_nat len) :: 64 word"
  have W: "(of_nat (8 * len) :: 64 word) = ?W" by (simp add: push_bit_eq_mult)
  have l: "push_bit 3 (of_nat len :: 32 word) = ucast ?W"
    by (rule bit_eqI) (auto simp: bit_simps bit_of_nat_iff possible_bit_def)
  have h: "drop_bit 29 (of_nat len :: 32 word) OR push_bit 3 (of_nat (len div 2 ^ 32)) = ucast (drop_bit 32 ?W)"
  proof (rule bit_eqI)
    fix i assume "possible_bit TYPE(32 word) i"
    then have i: "i < 32" by simp
    have "bit (len div 4294967296) (i - 3) = bit len (29 + i)" if "3 \<le> i"
      using that bit_drop_bit_eq[of 32 len] by (simp add: drop_bit_eq_div fun_eq_iff)
    then show "bit (drop_bit 29 (of_nat len :: 32 word) OR push_bit 3 (of_nat (len div 2 ^ 32))) i =
        bit (ucast (drop_bit 32 ?W) :: 32 word) i"
      using i by (auto simp: bit_simps bit_of_nat_iff possible_bit_def add.commute)
  qed
  show ?thesis
    unfolding W l h using le_bytes_add[of 4 4 ?W] by (simp add: le_bytes_ucast)
qed

lemma md5final_after:
  assumes "md_after msg ctx"
  shows "md5final ctx = rfc_md5 msg"
proof -
  define last where "last = md_count0 ctx AND 0x3F"
  define padn where "padn = (if last < 56 then 56 - last else 120 - last)"
  have l: "unat last = length msg mod 64"
    using assms by (simp add: last_def md_after_def unat_mask6 unat_of_nat mod_mod_cancel)
  have lt: "length msg mod 64 < 64" by simp
  have p: "unat padn = Suc ((119 - length msg mod 64) mod 64)"
  proof (cases "length msg mod 64 < 56")
    case True
    then have *: "last < 56" using l by (simp add: word_less_nat_alt)
    then have "unat padn = unat (56 :: 32 word) - unat last"
      unfolding padn_def if_P[OF *] by (intro unat_sub) simp
    moreover have "119 - length msg mod 64 = (55 - length msg mod 64) + 64" using True by simp
    then have "(119 - length msg mod 64) mod 64 = 55 - length msg mod 64" 
      by (simp only: mod_add_self2) simp
    moreover have "56 - length msg mod 64 = Suc (55 - length msg mod 64)" using True by linarith
    ultimately show ?thesis using l by simp
  next
    case False
    then have *: "\<not> last < 56" using l by (simp add: word_less_nat_alt)
    have "last \<le> 120" using l lt by (simp add: word_le_nat_alt)
    then have "unat padn = unat (120 :: 32 word) - unat last"
      unfolding padn_def if_not_P[OF *] by (rule unat_sub)
    then show ?thesis using False l lt by simp
  qed
  let ?z = "replicate ((119 - length msg mod 64) mod 64) 0"
  have k: "(119 - length msg mod 64) mod 64 \<le> 63" by (simp add: less_Suc_eq_le[symmetric])
  have "take (unat padn) md5_PADDING = 0x80 # ?z"
    unfolding p md5_PADDING_def using k by (simp only: take_Suc_Cons take_replicate min_absorb1)
  moreover have "unat padn \<le> length md5_PADDING"
    unfolding p md5_PADDING_def using k by (simp only: length_Cons length_replicate Suc_le_mono)
  ultimately have 1: "md_after (msg @ 0x80 # ?z) (md5update ctx md5_PADDING padn)"
    using md5update_after[OF assms, of padn md5_PADDING] by simp
  let ?len = "le_bytes 8 (of_nat (8 * length msg) :: 64 word)"
  have len: "PUT_ULONG_LE (push_bit 3 (md_count0 ctx)) @
      PUT_ULONG_LE (drop_bit 29 (md_count0 ctx) OR push_bit 3 (md_count1 ctx)) = ?len"
    using assms msglen_bytes[of "length msg"] by (simp add: PUT_ULONG_LE_eq md_after_def)
  have "md_after ((msg @ 0x80 # ?z) @ ?len) (md5update (md5update ctx md5_PADDING padn) ?len 8)"
    using md5update_after[OF 1, of 8 ?len] by simp
  then have "md_state (md5update (md5update ctx md5_PADDING padn) ?len 8) =
      fold rfc_compress (md5_chunks (msg @ rfc_pad msg)) (0x67452301, 0xefcdab89, 0x98badcfe, 0x10325476)"
    by (simp add: md_after_def rfc_pad_def)
  then show ?thesis
    unfolding md5final_def Let_def last_def[symmetric] padn_def[symmetric] len
    by (simp only: rfc_md5_def PUT_ULONG_LE_eq)
qed


text \<open>
  C39. The binary digest is the MD5 of the message, whatever the context held before. The length is cut to
  \<^verbatim>\<open>unsigned int\<close>, so of a message of \<open>2 ^ 32\<close> bytes or more only the rest of its length is digested.
\<close>

theorem md5bin_is_md5:
  assumes "length junk = 64"
  shows "md5bin junk buffer = rfc_md5 (take (length buffer mod 2 ^ 32) buffer)"
proof -
  have "unat (of_nat (length buffer) :: 32 word) = length buffer mod 2 ^ 32" by (simp add: unat_of_nat)
  then have "md_after (take (length buffer mod 2 ^ 32) buffer) (md5update (md5init junk) buffer (of_nat (length buffer)))"
    using md5update_after[OF md5init_after[OF assms], of "of_nat (length buffer)" buffer] by simp
  then show ?thesis unfolding md5bin_def by (rule md5final_after)
qed

theorem md5bin_is_md5_witness:
  "md5bin (replicate 64 7) [97, 98, 99] =
     [0x90, 0x01, 0x50, 0x98, 0x3c, 0xd2, 0x4f, 0xb0, 0xd6, 0x96, 0x3f, 0x7d, 0x28, 0xe1, 0x7f, 0x72]"
proof -
  have "md5bin (replicate 64 7) [97, 98, 99] = rfc_md5 [97, 98, 99]"
    using md5bin_is_md5[of "replicate 64 7" "[97, 98, 99]"] by simp
  also have "\<dots> = [0x90, 0x01, 0x50, 0x98, 0x3c, 0xd2, 0x4f, 0xb0, 0xd6, 0x96, 0x3f, 0x7d, 0x28, 0xe1, 0x7f, 0x72]"
    by code_simp
  finally show ?thesis .
qed

text \<open>The digest of a file does not depend on the pieces in which it is read.\<close>

theorem md5file_pieces:
  assumes "length junk = 64" "\<And>p. p \<in> set pieces \<Longrightarrow> length p < 2 ^ 32"
  shows "md5file_loop junk pieces = rfc_md5 (concat pieces)"
proof -
  have "md_after (pre @ concat pieces) (fold (\<lambda>p ctx. md5update ctx p (of_nat (length p))) pieces ctx)"
    if "md_after pre ctx" for pre ctx
    using that assms(2)
  proof (induction pieces arbitrary: pre ctx)
    case (Cons p ps)
    have "unat (of_nat (length p) :: 32 word) = length p" using Cons.prems(2)[of p] by (simp add: unat_of_nat)
    then have "md_after (pre @ p) (md5update ctx p (of_nat (length p)))"
      using md5update_after[OF Cons.prems(1), of "of_nat (length p)" p] by simp
    then show ?case using Cons.IH[of "pre @ p"] Cons.prems(2) by simp
  qed simp
  from this[OF md5init_after[OF assms(1)]] show ?thesis
    by (simp add: md5file_loop_def md5final_after)
qed

end
