(* ===== verification/Consistent_Hash.thy ===== *)
theory Consistent_Hash
  imports Md5_Digest
begin

text \<open>
  The ring of consistent hashing (\<^verbatim>\<open>util/src/tc_consistent_hash_new.cpp\<close>): a server occupies some points of the ring,
  given by digests of its name, and a key belongs to a server that owns a point near it. \<open>junk\<close> is what the context
  of a digest holds before it is initialised.
\<close>

section \<open>The code\<close>

datatype TC_HashAlgorithmType = E_TC_CONHASH_KETAMAHASH | E_TC_CONHASH_DEFAULTHASH

record node_T_new =
  nd_iHashCode :: "32 word"
  nd_sNode :: "byte list"
  nd_iIndex :: "32 word"

record TC_ConsistentHashNew =
  ch_vHashList :: "node_T_new list"
  ch_ptrHashAlg :: "TC_HashAlgorithmType option"

text \<open>Four bytes of a digest, the lowest first.\<close>

definition digest_word :: "byte list \<Rightarrow> nat \<Rightarrow> 32 word" where
  "digest_word p i =
     push_bit 24 (ucast (p ! (i + 3))) OR push_bit 16 (ucast (p ! (i + 2)))
     OR push_bit 8 (ucast (p ! (i + 1))) OR ucast (p ! i)"

definition ketama_hash :: "byte list \<Rightarrow> byte list \<Rightarrow> 32 word" where
  "ketama_hash junk sKey = digest_word (md5bin junk sKey) 0"

definition default_hash :: "byte list \<Rightarrow> byte list \<Rightarrow> 32 word" where
  "default_hash junk sKey =
     (let p = md5bin junk sKey
      in le_word (take 4 p) XOR le_word (take 4 (drop 4 p)) XOR le_word (take 4 (drop 8 p)) XOR le_word (take 4 (drop 12 p)))"

definition alg_hash :: "TC_HashAlgorithmType \<Rightarrow> byte list \<Rightarrow> byte list \<Rightarrow> 32 word" where
  "alg_hash ty = (case ty of E_TC_CONHASH_KETAMAHASH \<Rightarrow> ketama_hash | E_TC_CONHASH_DEFAULTHASH \<Rightarrow> default_hash)"

definition ConsistentHash_new :: "TC_HashAlgorithmType \<Rightarrow> TC_ConsistentHashNew" where
  "ConsistentHash_new ty = \<lparr>ch_vHashList = [], ch_ptrHashAlg = Some ty\<rparr>"

definition ch_size :: "TC_ConsistentHashNew \<Rightarrow> nat" where
  "ch_size ch = length (ch_vHashList ch)"

definition ch_clear :: "TC_ConsistentHashNew \<Rightarrow> TC_ConsistentHashNew" where
  "ch_clear ch = ch\<lparr>ch_vHashList := []\<rparr>"

text \<open>\<^verbatim>\<open>std::sort\<close> leaves the order of equal hash codes open; the model keeps the order of insertion.\<close>

definition sortNode :: "TC_ConsistentHashNew \<Rightarrow> TC_ConsistentHashNew" where
  "sortNode ch = ch\<lparr>ch_vHashList := sort_key nd_iHashCode (ch_vHashList ch)\<rparr>"

definition virtualNode :: "byte list \<Rightarrow> nat \<Rightarrow> byte list" where
  "virtualNode node j = node @ [95] @ dec_digits j"

definition virtual_items :: "byte list \<Rightarrow> TC_HashAlgorithmType \<Rightarrow> byte list \<Rightarrow> 32 word \<Rightarrow> nat \<Rightarrow> node_T_new list" where
  "virtual_items junk ty node index j =
     (if ty = E_TC_CONHASH_KETAMAHASH
      then let p = md5bin junk (virtualNode node j)
           in map (\<lambda>i. \<lparr>nd_iHashCode = digest_word p (i * 4), nd_sNode = node, nd_iIndex = index\<rparr>) [0..<4]
      else [\<lparr>nd_iHashCode = alg_hash ty junk (virtualNode node j), nd_sNode = node, nd_iIndex = index\<rparr>])"

definition addNode :: "byte list \<Rightarrow> byte list \<Rightarrow> 32 word \<Rightarrow> int \<Rightarrow> TC_ConsistentHashNew \<Rightarrow> int \<times> TC_ConsistentHashNew" where
  "addNode junk node index weight ch = (case ch_ptrHashAlg ch of
     None \<Rightarrow> (-1, ch)
   | Some ty \<Rightarrow> (0, ch\<lparr>ch_vHashList := ch_vHashList ch @ concat (map (virtual_items junk ty node index) [0..<nat weight])\<rparr>))"

text \<open>
  The search of \<^verbatim>\<open>getIndex\<close> and \<^verbatim>\<open>getNodeName\<close>. The vector is read at \<^verbatim>\<open>low + 1\<close> at the end without a check;
  reading behind its end is the error \<open>BehindVector\<close>.
\<close>

datatype ring_exn = BehindVector

function ring_search :: "node_T_new list \<Rightarrow> 32 word \<Rightarrow> nat \<Rightarrow> nat \<Rightarrow> nat" where
  "ring_search l hashcode low high =
     (if low < high - 1
      then let mid = (low + high) div 2
           in if nd_iHashCode (l ! mid) > hashcode then ring_search l hashcode low mid
              else ring_search l hashcode mid high
      else low)"
  by pat_completeness auto
termination
  by (relation "measure (\<lambda>(l, hashcode, low, high). high - low)") auto

definition ring_find :: "node_T_new list \<Rightarrow> 32 word \<Rightarrow> ring_exn + node_T_new" where
  "ring_find l hashcode =
     (let high = length l
      in if hashcode \<le> nd_iHashCode (l ! 0) \<or> hashcode > nd_iHashCode (l ! (high - 1)) then Inr (l ! 0)
         else let low = ring_search l hashcode 0 high
              in if low + 1 < length l then Inr (l ! (low + 1)) else Inl BehindVector)"

definition getIndex :: "32 word \<Rightarrow> TC_ConsistentHashNew \<Rightarrow> ring_exn + int \<times> 32 word" where
  "getIndex hashcode ch =
     (if ch_ptrHashAlg ch = None \<or> ch_size ch = 0 then Inr (-1, 0)
      else case ring_find (ch_vHashList ch) hashcode of
        Inl e \<Rightarrow> Inl e
      | Inr n \<Rightarrow> Inr (0, nd_iIndex n))"

definition getNodeName :: "32 word \<Rightarrow> TC_ConsistentHashNew \<Rightarrow> ring_exn + int \<times> byte list" where
  "getNodeName hashcode ch =
     (if ch_ptrHashAlg ch = None \<or> ch_size ch = 0 then Inr (-1, [])
      else case ring_find (ch_vHashList ch) hashcode of
        Inl e \<Rightarrow> Inl e
      | Inr n \<Rightarrow> Inr (0, nd_sNode n))"

definition key_code :: "byte list \<Rightarrow> byte list \<Rightarrow> TC_HashAlgorithmType \<Rightarrow> 32 word" where
  "key_code junk key ty = alg_hash ty junk (md5bin junk key)"

definition getIndex_key :: "byte list \<Rightarrow> byte list \<Rightarrow> TC_ConsistentHashNew \<Rightarrow> ring_exn + int \<times> 32 word" where
  "getIndex_key junk key ch = (case ch_ptrHashAlg ch of
     None \<Rightarrow> Inr (-1, 0)
   | Some ty \<Rightarrow> if ch_size ch = 0 then Inr (-1, 0) else getIndex (key_code junk key ty) ch)"

definition getNodeName_key :: "byte list \<Rightarrow> byte list \<Rightarrow> TC_ConsistentHashNew \<Rightarrow> ring_exn + int \<times> byte list" where
  "getNodeName_key junk key ch = (case ch_ptrHashAlg ch of
     None \<Rightarrow> Inr (-1, [])
   | Some ty \<Rightarrow> if ch_size ch = 0 then Inr (-1, []) else getNodeName (key_code junk key ty) ch)"

declare ring_search.simps [simp del]

section \<open>The search\<close>

definition sorted_ring :: "node_T_new list \<Rightarrow> bool" where
  "sorted_ring l \<longleftrightarrow> sorted (map nd_iHashCode l)"

lemma ring_search_between:
  assumes "sorted_ring l" "low < high" "high \<le> length l" "nd_iHashCode (l ! low) \<le> c"
    "high < length l \<Longrightarrow> c < nd_iHashCode (l ! high)"
  shows "low \<le> ring_search l c low high \<and> ring_search l c low high < high
    \<and> nd_iHashCode (l ! ring_search l c low high) \<le> c
    \<and> (ring_search l c low high + 1 < length l \<longrightarrow> c < nd_iHashCode (l ! (ring_search l c low high + 1)))"
  using assms
proof (induction l c low high rule: ring_search.induct)
  case (1 l c low high)
  let ?mid = "(low + high) div 2"
  show ?case
  proof (cases "low < high - 1")
    case True
    then have mid: "low < ?mid" "?mid < high" by auto
    show ?thesis
    proof (cases "nd_iHashCode (l ! ?mid) > c")
      case up: True
      then show ?thesis
        using 1(1)[OF True refl up] 1(3-7) True mid by (simp add: ring_search.simps[of l c low] Let_def)
    next
      case down: False
      then have "ring_search l c low high = ring_search l c ?mid high"
        using True by (simp add: ring_search.simps[of l c low] Let_def)
      then show ?thesis
        using 1(2)[OF True refl down] 1(3,5,7) mid down by (simp add: not_less)
    qed
  next
    case False
    then have "high = Suc low" using 1(4) by simp
    then show ?thesis using 1(5-7) by (simp add: ring_search.simps[of l c low])
  qed
qed

text \<open>
  The owner of a code on a sorted ring: the server of the first point behind the code, or the first point at all if
  there is none, or if the code is not behind the first point.
\<close>

definition ring_owner :: "node_T_new list \<Rightarrow> 32 word \<Rightarrow> node_T_new" where
  "ring_owner l c = (if c \<le> nd_iHashCode (hd l) then hd l
     else case filter (\<lambda>n. c < nd_iHashCode n) l of [] \<Rightarrow> hd l | n # _ \<Rightarrow> n)"

lemma first_behind:
  assumes "sorted_ring l" "k + 1 < length l" "nd_iHashCode (l ! k) \<le> c" "c < nd_iHashCode (l ! (k + 1))"
  shows "filter (\<lambda>n. c < nd_iHashCode n) l = drop (k + 1) l"
proof -
  have "c < nd_iHashCode x" if x: "x \<in> set (drop (k + 1) l)" for x
  proof -
    obtain i where i: "k + 1 \<le> i" "i < length l" "x = l ! i"
      using x by (auto simp: in_set_conv_nth) (metis add.commute less_diff_conv le_add1 add_Suc_right plus_1_eq_Suc)
    have "nd_iHashCode (l ! (k + 1)) \<le> nd_iHashCode (l ! i)"
      using sorted_nth_mono[of "map nd_iHashCode l" "k + 1" i] assms(1) i by (simp add: sorted_ring_def)
    then show ?thesis using assms(4) i(3) by simp
  qed
  moreover have "\<not> c < nd_iHashCode x" if x: "x \<in> set (take (k + 1) l)" for x
  proof -
    obtain i where "i < length (take (k + 1) l)" "take (k + 1) l ! i = x" using x by (auto simp: in_set_conv_nth)
    then have i: "i \<le> k" "x = l ! i" "i < length l" by simp_all
    have "nd_iHashCode (l ! i) \<le> nd_iHashCode (l ! k)"
      using sorted_nth_mono[of "map nd_iHashCode l" i k] assms(1,2) i by (simp add: sorted_ring_def)
    then show ?thesis using assms(3) i(2) by simp
  qed
  ultimately have "filter (\<lambda>n. c < nd_iHashCode n) (take (k + 1) l @ drop (k + 1) l) = drop (k + 1) l"
    unfolding filter_append by (simp add: filter_empty_conv[symmetric] filter_id_conv)
  then show ?thesis by simp
qed

lemma sorted_ring_hd: "sorted_ring l \<Longrightarrow> n \<in> set l \<Longrightarrow> nd_iHashCode (hd l) \<le> nd_iHashCode n"
  by (cases l) (auto simp: sorted_ring_def)

lemma sorted_ring_last: "sorted_ring l \<Longrightarrow> n \<in> set l \<Longrightarrow> nd_iHashCode n \<le> nd_iHashCode (last l)"
  by (induction l) (auto simp: sorted_ring_def)

lemma ring_find_spec:
  assumes "sorted_ring l" "l \<noteq> []"
  shows "ring_find l c =
    (if c = nd_iHashCode (last l) \<and> nd_iHashCode (hd l) < c then Inl BehindVector else Inr (ring_owner l c))"
proof -
  have ends: "l ! 0 = hd l" "l ! (length l - Suc 0) = last l" using assms(2) by (simp_all add: hd_conv_nth last_conv_nth)
  consider "c \<le> nd_iHashCode (hd l)" | "nd_iHashCode (last l) < c" "nd_iHashCode (hd l) < c"
    | "nd_iHashCode (hd l) < c" "c \<le> nd_iHashCode (last l)" by fastforce
  then show ?thesis
  proof cases
    case 1
    then show ?thesis by (simp add: ring_find_def ends ring_owner_def not_less)
  next
    case 2
    have "filter (\<lambda>n. c < nd_iHashCode n) l = []"
      using sorted_ring_last[OF assms(1)] 2(1) by (fastforce simp: filter_empty_conv)
    then show ?thesis using 2 by (auto simp: ring_find_def ends ring_owner_def Let_def)
  next
    case 3
    define k where "k = ring_search l c 0 (length l)"
    have k: "k < length l" "nd_iHashCode (l ! k) \<le> c" "k + 1 < length l \<Longrightarrow> c < nd_iHashCode (l ! (k + 1))"
      using ring_search_between[OF assms(1), of 0 "length l" c] assms(2) 3(1) ends(1) by (auto simp: k_def)
    have f: "ring_find l c = (if k + 1 < length l then Inr (l ! (k + 1)) else Inl BehindVector)"
      using 3 by (auto simp: ring_find_def ends k_def Let_def)
    show ?thesis
    proof (cases "k + 1 < length l")
      case True
      have "filter (\<lambda>n. c < nd_iHashCode n) l = drop (k + 1) l"
        by (rule first_behind[OF assms(1) True k(2)]) (rule k(3)[OF True])
      moreover have "drop (k + 1) l = l ! (k + 1) # drop (Suc (k + 1)) l" using True by (simp add: Cons_nth_drop_Suc)
      moreover have "c < nd_iHashCode (last l)"
        using k(3)[OF True] sorted_ring_last[OF assms(1), of "l ! (k + 1)"] True by fastforce
      ultimately show ?thesis using True 3(1) by (auto simp: f ring_owner_def)
    next
      case False
      then have "k = length l - 1" using k(1) by simp
      then have "nd_iHashCode (last l) \<le> c" using k(2) ends(2) by simp
      then show ?thesis using False 3 by (simp add: f)
    qed
  qed
qed

lemma getNodeName_owner:
  assumes "sorted_ring (ch_vHashList ch)" "ch_vHashList ch \<noteq> []" "ch_ptrHashAlg ch \<noteq> None"
  shows "getNodeName c ch =
    (if c = nd_iHashCode (last (ch_vHashList ch)) \<and> nd_iHashCode (hd (ch_vHashList ch)) < c then Inl BehindVector
     else Inr (0, nd_sNode (ring_owner (ch_vHashList ch) c)))"
  using assms ring_find_spec[OF assms(1,2), of c] by (auto simp: getNodeName_def ch_size_def)

text \<open>
  C38. The binary search finds the server of the first point behind a code, and the first point for the codes up to it
  and behind the last one. The code of the last point itself sends the search behind the end of the vector.
\<close>

theorem getNodeName_spec:
  assumes "sorted_ring (ch_vHashList ch)" "ch_vHashList ch \<noteq> []" "ch_ptrHashAlg ch \<noteq> None"
  shows "getNodeName c ch =
      (if c = nd_iHashCode (last (ch_vHashList ch)) \<and> nd_iHashCode (hd (ch_vHashList ch)) < c then Inl BehindVector
       else Inr (0, nd_sNode (ring_owner (ch_vHashList ch) c)))
    \<and> getIndex c ch =
      (if c = nd_iHashCode (last (ch_vHashList ch)) \<and> nd_iHashCode (hd (ch_vHashList ch)) < c then Inl BehindVector
       else Inr (0, nd_iIndex (ring_owner (ch_vHashList ch) c)))"
  using assms getNodeName_owner[OF assms, of c] ring_find_spec[OF assms(1,2), of c]
  by (auto simp: getIndex_def ch_size_def)

theorem getNodeName_spec_witness:
  "getNodeName 20 \<lparr>ch_vHashList = [\<lparr>nd_iHashCode = 10, nd_sNode = [97], nd_iIndex = 0\<rparr>,
      \<lparr>nd_iHashCode = 20, nd_sNode = [98], nd_iIndex = 1\<rparr>], ch_ptrHashAlg = Some E_TC_CONHASH_KETAMAHASH\<rparr> = Inl BehindVector"
  using getNodeName_spec[of "\<lparr>ch_vHashList = [\<lparr>nd_iHashCode = 10, nd_sNode = [97], nd_iIndex = 0\<rparr>,
      \<lparr>nd_iHashCode = 20, nd_sNode = [98], nd_iIndex = 1\<rparr>], ch_ptrHashAlg = Some E_TC_CONHASH_KETAMAHASH\<rparr>" 20]
  by (simp add: sorted_ring_def)

section \<open>Servers that come and go\<close>

definition add_servers :: "byte list \<Rightarrow> (byte list \<times> 32 word \<times> int) list \<Rightarrow> TC_ConsistentHashNew \<Rightarrow> TC_ConsistentHashNew" where
  "add_servers junk = fold (\<lambda>(node, index, weight) ch. snd (addNode junk node index weight ch))"

definition ring_of :: "byte list \<Rightarrow> TC_HashAlgorithmType \<Rightarrow> (byte list \<times> 32 word \<times> int) list \<Rightarrow> TC_ConsistentHashNew" where
  "ring_of junk ty nodes = sortNode (add_servers junk nodes (ConsistentHash_new ty))"

definition items :: "byte list \<Rightarrow> TC_HashAlgorithmType \<Rightarrow> byte list \<times> 32 word \<times> int \<Rightarrow> node_T_new list" where
  "items junk ty = (\<lambda>(node, index, weight). concat (map (virtual_items junk ty node index) [0..<nat weight]))"

lemma items_name: "n \<in> set (items junk ty (node, index, weight)) \<Longrightarrow> nd_sNode n = node"
  by (auto simp: items_def virtual_items_def Let_def split: if_splits)

lemma add_servers_items:
  "ch_ptrHashAlg ch = Some ty \<Longrightarrow>
   add_servers junk nodes ch = ch\<lparr>ch_vHashList := ch_vHashList ch @ concat (map (items junk ty) nodes)\<rparr>"
  by (induction nodes arbitrary: ch) (auto simp: add_servers_def addNode_def items_def)

lemma ring_of_items:
  "ch_vHashList (ring_of junk ty nodes) = sort_key nd_iHashCode (concat (map (items junk ty) nodes))"
  "ch_ptrHashAlg (ring_of junk ty nodes) = Some ty"
  by (simp_all add: ring_of_def sortNode_def add_servers_items ConsistentHash_new_def)

lemma sorted_ring_of: "sorted_ring (ch_vHashList (ring_of junk ty nodes))"
  by (simp add: sorted_ring_def ring_of_items)

lemma items_without:
  "concat (map (items junk ty) (filter (\<lambda>(node, _). node \<noteq> x) nodes)) =
   filter (\<lambda>n. nd_sNode n \<noteq> x) (concat (map (items junk ty) nodes))"
proof (induction nodes)
  case (Cons a nodes)
  obtain node index weight where a: "a = (node, index, weight)" by (cases a)
  have "filter (\<lambda>n. nd_sNode n \<noteq> x) (items junk ty a) = (if node \<noteq> x then items junk ty a else [])"
    using items_name[of _ junk ty node index weight] by (auto simp: a filter_empty_conv filter_id_conv)
  then show ?case using Cons by (simp add: a)
qed simp

lemma ring_of_without:
  "ch_vHashList (ring_of junk ty (filter (\<lambda>(node, _). node \<noteq> x) nodes)) =
   filter (\<lambda>n. nd_sNode n \<noteq> x) (ch_vHashList (ring_of junk ty nodes))"
  by (simp add: ring_of_items items_without filter_sort)

lemma ring_owner_off_points:
  assumes "sorted_ring l" "l \<noteq> []" "c \<notin> nd_iHashCode ` set l"
  shows "ring_owner l c = hd (filter (\<lambda>n. c < nd_iHashCode n) l @ l)"
proof (cases "c \<le> nd_iHashCode (hd l)")
  case True
  then have "c < nd_iHashCode (hd l)" using assms(2,3) by (metis hd_in_set image_eqI order_le_less)
  then have "filter (\<lambda>n. c < nd_iHashCode n) l = l"
    using sorted_ring_hd[OF assms(1)] by (fastforce simp: filter_id_conv)
  then show ?thesis using True assms(2) by (simp add: ring_owner_def)
qed (auto simp: ring_owner_def split: list.splits)

lemma getNodeName_off_points:
  fixes junk ty nodes defines "l \<equiv> ch_vHashList (ring_of junk ty nodes)"
  assumes "l \<noteq> []" "c \<notin> nd_iHashCode ` set l"
  shows "getNodeName c (ring_of junk ty nodes) = Inr (0, nd_sNode (hd (filter (\<lambda>n. c < nd_iHashCode n) l @ l)))"
proof -
  have "sorted_ring l" by (simp add: l_def sorted_ring_of)
  moreover have "c \<noteq> nd_iHashCode (last l)" using assms(2,3) last_in_set by blast
  ultimately show ?thesis
    using getNodeName_owner[of "ring_of junk ty nodes" c] ring_owner_off_points[of l c] assms
    by (simp add: ring_of_items(2) l_def)
qed



end
