(* ===== verification/Router_Cache.thy ===== *)
theory Router_Cache
  imports Tars_Prelude "HOL-Library.Multiset"
begin

text \<open>
  How \<^verbatim>\<open>EndpointManager\<close> spreads calls over servers of different weight (\<^verbatim>\<open>dispatchEndpointCache\<close> and the second half
  of \<^verbatim>\<open>updateHashProxyWeighted\<close> in \<^verbatim>\<open>servant/EndpointManager.cpp\<close>): it fills a list of server numbers that is
  walked round and round. Both functions run the same loops, the first over all servers, the second over the ones
  with a positive weight, so the numbers of the servers are an argument.
\<close>

section \<open>The code\<close>

text \<open>The conversion of an \<^verbatim>\<open>int\<close> to \<^verbatim>\<open>size_t\<close>, and the other way.\<close>

definition size_t :: "int \<Rightarrow> int" where
  "size_t x = x mod 2 ^ 64"

definition to_int :: "int \<Rightarrow> int" where
  "to_int x = signed_take_bit 31 x"

definition iMinWeightLimit :: int where "iMinWeightLimit = 10"
definition iMaxWeightLimit :: int where "iMaxWeightLimit = 100"

text \<open>\<^verbatim>\<open>iMaxWeight\<close> and \<^verbatim>\<open>iMinWeight\<close> after the loop over the weights.\<close>

definition weight_range :: "int list \<Rightarrow> int \<times> int" where
  "weight_range vWeight =
     fold (\<lambda>w (mx, mn). let t = size_t w in (if t > mx then t else mx, if t < mn then t else mn))
       (tl vWeight) (size_t (hd vWeight), size_t (hd vWeight))"

text \<open>\<^verbatim>\<open>iMaxR\<close> and \<^verbatim>\<open>iMaxWeight\<close> with which the weights are scaled.\<close>

definition weight_scale :: "int list \<Rightarrow> int \<times> int" where
  "weight_scale vWeight =
     (let (iMaxWeight, iMinWeight) = weight_range vWeight
      in if iMinWeight > 0
         then let r = iMaxWeight div iMinWeight;
                  r = (if r < iMinWeightLimit then iMinWeightLimit else r);
                  r = (if r > iMaxWeightLimit then iMaxWeightLimit else r)
              in (r, iMaxWeight)
         else (1, 1))"

definition scaled_weight :: "int \<times> int \<Rightarrow> int \<Rightarrow> int" where
  "scaled_weight = (\<lambda>(iMaxR, iMaxWeight) w. to_int (size_t (size_t w * iMaxR) div iMaxWeight))"

text \<open>
  A \<^verbatim>\<open>multimap<int, size_t>\<close> is a list sorted by its keys; \<^verbatim>\<open>insert\<close> puts an entry behind the ones with the same key.
  \<^verbatim>\<open>mIdToWeight\<close> is a function that is 0 for the numbers it does not hold.
\<close>

definition mm_insert :: "int \<times> nat \<Rightarrow> (int \<times> nat) list \<Rightarrow> (int \<times> nat) list" where
  "mm_insert e l = takeWhile (\<lambda>x. fst x \<le> fst e) l @ e # dropWhile (\<lambda>x. fst x \<le> fst e) l"

record router =
  ro_cache :: "nat list"
  ro_iMaxRouterR :: nat
  ro_mIdToWeight :: "nat \<Rightarrow> int"
  ro_mWeightToId :: "(int \<times> nat) list"

definition router_add :: "int \<times> int \<Rightarrow> nat \<times> int \<Rightarrow> router \<Rightarrow> router" where
  "router_add scale = (\<lambda>(i, w) r.
     let iWeight = scaled_weight scale w
     in if iWeight > 0
        then r\<lparr>ro_iMaxRouterR := ro_iMaxRouterR r + nat iWeight,
               ro_mIdToWeight := (ro_mIdToWeight r)(i := iWeight),
               ro_mWeightToId := mm_insert (iWeight, i) (ro_mWeightToId r)\<rparr>
        else r\<lparr>ro_cache := ro_cache r @ [i]\<rparr>)"

text \<open>
  One round of the loop up to \<^verbatim>\<open>iMaxRouterR\<close>: the entry with the largest key is taken and goes back by
  \<^verbatim>\<open>iMaxRouterR\<close>, and every entry moves forward by its weight.
\<close>

definition router_move :: "router \<Rightarrow> int \<times> nat \<Rightarrow> bool \<times> nat list \<times> (int \<times> nat) list \<Rightarrow> bool \<times> nat list \<times> (int \<times> nat) list" where
  "router_move r = (\<lambda>(k, v) (bFirst, cache, mulTemp).
     if bFirst
     then (False, cache @ [v], mm_insert (to_int (k - int (ro_iMaxRouterR r) + ro_mIdToWeight r v), v) mulTemp)
     else (False, cache, mm_insert (k + ro_mIdToWeight r v, v) mulTemp))"

definition router_round :: "router \<Rightarrow> router" where
  "router_round r =
     (case fold (router_move r) (rev (ro_mWeightToId r)) (True, ro_cache r, []) of
        (_, cache, mulTemp) \<Rightarrow> r\<lparr>ro_cache := cache, ro_mWeightToId := mulTemp\<rparr>)"

definition router_fill :: "nat list \<Rightarrow> int list \<Rightarrow> nat list" where
  "router_fill ids vWeight =
     (let r = fold (router_add (weight_scale vWeight)) (zip ids vWeight)
                \<lparr>ro_cache = [], ro_iMaxRouterR = 0, ro_mIdToWeight = (\<lambda>_. 0), ro_mWeightToId = []\<rparr>
      in ro_cache ((router_round ^^ ro_iMaxRouterR r) r))"

text \<open>Without weights the function returns before it clears the cache it had.\<close>

definition dispatchEndpointCache :: "nat list \<Rightarrow> int list \<Rightarrow> nat list" where
  "dispatchEndpointCache old vWeight = (if vWeight = [] then old else router_fill [0..<length vWeight] vWeight)"

section \<open>Taking the one with the largest credit\<close>

text \<open>
  The credit of \<open>v\<close> after the picks \<open>xs\<close>, the next round counted: what it earned and not got yet. It adds up to \<open>T\<close>
  over all, so the largest credit is positive, and who is picked is short of its share.
\<close>

definition credit :: "(nat \<Rightarrow> int) \<Rightarrow> int \<Rightarrow> nat list \<Rightarrow> nat \<Rightarrow> int" where
  "credit w T xs v = w v * (int (length xs) + 1) - T * int (count_list xs v)"

lemma sum_credit:
  assumes "finite S" "set xs \<subseteq> S" "T = sum w S"
  shows "(\<Sum>v\<in>S. credit w T xs v) = T"
proof -
  have "(\<Sum>v\<in>S. int (count_list xs v)) = int (length xs)"
    using sum_count_set[OF assms(2,1)] by (simp flip: of_nat_sum)
  then show ?thesis
    by (simp add: credit_def sum_subtractf assms(3) distrib_left sum.distrib flip: sum_distrib_left sum_distrib_right)
qed

lemma largest_credit_positive:
  assumes "finite S" "set xs \<subseteq> S" "T = sum w S" "0 < T" "\<And>v. v \<in> S \<Longrightarrow> credit w T xs v \<le> credit w T xs x"
  shows "0 < credit w T xs x"
proof (rule ccontr)
  assume "\<not> 0 < credit w T xs x"
  then have "(\<Sum>v\<in>S. credit w T xs v) \<le> (\<Sum>v\<in>S. 0)" using assms(5) by (intro sum_mono) fastforce
  then show False using sum_credit[OF assms(1-3)] assms(4) by simp
qed

definition max_credit :: "nat set \<Rightarrow> (nat \<Rightarrow> int) \<Rightarrow> int \<Rightarrow> nat list \<Rightarrow> bool" where
  "max_credit S w T xs \<longleftrightarrow> (\<forall>k < length xs. xs ! k \<in> S \<and>
     (\<forall>v\<in>S. credit w T (take k xs) v \<le> credit w T (take k xs) (xs ! k)))"

lemma max_credit_set: "max_credit S w T xs \<Longrightarrow> set xs \<subseteq> S"
  by (auto simp: max_credit_def in_set_conv_nth)

lemma max_credit_snoc:
  "max_credit S w T (xs @ [x]) \<longleftrightarrow> max_credit S w T xs \<and> x \<in> S \<and> (\<forall>v\<in>S. credit w T xs v \<le> credit w T xs x)"
  by (auto simp: max_credit_def nth_append less_Suc_eq)

lemma share_not_exceeded:
  assumes "finite S" "T = sum w S" "\<And>v. v \<in> S \<Longrightarrow> 0 < w v" "max_credit S w T xs" "int (length xs) \<le> T" "v \<in> S"
  shows "int (count_list xs v) \<le> w v"
  using assms(4-6)
proof (induction xs arbitrary: v rule: rev_induct)
  case Nil
  then show ?case using assms(3)[of v] by simp
next
  case (snoc x xs)
  have xs: "max_credit S w T xs" "x \<in> S" "\<forall>v\<in>S. credit w T xs v \<le> credit w T xs x"
    using snoc.prems(1) by (simp_all add: max_credit_snoc)
  have T: "0 < T" using snoc.prems(2) by simp
  have "0 < credit w T xs x"
    using largest_credit_positive[OF assms(1) max_credit_set[OF xs(1)] assms(2) T, of x] xs(3) by blast
  then have "T * int (count_list xs x) < w x * (int (length xs) + 1)" by (simp add: credit_def)
  also have "\<dots> \<le> w x * T" using assms(3)[OF xs(2)] snoc.prems(2) by simp
  finally have "int (count_list xs x) < w x" using T by (simp add: mult.commute)
  then show ?case using snoc.IH[OF xs(1) _ snoc.prems(3)] snoc.prems(2) by (cases "v = x") auto
qed

lemma share_exact:
  assumes "finite S" "T = sum w S" "\<And>v. v \<in> S \<Longrightarrow> 0 < w v" "max_credit S w T xs" "int (length xs) = T" "v \<in> S"
  shows "int (count_list xs v) = w v"
proof (rule ccontr)
  have le: "int (count_list xs u) \<le> w u" if "u \<in> S" for u
    using share_not_exceeded[OF assms(1-4) _ that] assms(5) by simp
  assume "int (count_list xs v) \<noteq> w v"
  then have "int (count_list xs v) < w v" using le[OF assms(6)] by simp
  then have "(\<Sum>u\<in>S. int (count_list xs u)) < sum w S"
    using le assms(1,6) by (intro sum_strict_mono_ex1) auto
  moreover have "(\<Sum>u\<in>S. int (count_list xs u)) = int (length xs)"
    using sum_count_set[OF max_credit_set[OF assms(4)] assms(1)] by (simp flip: of_nat_sum)
  ultimately show False using assms(2,5) by simp
qed

text \<open>Credits stay in the range of an \<^verbatim>\<open>int\<close>.\<close>

lemma credit_range:
  assumes "finite S" "T = sum w S" "\<And>v. v \<in> S \<Longrightarrow> 0 < w v" "max_credit S w T xs" "int (length xs) \<le> T" "v \<in> S"
  shows "- T < credit w T xs v" "credit w T xs v \<le> w v * (T + 1)"
proof -
  show "- T < credit w T xs v"
    using assms(4-6)
  proof (induction xs arbitrary: v rule: rev_induct)
    case Nil
    have "0 < T" using assms(1-3) Nil.prems(3) by (metis empty_iff sum_pos)
    then show ?case using assms(3)[OF Nil.prems(3)] by (simp add: credit_def)
  next
    case (snoc x xs)
    have xs: "max_credit S w T xs" "x \<in> S" "\<forall>v\<in>S. credit w T xs v \<le> credit w T xs x"
      using snoc.prems(1) by (simp_all add: max_credit_snoc)
    have T: "0 < T" using snoc.prems(2) by simp
    have pos: "0 < credit w T xs x"
      using largest_credit_positive[OF assms(1) max_credit_set[OF xs(1)] assms(2) T, of x] xs(3) by blast
    have "credit w T (xs @ [x]) v = credit w T xs v + w v - (if v = x then T else 0)"
      by (simp add: credit_def algebra_simps)
    then show ?case
      using snoc.IH[OF xs(1) _ snoc.prems(3)] snoc.prems(2) pos assms(3)[OF snoc.prems(3)] by (cases "v = x") auto
  qed
  have "0 \<le> T * int (count_list xs v)" using assms(5) by simp
  moreover have "w v * (int (length xs) + 1) \<le> w v * (T + 1)" using assms(3)[OF assms(6)] assms(5) by simp
  ultimately show "credit w T xs v \<le> w v * (T + 1)" by (simp add: credit_def)
qed

section \<open>The router takes the largest credit\<close>

lemma mset_mm_insert [simp]: "mset (mm_insert e l) = add_mset e (mset l)"
proof -
  have "mset (takeWhile (\<lambda>x. fst x \<le> fst e) l) + mset (dropWhile (\<lambda>x. fst x \<le> fst e) l) = mset l"
    by (simp flip: mset_append)
  then show ?thesis by (simp add: mm_insert_def)
qed

lemma set_mm_insert [simp]: "set (mm_insert e l) = insert e (set l)"
  by (metis mset_mm_insert set_mset_add_mset_insert set_mset_mset)

lemma sorted_mm_insert:
  assumes "sorted (map fst l)"
  shows "sorted (map fst (mm_insert e l))"
  using assms
proof (induction l)
  case Nil
  then show ?case by (simp add: mm_insert_def)
next
  case (Cons a l)
  show ?case
  proof (cases "fst a \<le> fst e")
    case True
    then have "mm_insert e (a # l) = a # mm_insert e l" by (simp add: mm_insert_def)
    then show ?thesis using Cons True by auto
  next
    case False
    then have "mm_insert e (a # l) = e # a # l" by (simp add: mm_insert_def)
    then show ?thesis using Cons.prems False by auto
  qed
qed

lemma router_move_first:
  "router_move r (k, v) (True, cache, mm) =
     (False, cache @ [v], mm_insert (to_int (k - int (ro_iMaxRouterR r) + ro_mIdToWeight r v), v) mm)"
  by (simp add: router_move_def)

lemma router_move_rest:
  "fold (router_move r) l (False, cache, mm) =
     (False, cache, fold (\<lambda>(k, v). mm_insert (k + ro_mIdToWeight r v, v)) l mm)"
  by (induction l arbitrary: mm) (auto simp: router_move_def)

lemma fold_mm_insert:
  "sorted (map fst mm) \<Longrightarrow>
     sorted (map fst (fold (\<lambda>(k, v). mm_insert (k + w v, v)) l mm)) \<and>
     mset (fold (\<lambda>(k, v). mm_insert (k + w v, v)) l mm) = mset (map (\<lambda>(k, v). (k + w v, v)) l) + mset mm"
proof (induction l arbitrary: mm)
  case (Cons a l)
  obtain k v where a: "a = (k, v)" by (cases a)
  show ?case using Cons.IH[OF sorted_mm_insert[OF Cons.prems, of "(k + w v, v)"]] by (simp add: a)
qed simp

definition router_inv :: "nat set \<Rightarrow> (nat \<Rightarrow> int) \<Rightarrow> int \<Rightarrow> nat list \<Rightarrow> nat list \<Rightarrow> router \<Rightarrow> bool" where
  "router_inv S w T base xs r \<longleftrightarrow> ro_iMaxRouterR r = nat T \<and> ro_mIdToWeight r = w \<and> ro_cache r = base @ xs \<and>
     sorted (map fst (ro_mWeightToId r)) \<and> mset (map snd (ro_mWeightToId r)) = mset_set S \<and>
     (\<forall>(k, v) \<in> set (ro_mWeightToId r). k = credit w T xs v) \<and> max_credit S w T xs"

lemma router_round_inv:
  assumes inv: "router_inv S w T base xs r"
    and S: "finite S" "T = sum w S" "\<And>v. v \<in> S \<Longrightarrow> 0 < w v" "\<And>v. v \<in> S \<Longrightarrow> w v \<le> 100"
    and T: "int (length xs) < T" "101 * T + 200 < 2 ^ 31"
  shows "\<exists>x. router_inv S w T base (xs @ [x]) (router_round r)"
proof -
  let ?m = "ro_mWeightToId r"
  have m: "sorted (map fst ?m)" "mset (map snd ?m) = mset_set S" "\<And>k v. (k, v) \<in> set ?m \<Longrightarrow> k = credit w T xs v"
    "max_credit S w T xs" "ro_mIdToWeight r = w" "ro_iMaxRouterR r = nat T"
    using inv by (auto simp: router_inv_def)
  have snds: "snd ` set ?m = S" using arg_cong[OF m(2), where f = set_mset] S(1) by simp
  obtain l where "set l = S" "distinct l" using finite_distinct_list[OF S(1)] by blast
  then have "mset (map snd ?m) = mset l" using m(2) mset_set_set by metis
  then have dist: "distinct (map snd ?m)" using \<open>distinct l\<close> mset_eq_imp_distinct_iff by blast
  have "S \<noteq> {}" using S(2) T(1) by auto
  then have "?m \<noteq> []" using snds by auto
  then obtain ms c x where ms: "?m = ms @ [(c, x)]" by (metis prod.exhaust rev_exhaust)
  have x: "x \<in> S" "c = credit w T xs x" using snds m(3)[of c x] by (auto simp: ms)
  have max: "credit w T xs v \<le> credit w T xs x" if v: "v \<in> S" for v
  proof -
    obtain k where k: "(k, v) \<in> set ?m" using v snds by force
    then have "k \<le> c" using m(1) by (auto simp: ms sorted_append)
    then show ?thesis using m(3)[OF k] x(2) by simp
  qed
  let ?xs = "xs @ [x]"
  have step: "credit w T ?xs v = credit w T xs v + w v - (if v = x then T else 0)" for v
    by (simp add: credit_def algebra_simps)
  have mc: "max_credit S w T ?xs" using m(4) x(1) max by (simp add: max_credit_snoc)
  have "credit w T ?xs x \<le> w x * (T + 1)" "- T < credit w T ?xs x"
    using credit_range[OF S(1-3) mc _ x(1)] T(1) by simp_all
  moreover have "w x * (T + 1) \<le> 100 * (T + 1)" using S(4)[OF x(1)] T(1) by (intro mult_right_mono) simp_all
  ultimately have ti: "to_int (c - T + w x) = credit w T ?xs x"
    using T by (simp add: to_int_def step x(2) signed_take_bit_int_eq_self algebra_simps)
  define m' where "m' = fold (\<lambda>(k, v). mm_insert (k + w v, v)) (rev ms) [(credit w T ?xs x, x)]"
  have m': "sorted (map fst m')" "mset m' = mset (map (\<lambda>(k, v). (k + w v, v)) (rev ms)) + {#(credit w T ?xs x, x)#}"
    using fold_mm_insert[of "[(credit w T ?xs x, x)]" w "rev ms"] by (simp_all add: m'_def)
  have set': "set m' = (\<lambda>(k, v). (k + w v, v)) ` set ms \<union> {(credit w T ?xs x, x)}"
    using arg_cong[OF m'(2), where f = set_mset] by simp
  have rr: "router_round r = r\<lparr>ro_cache := ro_cache r @ [x], ro_mWeightToId := m'\<rparr>"
    using T(1) ti by (simp add: router_round_def ms router_move_first router_move_rest m(5,6) m'_def mm_insert_def)
  have "mset (map snd m') = mset (map snd ?m)"
    using arg_cong[OF m'(2), where f = "image_mset snd"] by (simp add: ms image_mset.compositionality comp_def case_prod_unfold)
  moreover have "k = credit w T ?xs v" if kv: "(k, v) \<in> set m'" for k v
  proof (cases "v = x")
    case True
    have "x \<notin> snd ` set ms" using dist by (simp add: ms)
    then show ?thesis using kv True by (force simp: set')
  next
    case False
    then obtain k' where "(k', v) \<in> set ms" "k = k' + w v" using kv by (auto simp: set')
    then show ?thesis using m(3)[of k' v] False by (simp add: ms step)
  qed
  ultimately have "router_inv S w T base ?xs (router_round r)"
    using inv m'(1) mc by (auto simp: router_inv_def rr)
  then show ?thesis ..
qed

lemma router_rounds_inv:
  assumes "router_inv S w T base [] r"
    and "finite S" "T = sum w S" "\<And>v. v \<in> S \<Longrightarrow> 0 < w v" "\<And>v. v \<in> S \<Longrightarrow> w v \<le> 100" "101 * T + 200 < 2 ^ 31"
    and "int n \<le> T"
  shows "\<exists>xs. length xs = n \<and> router_inv S w T base xs ((router_round ^^ n) r)"
  using assms(7)
proof (induction n)
  case 0
  then show ?case using assms(1) by auto
next
  case (Suc n)
  then obtain xs where xs: "length xs = n" "router_inv S w T base xs ((router_round ^^ n) r)" by auto
  then obtain x where "router_inv S w T base (xs @ [x]) (router_round ((router_round ^^ n) r))"
    using router_round_inv[OF xs(2) assms(2-5) _ assms(6)] Suc.prems by auto
  then show ?case using xs(1) by (intro exI[of _ "xs @ [x]"]) simp
qed

section \<open>Every server gets its share\<close>

text \<open>The router after the loop over the servers.\<close>

lemma fold_router_add:
  fixes sc :: "nat \<Rightarrow> int" and scale
  defines "run \<equiv> \<lambda>ps. fold (router_add scale) ps \<lparr>ro_cache = [], ro_iMaxRouterR = 0, ro_mIdToWeight = (\<lambda>_. 0), ro_mWeightToId = []\<rparr>"
    and "good \<equiv> \<lambda>ps. {v \<in> fst ` set ps. 0 < sc v}"
  assumes "distinct (map fst ps)" "\<And>v w. (v, w) \<in> set ps \<Longrightarrow> sc v = scaled_weight scale w"
  shows "ro_cache (run ps) = filter (\<lambda>v. \<not> 0 < sc v) (map fst ps) \<and> ro_iMaxRouterR (run ps) = nat (sum sc (good ps))
    \<and> ro_mIdToWeight (run ps) = (\<lambda>v. if v \<in> good ps then sc v else 0) \<and> sorted (map fst (ro_mWeightToId (run ps)))
    \<and> mset (ro_mWeightToId (run ps)) = mset (map (\<lambda>v. (sc v, v)) (filter (\<lambda>v. 0 < sc v) (map fst ps)))"
  using assms(3,4)
proof (induction ps rule: rev_induct)
  case Nil
  then show ?case by (simp add: run_def good_def)
next
  case (snoc p ps)
  obtain v w where p: "p = (v, w)" by (cases p)
  note IH = snoc.IH[OF _ snoc.prems(2)]
  have w: "scaled_weight scale w = sc v" using snoc.prems(2)[of v w] p by simp
  have r: "run (ps @ [(v, w)]) = router_add scale (v, w) (run ps)" by (simp add: run_def p)
  have new: "v \<notin> fst ` set ps" "distinct (map fst ps)" using snoc.prems(1) p by auto
  have IH: "ro_cache (run ps) = filter (\<lambda>v. \<not> 0 < sc v) (map fst ps)" "ro_iMaxRouterR (run ps) = nat (sum sc (good ps))"
    "ro_mIdToWeight (run ps) = (\<lambda>v. if v \<in> good ps then sc v else 0)" "sorted (map fst (ro_mWeightToId (run ps)))"
    "mset (ro_mWeightToId (run ps)) = mset (map (\<lambda>v. (sc v, v)) (filter (\<lambda>v. 0 < sc v) (map fst ps)))"
    using IH new(2) by simp_all
  show ?case
  proof (cases "0 < sc v")
    case True
    then have g: "good (ps @ [(v, w)]) = insert v (good ps)" "v \<notin> good ps" using p new(1) by (auto simp: good_def)
    have "sum sc (insert v (good ps)) = sc v + sum sc (good ps)"
      using g(2) by (intro sum.insert) (simp_all add: good_def)
    moreover have "0 \<le> sum sc (good ps)" by (intro sum_nonneg) (simp add: good_def)
    ultimately have "nat (sum sc (good (ps @ [(v, w)]))) = nat (sum sc (good ps)) + nat (sc v)"
      using True by (simp add: g(1) nat_add_distrib)
    then show ?thesis
      using True sorted_mm_insert[OF IH(4), of "(sc v, v)"] by (simp add: r router_add_def w p IH g(1) Let_def fun_eq_iff)
  next
    case False
    then have "good (ps @ [(v, w)]) = good ps" using p by (auto simp: good_def)
    then show ?thesis using IH False by (simp add: r router_add_def w p Let_def)
  qed
qed

lemma router_fill_shares:
  assumes "distinct ids" "length ids = length ws" "ws \<noteq> []"
    and "\<And>v w. (v, w) \<in> set (zip ids ws) \<Longrightarrow> sc v = scaled_weight (weight_scale ws) w"
    and "\<And>v. v \<in> set ids \<Longrightarrow> sc v \<le> 100" "length ids \<le> 200000"
    and "v \<in> set ids"
  shows "int (count_list (router_fill ids ws) v) = (if 0 < sc v then sc v else 1)"
proof -
  define S where "S = {v \<in> set ids. 0 < sc v}"
  define T where "T = sum sc S"
  define r where "r = fold (router_add (weight_scale ws)) (zip ids ws)
    \<lparr>ro_cache = [], ro_iMaxRouterR = 0, ro_mIdToWeight = (\<lambda>_. 0), ro_mWeightToId = []\<rparr>"
  let ?w = "\<lambda>v. if v \<in> S then sc v else 0" and ?base = "filter (\<lambda>v. \<not> 0 < sc v) ids"
  have r: "ro_cache r = ?base" "ro_iMaxRouterR r = nat T" "ro_mIdToWeight r = ?w" "sorted (map fst (ro_mWeightToId r))"
    "mset (ro_mWeightToId r) = mset (map (\<lambda>v. (sc v, v)) (filter (\<lambda>v. 0 < sc v) ids))"
    using fold_router_add[of "zip ids ws" sc "weight_scale ws"] assms(1,2,4) by (simp_all add: T_def r_def S_def flip: set_map)
  have S: "finite S" "\<And>v. v \<in> S \<Longrightarrow> 0 < ?w v" "\<And>v. v \<in> S \<Longrightarrow> ?w v \<le> 100" "T = sum ?w S"
    using assms(5) by (auto simp: S_def T_def)
  have T0: "0 \<le> T" unfolding T_def by (intro sum_nonneg) (simp add: S_def)
  have "T \<le> (\<Sum>v\<in>S. 100)" unfolding T_def using assms(5) by (intro sum_mono) (simp add: S_def)
  also have "card S \<le> length ids" using card_mono[of "set ids" S] card_length[of ids] by (auto simp: S_def)
  then have "(\<Sum>v\<in>S. 100) \<le> (100 :: int) * 200000" using assms(6) by simp
  finally have T: "101 * T + 200 < 2 ^ 31" by simp
  have "mset (map snd (ro_mWeightToId r)) = mset (filter (\<lambda>v. 0 < sc v) ids)"
    using arg_cong[OF r(5), where f = "image_mset snd"] by (simp add: image_mset.compositionality comp_def)
  moreover have "mset (filter (\<lambda>v. 0 < sc v) ids) = mset_set S"
    using assms(1) mset_set_set[of "filter (\<lambda>v. 0 < sc v) ids"] by (simp add: S_def)
  moreover have "k = credit ?w T [] v" if "(k, v) \<in> set (ro_mWeightToId r)" for k v
    using that arg_cong[OF r(5), where f = set_mset] by (auto simp: credit_def S_def)
  ultimately have "router_inv S ?w T ?base [] r"
    using r by (auto simp: router_inv_def max_credit_def)
  from router_rounds_inv[OF this S(1,4,2,3) T, of "nat T"] T0 obtain xs where
    xs: "length xs = nat T" "router_inv S ?w T ?base xs ((router_round ^^ nat T) r)" by auto
  have fill: "router_fill ids ws = ?base @ xs"
    using xs(2) by (simp add: router_fill_def r(2) router_inv_def flip: r_def)
  have mc: "max_credit S ?w T xs" using xs(2) by (simp add: router_inv_def)
  show ?thesis
  proof (cases "v \<in> S")
    case True
    then have "int (count_list xs v) = ?w v"
      using share_exact[OF S(1,4,2) mc] xs(1) T0 by simp
    moreover have "count_list ?base v = 0" using True by (auto simp: S_def count_list_0_iff)
    ultimately show ?thesis using True by (simp add: fill S_def)
  next
    case False
    then have "count_list xs v = 0" using max_credit_set[OF mc] by (auto simp: count_list_0_iff)
    moreover have "v \<in> set ?base" "distinct ?base" using False assms(1,7) by (auto simp: S_def)
    then have "count_list ?base v = 1" by (metis count_mset distinct_count_atmost_1)
    ultimately show ?thesis using False assms(7) by (simp add: fill S_def)
  qed
qed

text \<open>Whatever the weights are, the list holds numbers of servers only.\<close>

lemma router_fill_set: "set (router_fill ids ws) \<subseteq> set ids"
proof -
  have add: "set (ro_cache (fold (router_add scale) ps r)) \<subseteq> set ids \<and> snd ` set (ro_mWeightToId (fold (router_add scale) ps r)) \<subseteq> set ids"
    if "set (ro_cache r) \<subseteq> set ids" "snd ` set (ro_mWeightToId r) \<subseteq> set ids" "fst ` set ps \<subseteq> set ids" for ps scale r
    using that
  proof (induction ps arbitrary: r)
    case (Cons p ps)
    obtain v w where p: "p = (v, w)" by (cases p)
    show ?case using Cons.prems by (simp add: p, intro Cons.IH) (auto simp: router_add_def Let_def)
  qed simp
  have round: "set (ro_cache (router_round r)) \<subseteq> set ids \<and> snd ` set (ro_mWeightToId (router_round r)) \<subseteq> set ids"
    if "set (ro_cache r) \<subseteq> set ids" "snd ` set (ro_mWeightToId r) \<subseteq> set ids" for r
  proof -
    have move: "set (fst (snd (fold (router_move r) l (b, cache, mm)))) \<subseteq> set ids \<and>
        snd ` set (snd (snd (fold (router_move r) l (b, cache, mm)))) \<subseteq> set ids"
      if "snd ` set l \<subseteq> set ids" "set cache \<subseteq> set ids" "snd ` set mm \<subseteq> set ids" for l b cache mm
      using that
    proof (induction l arbitrary: b cache mm)
      case (Cons a l)
      obtain k v where a: "a = (k, v)" by (cases a)
      obtain b' cache' mm' where m: "router_move r a (b, cache, mm) = (b', cache', mm')" by (metis prod_cases3)
      then have "set cache' \<subseteq> set ids" "snd ` set mm' \<subseteq> set ids"
        using Cons.prems by (auto simp: a router_move_def image_subset_iff split: if_splits)
      then show ?case using Cons.IH Cons.prems(1) by (simp add: m)
    qed simp
    show ?thesis
      using move[of "rev (ro_mWeightToId r)" "ro_cache r" "[]" True] that by (simp add: router_round_def split_beta)
  qed
  have rounds: "set (ro_cache ((router_round ^^ n) r)) \<subseteq> set ids \<and> snd ` set (ro_mWeightToId ((router_round ^^ n) r)) \<subseteq> set ids"
    if "set (ro_cache r) \<subseteq> set ids \<and> snd ` set (ro_mWeightToId r) \<subseteq> set ids" for n r
    using that by (induction n) (use round in auto)
  show ?thesis
    unfolding router_fill_def Let_def
    by (rule rounds[THEN conjunct1], rule add) (auto dest: set_zip_leftD)
qed

section \<open>The scale\<close>

lemma weight_range_spec:
  assumes "ws \<noteq> []" "\<And>w. w \<in> set ws \<Longrightarrow> 0 \<le> w \<and> w < 2 ^ 64"
  shows "weight_range ws = (Max (set ws), Min (set ws))"
proof -
  obtain w0 rest where ws: "ws = w0 # rest" using assms(1) by (cases ws) auto
  have "fold (\<lambda>w (mx, mn). let t = size_t w in (if t > mx then t else mx, if t < mn then t else mn)) rest (a, b) =
      (fold max rest a, fold min rest b)" if "\<And>w. w \<in> set rest \<Longrightarrow> 0 \<le> w \<and> w < 2 ^ 64" for a b
    using that
  proof (induction rest arbitrary: a b)
    case (Cons w rest)
    have "size_t w = w" using Cons.prems[of w] by (simp add: size_t_def)
    moreover have "(if w > a then w else a) = max w a" "(if w < b then w else b) = min w b" by simp_all
    ultimately show ?case using Cons.IH Cons.prems by (simp add: Let_def del: max_def min_def)
  qed simp
  then show ?thesis
    using assms(2) Max.set_eq_fold[of w0 rest] Min.set_eq_fold[of w0 rest] by (simp add: weight_range_def ws size_t_def)
qed

lemma scaled_weight_spec:
  assumes "\<And>w. w \<in> set ws \<Longrightarrow> 0 < w \<and> w < 2 ^ 31" "w \<in> set ws"
  defines "R \<equiv> min 100 (max 10 (Max (set ws) div Min (set ws)))"
  shows "scaled_weight (weight_scale ws) w = w * R div Max (set ws)" "w * R div Max (set ws) \<le> 100"
proof -
  have ne: "ws \<noteq> []" using assms(2) by auto
  have range: "weight_range ws = (Max (set ws), Min (set ws))"
    using weight_range_spec[OF ne] assms(1) by fastforce
  have "0 < Min (set ws)" using assms(1) ne by simp
  then have sc: "weight_scale ws = (R, Max (set ws))"
    by (auto simp: weight_scale_def range R_def iMinWeightLimit_def iMaxWeightLimit_def Let_def min_def max_def)
  have R: "0 < R" "R \<le> 100" by (auto simp: R_def)
  have w: "0 < w" "w < 2 ^ 31" "w \<le> Max (set ws)" using assms(1)[OF assms(2)] assms(2) by simp_all
  have "w * R \<le> w * 100" using w R by (intro mult_left_mono) simp_all
  moreover have "w * 100 < 2 ^ 64" using w by simp
  ultimately have "w * R < 2 ^ 64" by (rule le_less_trans)
  moreover have "0 \<le> w * R" using w R by simp
  ultimately have wR: "w * R < 2 ^ 64" "0 \<le> w * R" by blast+
  have "w * R \<le> Max (set ws) * 100" using w R by (intro mult_mono) simp_all
  then have "w * R div Max (set ws) \<le> Max (set ws) * 100 div Max (set ws)" using w by (intro zdiv_mono1) simp_all
  then show le: "w * R div Max (set ws) \<le> 100" using w by simp
  have "0 \<le> w * R div Max (set ws)" using wR w by (intro pos_imp_zdiv_nonneg_iff[THEN iffD2]) simp_all
  then show "scaled_weight (weight_scale ws) w = w * R div Max (set ws)"
    using w wR le by (simp add: scaled_weight_def sc size_t_def to_int_def signed_take_bit_int_eq_self)
qed

text \<open>
  The list for the static weights: every server stands in it as often as its weight says, scaled so that the largest
  weight becomes the ratio of the largest and the smallest one, kept between 10 and 100; a server whose share
  would be 0 stands in it once.
\<close>

theorem dispatch_shares:
  assumes "\<And>w. w \<in> set vWeight \<Longrightarrow> 0 < w \<and> w < 2 ^ 31" "length vWeight \<le> 200000" "i < length vWeight"
  shows "int (count_list (dispatchEndpointCache old vWeight) i) =
    max 1 (vWeight ! i * min 100 (max 10 (Max (set vWeight) div Min (set vWeight))) div Max (set vWeight))"
proof -
  let ?R = "min 100 (max 10 (Max (set vWeight) div Min (set vWeight)))"
  let ?sc = "\<lambda>i. vWeight ! i * ?R div Max (set vWeight)"
  have "int (count_list (router_fill [0..<length vWeight] vWeight) i) = (if 0 < ?sc i then ?sc i else 1)"
  proof (rule router_fill_shares)
    fix v w assume "(v, w) \<in> set (zip [0..<length vWeight] vWeight)"
    then have "w = vWeight ! v" "w \<in> set vWeight" by (auto simp: in_set_zip)
    then show "?sc v = scaled_weight (weight_scale vWeight) w" using scaled_weight_spec(1)[OF assms(1)] by simp
  next
    fix v assume "v \<in> set [0..<length vWeight]"
    then show "?sc v \<le> 100" using scaled_weight_spec(2)[OF assms(1)] by simp
  qed (use assms in auto)
  moreover have "vWeight \<noteq> []" using assms(3) by auto
  ultimately show ?thesis by (simp add: dispatchEndpointCache_def max_def)
qed

theorem dispatch_shares_witness:
  "int (count_list (dispatchEndpointCache [] [100, 5]) 0) = 20"
  by (rule trans[OF dispatch_shares]) auto

end
