(* ===== verification/Endpoint_Manager.thy ===== *)
theory Endpoint_Manager
  imports Adapter_Proxy Consistent_Hash Router_Cache
begin

text \<open>
  The list of servers of an object (\<^verbatim>\<open>QueryEpBase\<close> and \<^verbatim>\<open>EndpointManager\<close> in \<^verbatim>\<open>servant/EndpointManager.cpp\<close>): the requests to
  the registry, what its answers change, and the tables from which a server is selected. Adapters are addresses in a
  store. A \<^verbatim>\<open>std::map\<close> and a \<^verbatim>\<open>std::set\<close> are lists sorted by their keys; the order of an \<^verbatim>\<open>unordered_map\<close> is not used by the code.
  The results of \<^verbatim>\<open>connect\<close> and of \<^verbatim>\<open>rand\<close> are scripts in the state. Logs and the cache file are not modelled, nor are
  the synchronous requests to the registry, which only \<^verbatim>\<open>EndpointThread\<close> makes.
\<close>

section \<open>State\<close>

record EndpointInfo =
  ei_host :: "byte list"
  ei_desc :: "byte list"
  ei_cmpDesc :: "byte list"
  ei_weight :: int
  ei_weightType :: int
  ei_auth :: bool

datatype EndpointWeightType = E_LOOP | E_STATIC_WEIGHT

text \<open>What \<^verbatim>\<open>AdapterProxy\<close> keeps for the manager, beside the connection.\<close>

record RegProxy =
  rp_adapter :: AdapterProxy
  rp_ep :: EndpointInfo
  rp_activeStateInReg :: bool
  rp_staticWeight :: int
  rp_staticWeightChanged :: bool

type_synonym proxy_map = "(byte list \<times> nat) list"

text \<open>
  The fields of \<^verbatim>\<open>QueryEpBase\<close> come first. The two rings of consistent hashing and the maps they were built from are
  indexed by \<^verbatim>\<open>bStatic\<close>: \<open>True\<close> stands for \<^verbatim>\<open>_consistentHashWeight\<close> and \<^verbatim>\<open>_lastConHashWeightProxys\<close>. \<open>em_asked\<close> and \<open>em_notified\<close>
  count the requests to the registry and the calls of \<^verbatim>\<open>doNotify\<close>.
\<close>

record EndpointManager =
  em_direct :: bool
  em_valid :: bool
  em_weightType :: EndpointWeightType
  em_activeEndpoints :: "EndpointInfo list"
  em_inactiveEndpoints :: "EndpointInfo list"
  em_rootServant :: bool
  em_requestRegistry :: bool
  em_requestTimeout :: int
  em_refreshTime :: int
  em_refreshInterval :: int
  em_failTimes :: int
  em_asked :: nat
  em_notified :: nat
  em_outterUpdate :: "(EndpointInfo list \<times> EndpointInfo list) option"
  em_proxys :: "nat \<Rightarrow> RegProxy"
  em_next :: nat
  em_activeProxys :: "nat list"
  em_sortActivProxys :: proxy_map
  em_indexActiveProxys :: proxy_map
  em_regProxys :: proxy_map
  em_vRegProxys :: "nat list"
  em_allProxys :: proxy_map
  em_vAllProxys :: "nat list"
  em_lastRoundPosition :: nat
  em_update :: bool
  em_first :: bool
  em_lastBuildWeightTime :: int
  em_updateWeightInterval :: int
  em_lastSWeightPosition :: nat
  em_staticRouterCache :: "nat list"
  em_activeWeightProxy :: "nat list"
  em_hashStaticRouterCache :: "nat list"
  em_lastHashStaticProxys :: "nat list"
  em_lastConHashProxys :: "bool \<Rightarrow> proxy_map"
  em_consistentHash :: "bool \<Rightarrow> TC_ConsistentHashNew"
  em_info :: CheckTimeoutInfo
  em_limit :: nat
  em_serial :: bool
  em_push :: bool
  em_junkWeight :: "nat \<Rightarrow> int \<times> bool"
  em_junkDigest :: "byte list"
  em_connects :: "bool option list"
  em_rands :: "nat list"

definition em_set :: "nat \<Rightarrow> (RegProxy \<Rightarrow> RegProxy) \<Rightarrow> EndpointManager \<Rightarrow> EndpointManager" where
  "em_set p f em = em\<lparr>em_proxys := (em_proxys em)(p := f (em_proxys em p))\<rparr>"

abbreviation em_adapter :: "EndpointManager \<Rightarrow> nat \<Rightarrow> AdapterProxy" where
  "em_adapter em p \<equiv> rp_adapter (em_proxys em p)"

section \<open>An adapter in the list\<close>

definition Transceiver_new :: "bool \<Rightarrow> Transceiver" where
  "Transceiver_new auth = \<lparr>tr_fd = False, tr_connStatus = eUnconnected, tr_authLocal = auth, tr_authSucc = False,
     tr_isConnTimeout = False, tr_sendBuffer = NetWorkBuffer_new, tr_recvBuffer = NetWorkBuffer_new, tr_sends = [], tr_recvs = [],
     tr_wire = [], tr_closed = 0\<rparr>"

definition ReqMessage_blank :: ReqMessage where
  "ReqMessage_blank = \<lparr>m_eStatus = REQ_REQ, m_eType = SYNC_CALL, m_bFromRpc = False, m_iRequestId = 0, m_iTimeout = 0,
     m_iBeginTime = 0, m_iRet = 0, m_sReqData = 0, m_body = []\<rparr>"

definition AdapterProxy_new :: "CheckTimeoutInfo \<Rightarrow> nat \<Rightarrow> bool \<Rightarrow> bool \<Rightarrow> bool \<Rightarrow> AdapterProxy" where
  "AdapterProxy_new info limit serial push auth =
     \<lparr>ap_requestMsg = None, ap_trans = Transceiver_new auth, ap_timeoutQueue = TimeoutQueue_new, ap_activeStatus = True,
      ap_totalInvoke = 0, ap_timeoutInvoke = 0, ap_nextFinishInvokeTime = 0, ap_frequenceFailInvoke = 0,
      ap_frequenceFailTime = 0, ap_nextRetryTime = 0, ap_connExc = False, ap_connExcCnt = 0, ap_noSendQueueLimit = limit,
      ap_serial = serial, ap_pushCallback = push, ap_info = info, ap_msgs = (\<lambda>_. ReqMessage_blank), ap_released = [], ap_pushed = 0\<rparr>"

text \<open>The constructor leaves the weight and its mark uninitialised.\<close>

definition em_new_proxy :: "EndpointInfo \<Rightarrow> EndpointManager \<Rightarrow> nat \<times> EndpointManager" where
  "em_new_proxy ep em =
     (let p = em_next em; (jw, jc) = em_junkWeight em p
      in (p, em\<lparr>em_proxys := (em_proxys em)(p :=
                  \<lparr>rp_adapter = AdapterProxy_new (em_info em) (em_limit em) (em_serial em) (em_push em) (ei_auth ep),
                   rp_ep = ep, rp_activeStateInReg = True, rp_staticWeight = jw, rp_staticWeightChanged = jc\<rparr>),
                em_next := p + 1\<rparr>))"

definition setWeight :: "int \<Rightarrow> RegProxy \<Rightarrow> RegProxy" where
  "setWeight iWeight r =
     (let r1 = (if rp_staticWeight r \<noteq> iWeight then r\<lparr>rp_staticWeightChanged := True\<rparr> else r)
      in r1\<lparr>rp_staticWeight := iWeight\<rparr>)"

definition resetWeightChanged :: "RegProxy \<Rightarrow> RegProxy" where
  "resetWeightChanged r = r\<lparr>rp_staticWeightChanged := False\<rparr>"

definition setActiveInReg :: "bool \<Rightarrow> RegProxy \<Rightarrow> RegProxy" where
  "setActiveInReg b r = r\<lparr>rp_activeStateInReg := b\<rparr>"

definition isConnTimeout :: "AdapterProxy \<Rightarrow> bool" where
  "isConnTimeout a \<longleftrightarrow> tr_isConnTimeout (ap_trans a)"

definition isConnExc :: "AdapterProxy \<Rightarrow> bool" where
  "isConnExc a \<longleftrightarrow> ap_connExc a"

text \<open>\<^verbatim>\<open>checkActive\<close> of an adapter in the list at the time \<open>now\<close>, with the next result of \<^verbatim>\<open>connect\<close>.\<close>

definition em_check :: "int \<Rightarrow> bool \<Rightarrow> nat \<Rightarrow> EndpointManager \<Rightarrow> bool \<times> EndpointManager" where
  "em_check now connecting p em =
     (let conn = (case em_connects em of [] \<Rightarrow> None | c # _ \<Rightarrow> c);
          (ok, a) = checkActive now conn connecting (em_adapter em p)
      in (ok, em_set p (\<lambda>r. r\<lparr>rp_adapter := a\<rparr>) (em\<lparr>em_connects := tl (em_connects em)\<rparr>)))"

definition em_rand :: "EndpointManager \<Rightarrow> nat \<times> EndpointManager" where
  "em_rand em = (case em_rands em of [] \<Rightarrow> (0, em) | r # rs \<Rightarrow> (r, em\<lparr>em_rands := rs\<rparr>))"

section \<open>Construction\<close>

text \<open>\<open>prop\<close> is the property \<^verbatim>\<open>refresh-endpoint-interval\<close> as \<^verbatim>\<open>atoi\<close> reads it; what the constructor leaves alone keeps the value in memory.\<close>

definition QueryEpBase_new :: "int \<Rightarrow> EndpointManager \<Rightarrow> EndpointManager" where
  "QueryEpBase_new prop mem = mem\<lparr>em_direct := False, em_valid := False, em_weightType := E_LOOP, em_activeEndpoints := [],
     em_inactiveEndpoints := [], em_rootServant := True, em_requestRegistry := False, em_requestTimeout := 0, em_refreshTime := 0,
     em_refreshInterval := (if prop < 5 * 1000 then 5 * 1000 else prop), em_failTimes := 0, em_asked := 0, em_notified := 0\<rparr>"

definition EndpointManager_new :: "int \<Rightarrow> EndpointManager \<Rightarrow> EndpointManager" where
  "EndpointManager_new prop mem = (QueryEpBase_new prop mem)\<lparr>em_outterUpdate := None, em_next := 0, em_activeProxys := [],
     em_sortActivProxys := [], em_indexActiveProxys := [], em_regProxys := [], em_vRegProxys := [], em_allProxys := [],
     em_vAllProxys := [], em_lastRoundPosition := 0, em_update := True, em_updateWeightInterval := 60, em_lastSWeightPosition := 0,
     em_staticRouterCache := [], em_activeWeightProxy := [], em_hashStaticRouterCache := [], em_lastHashStaticProxys := [],
     em_lastConHashProxys := (\<lambda>_. []), em_consistentHash := (\<lambda>_. ConsistentHash_new E_TC_CONHASH_KETAMAHASH)\<rparr>"

text \<open>
  The name of an object: with an at sign it carries its servers. \<open>on_endpoints\<close> is the text of the servers, \<open>None\<close> when they come
  from the cache. \<^verbatim>\<open>find_first_not_of\<close> finds the end of the leading at signs of the locator.
\<close>

record ObjName =
  on_objName :: "byte list"
  on_direct :: bool
  on_valid :: bool
  on_endpoints :: "byte list option"

datatype registry_exn = LocatorNotValid "byte list"

abbreviation AT :: byte where "AT \<equiv> 64"
abbreviation HASH :: byte where "HASH \<equiv> 35"

definition setObjName :: "byte list \<Rightarrow> byte list \<Rightarrow> registry_exn + ObjName" where
  "setObjName locator sObjName =
     (if AT \<in> set sObjName
      then let name = takeWhile (\<lambda>b. b \<noteq> HASH) (takeWhile (\<lambda>b. b \<noteq> AT) sObjName);
               sEndpoints = tl (dropWhile (\<lambda>b. b \<noteq> AT) sObjName);
               registry = (\<exists>b \<in> set locator. b \<noteq> AT) \<and> name = takeWhile (\<lambda>b. b = AT) locator
           in Inr \<lparr>on_objName = name, on_direct = \<not> registry, on_valid = True, on_endpoints = Some sEndpoints\<rparr>
      else if \<forall>b \<in> set locator. b = AT then Inl (LocatorNotValid locator)
      else Inr \<lparr>on_objName = takeWhile (\<lambda>b. b \<noteq> HASH) sObjName, on_direct = False, on_valid = False, on_endpoints = None\<rparr>)"

section \<open>A new list of servers\<close>

definition find_or_create :: "EndpointInfo \<Rightarrow> EndpointManager \<Rightarrow> nat \<times> EndpointManager" where
  "find_or_create ep em = (case map_of (em_allProxys em) (ei_cmpDesc ep) of
     Some p \<Rightarrow> (p, em)
   | None \<Rightarrow>
       (case em_new_proxy ep em of
          (p, em1) \<Rightarrow> (p, em1\<lparr>em_allProxys := map_insert (ei_cmpDesc ep) p (em_allProxys em1),
                             em_vAllProxys := em_vAllProxys em1 @ [p]\<rparr>)))"

definition skip_endpoint :: "EndpointManager \<Rightarrow> EndpointInfo \<Rightarrow> bool" where
  "skip_endpoint em ep \<longleftrightarrow> \<not> em_direct em \<and> em_weightType em = E_STATIC_WEIGHT \<and> ei_weight ep \<le> 0"

definition umap_add :: "byte list \<Rightarrow> nat \<Rightarrow> proxy_map \<Rightarrow> proxy_map" where
  "umap_add k v m = (if map_of m k = None then m @ [(k, v)] else m)"

definition update_active :: "EndpointInfo \<Rightarrow> EndpointManager \<Rightarrow> EndpointManager" where
  "update_active ep em =
     (if skip_endpoint em ep then em
      else case find_or_create ep em of
        (p, em1) \<Rightarrow>
          let em2 = em_set p (setActiveInReg True) em1;
              host = ei_host (rp_ep (em_proxys em2 p))
          in em_set p (setWeight (ei_weight ep))
               (em2\<lparr>em_activeProxys := em_activeProxys em2 @ [p],
                    em_regProxys := map_insert (ei_cmpDesc ep) p (em_regProxys em2),
                    em_indexActiveProxys := umap_add host p (em_indexActiveProxys em2),
                    em_sortActivProxys := map_insert host p (em_sortActivProxys em2)\<rparr>))"

definition update_inactive :: "EndpointInfo \<Rightarrow> EndpointManager \<Rightarrow> EndpointManager" where
  "update_inactive ep em =
     (if skip_endpoint em ep then em
      else case find_or_create ep em of
        (p, em1) \<Rightarrow>
          let em2 = em_set p (setActiveInReg False) em1
          in em_set p (setWeight (ei_weight ep))
               (em2\<lparr>em_regProxys := map_insert (ei_cmpDesc ep) p (em_regProxys em2)\<rparr>))"

definition updateEndpoints :: "EndpointInfo list \<Rightarrow> EndpointInfo list \<Rightarrow> EndpointManager \<Rightarrow> EndpointManager" where
  "updateEndpoints active inactive em =
     (let em1 = em\<lparr>em_activeProxys := [], em_regProxys := [], em_indexActiveProxys := [], em_sortActivProxys := []\<rparr>;
          em2 = (if active \<noteq> [] then fold (\<lambda>(_, p). em_set p (setActiveInReg False)) (em_allProxys em1) em1 else em1);
          em3 = fold update_inactive inactive (fold update_active active em2)
      in em3\<lparr>em_vRegProxys := map snd (em_regProxys em3), em_update := True\<rparr>)"

section \<open>The registry\<close>

abbreviation timeoutInterval :: int where "timeoutInterval \<equiv> 5 * 1000"
abbreviation activeEmptyInterval :: int where "activeEmptyInterval \<equiv> 10 * 1000"
abbreviation failInterval :: int where "failInterval \<equiv> 2 * 1000"
abbreviation manyFailInterval :: int where "manyFailInterval \<equiv> 30 * 1000"
abbreviation failTimesLimit :: int where "failTimesLimit \<equiv> 3"

text \<open>Updates that another thread has left.\<close>

definition updateEndpointsOutter :: "int \<Rightarrow> EndpointInfo list \<Rightarrow> EndpointInfo list \<Rightarrow> EndpointManager \<Rightarrow> EndpointManager" where
  "updateEndpointsOutter now active inactive em =
     em\<lparr>em_refreshTime := now + em_refreshInterval em, em_outterUpdate := Some (active, inactive)\<rparr>"

definition onUpdateOutter :: "EndpointManager \<Rightarrow> EndpointManager" where
  "onUpdateOutter em = (case em_outterUpdate em of
     None \<Rightarrow> em
   | Some (active, inactive) \<Rightarrow> (updateEndpoints active inactive em)\<lparr>em_valid := True, em_outterUpdate := None\<rparr>)"

definition doNotify :: "EndpointManager \<Rightarrow> EndpointManager" where
  "doNotify em = em\<lparr>em_notified := em_notified em + 1\<rparr>"

definition doEndpointsExp :: "int \<Rightarrow> EndpointManager \<Rightarrow> EndpointManager" where
  "doEndpointsExp now em =
     (let em1 = em\<lparr>em_failTimes := em_failTimes em + 1, em_requestRegistry := False, em_refreshTime := now + failInterval\<rparr>
      in if em_failTimes em1 > failTimesLimit
         then let em2 = (if \<not> em_valid em1 then doNotify (em1\<lparr>em_valid := True\<rparr>) else em1)
              in em2\<lparr>em_refreshTime := now + manyFailInterval\<rparr>
         else em1)"

text \<open>
  \<^verbatim>\<open>std::set<EndpointInfo>\<close> orders and compares by \<^verbatim>\<open>_cmpDesc\<close>, the protocol, host and port, and so does the comparison
  of two sets.
\<close>

fun ep_insert :: "EndpointInfo \<Rightarrow> EndpointInfo list \<Rightarrow> EndpointInfo list" where
  "ep_insert e [] = [e]"
| "ep_insert e (x # xs) =
     (if ei_cmpDesc e < ei_cmpDesc x then e # x # xs
      else if ei_cmpDesc e = ei_cmpDesc x then x # xs
      else x # ep_insert e xs)"

definition ep_set :: "EndpointInfo list \<Rightarrow> EndpointInfo list" where
  "ep_set es = fold ep_insert es []"

definition ep_same :: "EndpointInfo list \<Rightarrow> EndpointInfo list \<Rightarrow> bool" where
  "ep_same xs ys \<longleftrightarrow> map ei_cmpDesc xs = map ei_cmpDesc ys"

definition answer_weightType :: "EndpointInfo list \<Rightarrow> EndpointWeightType" where
  "answer_weightType activeEp =
     (let iWeightType = (case activeEp of [] \<Rightarrow> 0 | e # _ \<Rightarrow> ei_weightType e)
      in if (\<forall>e \<in> set activeEp. ei_weightType e = iWeightType) \<and> iWeightType = 1 then E_STATIC_WEIGHT else E_LOOP)"

definition doEndpoints :: "int \<Rightarrow> EndpointInfo list \<Rightarrow> EndpointInfo list \<Rightarrow> int \<Rightarrow> EndpointManager \<Rightarrow> EndpointManager" where
  "doEndpoints now activeEp inactiveEp iRet em =
     (if iRet \<noteq> 0 then doEndpointsExp now em
      else
        let em1 = em\<lparr>em_failTimes := 0, em_requestRegistry := False\<rparr>
        in if activeEp = [] then em1\<lparr>em_refreshTime := now + activeEmptyInterval\<rparr>
           else
             let em2 = em1\<lparr>em_refreshTime := now + em_refreshInterval em1, em_weightType := answer_weightType activeEp\<rparr>;
                 activeEps = ep_set activeEp;
                 inactiveEps = ep_set inactiveEp;
                 bActive = \<not> ep_same activeEps (em_activeEndpoints em2);
                 bInactive = \<not> ep_same inactiveEps (em_inactiveEndpoints em2);
                 em3 = (if bActive then em2\<lparr>em_activeEndpoints := activeEps\<rparr> else em2);
                 em4 = (if bInactive then em3\<lparr>em_inactiveEndpoints := inactiveEps\<rparr> else em3);
                 em5 = (if bActive \<or> bInactive
                        then updateEndpoints (em_activeEndpoints em4) (em_inactiveEndpoints em4) em4 else em4)
             in if \<not> em_valid em5 then doNotify (em5\<lparr>em_valid := True\<rparr>) else em5)"

text \<open>The request itself is asynchronous; \<open>fails\<close> says that sending it throws.\<close>

definition refreshReg :: "int \<Rightarrow> bool \<Rightarrow> EndpointManager \<Rightarrow> EndpointManager" where
  "refreshReg now fails em0 =
     (let em = onUpdateOutter em0
      in if em_direct em then em
         else
           let em1 = (if em_requestRegistry em \<and> em_requestTimeout em < now then doEndpointsExp now em else em)
           in if \<not> em_requestRegistry em1 \<and> em_refreshTime em1 \<le> now
              then let em2 = em1\<lparr>em_requestRegistry := True, em_requestTimeout := now + timeoutInterval\<rparr>
                   in if em_valid em2 \<and> \<not> em_rootServant em2 then em2
                      else if fails then doEndpointsExp now (em2\<lparr>em_asked := em_asked em2 + 1\<rparr>)
                      else em2\<lparr>em_asked := em_asked em2 + 1\<rparr>
              else em1)"

section \<open>The tables stay consistent\<close>

lemma map_insert_wf:
  fixes m :: "('a::linorder \<times> 'b) list"
  assumes "map_wf m"
  shows "map_wf (map_insert k v m)"
proof -
  have keys: "x \<in> set (map_insert k v m) \<Longrightarrow> fst x = k \<or> x \<in> set m" for x and m :: "('a \<times> 'b) list"
    by (induction m) (auto split: if_splits)
  show ?thesis
    using assms
  proof (induction m)
    case (Cons x m)
    then show ?case using keys[of _ m] by (cases x) (fastforce simp: map_wf_def not_less)
  qed (simp add: map_wf_def)
qed

lemma map_insert_lookup:
  "map_wf m \<Longrightarrow> map_of (map_insert k v m) = (if map_of m k = None then (map_of m)(k \<mapsto> v) else map_of m)"
proof (induction k v m rule: map_insert.induct)
  case (2 k v k' v' m)
  have "map_of m k = None" if "k < k'"
    using that 2(2) by (auto simp: map_wf_def map_of_eq_None_iff dest: order.strict_trans)
  then show ?case using 2 by (auto simp: map_wf_def fun_eq_iff not_less)
qed simp

lemma umap_add_lookup: "map_of (umap_add k v m) = (if map_of m k = None then (map_of m)(k \<mapsto> v) else map_of m)"
  by (auto simp: umap_add_def map_add_def fun_eq_iff split: option.splits)

lemma umap_add_distinct: "distinct (map fst m) \<Longrightarrow> distinct (map fst (umap_add k v m))"
  by (auto simp: umap_add_def map_of_eq_None_iff)

text \<open>
  The invariant: \<^verbatim>\<open>_allProxys\<close> knows every adapter of the other tables under its address, the maps by host agree with
  the hosts, and every host of \<^verbatim>\<open>_sortActivProxys\<close> is in \<^verbatim>\<open>_indexActiveProxys\<close>.
\<close>

definition all_ok :: "EndpointManager \<Rightarrow> bool" where
  "all_ok em \<longleftrightarrow> map_wf (em_allProxys em) \<and>
     (\<forall>k p. map_of (em_allProxys em) k = Some p \<longrightarrow> p < em_next em \<and> ei_cmpDesc (rp_ep (em_proxys em p)) = k)"

definition em_known :: "EndpointManager \<Rightarrow> nat set" where
  "em_known em = ran (map_of (em_allProxys em))"

definition tables_ok :: "EndpointManager \<Rightarrow> bool" where
  "tables_ok em \<longleftrightarrow> set (em_activeProxys em) \<subseteq> em_known em \<and> map_wf (em_regProxys em) \<and>
     (\<forall>k p. map_of (em_regProxys em) k = Some p \<longrightarrow> map_of (em_allProxys em) k = Some p) \<and>
     map_wf (em_sortActivProxys em) \<and> distinct (map fst (em_indexActiveProxys em)) \<and>
     map_of (em_sortActivProxys em) \<subseteq>\<^sub>m map_of (em_indexActiveProxys em) \<and>
     (\<forall>h p. map_of (em_indexActiveProxys em) h = Some p \<longrightarrow> p \<in> set (em_activeProxys em) \<and> ei_host (rp_ep (em_proxys em p)) = h)"

definition same_hosts :: "EndpointManager \<Rightarrow> bool" where
  "same_hosts em \<longleftrightarrow> map_of (em_sortActivProxys em) = map_of (em_indexActiveProxys em)"

definition em_ok :: "EndpointManager \<Rightarrow> bool" where
  "em_ok em \<longleftrightarrow> all_ok em \<and> tables_ok em \<and> em_vRegProxys em = map snd (em_regProxys em)"

text \<open>An operation on one adapter that keeps its address and its connection.\<close>

lemma em_set_simps [simp]:
  "em_allProxys (em_set p f em) = em_allProxys em" "em_next (em_set p f em) = em_next em"
  "em_activeProxys (em_set p f em) = em_activeProxys em" "em_regProxys (em_set p f em) = em_regProxys em"
  "em_sortActivProxys (em_set p f em) = em_sortActivProxys em" "em_indexActiveProxys (em_set p f em) = em_indexActiveProxys em"
  "em_vRegProxys (em_set p f em) = em_vRegProxys em" "em_proxys (em_set p f em) q = (if q = p then f (em_proxys em p) else em_proxys em q)"
  "em_direct (em_set p f em) = em_direct em" "em_weightType (em_set p f em) = em_weightType em"
  "em_known (em_set p f em) = em_known em"
  by (simp_all add: em_set_def em_known_def)

lemma rp_ep_simps [simp]:
  "rp_ep (setActiveInReg b r) = rp_ep r" "rp_ep (setWeight w r) = rp_ep r" "rp_ep (resetWeightChanged r) = rp_ep r"
  "rp_adapter (setActiveInReg b r) = rp_adapter r" "rp_adapter (setWeight w r) = rp_adapter r"
  "rp_adapter (resetWeightChanged r) = rp_adapter r"
  by (simp_all add: setActiveInReg_def setWeight_def resetWeightChanged_def Let_def)

lemma find_or_create_frame:
  assumes "find_or_create ep em = (p, em1)"
  shows "em1 = em\<lparr>em_proxys := em_proxys em1, em_next := em_next em1, em_allProxys := em_allProxys em1, em_vAllProxys := em_vAllProxys em1\<rparr>"
  using assms by (auto simp: find_or_create_def em_new_proxy_def Let_def split: prod.splits option.splits)

lemma find_or_create_spec:
  assumes "find_or_create ep em = (p, em1)" "all_ok em"
  shows "all_ok em1" "map_of (em_allProxys em1) (ei_cmpDesc ep) = Some p" "map_of (em_allProxys em) \<subseteq>\<^sub>m map_of (em_allProxys em1)"
    "em_next em \<le> em_next em1" "\<And>q. q < em_next em \<Longrightarrow> em_proxys em1 q = em_proxys em q"
proof -
  have *: "all_ok em1 \<and> map_of (em_allProxys em1) (ei_cmpDesc ep) = Some p \<and> map_of (em_allProxys em) \<subseteq>\<^sub>m map_of (em_allProxys em1)
    \<and> em_next em \<le> em_next em1 \<and> (\<forall>q. q < em_next em \<longrightarrow> em_proxys em1 q = em_proxys em q)"
  proof (cases "map_of (em_allProxys em) (ei_cmpDesc ep)")
    case (Some q)
    then have "em1 = em" "p = q" using assms(1) by (simp_all add: find_or_create_def)
    then show ?thesis using assms(2) Some by simp
  next
    case None
    obtain jw jc where j: "em_junkWeight em (em_next em) = (jw, jc)" by (cases "em_junkWeight em (em_next em)")
    have e: "p = em_next em" "em_allProxys em1 = map_insert (ei_cmpDesc ep) p (em_allProxys em)" "em_next em1 = em_next em + 1"
      "rp_ep (em_proxys em1 p) = ep" "\<And>q. q \<noteq> p \<Longrightarrow> em_proxys em1 q = em_proxys em q"
      using assms(1) None by (auto simp: find_or_create_def em_new_proxy_def Let_def j)
    have l: "map_of (em_allProxys em1) = (map_of (em_allProxys em))(ei_cmpDesc ep \<mapsto> p)"
      using map_insert_lookup[of "em_allProxys em" "ei_cmpDesc ep" p] assms(2) None by (simp add: e(2) all_ok_def)
    have "q < em_next em1 \<and> ei_cmpDesc (rp_ep (em_proxys em1 q)) = k" if "map_of (em_allProxys em1) k = Some q" for k q
    proof (cases "k = ei_cmpDesc ep")
      case True
      then have "q = p" using that unfolding l by simp
      then show ?thesis using True e(1,3,4) by simp
    next
      case False
      then have "q < em_next em" "ei_cmpDesc (rp_ep (em_proxys em q)) = k"
        using that assms(2) by (auto simp: l all_ok_def)
      then show ?thesis using e(5)[of q] by (simp add: e(1,3))
    qed
    then have "all_ok em1" using assms(2) map_insert_wf[of "em_allProxys em"] by (simp add: all_ok_def e(2))
    moreover have "map_of (em_allProxys em) \<subseteq>\<^sub>m map_of (em_allProxys em1)" using None by (auto simp: l map_le_def)
    ultimately show ?thesis using l e by auto
  qed
  then show "all_ok em1" "map_of (em_allProxys em1) (ei_cmpDesc ep) = Some p" "map_of (em_allProxys em) \<subseteq>\<^sub>m map_of (em_allProxys em1)"
    "em_next em \<le> em_next em1" "\<And>q. q < em_next em \<Longrightarrow> em_proxys em1 q = em_proxys em q" by blast+
qed

lemma all_ok_em_set:
  assumes "all_ok em" "\<And>r. rp_ep (f r) = rp_ep r"
  shows "all_ok (em_set p f em)"
  using assms by (auto simp: all_ok_def)

lemma map_le_trans': "m \<subseteq>\<^sub>m m' \<Longrightarrow> m k = Some v \<Longrightarrow> m' k = Some v"
  by (metis domI map_le_def)

lemma update_active_ok:
  assumes "all_ok em" "tables_ok em" "same_hosts em"
  shows "all_ok (update_active ep em) \<and> tables_ok (update_active ep em) \<and> same_hosts (update_active ep em)"
proof (cases "skip_endpoint em ep")
  case True
  then show ?thesis using assms by (simp add: update_active_def)
next
  case False
  obtain p em1 where f: "find_or_create ep em = (p, em1)" by (cases "find_or_create ep em")
  note s = find_or_create_spec[OF f assms(1)]
  obtain st n a v where e: "em1 = em\<lparr>em_proxys := st, em_next := n, em_allProxys := a, em_vAllProxys := v\<rparr>"
    using find_or_create_frame[OF f] by blast
  define em2 where "em2 = em_set p (setActiveInReg True) em1"
  define host where "host = ei_host (rp_ep (em_proxys em2 p))"
  define em3 where "em3 = em2\<lparr>em_activeProxys := em_activeProxys em2 @ [p],
    em_regProxys := map_insert (ei_cmpDesc ep) p (em_regProxys em2),
    em_indexActiveProxys := umap_add host p (em_indexActiveProxys em2),
    em_sortActivProxys := map_insert host p (em_sortActivProxys em2)\<rparr>"
  have u: "update_active ep em = em_set p (setWeight (ei_weight ep)) em3"
    using False by (simp add: update_active_def f em2_def em3_def host_def Let_def)
  have ep_old: "rp_ep (em_proxys em3 q) = rp_ep (em_proxys em q)" if q: "q \<in> em_known em" for q
  proof -
    obtain k where "map_of (em_allProxys em) k = Some q" using q by (auto simp: em_known_def ran_def)
    then have "q < em_next em" using assms(1) by (simp add: all_ok_def)
    then show ?thesis using s(5) by (simp add: em3_def em2_def)
  qed
  have known: "em_known em3 = em_known em1" "em_known em \<subseteq> em_known em1" "p \<in> em_known em1"
    using s(2,3) by (auto simp: em3_def em2_def em_known_def ran_def dest: map_le_trans')
  have "same_hosts em3"
  proof -
    have "map_wf (em_sortActivProxys em)" using assms(2) by (simp add: tables_ok_def)
    then show ?thesis
      using assms(3) map_insert_lookup[of "em_sortActivProxys em" host p]
      by (simp add: same_hosts_def em3_def em2_def e umap_add_lookup)
  qed
  moreover have "all_ok em3" using all_ok_em_set[OF s(1), of "setActiveInReg True" p] by (simp add: em3_def em2_def all_ok_def)
  moreover have "tables_ok em3"
  proof -
    have act: "em_activeProxys em3 = em_activeProxys em @ [p]" by (simp add: em3_def em2_def e)
    have reg: "em_regProxys em3 = map_insert (ei_cmpDesc ep) p (em_regProxys em)" "em_allProxys em3 = em_allProxys em1"
      by (simp_all add: em3_def em2_def e)
    have mp: "em_sortActivProxys em3 = map_insert host p (em_sortActivProxys em)"
      "em_indexActiveProxys em3 = umap_add host p (em_indexActiveProxys em)" by (simp_all add: em3_def em2_def e)
    have host': "host = ei_host (rp_ep (em_proxys em3 p))" by (simp add: host_def em3_def)
    have t: "set (em_activeProxys em) \<subseteq> em_known em" "map_wf (em_regProxys em)"
      "\<And>k p. map_of (em_regProxys em) k = Some p \<Longrightarrow> map_of (em_allProxys em) k = Some p"
      "map_wf (em_sortActivProxys em)" "map_of (em_sortActivProxys em) \<subseteq>\<^sub>m map_of (em_indexActiveProxys em)"
      "\<And>h p. map_of (em_indexActiveProxys em) h = Some p \<Longrightarrow> p \<in> set (em_activeProxys em) \<and> ei_host (rp_ep (em_proxys em p)) = h"
      "distinct (map fst (em_indexActiveProxys em))"
      using assms(2) by (auto simp: tables_ok_def)
    have "map_of (em_allProxys em3) k = Some q" if "map_of (em_regProxys em3) k = Some q" for k q
      using that t(3)[of k q] s(2,3) map_insert_lookup[OF t(2), of "ei_cmpDesc ep" p]
      by (auto simp: reg split: if_splits dest: map_le_trans')
    moreover have "map_of (em_sortActivProxys em3) \<subseteq>\<^sub>m map_of (em_indexActiveProxys em3)"
      using \<open>same_hosts em3\<close> by (simp add: same_hosts_def)
    moreover have "q \<in> set (em_activeProxys em3) \<and> ei_host (rp_ep (em_proxys em3 q)) = h"
      if "map_of (em_indexActiveProxys em3) h = Some q" for h q
      using that t(6)[of h q] t(1) ep_old[of q] host' unfolding mp umap_add_lookup
      by (auto simp: act split: if_splits)
    ultimately show ?thesis
      using t(1) known map_insert_wf[OF t(2)] map_insert_wf[OF t(4)] umap_add_distinct[OF t(7)]
      by (auto simp: tables_ok_def act) (simp_all add: reg mp)
  qed
  ultimately show ?thesis
    unfolding u using all_ok_em_set[of em3 "setWeight (ei_weight ep)" p] by (auto simp: tables_ok_def same_hosts_def)
qed

lemma update_inactive_ok:
  assumes "all_ok em" "tables_ok em" "same_hosts em"
  shows "all_ok (update_inactive ep em) \<and> tables_ok (update_inactive ep em) \<and> same_hosts (update_inactive ep em)"
proof (cases "skip_endpoint em ep")
  case True
  then show ?thesis using assms by (simp add: update_inactive_def)
next
  case False
  obtain p em1 where f: "find_or_create ep em = (p, em1)" by (cases "find_or_create ep em")
  note s = find_or_create_spec[OF f assms(1)]
  obtain st n a v where e: "em1 = em\<lparr>em_proxys := st, em_next := n, em_allProxys := a, em_vAllProxys := v\<rparr>"
    using find_or_create_frame[OF f] by blast
  define em3 where "em3 = (em_set p (setActiveInReg False) em1)\<lparr>em_regProxys := map_insert (ei_cmpDesc ep) p (em_regProxys em)\<rparr>"
  have u: "update_inactive ep em = em_set p (setWeight (ei_weight ep)) em3"
    using False by (simp add: update_inactive_def f em3_def Let_def e)
  have t: "set (em_activeProxys em) \<subseteq> em_known em" "map_wf (em_regProxys em)"
    "\<And>k p. map_of (em_regProxys em) k = Some p \<Longrightarrow> map_of (em_allProxys em) k = Some p"
    "map_wf (em_sortActivProxys em)" "map_of (em_sortActivProxys em) \<subseteq>\<^sub>m map_of (em_indexActiveProxys em)"
    "\<And>h p. map_of (em_indexActiveProxys em) h = Some p \<Longrightarrow> p \<in> set (em_activeProxys em) \<and> ei_host (rp_ep (em_proxys em p)) = h"
    "distinct (map fst (em_indexActiveProxys em))"
    using assms(2) by (auto simp: tables_ok_def)
  have ep_old: "rp_ep (em_proxys em3 q) = rp_ep (em_proxys em q)" if q: "q \<in> em_known em" for q
  proof -
    obtain k where "map_of (em_allProxys em) k = Some q" using q by (auto simp: em_known_def ran_def)
    then have "q < em_next em" using assms(1) by (simp add: all_ok_def)
    then show ?thesis using s(5) by (simp add: em3_def)
  qed
  have known: "em_known em3 = em_known em1" "em_known em \<subseteq> em_known em1"
    using s(3) by (auto simp: em3_def em_known_def ran_def dest: map_le_trans')
  have same: "same_hosts em3" "em_activeProxys em3 = em_activeProxys em" "em_sortActivProxys em3 = em_sortActivProxys em"
    "em_indexActiveProxys em3 = em_indexActiveProxys em" "em_allProxys em3 = em_allProxys em1"
    "em_regProxys em3 = map_insert (ei_cmpDesc ep) p (em_regProxys em)"
    using assms(3) by (simp_all add: same_hosts_def em3_def e)
  have "all_ok em3" using all_ok_em_set[OF s(1), of "setActiveInReg False" p] by (simp add: em3_def all_ok_def)
  moreover have "tables_ok em3"
  proof -
    have "map_of (em_allProxys em3) k = Some q" if "map_of (em_regProxys em3) k = Some q" for k q
      using that t(3)[of k q] s(2,3) map_insert_lookup[OF t(2), of "ei_cmpDesc ep" p]
      by (auto simp: same split: if_splits dest: map_le_trans')
    moreover have "q \<in> set (em_activeProxys em3) \<and> ei_host (rp_ep (em_proxys em3 q)) = h"
      if "map_of (em_indexActiveProxys em3) h = Some q" for h q
      using that t(6)[of h q] t(1) ep_old[of q] by (auto simp: same)
    ultimately show ?thesis
      using t known map_insert_wf[OF t(2)] by (auto simp: tables_ok_def same)
  qed
  ultimately show ?thesis
    unfolding u using all_ok_em_set[of em3 "setWeight (ei_weight ep)" p] same(1) by (auto simp: tables_ok_def same_hosts_def)
qed

text \<open>What one step does to the adapters.\<close>

lemma update_active_step:
  assumes "all_ok em" "\<not> skip_endpoint em ep"
  shows "\<exists>p. em_activeProxys (update_active ep em) = em_activeProxys em @ [p]
    \<and> map_of (em_allProxys (update_active ep em)) (ei_cmpDesc ep) = Some p
    \<and> rp_activeStateInReg (em_proxys (update_active ep em) p) \<and> rp_staticWeight (em_proxys (update_active ep em) p) = ei_weight ep
    \<and> map_of (em_allProxys em) \<subseteq>\<^sub>m map_of (em_allProxys (update_active ep em)) \<and> em_next em \<le> em_next (update_active ep em)
    \<and> (\<forall>q < em_next em. em_adapter (update_active ep em) q = em_adapter em q
        \<and> rp_ep (em_proxys (update_active ep em) q) = rp_ep (em_proxys em q)
        \<and> (q \<noteq> p \<longrightarrow> em_proxys (update_active ep em) q = em_proxys em q))
    \<and> em_direct (update_active ep em) = em_direct em \<and> em_weightType (update_active ep em) = em_weightType em"
proof -
  obtain p em1 where f: "find_or_create ep em = (p, em1)" by (cases "find_or_create ep em")
  note s = find_or_create_spec[OF f assms(1)]
  obtain st n a v where e: "em1 = em\<lparr>em_proxys := st, em_next := n, em_allProxys := a, em_vAllProxys := v\<rparr>"
    using find_or_create_frame[OF f] by blast
  show ?thesis
    by (rule exI[of _ p])
      (use s e assms(2) in \<open>auto simp: update_active_def f Let_def em_set_def setActiveInReg_def setWeight_def\<close>)
qed

lemma update_inactive_step:
  assumes "all_ok em"
  shows "em_activeProxys (update_inactive ep em) = em_activeProxys em
    \<and> map_of (em_allProxys em) \<subseteq>\<^sub>m map_of (em_allProxys (update_inactive ep em)) \<and> em_next em \<le> em_next (update_inactive ep em)
    \<and> (\<forall>q < em_next em. em_adapter (update_inactive ep em) q = em_adapter em q \<and>
        (ei_cmpDesc (rp_ep (em_proxys em q)) \<noteq> ei_cmpDesc ep \<longrightarrow> em_proxys (update_inactive ep em) q = em_proxys em q))
    \<and> em_direct (update_inactive ep em) = em_direct em \<and> em_weightType (update_inactive ep em) = em_weightType em"
proof (cases "skip_endpoint em ep")
  case False
  obtain p em1 where f: "find_or_create ep em = (p, em1)" by (cases "find_or_create ep em")
  note s = find_or_create_spec[OF f assms(1)]
  obtain st n a v where e: "em1 = em\<lparr>em_proxys := st, em_next := n, em_allProxys := a, em_vAllProxys := v\<rparr>"
    using find_or_create_frame[OF f] by blast
  have "ei_cmpDesc (rp_ep (em_proxys em1 p)) = ei_cmpDesc ep" using s(1,2) by (simp add: all_ok_def)
  then show ?thesis
    using s e False by (auto simp: update_inactive_def f Let_def em_set_def setActiveInReg_def setWeight_def)
qed (simp add: update_inactive_def)

definition proxy_of :: "EndpointManager \<Rightarrow> EndpointInfo \<Rightarrow> nat" where
  "proxy_of em e = the (map_of (em_allProxys em) (ei_cmpDesc e))"

text \<open>The servers \<open>es\<close> are in the table of active ones, with their weights.\<close>

definition serves :: "EndpointManager \<Rightarrow> EndpointInfo list \<Rightarrow> bool" where
  "serves em es \<longleftrightarrow> em_activeProxys em = map (proxy_of em) es \<and>
     (\<forall>e \<in> set es. map_of (em_allProxys em) (ei_cmpDesc e) \<noteq> None \<and> rp_activeStateInReg (em_proxys em (proxy_of em e))
        \<and> rp_staticWeight (em_proxys em (proxy_of em e)) = ei_weight e)"

definition extends :: "EndpointManager \<Rightarrow> EndpointManager \<Rightarrow> bool" where
  "extends em em' \<longleftrightarrow> map_of (em_allProxys em) \<subseteq>\<^sub>m map_of (em_allProxys em') \<and> em_next em \<le> em_next em' \<and>
     (\<forall>q < em_next em. em_adapter em' q = em_adapter em q) \<and> em_direct em' = em_direct em \<and> em_weightType em' = em_weightType em"

lemma extends_trans: "extends a b \<Longrightarrow> extends b c \<Longrightarrow> extends a c"
  by (auto simp: extends_def intro: map_le_trans)

lemma serves_kept:
  assumes "all_ok em" "all_ok em'" "serves em es" "map_of (em_allProxys em) \<subseteq>\<^sub>m map_of (em_allProxys em')"
    "\<And>q. q < em_next em \<Longrightarrow> ei_cmpDesc (rp_ep (em_proxys em q)) \<in> ei_cmpDesc ` set es \<Longrightarrow> em_proxys em' q = em_proxys em q"
  shows "map (proxy_of em') es = map (proxy_of em) es"
    "\<forall>e \<in> set es. map_of (em_allProxys em') (ei_cmpDesc e) \<noteq> None \<and> rp_activeStateInReg (em_proxys em' (proxy_of em' e))
        \<and> rp_staticWeight (em_proxys em' (proxy_of em' e)) = ei_weight e"
proof -
  have *: "map_of (em_allProxys em') (ei_cmpDesc e) = Some (proxy_of em e) \<and> proxy_of em' e = proxy_of em e
      \<and> em_proxys em' (proxy_of em e) = em_proxys em (proxy_of em e)" if e: "e \<in> set es" for e
  proof -
    obtain p where p: "map_of (em_allProxys em) (ei_cmpDesc e) = Some p" using assms(3) e by (auto simp: serves_def)
    then have p': "map_of (em_allProxys em') (ei_cmpDesc e) = Some p" by (rule map_le_trans'[OF assms(4)])
    have "p < em_next em" "ei_cmpDesc (rp_ep (em_proxys em p)) = ei_cmpDesc e" using assms(1) p by (auto simp: all_ok_def)
    then show ?thesis using assms(5)[of p] e p p' by (simp add: proxy_of_def)
  qed
  then show "map (proxy_of em') es = map (proxy_of em) es" by simp
  show "\<forall>e \<in> set es. map_of (em_allProxys em') (ei_cmpDesc e) \<noteq> None \<and> rp_activeStateInReg (em_proxys em' (proxy_of em' e))
        \<and> rp_staticWeight (em_proxys em' (proxy_of em' e)) = ei_weight e"
    using * assms(3) by (simp add: serves_def)
qed


lemma fold_active:
  assumes "all_ok em" "tables_ok em" "same_hosts em" "em_activeProxys em = []" "distinct (map ei_cmpDesc es)"
  defines "em' \<equiv> fold update_active es em"
  shows "all_ok em' \<and> tables_ok em' \<and> same_hosts em' \<and> extends em em' \<and> serves em' (filter (\<lambda>e. \<not> skip_endpoint em e) es)"
  using assms(5) unfolding em'_def
proof (induction es rule: rev_induct)
  case Nil
  then show ?case using assms(1-4) by (simp add: serves_def extends_def)
next
  case (snoc e es)
  let ?a = "fold update_active es em" and ?es = "filter (\<lambda>e. \<not> skip_endpoint em e) es"
  let ?b = "update_active e ?a"
  have IH: "all_ok ?a" "tables_ok ?a" "same_hosts ?a" "extends em ?a" "serves ?a ?es" using snoc by simp_all
  have ok: "all_ok ?b" "tables_ok ?b" "same_hosts ?b" using update_active_ok[OF IH(1-3)] by simp_all
  have skip: "skip_endpoint ?a e = skip_endpoint em e" using IH(4) by (simp add: skip_endpoint_def extends_def)
  show ?case
  proof (cases "skip_endpoint em e")
    case True
    then have "?b = ?a" using skip by (simp add: update_active_def)
    then show ?thesis using IH True by simp
  next
    case False
    obtain p where p: "em_activeProxys ?b = em_activeProxys ?a @ [p]" "map_of (em_allProxys ?b) (ei_cmpDesc e) = Some p"
      "rp_activeStateInReg (em_proxys ?b p)" "rp_staticWeight (em_proxys ?b p) = ei_weight e"
      "map_of (em_allProxys ?a) \<subseteq>\<^sub>m map_of (em_allProxys ?b)" "em_next ?a \<le> em_next ?b"
      "\<And>q. q < em_next ?a \<Longrightarrow> em_adapter ?b q = em_adapter ?a q" "\<And>q. q < em_next ?a \<Longrightarrow> q \<noteq> p \<Longrightarrow> em_proxys ?b q = em_proxys ?a q"
      "em_direct ?b = em_direct ?a" "em_weightType ?b = em_weightType ?a"
      "\<And>q. q < em_next ?a \<Longrightarrow> rp_ep (em_proxys ?b q) = rp_ep (em_proxys ?a q)"
      using update_active_step[OF IH(1), of e] False skip by blast
    have "extends ?a ?b" unfolding extends_def using p(5-7,9,10) by blast
    then have ex: "extends em ?b" by (rule extends_trans[OF IH(4)])
    have keep: "em_proxys ?b q = em_proxys ?a q"
      if q: "q < em_next ?a" "ei_cmpDesc (rp_ep (em_proxys ?a q)) \<in> ei_cmpDesc ` set ?es" for q
    proof (rule p(8)[OF q(1)])
      obtain e' where e': "e' \<in> set ?es" "ei_cmpDesc (rp_ep (em_proxys ?a q)) = ei_cmpDesc e'" using q(2) by auto
      obtain q' where q': "map_of (em_allProxys ?a) (ei_cmpDesc e') = Some q'" using IH(5) e'(1) by (auto simp: serves_def)
      show "q \<noteq> p"
      proof
        assume "q = p"
        have "rp_ep (em_proxys ?b p) = rp_ep (em_proxys ?a p)" using p(11)[OF q(1)] \<open>q = p\<close> by simp
        moreover have "ei_cmpDesc (rp_ep (em_proxys ?b p)) = ei_cmpDesc e" using ok(1) p(2) by (simp add: all_ok_def)
        ultimately have "ei_cmpDesc e' = ei_cmpDesc e" using e'(2) \<open>q = p\<close> by simp
        moreover have "ei_cmpDesc e' \<in> ei_cmpDesc ` set es" using e'(1) by auto
        ultimately show False using snoc.prems by simp
      qed
    qed
    note k = serves_kept[OF IH(1) ok(1) IH(5) p(5) keep]
    have "serves ?b (?es @ [e])"
      unfolding serves_def using k p(1-4) IH(5)[unfolded serves_def] by (simp add: proxy_of_def[of _ e])
    then show ?thesis using ok ex False by simp
  qed
qed

lemma fold_inactive:
  assumes "all_ok em" "tables_ok em" "same_hosts em" "serves em es" "ei_cmpDesc ` set es \<inter> ei_cmpDesc ` set is = {}"
  defines "em' \<equiv> fold update_inactive is em"
  shows "all_ok em' \<and> tables_ok em' \<and> same_hosts em' \<and> extends em em' \<and> serves em' es"
  using assms(1-5) unfolding em'_def
proof (induction "is" arbitrary: em)
  case Nil
  then show ?case by (simp add: extends_def)
next
  case (Cons i "is")
  let ?b = "update_inactive i em"
  have ok: "all_ok ?b" "tables_ok ?b" "same_hosts ?b" using update_inactive_ok[OF Cons.prems(1-3)] by simp_all
  note st = update_inactive_step[OF Cons.prems(1), of i]
  have ex: "extends em ?b" using st by (simp add: extends_def)
  have keep: "em_proxys ?b q = em_proxys em q"
    if "q < em_next em" "ei_cmpDesc (rp_ep (em_proxys em q)) \<in> ei_cmpDesc ` set es" for q
    using st that Cons.prems(5) by auto
  have "map_of (em_allProxys em) \<subseteq>\<^sub>m map_of (em_allProxys ?b)" using st by blast
  note k = serves_kept[OF Cons.prems(1) ok(1) Cons.prems(4) this keep]
  have "serves ?b es" using k Cons.prems(4) st by (simp add: serves_def)
  then show ?case using Cons.IH[OF ok] Cons.prems(5) extends_trans[OF ex] by auto
qed

lemma fold_flags:
  "\<exists>s. fold (\<lambda>(_, p). em_set p (setActiveInReg b)) l em = em\<lparr>em_proxys := s\<rparr> \<and>
     (\<forall>q. rp_ep (s q) = rp_ep (em_proxys em q) \<and> rp_adapter (s q) = em_adapter em q)"
proof (induction l arbitrary: em)
  case Nil
  then show ?case by (intro exI[of _ "em_proxys em"]) simp
next
  case (Cons x l)
  obtain k p where x: "x = (k, p)" by (cases x)
  obtain s where "fold (\<lambda>(_, p). em_set p (setActiveInReg b)) l (em_set p (setActiveInReg b) em) = (em_set p (setActiveInReg b) em)\<lparr>em_proxys := s\<rparr>"
    "\<And>q. rp_ep (s q) = rp_ep (em_proxys (em_set p (setActiveInReg b) em) q) \<and> rp_adapter (s q) = em_adapter (em_set p (setActiveInReg b) em) q"
    using Cons.IH[of "em_set p (setActiveInReg b) em"] by blast
  moreover have "(em_set p (setActiveInReg b) em)\<lparr>em_proxys := s\<rparr> = em\<lparr>em_proxys := s\<rparr>" by (simp add: em_set_def)
  ultimately show ?case by (intro exI[of _ s]) (simp add: x)
qed


lemma reset_flags:
  "\<exists>s. (if active \<noteq> [] then fold (\<lambda>(_, p). em_set p (setActiveInReg False)) l em else em) = em\<lparr>em_proxys := s\<rparr> \<and>
     (\<forall>q. rp_ep (s q) = rp_ep (em_proxys em q) \<and> rp_adapter (s q) = em_adapter em q)"
  using fold_flags[of False l em] by (cases "active = []") (auto intro!: exI[of _ "em_proxys em"])

lemma ep_insert_set: "set (ep_insert e xs) \<subseteq> insert e (set xs)"
  by (induction e xs rule: ep_insert.induct) auto

lemma ep_insert_sorted:
  "sorted_wrt (<) (map ei_cmpDesc xs) \<Longrightarrow> sorted_wrt (<) (map ei_cmpDesc (ep_insert e xs))"
proof (induction e xs rule: ep_insert.induct)
  case (2 e x xs)
  have "ei_cmpDesc x < ei_cmpDesc y" if "y \<in> set (ep_insert e xs)" "\<not> ei_cmpDesc e < ei_cmpDesc x" "ei_cmpDesc e \<noteq> ei_cmpDesc x" for y
    using that ep_insert_set[of e xs] 2(2) by (auto simp: not_less)
  then show ?case using 2 by (auto dest: order.strict_trans)
qed simp

lemma ep_set_sorted: "sorted_wrt (<) (map ei_cmpDesc (ep_set es))"
proof -
  have "sorted_wrt (<) (map ei_cmpDesc (fold ep_insert es xs))" if "sorted_wrt (<) (map ei_cmpDesc xs)" for xs
    using that by (induction es arbitrary: xs) (simp_all add: ep_insert_sorted)
  then show ?thesis by (simp add: ep_set_def)
qed

text \<open>\<^verbatim>\<open>updateEndpoints\<close> makes the active tables those of the new list and keeps every adapter it has.\<close>

lemma updateEndpoints_spec:
  assumes "all_ok em" "distinct (map ei_cmpDesc active)" "ei_cmpDesc ` set active \<inter> ei_cmpDesc ` set inactive = {}"
  defines "em' \<equiv> updateEndpoints active inactive em"
  shows "em_ok em' \<and> same_hosts em' \<and> extends em em' \<and> em_update em' \<and>
    serves em' (filter (\<lambda>e. \<not> skip_endpoint em e) active)"
proof -
  define em1 where "em1 = em\<lparr>em_activeProxys := [], em_regProxys := [], em_indexActiveProxys := [], em_sortActivProxys := []\<rparr>"
  define em2 where "em2 = (if active \<noteq> [] then fold (\<lambda>(_, p). em_set p (setActiveInReg False)) (em_allProxys em1) em1 else em1)"
  define em3 where "em3 = fold update_active active em2"
  define em4 where "em4 = fold update_inactive inactive em3"
  obtain s where s: "em2 = em1\<lparr>em_proxys := s\<rparr>" "\<And>q. rp_ep (s q) = rp_ep (em_proxys em1 q) \<and> rp_adapter (s q) = em_adapter em1 q"
    unfolding em2_def using reset_flags[of active "em_allProxys em1" em1] by blast
  have 2: "all_ok em2" "tables_ok em2" "same_hosts em2" "em_activeProxys em2 = []" "extends em em2"
    "skip_endpoint em2 e = skip_endpoint em e" for e
    using assms(1) s(2) by (simp_all add: s(1) em1_def all_ok_def tables_ok_def same_hosts_def map_wf_def extends_def skip_endpoint_def)
  have 3: "all_ok em3" "tables_ok em3" "same_hosts em3" "extends em2 em3" "serves em3 (filter (\<lambda>e. \<not> skip_endpoint em e) active)"
    using fold_active[OF 2(1-4) assms(2)] by (simp_all add: em3_def 2(6))
  have 4: "all_ok em4" "tables_ok em4" "same_hosts em4" "extends em3 em4" "serves em4 (filter (\<lambda>e. \<not> skip_endpoint em e) active)"
    using fold_inactive[OF 3(1-3,5), of inactive] assms(3) by (auto simp: em4_def)
  have e: "em' = em4\<lparr>em_vRegProxys := map snd (em_regProxys em4), em_update := True\<rparr>"
    unfolding em'_def updateEndpoints_def em4_def em3_def em2_def em1_def Let_def ..
  have "extends em em4" using extends_trans[OF extends_trans[OF 2(5) 3(4)] 4(4)] .
  then have "extends em em'" by (simp add: e extends_def)
  then show ?thesis
    using 4(1-3,5) unfolding e em_ok_def all_ok_def tables_ok_def same_hosts_def serves_def em_known_def proxy_of_def[abs_def]
    by simp
qed


section \<open>What the answers of the registry change\<close>

text \<open>The servers and the tables from which they are selected.\<close>

definition same_servers :: "EndpointManager \<Rightarrow> EndpointManager \<Rightarrow> bool" where
  "same_servers em em' \<longleftrightarrow> em_proxys em' = em_proxys em \<and> em_next em' = em_next em \<and> em_allProxys em' = em_allProxys em \<and>
     em_vAllProxys em' = em_vAllProxys em \<and> em_activeProxys em' = em_activeProxys em \<and> em_regProxys em' = em_regProxys em \<and>
     em_vRegProxys em' = em_vRegProxys em \<and> em_sortActivProxys em' = em_sortActivProxys em \<and>
     em_indexActiveProxys em' = em_indexActiveProxys em \<and> em_update em' = em_update em \<and>
     em_activeEndpoints em' = em_activeEndpoints em \<and> em_inactiveEndpoints em' = em_inactiveEndpoints em"

lemma doEndpointsExp_same [simp]: "same_servers em (doEndpointsExp now em)"
  by (simp add: doEndpointsExp_def same_servers_def doNotify_def Let_def)


lemma endpoints_fields:
  "(if \<not> bi then (if \<not> ba then e\<lparr>em_activeEndpoints := a\<rparr> else e)\<lparr>em_inactiveEndpoints := i\<rparr>
    else if \<not> ba then e\<lparr>em_activeEndpoints := a\<rparr> else e) =
   e\<lparr>em_activeEndpoints := if ba then em_activeEndpoints e else a, em_inactiveEndpoints := if bi then em_inactiveEndpoints e else i\<rparr>"
  by simp

definition notify_once :: "EndpointManager \<Rightarrow> EndpointManager" where
  "notify_once em = (if \<not> em_valid em then doNotify (em\<lparr>em_valid := True\<rparr>) else em)"

definition after_answer :: "int \<Rightarrow> EndpointInfo list \<Rightarrow> EndpointManager \<Rightarrow> EndpointManager" where
  "after_answer now activeEp em = em\<lparr>em_failTimes := 0, em_requestRegistry := False, em_refreshTime := now + em_refreshInterval em,
     em_weightType := answer_weightType activeEp\<rparr>"

lemma after_answer_simps [simp]:
  "em_activeEndpoints (after_answer now es em) = em_activeEndpoints em"
  "em_inactiveEndpoints (after_answer now es em) = em_inactiveEndpoints em"
  by (simp_all add: after_answer_def)

lemma doEndpoints_answer:
  fixes em :: EndpointManager and activeEp inactiveEp :: "EndpointInfo list"
  assumes "activeEp \<noteq> []"
  defines "ba \<equiv> ep_same (ep_set activeEp) (em_activeEndpoints em)" and "bi \<equiv> ep_same (ep_set inactiveEp) (em_inactiveEndpoints em)"
  shows "doEndpoints now activeEp inactiveEp 0 em = notify_once
    (let em2 = after_answer now activeEp em;
         em4 = em2\<lparr>em_activeEndpoints := if ba then em_activeEndpoints em else ep_set activeEp,
                   em_inactiveEndpoints := if bi then em_inactiveEndpoints em else ep_set inactiveEp\<rparr>
     in if \<not> ba \<or> \<not> bi then updateEndpoints (em_activeEndpoints em4) (em_inactiveEndpoints em4) em4 else em4)"
proof -
  have e: "(em\<lparr>em_failTimes := 0, em_requestRegistry := False\<rparr>)\<lparr>em_refreshTime := now + em_refreshInterval (em\<lparr>em_failTimes := 0, em_requestRegistry := False\<rparr>),
      em_weightType := answer_weightType activeEp\<rparr> = after_answer now activeEp em"
    by (simp add: after_answer_def)
  show ?thesis
    using assms(1) endpoints_fields[where bi = bi and ba = ba and e = "after_answer now activeEp em" and a = "ep_set activeEp" and i = "ep_set inactiveEp"]
    by (simp only: doEndpoints_def Let_def e notify_once_def[symmetric] ba_def bi_def after_answer_simps if_not_P simp_thms)
qed


text \<open>
  A change of the weights alone is lost: two answers are compared by their addresses, so when the registry only changes the weights of the servers
  (or their other attributes), nothing is updated, neither the adapters nor the tables nor the list kept for the next comparison.
\<close>

theorem weight_change_unnoticed:
  assumes "activeEp \<noteq> []" "map ei_cmpDesc (ep_set activeEp) = map ei_cmpDesc (em_activeEndpoints em)"
    "map ei_cmpDesc (ep_set inactiveEp) = map ei_cmpDesc (em_inactiveEndpoints em)"
  shows "same_servers em (doEndpoints now activeEp inactiveEp 0 em)"
proof -
  have s: "ep_same (ep_set activeEp) (em_activeEndpoints em)" "ep_same (ep_set inactiveEp) (em_inactiveEndpoints em)"
    using assms(2,3) by (simp_all add: ep_same_def)
  have "same_servers em (notify_once ((after_answer now activeEp em)\<lparr>em_activeEndpoints := em_activeEndpoints em,
      em_inactiveEndpoints := em_inactiveEndpoints em\<rparr>))"
    by (simp add: same_servers_def after_answer_def notify_once_def doNotify_def)
  then show ?thesis using doEndpoints_answer[OF assms(1), of now inactiveEp em] s by (simp add: Let_def)
qed


section \<open>The manager over time\<close>

datatype RegEvent =
    Refresh bool
  | Answer "EndpointInfo list" "EndpointInfo list" int
  | AnswerException
  | Outter "EndpointInfo list" "EndpointInfo list"

fun reg_step :: "int \<times> RegEvent \<Rightarrow> EndpointManager \<Rightarrow> EndpointManager" where
  "reg_step (now, Refresh fails) em = refreshReg now fails em"
| "reg_step (now, Answer activeEp inactiveEp iRet) em = doEndpoints now activeEp inactiveEp iRet em"
| "reg_step (now, AnswerException) em = doEndpointsExp now em"
| "reg_step (now, Outter activeEp inactiveEp) em = updateEndpointsOutter now activeEp inactiveEp em"

definition reg_run :: "(int \<times> RegEvent) list \<Rightarrow> EndpointManager \<Rightarrow> EndpointManager" where
  "reg_run = fold reg_step"

abbreviation tables_consistent :: "EndpointManager \<Rightarrow> bool" where
  "tables_consistent em \<equiv> all_ok em \<and> tables_ok em \<and> same_hosts em"

lemma updateEndpoints_ok:
  assumes "all_ok em"
  shows "tables_consistent (updateEndpoints active inactive em)"
proof -
  define em1 where "em1 = em\<lparr>em_activeProxys := [], em_regProxys := [], em_indexActiveProxys := [], em_sortActivProxys := []\<rparr>"
  define em2 where "em2 = (if active \<noteq> [] then fold (\<lambda>(_, p). em_set p (setActiveInReg False)) (em_allProxys em1) em1 else em1)"
  define em4 where "em4 = fold update_inactive inactive (fold update_active active em2)"
  obtain s where s: "em2 = em1\<lparr>em_proxys := s\<rparr>" "\<And>q. rp_ep (s q) = rp_ep (em_proxys em1 q) \<and> rp_adapter (s q) = em_adapter em1 q"
    unfolding em2_def using reset_flags[of active "em_allProxys em1" em1] by blast
  have 2: "tables_consistent em2"
    using assms s(2) by (simp add: s(1) em1_def all_ok_def tables_ok_def same_hosts_def map_wf_def)
  have a: "tables_consistent (fold update_active es e)" if "tables_consistent e" for es e
    using that by (induction es arbitrary: e) (simp_all add: update_active_ok)
  have i: "tables_consistent (fold update_inactive es e)" if "tables_consistent e" for es e
    using that by (induction es arbitrary: e) (simp_all add: update_inactive_ok)
  have e: "updateEndpoints active inactive em = em4\<lparr>em_vRegProxys := map snd (em_regProxys em4), em_update := True\<rparr>"
    unfolding updateEndpoints_def em4_def em2_def em1_def Let_def ..
  have "tables_consistent em4" unfolding em4_def by (rule i[OF a[OF 2]])
  then show ?thesis unfolding e all_ok_def tables_ok_def same_hosts_def em_known_def by simp
qed

text \<open>The fields that pace the requests.\<close>

definition pace :: "EndpointManager \<Rightarrow> nat \<times> bool \<times> int \<times> int" where
  "pace em = (em_asked em, em_requestRegistry em, em_refreshTime em, em_refreshInterval em)"

text \<open>What \<^verbatim>\<open>updateEndpoints\<close> leaves alone: the state without the tables of servers.\<close>

definition em_rest :: "EndpointManager \<Rightarrow> EndpointManager" where
  "em_rest em = em\<lparr>em_proxys := undefined, em_next := 0, em_allProxys := [], em_vAllProxys := [], em_activeProxys := [],
     em_regProxys := [], em_indexActiveProxys := [], em_sortActivProxys := [], em_vRegProxys := [], em_update := False\<rparr>"

lemma rest_simps [simp]:
  "em_rest (em_set p f em) = em_rest em" "em_rest (em\<lparr>em_regProxys := reg\<rparr>) = em_rest em"
  "em_rest (em\<lparr>em_activeProxys := act, em_regProxys := reg, em_indexActiveProxys := ix, em_sortActivProxys := so\<rparr>) = em_rest em"
  "em_rest (em\<lparr>em_vRegProxys := vr, em_update := u\<rparr>) = em_rest em"
  "em_rest (em\<lparr>em_proxys := s, em_next := n, em_allProxys := a, em_vAllProxys := v\<rparr>) = em_rest em"
  by (simp_all add: em_rest_def em_set_def)

lemma rest_update: "em_rest (update_active ep em) = em_rest em" "em_rest (update_inactive ep em) = em_rest em"
proof -
  obtain p em1 where f: "find_or_create ep em = (p, em1)" by (cases "find_or_create ep em")
  have "em_rest em1 = em_rest em" by (subst find_or_create_frame[OF f]) (rule rest_simps)
  then show "em_rest (update_active ep em) = em_rest em" "em_rest (update_inactive ep em) = em_rest em"
    unfolding update_active_def update_inactive_def f prod.case Let_def by simp_all
qed

lemma updateEndpoints_frame: "em_rest (updateEndpoints active inactive em) = em_rest em"
proof -
  have "em_rest (fold update_active es e) = em_rest e" "em_rest (fold update_inactive es e) = em_rest e" for es e
    by (induction es arbitrary: e) (simp_all add: rest_update)
  moreover have "em_rest (fold (\<lambda>(_, p). em_set p (setActiveInReg False)) l e) = em_rest e" for l :: proxy_map and e
    by (induction l arbitrary: e) auto
  ultimately show ?thesis by (simp add: updateEndpoints_def Let_def)
qed

lemma rest_pace: "pace em = pace (em_rest em)"
  by (simp add: pace_def em_rest_def)

lemma pace_updateEndpoints: "pace (updateEndpoints active inactive em) = pace em"
  using rest_pace updateEndpoints_frame by metis

lemma pace_doEndpointsExp:
  "\<exists>r \<ge> now + 2000. pace (doEndpointsExp now em) = (em_asked em, False, r, em_refreshInterval em)"
  by (auto simp: doEndpointsExp_def doNotify_def pace_def Let_def)

lemma pace_doEndpoints:
  assumes "em_refreshInterval em \<ge> 2000"
  shows "\<exists>r \<ge> now + 2000. pace (doEndpoints now activeEp inactiveEp iRet em) = (em_asked em, False, r, em_refreshInterval em)"
proof (cases "iRet \<noteq> 0 \<or> activeEp = []")
  case True
  then show ?thesis
    using pace_doEndpointsExp[of now em] by (auto simp: doEndpoints_def Let_def) (simp add: pace_def)
next
  case False
  have "pace (notify_once e) = pace e" for e by (simp add: notify_once_def doNotify_def pace_def)
  then have "pace (doEndpoints now activeEp inactiveEp iRet em) = (em_asked em, False, now + em_refreshInterval em, em_refreshInterval em)"
    using False doEndpoints_answer[of activeEp now inactiveEp em]
    by (simp add: Let_def pace_updateEndpoints) (simp add: pace_def after_answer_def)
  then show ?thesis using assms by auto
qed

text \<open>
  After \<open>n - n0\<close> requests since the time \<open>t0\<close>, the last of them not before \<open>l\<close>: a request is on its way, or the next one is at least two seconds
  after the last.
\<close>

fun paced :: "nat \<Rightarrow> int \<Rightarrow> int \<Rightarrow> nat \<times> bool \<times> int \<times> int \<Rightarrow> bool" where
  "paced n0 t0 now (n, req, refresh, interval) \<longleftrightarrow> interval \<ge> 2000 \<and> n0 \<le> n \<and>
     (\<exists>l. t0 \<le> l \<and> l \<le> now \<and> 2000 * (int n - int n0 - 1) \<le> l - t0 \<and> (n0 < n \<longrightarrow> req \<or> l + 2000 \<le> refresh))"

lemma paced_later: "paced n0 t0 t v \<Longrightarrow> t \<le> now \<Longrightarrow> paced n0 t0 now v"
  by (cases v) (use order_trans in \<open>fastforce\<close>)

lemma paced_reset: "paced n0 t0 now (n, req, refresh, i) \<Longrightarrow> r \<ge> now + 2000 \<Longrightarrow> paced n0 t0 now (n, False, r, i)"
  by auto

lemma paced_ask:
  assumes "paced n0 t0 now (n, False, refresh, i)" "refresh \<le> now" "req \<or> r \<ge> now + 2000"
  shows "paced n0 t0 now (n + 1, req, r, i)"
proof -
  obtain l where "t0 \<le> l" "l \<le> now" "2000 * (int n - int n0 - 1) \<le> l - t0" "n0 < n \<longrightarrow> l + 2000 \<le> refresh" "i \<ge> 2000" "n0 \<le> n"
    using assms(1) by auto
  then show ?thesis using assms(2,3) by (cases "n0 = n") (auto intro!: exI[of _ now])
qed

lemma paced_refreshReg:
  assumes "paced n0 t0 now (pace em0)"
  shows "paced n0 t0 now (pace (refreshReg now fails em0))"
proof -
  define em where "em = onUpdateOutter em0"
  have "pace em = pace em0"
    using pace_updateEndpoints by (auto simp: em_def onUpdateOutter_def pace_def split: option.splits)
  then have p: "paced n0 t0 now (pace em)" using assms by simp
  show ?thesis
  proof (cases "em_direct em")
    case True
    then show ?thesis using p by (simp add: refreshReg_def em_def[symmetric] Let_def)
  next
    case False
    define em1 where "em1 = (if em_requestRegistry em \<and> em_requestTimeout em < now then doEndpointsExp now em else em)"
    have p1: "paced n0 t0 now (pace em1)"
      using p pace_doEndpointsExp[of now em] paced_reset by (auto simp: em1_def pace_def simp del: paced.simps)
    define em2 where "em2 = em1\<lparr>em_requestRegistry := True, em_requestTimeout := now + timeoutInterval\<rparr>"
    define em3 where "em3 = em2\<lparr>em_asked := em_asked em2 + 1\<rparr>"
    have e: "refreshReg now fails em0 = (if \<not> em_requestRegistry em1 \<and> em_refreshTime em1 \<le> now
      then if em_valid em2 \<and> \<not> em_rootServant em2 then em2 else if fails then doEndpointsExp now em3 else em3 else em1)"
      using False unfolding refreshReg_def Let_def em_def[symmetric] em1_def[symmetric] em2_def[symmetric] em3_def[symmetric] by simp
    show ?thesis
    proof (cases "\<not> em_requestRegistry em1 \<and> em_refreshTime em1 \<le> now")
      case True
      have v1: "pace em1 = (em_asked em1, False, em_refreshTime em1, em_refreshInterval em1)" using True by (simp add: pace_def)
      have v2: "pace em2 = (em_asked em1, True, em_refreshTime em1, em_refreshInterval em1)"
        "pace em3 = (em_asked em1 + 1, True, em_refreshTime em1, em_refreshInterval em1)" by (simp_all add: pace_def em3_def em2_def)
      obtain r where r: "r \<ge> now + 2000" "pace (doEndpointsExp now em3) = (em_asked em1 + 1, False, r, em_refreshInterval em1)"
        using pace_doEndpointsExp[of now em3] by (auto simp: em3_def em2_def)
      have "paced n0 t0 now (pace em2)" using p1 unfolding v1 v2 by auto
      moreover have "paced n0 t0 now (pace em3)" unfolding v2 using p1 True unfolding v1 by (intro paced_ask) auto
      moreover have "paced n0 t0 now (pace (doEndpointsExp now em3))"
        unfolding r(2) using p1 True r(1) unfolding v1 by (intro paced_ask) auto
      ultimately show ?thesis unfolding e using True by simp
    qed (use p1 e in auto)
  qed
qed

lemma paced_step:
  assumes "paced n0 t0 t (pace em)" "t \<le> now"
  shows "paced n0 t0 now (pace (reg_step (now, ev) em))"
proof -
  have p: "paced n0 t0 now (pace em)" using paced_later[OF assms] .
  then have i: "em_refreshInterval em \<ge> 2000" by (simp add: pace_def)
  show ?thesis
  proof (cases ev)
    case (Refresh fails)
    then show ?thesis using paced_refreshReg[OF p] by simp
  next
    case (Answer a ia iRet)
    then show ?thesis
      using p pace_doEndpoints[OF i, of now a ia iRet] paced_reset by (auto simp: pace_def simp del: paced.simps)
  next
    case AnswerException
    then show ?thesis using p pace_doEndpointsExp[of now em] paced_reset by (auto simp: pace_def simp del: paced.simps)
  next
    case (Outter a ia)
    have "pace (updateEndpointsOutter now a ia em) =
        (em_asked em, em_requestRegistry em, now + em_refreshInterval em, em_refreshInterval em)"
      by (simp add: updateEndpointsOutter_def pace_def)
    then show ?thesis using p i Outter by (auto simp: pace_def)
  qed
qed

text \<open>C32. 
  The registry is asked rarely: whatever answers, errors and updates arrive in whatever order, also late ones, and however often the manager refreshes,
  between the times \<open>t0\<close> and \<open>t1\<close> at most one request and another one for every two seconds are sent.
\<close>

theorem registry_asked_rarely:
  assumes "sorted (t0 # map fst evs @ [t1])" "em_refreshInterval em \<ge> 2000"
  shows "2000 * (int (em_asked (reg_run evs em)) - int (em_asked em) - 1) \<le> t1 - t0"
proof -
  have "paced n0 s t' (pace (reg_run evs e))" if "paced n0 s t (pace e)" "sorted (t # map fst evs @ [t'])" for n0 s t t' e
    using that
  proof (induction evs arbitrary: t e)
    case Nil
    then show ?case using paced_later by (simp add: reg_run_def)
  next
    case (Cons x evs)
    obtain now ev where x: "x = (now, ev)" by (cases x)
    have "paced n0 s now (pace (reg_step x e))" unfolding x using Cons.prems x by (intro paced_step) auto
    then show ?case using Cons.IH[of now "reg_step x e"] Cons.prems(2) by (simp add: reg_run_def x)
  qed
  moreover have "paced (em_asked em) t0 t0 (pace em)" using assms(2) by (simp add: pace_def) (rule exI[of _ t0], simp)
  ultimately have "paced (em_asked em) t0 t1 (pace (reg_run evs em))" using assms(1) by blast
  then show ?thesis by (auto simp: pace_def)
qed


lemma same_servers_tables: "same_servers em em' \<Longrightarrow> tables_consistent em \<Longrightarrow> tables_consistent em'"
  by (simp add: same_servers_def all_ok_def tables_ok_def same_hosts_def em_known_def)

lemma doEndpoints_tables:
  assumes "tables_consistent em"
  shows "tables_consistent (doEndpoints now activeEp inactiveEp iRet em)"
proof (cases "iRet \<noteq> 0 \<or> activeEp = []")
  case True
  then have "same_servers em (doEndpoints now activeEp inactiveEp iRet em)"
    using doEndpointsExp_same[of em now] by (auto simp: doEndpoints_def Let_def) (simp add: same_servers_def)
  then show ?thesis using assms same_servers_tables by blast
next
  case False
  have n: "tables_consistent e \<Longrightarrow> tables_consistent (notify_once e)" for e
    by (simp add: notify_once_def doNotify_def all_ok_def tables_ok_def same_hosts_def em_known_def)
  have "tables_consistent ((after_answer now activeEp em)\<lparr>em_activeEndpoints := as, em_inactiveEndpoints := is\<rparr>)" for as "is"
    using assms by (simp add: after_answer_def all_ok_def tables_ok_def same_hosts_def em_known_def)
  then show ?thesis
    using False doEndpoints_answer[of activeEp now inactiveEp em] n updateEndpoints_ok by (simp only: Let_def) auto
qed

lemma refreshReg_tables:
  assumes "tables_consistent em0"
  shows "tables_consistent (refreshReg now fails em0)"
proof -
  have *: "tables_consistent (onUpdateOutter em0)"
    using assms updateEndpoints_ok[of em0]
    by (auto simp: onUpdateOutter_def all_ok_def tables_ok_def same_hosts_def em_known_def split: option.splits)
  have "same_servers (onUpdateOutter em0) (refreshReg now fails em0)"
    using doEndpointsExp_same[unfolded same_servers_def] unfolding refreshReg_def same_servers_def Let_def by simp
  then show ?thesis using * same_servers_tables by blast
qed


text \<open>
  The registry is not recognised by its own name: for a locator that starts with a name, an object name with servers is taken as a direct connection
  even when it is the locator's own, against what the code says it does.
\<close>

theorem locator_not_recognised:
  assumes "locator = l # ls" "l \<noteq> AT" "sObjName = n # ns" "n \<noteq> AT" "n \<noteq> HASH" "AT \<in> set ns"
  shows "\<exists>on. setObjName locator sObjName = Inr on \<and> on_direct on"
  using assms by (simp add: setObjName_def Let_def)

definition some_ep :: "byte \<Rightarrow> int \<Rightarrow> EndpointInfo" where
  "some_ep b w = \<lparr>ei_host = [b], ei_desc = [b], ei_cmpDesc = [b], ei_weight = w, ei_weightType = 1, ei_auth = False\<rparr>"

definition some_manager :: EndpointManager where
  "some_manager = EndpointManager_new 60 undefined"

lemma some_manager_ok: "all_ok some_manager" "em_activeEndpoints some_manager = []" "em_inactiveEndpoints some_manager = []"
  "em_refreshInterval some_manager = 5000"
  by (simp_all add: some_manager_def EndpointManager_new_def QueryEpBase_new_def all_ok_def map_wf_def)

theorem locator_not_recognised_witness: "\<exists>on. setObjName [116, 64] [116, 64, 104] = Inr on \<and> on_direct on"
  by (rule locator_not_recognised[of _ 116 "[64]" _ 116 "[64, 104]"]) simp_all



theorem weight_change_unnoticed_witness:
  "same_servers (some_manager\<lparr>em_activeEndpoints := [some_ep 1 20]\<rparr>) (doEndpoints 7 [some_ep 1 90] [] 0 (some_manager\<lparr>em_activeEndpoints := [some_ep 1 20]\<rparr>))"
  by (rule weight_change_unnoticed) (simp_all add: some_manager_ok ep_set_def some_ep_def)

theorem registry_asked_rarely_witness:
  "2000 * (int (em_asked (reg_run [(0, Refresh False), (3, Answer [] [] 0), (9, Refresh True)] some_manager)) - int (em_asked some_manager) - 1) \<le> 100 - 0"
  by (rule registry_asked_rarely) (simp_all add: some_manager_ok)

end
