(* ===== verification/Server_Selection.thy ===== *)
theory Server_Selection
  imports Endpoint_Manager
begin

text \<open>
  The choice of a server for a request (\<^verbatim>\<open>EndpointManager::selectAdapterProxy\<close> and what it calls): round robin, the weighted round
  robin, hashing modulo the number of servers, and consistent hashing. The clock does not move during a choice. A \<^verbatim>\<open>std::set\<close> of
  adapters is sorted by their addresses in the store.
\<close>

section \<open>Going through a table\<close>

definition usable :: "nat \<Rightarrow> EndpointManager \<Rightarrow> bool" where
  "usable p em \<longleftrightarrow> \<not> isConnTimeout (em_adapter em p) \<and> \<not> isConnExc (em_adapter em p)"

definition next_position :: "nat \<Rightarrow> nat \<Rightarrow> nat" where
  "next_position n pos = (if pos + 1 \<ge> n then 0 else pos + 1)"

text \<open>
  The loop of \<^verbatim>\<open>getNextValidProxy\<close> and of \<^verbatim>\<open>getWeightedForNormal\<close>: \<open>n\<close> more turns through the table \<open>tab\<close>. The result is a server that
  passes the check, or the servers that failed it without a trouble in connecting.
\<close>

fun cycle_scan :: "int \<Rightarrow> nat list \<Rightarrow> nat \<Rightarrow> nat list \<Rightarrow> nat \<Rightarrow> EndpointManager \<Rightarrow> (nat + nat list) \<times> nat \<times> EndpointManager" where
  "cycle_scan now tab 0 conn pos em = (Inr conn, pos, em)"
| "cycle_scan now tab (Suc n) conn pos em =
     (let pos1 = next_position (length tab) pos;
          p = tab ! pos1;
          (ok, em1) = em_check now False p em
      in if ok then (Inl p, pos1, em1)
         else cycle_scan now tab n (if usable p em1 then conn @ [p] else conn) pos1 em1)"

text \<open>A server chosen at random, and the last resort, which makes it be tried at once.\<close>

definition pick_conn :: "int \<Rightarrow> nat list \<Rightarrow> EndpointManager \<Rightarrow> nat \<times> EndpointManager" where
  "pick_conn now conn em =
     (let (r, em1) = em_rand em; p = conn ! (r mod length conn) in (p, snd (em_check now True p em1)))"

definition last_resort :: "int \<Rightarrow> nat list \<Rightarrow> EndpointManager \<Rightarrow> nat \<times> EndpointManager" where
  "last_resort now ps em =
     (let (r, em1) = em_rand em; p = ps ! (r mod length ps);
          em2 = em_set p (\<lambda>x. x\<lparr>rp_adapter := resetRetryTime now False (rp_adapter x)\<rparr>) em1
      in (p, snd (em_check now True p em2)))"

definition pick_any :: "int \<Rightarrow> nat list \<Rightarrow> nat list \<Rightarrow> EndpointManager \<Rightarrow> nat \<times> EndpointManager" where
  "pick_any now conn ps em = (if conn \<noteq> [] then pick_conn now conn em else last_resort now ps em)"

section \<open>Round robin\<close>

definition round_robin :: "int \<Rightarrow> EndpointManager \<Rightarrow> nat \<times> EndpointManager" where
  "round_robin now em =
     (case cycle_scan now (em_activeProxys em) (length (em_activeProxys em)) [] (em_lastRoundPosition em) em of
        (Inl p, pos, em1) \<Rightarrow> (p, em1\<lparr>em_lastRoundPosition := pos\<rparr>)
      | (Inr conn, pos, em1) \<Rightarrow> pick_any now conn (em_activeProxys em) (em1\<lparr>em_lastRoundPosition := pos\<rparr>))"

definition getNextValidProxy :: "int \<Rightarrow> EndpointManager \<Rightarrow> nat option \<times> EndpointManager" where
  "getNextValidProxy now em =
     (if em_activeProxys em = [] then (None, em)
      else case round_robin now em of (p, em1) \<Rightarrow> (Some p, em1))"

section \<open>Weights\<close>

definition getWeight :: "EndpointManager \<Rightarrow> nat \<Rightarrow> int" where
  "getWeight em p = rp_staticWeight (em_proxys em p)"

definition updateStaticWeighted :: "EndpointManager \<Rightarrow> EndpointManager" where
  "updateStaticWeighted em =
     (let vWeight = map (getWeight em) (em_activeWeightProxy em)
      in if vWeight = [] then em
         else em\<lparr>em_staticRouterCache := dispatchEndpointCache (em_staticRouterCache em) vWeight, em_lastSWeightPosition := 0\<rparr>)"

definition updateProxyWeighted :: "EndpointManager \<Rightarrow> EndpointManager" where
  "updateProxyWeighted em =
     (let vProxy = filter (\<lambda>p. getWeight em p > 0) (em_activeProxys em)
      in if em_activeProxys em = [] \<or> vProxy = [] then em
         else (if em_update em then updateStaticWeighted (em\<lparr>em_activeWeightProxy := vProxy\<rparr>) else em)\<lparr>em_update := False\<rparr>)"

definition build_weights :: "int \<Rightarrow> EndpointManager \<Rightarrow> EndpointManager" where
  "build_weights now em =
     (let iNow = now div 1000
      in if em_lastBuildWeightTime em \<le> iNow
         then let em1 = updateProxyWeighted em
              in if \<not> em_first em1 then em1\<lparr>em_lastBuildWeightTime := iNow + em_updateWeightInterval em1\<rparr>
                 else em1\<lparr>em_first := False, em_lastBuildWeightTime := iNow + em_updateWeightInterval em1 + 5\<rparr>
         else em)"

definition getWeightedForNormal :: "int \<Rightarrow> EndpointManager \<Rightarrow> nat option \<times> EndpointManager" where
  "getWeightedForNormal now em =
     (if em_activeProxys em = [] then (None, em)
      else
        let em1 = build_weights now em;
            tab = map (\<lambda>i. em_activeWeightProxy em1 ! i) (em_staticRouterCache em1)
        in if em_activeWeightProxy em1 \<noteq> [] \<and> em_staticRouterCache em1 \<noteq> []
           then (case cycle_scan now tab (length tab) [] (em_lastSWeightPosition em1) em1 of
                   (Inl p, pos, em2) \<Rightarrow> (Some p, em2\<lparr>em_lastSWeightPosition := pos\<rparr>)
                 | (Inr conn, pos, em2) \<Rightarrow>
                     (case pick_any now (sort (remdups conn)) (em_activeWeightProxy em1) (em2\<lparr>em_lastSWeightPosition := pos\<rparr>) of
                        (p, em3) \<Rightarrow> (Some p, em3)))
           else (case round_robin now em1 of (p, em2) \<Rightarrow> (Some p, em2)))"

section \<open>Hashing\<close>

text \<open>The hash code is converted to \<^verbatim>\<open>size_t\<close>, 64 bits, before the remainder is taken.\<close>

definition hash_index :: "64 word \<Rightarrow> nat \<Rightarrow> nat" where
  "hash_index hashCode n = unat hashCode mod n"

text \<open>The \<^verbatim>\<open>do\<close> loop, which hashes again among the servers not tried yet.\<close>

lemma without_nth: "xs \<noteq> [] \<Longrightarrow> length (take (hash_index c (length xs)) xs @ drop (hash_index c (length xs) + 1) xs) < length xs"
proof -
  assume "xs \<noteq> []"
  then have "hash_index c (length xs) < length xs" by (simp add: hash_index_def)
  then show ?thesis by simp
qed

function hash_scan :: "int \<Rightarrow> 64 word \<Rightarrow> nat list \<Rightarrow> nat list \<Rightarrow> EndpointManager \<Rightarrow> (nat + nat list) \<times> EndpointManager" where
  "hash_scan now hashCode thisHash conn em =
     (if thisHash = [] then (Inr conn, em)
      else
        let h = hash_index hashCode (length thisHash);
            p = thisHash ! h;
            (ok, em1) = em_check now True p em
        in if ok then (Inl p, em1)
           else hash_scan now hashCode (take h thisHash @ drop (h + 1) thisHash) (if usable p em1 then conn @ [p] else conn) em1)"
  by pat_completeness auto
termination
  by (relation "measure (\<lambda>(now, c, thisHash, conn, em). length thisHash)") (use without_nth in auto)

declare hash_scan.simps [simp del]

definition hash_again :: "int \<Rightarrow> 64 word \<Rightarrow> EndpointManager \<Rightarrow> nat option \<times> EndpointManager" where
  "hash_again now hashCode em =
     (if em_activeProxys em = [] then (None, em)
      else case hash_scan now hashCode (em_activeProxys em) [] em of
        (Inl p, em1) \<Rightarrow> (Some p, em1)
      | (Inr conn, em1) \<Rightarrow>
          if conn \<noteq> []
          then let p = conn ! hash_index hashCode (length conn) in (Some p, snd (em_check now True p em1))
          else (case last_resort now (em_activeProxys em) em1 of (p, em2) \<Rightarrow> (Some p, em2)))"

text \<open>The server with the number \<open>i\<close>, if the registry has it as active and it passes the check.\<close>

definition hash_try :: "int \<Rightarrow> 64 word \<Rightarrow> nat \<Rightarrow> EndpointManager \<Rightarrow> nat option \<times> EndpointManager" where
  "hash_try now hashCode i em =
     (let p = em_vRegProxys em ! i
      in if rp_activeStateInReg (em_proxys em p)
         then (case em_check now True p em of
                 (ok, em1) \<Rightarrow> if ok then (Some p, em1) else hash_again now hashCode em1)
         else hash_again now hashCode em)"

definition getHashProxyForNormal :: "int \<Rightarrow> 64 word \<Rightarrow> EndpointManager \<Rightarrow> nat option \<times> EndpointManager" where
  "getHashProxyForNormal now hashCode em =
     (if em_vRegProxys em = [] then (None, em)
      else hash_try now hashCode (hash_index hashCode (length (em_vRegProxys em))) em)"

text \<open>The mark of a changed weight is taken off by the look at it.\<close>

definition checkWeightChanged :: "bool \<Rightarrow> RegProxy \<Rightarrow> bool \<times> RegProxy" where
  "checkWeightChanged reset r = (rp_staticWeightChanged r, if reset then r\<lparr>rp_staticWeightChanged := False\<rparr> else r)"

definition em_checkWeight :: "nat \<Rightarrow> EndpointManager \<Rightarrow> bool \<times> EndpointManager" where
  "em_checkWeight p em = (fst (checkWeightChanged True (em_proxys em p)), em_set p (\<lambda>r. snd (checkWeightChanged True r)) em)"

fun hash_changed :: "(nat \<times> nat) list \<Rightarrow> EndpointManager \<Rightarrow> bool \<times> EndpointManager" where
  "hash_changed [] em = (False, em)"
| "hash_changed ((q, p) # l) em =
     (if ei_desc (rp_ep (em_proxys em q)) \<noteq> ei_desc (rp_ep (em_proxys em p)) then (True, em)
      else case em_checkWeight p em of (changed, em1) \<Rightarrow> if changed then (True, em1) else hash_changed l em1)"

definition checkHashStaticWeightChange :: "bool \<Rightarrow> EndpointManager \<Rightarrow> bool \<times> EndpointManager" where
  "checkHashStaticWeightChange bStatic em =
     (if \<not> bStatic then (False, em)
      else if length (em_lastHashStaticProxys em) \<noteq> length (em_vRegProxys em) then (True, em)
      else hash_changed (zip (em_lastHashStaticProxys em) (em_vRegProxys em)) em)"

definition updateHashProxyWeighted :: "bool \<Rightarrow> EndpointManager \<Rightarrow> EndpointManager" where
  "updateHashProxyWeighted bStatic em =
     (if em_vRegProxys em = [] then em
      else
        let em1 = (if bStatic then em\<lparr>em_lastHashStaticProxys := em_vRegProxys em, em_hashStaticRouterCache := []\<rparr> else em);
            vIndex = filter (\<lambda>i. getWeight em1 (em_vRegProxys em1 ! i) > 0) [0..<length (em_vRegProxys em1)];
            em2 = fold (\<lambda>p. em_set p resetWeightChanged) (em_vRegProxys em1) em1
        in if vIndex = [] \<or> \<not> bStatic then em2
           else em2\<lparr>em_hashStaticRouterCache := router_fill vIndex (map (\<lambda>i. getWeight em2 (em_vRegProxys em2 ! i)) vIndex)\<rparr>)"

definition getHashProxyForWeight :: "int \<Rightarrow> 64 word \<Rightarrow> bool \<Rightarrow> EndpointManager \<Rightarrow> nat option \<times> EndpointManager" where
  "getHashProxyForWeight now hashCode bStatic em =
     (if em_vRegProxys em = [] then (None, em)
      else
        let (change, em0) = checkHashStaticWeightChange bStatic em;
            em1 = (if change then updateHashProxyWeighted bStatic em0 else em0);
            vRouterCache = em_hashStaticRouterCache em1
        in if vRouterCache \<noteq> []
           then let iIndex = vRouterCache ! hash_index hashCode (length vRouterCache)
                in hash_try now hashCode (iIndex mod length (em_vRegProxys em1)) em1
           else getHashProxyForNormal now hashCode em1)"

section \<open>Consistent hashing\<close>

definition map_erase :: "byte list \<Rightarrow> proxy_map \<Rightarrow> proxy_map" where
  "map_erase k m = filter (\<lambda>(k', _). k' \<noteq> k) m"

fun conhash_changed :: "bool \<Rightarrow> ((byte list \<times> nat) \<times> byte list \<times> nat) list \<Rightarrow> EndpointManager \<Rightarrow> bool \<times> EndpointManager" where
  "conhash_changed bStatic [] em = (False, em)"
| "conhash_changed bStatic (((k, _), (k', p)) # l) em =
     (if k \<noteq> k' then (True, em)
      else if bStatic
      then case em_checkWeight p em of (changed, em1) \<Rightarrow> if changed then (True, em1) else conhash_changed bStatic l em1
      else conhash_changed bStatic l em)"

definition checkConHashChange :: "bool \<Rightarrow> EndpointManager \<Rightarrow> bool \<times> EndpointManager" where
  "checkConHashChange bStatic em =
     (let em1 = (if length (em_indexActiveProxys em) \<noteq> length (em_sortActivProxys em)
                 then em\<lparr>em_sortActivProxys := fold (\<lambda>(k, p). map_assign k p) (em_indexActiveProxys em) (em_sortActivProxys em)\<rparr>
                 else em);
          mLast = em_lastConHashProxys em1 bStatic
      in if length mLast \<noteq> length (em_sortActivProxys em1) then (True, em1)
         else conhash_changed bStatic (zip mLast (em_sortActivProxys em1)) em1)"

definition conhash_weight :: "bool \<Rightarrow> EndpointManager \<Rightarrow> nat \<Rightarrow> int" where
  "conhash_weight bStatic em p = (if bStatic then getWeight em p else 100)"

definition conhash_add :: "bool \<Rightarrow> EndpointManager \<Rightarrow> nat \<Rightarrow> TC_ConsistentHashNew \<Rightarrow> TC_ConsistentHashNew" where
  "conhash_add bStatic em p ch =
     (let iWeight = conhash_weight bStatic em p
      in if iWeight > 0
         then snd (addNode (em_junkDigest em) (ei_host (rp_ep (em_proxys em p))) 0 (if iWeight div 4 \<le> 0 then 1 else iWeight div 4) ch)
         else ch)"

definition updateConHashProxyWeighted :: "bool \<Rightarrow> EndpointManager \<Rightarrow> EndpointManager" where
  "updateConHashProxyWeighted bStatic em =
     (let ch = ch_clear (em_consistentHash em bStatic);
          em1 = em\<lparr>em_consistentHash := (em_consistentHash em)(bStatic := ch)\<rparr>
      in if em_sortActivProxys em1 = [] then em1
         else
           let em2 = em1\<lparr>em_lastConHashProxys := (em_lastConHashProxys em1)(bStatic := em_sortActivProxys em1)\<rparr>;
               ps = map snd (em_sortActivProxys em2);
               ch1 = sortNode (fold (conhash_add bStatic em2) ps ch);
               em3 = fold (\<lambda>p. em_set p resetWeightChanged) ps em2
           in em3\<lparr>em_consistentHash := (em_consistentHash em3)(bStatic := ch1)\<rparr>)"

text \<open>
  The \<^verbatim>\<open>while\<close> loop; \<open>None\<close> when it does not end. The hash code is cut to 32 bits for the ring. Reading behind the
  vector of the ring is an error.
\<close>

partial_function (option) conhash_loop ::
    "int \<Rightarrow> 64 word \<Rightarrow> bool \<Rightarrow> EndpointManager \<Rightarrow> ((ring_exn + nat option) \<times> EndpointManager) option" where
  "conhash_loop now hashCode bStatic em =
     (if ch_size (em_consistentHash em bStatic) > 0
      then case getNodeName (ucast hashCode) (em_consistentHash em bStatic) of
        Inl e \<Rightarrow> Some (Inl e, em)
      | Inr (_, sNode) \<Rightarrow>
          (case map_of (em_indexActiveProxys em) sNode of
             None \<Rightarrow> conhash_loop now hashCode bStatic (updateConHashProxyWeighted bStatic em)
           | Some p \<Rightarrow>
               let inReg = rp_activeStateInReg (em_proxys em p);
                   (ok, em1) = (if inReg then em_check now True p em else (False, em))
               in if ok then Some (Inr (Some p), em1)
                  else
                    let em2 = (if \<not> inReg then em1\<lparr>em_indexActiveProxys := map_erase sNode (em_indexActiveProxys em1)\<rparr> else em1);
                        em3 = em2\<lparr>em_sortActivProxys := map_erase sNode (em_sortActivProxys em2)\<rparr>;
                        em4 = updateConHashProxyWeighted bStatic em3
                    in if em_indexActiveProxys em4 = [] then Some (Inr None, em4)
                       else conhash_loop now hashCode bStatic em4)
      else case getHashProxyForNormal now hashCode em of (r, em1) \<Rightarrow> Some (Inr r, em1))"

text \<open>\<^verbatim>\<open>getConHashProxyForWeight\<close> and \<^verbatim>\<open>getConHashProxyForNormal\<close>.\<close>

definition getConHashProxy :: "int \<Rightarrow> 64 word \<Rightarrow> bool \<Rightarrow> EndpointManager \<Rightarrow> ((ring_exn + nat option) \<times> EndpointManager) option" where
  "getConHashProxy now hashCode bStatic em =
     (if em_vRegProxys em = [] then Some (Inr None, em)
      else case checkConHashChange bStatic em of
        (change, em1) \<Rightarrow> conhash_loop now hashCode bStatic (if change then updateConHashProxyWeighted bStatic em1 else em1))"

section \<open>The choice\<close>

definition getHashProxy :: "int \<Rightarrow> 64 word \<Rightarrow> bool \<Rightarrow> EndpointManager \<Rightarrow> ((ring_exn + nat option) \<times> EndpointManager) option" where
  "getHashProxy now hashCode bConsistentHash em =
     (let bStatic = (em_weightType em = E_STATIC_WEIGHT)
      in if bConsistentHash then getConHashProxy now hashCode bStatic em
         else case (if bStatic then getHashProxyForWeight now hashCode True em else getHashProxyForNormal now hashCode em) of
           (r, em1) \<Rightarrow> Some (Inr r, em1))"

text \<open>
  \<open>hash\<close> is the hash code of the message, with the mark of consistent hashing, if it has one. The result \<open>None\<close> in the first part says that
  there is no valid list of servers yet, for which the code returns \<^verbatim>\<open>true\<close>.
\<close>

definition choose_adapter ::
    "int \<Rightarrow> (64 word \<times> bool) option \<Rightarrow> EndpointManager \<Rightarrow> ((ring_exn + nat option) option \<times> EndpointManager) option" where
  "choose_adapter now hash em =
     (if \<not> em_valid em then Some (None, em)
      else case hash of
        Some (hashCode, conHash) \<Rightarrow> map_option (\<lambda>(r, em1). (Some r, em1)) (getHashProxy now hashCode conHash em)
      | None \<Rightarrow>
          (case (if em_weightType em = E_STATIC_WEIGHT then getWeightedForNormal now em else getNextValidProxy now em) of
             (r, em1) \<Rightarrow> Some (Some (Inr r), em1)))"

definition selectAdapterProxy ::
    "int \<Rightarrow> bool \<Rightarrow> (64 word \<times> bool) option \<Rightarrow> EndpointManager \<Rightarrow> ((ring_exn + nat option) option \<times> EndpointManager) option" where
  "selectAdapterProxy now fails hash em = choose_adapter now hash (refreshReg now fails em)"

section \<open>What a choice leaves alone\<close>

text \<open>A choice changes the connections of the adapters, the marks of changed weights, and the scripts, beside its own tables.\<close>

definition contact :: "EndpointManager \<Rightarrow> EndpointManager \<Rightarrow> bool" where
  "contact em em' \<longleftrightarrow> (\<exists>s c r. em' = em\<lparr>em_proxys := s, em_connects := c, em_rands := r\<rparr> \<and>
     (\<forall>q. rp_ep (s q) = rp_ep (em_proxys em q) \<and> rp_activeStateInReg (s q) = rp_activeStateInReg (em_proxys em q) \<and>
          rp_staticWeight (s q) = rp_staticWeight (em_proxys em q)))"

lemma contact_refl [simp]: "contact em em"
  unfolding contact_def by (rule exI[of _ "em_proxys em"], rule exI[of _ "em_connects em"], rule exI[of _ "em_rands em"]) simp

lemma contact_trans: "contact a b \<Longrightarrow> contact b c \<Longrightarrow> contact a c"
  unfolding contact_def by (elim exE conjE) (rule exI, rule exI, rule exI, rule conjI, simp, simp)

lemma contact_em_set:
  assumes "\<And>r. rp_ep (f r) = rp_ep r \<and> rp_activeStateInReg (f r) = rp_activeStateInReg r \<and> rp_staticWeight (f r) = rp_staticWeight r"
  shows "contact em (em_set p f em)"
  unfolding contact_def
  by (rule exI[of _ "(em_proxys em)(p := f (em_proxys em p))"], rule exI[of _ "em_connects em"], rule exI[of _ "em_rands em"])
    (simp add: em_set_def assms)

lemma contact_connects: "contact em (em\<lparr>em_connects := c\<rparr>)"
  unfolding contact_def by (rule exI[of _ "em_proxys em"], rule exI[of _ c], rule exI[of _ "em_rands em"]) simp

lemma contact_rands: "contact em (em\<lparr>em_rands := c\<rparr>)"
  unfolding contact_def by (rule exI[of _ "em_proxys em"], rule exI[of _ "em_connects em"], rule exI[of _ c]) simp

lemma contact_check: "contact em (snd (em_check now b p em))"
proof -
  obtain ok a where a: "checkActive now (case em_connects em of [] \<Rightarrow> None | c # _ \<Rightarrow> c) b (em_adapter em p) = (ok, a)"
    by (metis surj_pair)
  have "snd (em_check now b p em) = em_set p (\<lambda>r. r\<lparr>rp_adapter := a\<rparr>) (em\<lparr>em_connects := tl (em_connects em)\<rparr>)"
    by (simp only: em_check_def Let_def a prod.case snd_conv)
  then show ?thesis using contact_trans[OF contact_connects contact_em_set] by simp
qed

lemma contact_rand: "contact em (snd (em_rand em))"
  using contact_rands by (cases "em_rands em") (simp_all add: em_rand_def)

lemma contactD:
  assumes "contact em em'"
  shows "em_allProxys em' = em_allProxys em" "em_next em' = em_next em" "em_activeProxys em' = em_activeProxys em"
    "em_regProxys em' = em_regProxys em" "em_vRegProxys em' = em_vRegProxys em" "em_sortActivProxys em' = em_sortActivProxys em"
    "em_indexActiveProxys em' = em_indexActiveProxys em" "em_activeWeightProxy em' = em_activeWeightProxy em"
    "em_staticRouterCache em' = em_staticRouterCache em" "em_consistentHash em' = em_consistentHash em"
    "rp_ep (em_proxys em' q) = rp_ep (em_proxys em q)" "rp_activeStateInReg (em_proxys em' q) = rp_activeStateInReg (em_proxys em q)"
    "em_known em' = em_known em"
proof -
  obtain s c r where e: "em' = em\<lparr>em_proxys := s, em_connects := c, em_rands := r\<rparr>"
    "\<And>q. rp_ep (s q) = rp_ep (em_proxys em q) \<and> rp_activeStateInReg (s q) = rp_activeStateInReg (em_proxys em q)"
    using assms unfolding contact_def by blast
  show "em_allProxys em' = em_allProxys em" "em_next em' = em_next em" "em_activeProxys em' = em_activeProxys em"
    "em_regProxys em' = em_regProxys em" "em_vRegProxys em' = em_vRegProxys em" "em_sortActivProxys em' = em_sortActivProxys em"
    "em_indexActiveProxys em' = em_indexActiveProxys em" "em_activeWeightProxy em' = em_activeWeightProxy em"
    "em_staticRouterCache em' = em_staticRouterCache em" "em_consistentHash em' = em_consistentHash em"
    "rp_ep (em_proxys em' q) = rp_ep (em_proxys em q)" "rp_activeStateInReg (em_proxys em' q) = rp_activeStateInReg (em_proxys em q)"
    "em_known em' = em_known em"
    by (simp_all add: e em_known_def)
qed

lemma cycle_scan_spec:
  assumes "tab \<noteq> []" "cycle_scan now tab n conn pos em = (r, pos', em')"
  shows "contact em em' \<and> (case r of Inl p \<Rightarrow> p \<in> set tab | Inr c \<Rightarrow> set c \<subseteq> set conn \<union> set tab)"
  using assms(2)
proof (induction n arbitrary: conn pos em)
  case (Suc n)
  define p where "p = tab ! next_position (length tab) pos"
  have p: "p \<in> set tab" using assms(1) by (auto simp: p_def next_position_def)
  obtain ok em1 where c: "em_check now False p em = (ok, em1)" by (cases "em_check now False p em")
  have c1: "contact em em1" using contact_check[of em now False p] c by simp
  show ?case
  proof (cases ok)
    case True
    then show ?thesis using Suc.prems c c1 p by (auto simp: Let_def p_def[symmetric])
  next
    case False
    then have "cycle_scan now tab n (if usable p em1 then conn @ [p] else conn) (next_position (length tab) pos) em1 = (r, pos', em')"
      using Suc.prems c False unfolding p_def by (simp add: Let_def)
    from Suc.IH[OF this] contact_trans[OF c1] p show ?thesis by (cases r) (auto split: if_splits)
  qed
qed auto

lemma pick_any_spec:
  assumes "ps \<noteq> []"
  shows "contact em (snd (pick_any now conn ps em)) \<and> fst (pick_any now conn ps em) \<in> set conn \<union> set ps"
proof -
  obtain r em1 where r: "em_rand em = (r, em1)" by (cases "em_rand em")
  have c: "contact em em1" using contact_rand[of em] r by simp
  have "conn ! (r mod length conn) \<in> set conn" if "conn \<noteq> []" using that by simp
  moreover have "ps ! (r mod length ps) \<in> set ps" using assms by simp
  moreover have "contact em (snd (last_resort now ps em))"
    unfolding last_resort_def r Let_def prod.case snd_conv
    by (rule contact_trans[OF c contact_trans[OF contact_em_set contact_check]]) simp
  moreover have "contact em (snd (pick_conn now conn em))"
    unfolding pick_conn_def r Let_def prod.case snd_conv by (rule contact_trans[OF c contact_check])
  ultimately show ?thesis by (auto simp: pick_any_def pick_conn_def last_resort_def r Let_def)
qed

lemma hash_scan_spec:
  assumes "hash_scan now hashCode ps conn em = (r, em')"
  shows "contact em em' \<and> (case r of Inl p \<Rightarrow> p \<in> set ps | Inr c \<Rightarrow> set c \<subseteq> set conn \<union> set ps)"
  using assms
proof (induction now hashCode ps conn em rule: hash_scan.induct)
  case (1 now hashCode ps conn em)
  show ?case
  proof (cases "ps = []")
    case True
    then show ?thesis using 1(2) by (auto simp: hash_scan.simps)
  next
    case False
    define h where "h = hash_index hashCode (length ps)"
    have h: "h < length ps" using False by (simp add: h_def hash_index_def)
    obtain ok em1 where c: "em_check now True (ps ! h) em = (ok, em1)" by (cases "em_check now True (ps ! h) em")
    have c1: "contact em em1" using contact_check[of em now True "ps ! h"] c by simp
    show ?thesis
    proof (cases ok)
      case True
      then show ?thesis using 1(2) False c c1 h by (auto simp: hash_scan.simps[of _ _ ps] h_def[symmetric] Let_def)
    next
      case notok: False
      have e: "hash_scan now hashCode (take h ps @ drop (h + 1) ps) (if usable (ps ! h) em1 then conn @ [ps ! h] else conn) em1 = (r, em')"
        using 1(2) False c notok by (simp add: hash_scan.simps[of _ _ ps] h_def[symmetric] Let_def)
      have s: "set (take h ps @ drop (h + 1) ps) \<subseteq> set ps" by (auto dest: in_set_takeD in_set_dropD)
      have "contact em1 em' \<and> (case r of Inl p \<Rightarrow> p \<in> set (take h ps @ drop (h + 1) ps)
          | Inr ca \<Rightarrow> set ca \<subseteq> set (if usable (ps ! h) em1 then conn @ [ps ! h] else conn) \<union> set (take h ps @ drop (h + 1) ps))"
        by (rule 1(1)[OF False h_def refl c[symmetric] refl notok e])
      then show ?thesis using contact_trans[OF c1] s nth_mem[OF h] by (cases r) (auto split: if_splits)
    qed
  qed
qed

lemma hash_again_spec:
  assumes "hash_again now hashCode em = (r, em')"
  shows "contact em em' \<and> (case r of None \<Rightarrow> em_activeProxys em = [] | Some p \<Rightarrow> p \<in> set (em_activeProxys em))"
proof (cases "em_activeProxys em = []")
  case True
  then show ?thesis using assms by (simp add: hash_again_def)
next
  case False
  obtain s em1 where s: "hash_scan now hashCode (em_activeProxys em) [] em = (s, em1)"
    by (cases "hash_scan now hashCode (em_activeProxys em) [] em")
  note sp = hash_scan_spec[OF s]
  show ?thesis
  proof (cases s)
    case (Inl p)
    then show ?thesis using assms False s sp by (auto simp: hash_again_def)
  next
    case (Inr conn)
    have lr: "contact em1 (snd (last_resort now (em_activeProxys em) em1)) \<and> fst (last_resort now (em_activeProxys em) em1) \<in> set (em_activeProxys em)"
      using pick_any_spec[OF False, of em1 now "[]"] by (simp add: pick_any_def)
    show ?thesis
    proof (cases "conn = []")
      case True
      then show ?thesis
        using assms False s Inr sp lr contact_trans by (auto simp: hash_again_def split: prod.splits)
    next
      case ne: False
      have "conn ! hash_index hashCode (length conn) \<in> set conn" using ne by (simp add: hash_index_def)
      then show ?thesis
        using assms False s Inr ne sp contact_trans[OF _ contact_check] by (auto simp: hash_again_def Let_def)
    qed
  qed
qed

lemma hash_try_spec:
  assumes "hash_try now hashCode i em = (r, em')" "i < length (em_vRegProxys em)"
  shows "contact em em' \<and> (case r of None \<Rightarrow> em_activeProxys em = [] | Some p \<Rightarrow> p \<in> set (em_activeProxys em) \<union> set (em_vRegProxys em))"
proof (cases "rp_activeStateInReg (em_proxys em (em_vRegProxys em ! i))")
  case True
  obtain ok em1 where c: "em_check now True (em_vRegProxys em ! i) em = (ok, em1)" by (cases "em_check now True (em_vRegProxys em ! i) em")
  have c1: "contact em em1" using contact_check[of em now True "em_vRegProxys em ! i"] c by simp
  show ?thesis
  proof (cases ok)
    case False
    then have "hash_again now hashCode em1 = (r, em')" using assms True c by (simp add: hash_try_def Let_def)
    from hash_again_spec[OF this] show ?thesis using contact_trans[OF c1] contactD(3)[OF c1] by (auto split: option.splits)
  qed (use assms True c c1 in \<open>auto simp: hash_try_def Let_def\<close>)
next
  case False
  then have "hash_again now hashCode em = (r, em')" using assms by (simp add: hash_try_def Let_def)
  from hash_again_spec[OF this] show ?thesis by (auto split: option.splits)
qed


section \<open>Consistent hashing ends\<close>

text \<open>What no choice changes, whatever it does to the tables of its own.\<close>

definition kept :: "EndpointManager \<Rightarrow> EndpointManager \<Rightarrow> bool" where
  "kept em em' \<longleftrightarrow> em_allProxys em' = em_allProxys em \<and> em_next em' = em_next em \<and> em_activeProxys em' = em_activeProxys em \<and>
     em_regProxys em' = em_regProxys em \<and> em_vRegProxys em' = em_vRegProxys em \<and> em_activeWeightProxy em' = em_activeWeightProxy em \<and>
     em_staticRouterCache em' = em_staticRouterCache em \<and>
     (\<forall>q. rp_ep (em_proxys em' q) = rp_ep (em_proxys em q) \<and> rp_activeStateInReg (em_proxys em' q) = rp_activeStateInReg (em_proxys em q))"

lemma kept_contact: "contact em em' \<Longrightarrow> kept em em'"
  using contactD[of em em'] by (simp add: kept_def)

lemma kept_refl [simp]: "kept em em"
  by (simp add: kept_def)

lemma kept_trans: "kept a b \<Longrightarrow> kept b c \<Longrightarrow> kept a c"
  by (simp add: kept_def)

definition rings_ok :: "EndpointManager \<Rightarrow> bool" where
  "rings_ok em \<longleftrightarrow> (\<forall>b. sorted_ring (ch_vHashList (em_consistentHash em b)) \<and> ch_ptrHashAlg (em_consistentHash em b) \<noteq> None)"

definition hash_ok :: "EndpointManager \<Rightarrow> bool" where
  "hash_ok em \<longleftrightarrow> all_ok em \<and> tables_ok em \<and> rings_ok em"

definition fresh :: "bool \<Rightarrow> EndpointManager \<Rightarrow> bool" where
  "fresh b em \<longleftrightarrow> nd_sNode ` set (ch_vHashList (em_consistentHash em b)) \<subseteq> fst ` set (em_sortActivProxys em)"

lemma hash_ok_contact: "contact em em' \<Longrightarrow> hash_ok em \<Longrightarrow> hash_ok em'"
  using contactD[of em em'] by (simp add: hash_ok_def all_ok_def tables_ok_def rings_ok_def)

lemma addNode_nodes:
  "ch_ptrHashAlg ch \<noteq> None \<Longrightarrow> ch_ptrHashAlg (snd (addNode j n i w ch)) \<noteq> None
    \<and> nd_sNode ` set (ch_vHashList (snd (addNode j n i w ch))) \<subseteq> insert n (nd_sNode ` set (ch_vHashList ch))"
  by (auto simp: addNode_def virtual_items_def Let_def split: if_splits)

lemma conhash_add_nodes:
  assumes "ch_ptrHashAlg ch \<noteq> None"
  shows "ch_ptrHashAlg (fold (conhash_add b em) ps ch) \<noteq> None \<and>
    nd_sNode ` set (ch_vHashList (fold (conhash_add b em) ps ch)) \<subseteq>
      (\<lambda>p. ei_host (rp_ep (em_proxys em p))) ` set ps \<union> nd_sNode ` set (ch_vHashList ch)"
  using assms
proof (induction ps arbitrary: ch)
  case (Cons p ps)
  define ch1 where "ch1 = conhash_add b em p ch"
  have 1: "ch_ptrHashAlg ch1 \<noteq> None \<and> nd_sNode ` set (ch_vHashList ch1) \<subseteq> insert (ei_host (rp_ep (em_proxys em p))) (nd_sNode ` set (ch_vHashList ch))"
    unfolding ch1_def conhash_add_def Let_def using addNode_nodes[OF Cons.prems] Cons.prems by auto
  have IH: "ch_ptrHashAlg (fold (conhash_add b em) ps ch1) \<noteq> None"
    "nd_sNode ` set (ch_vHashList (fold (conhash_add b em) ps ch1)) \<subseteq>
      (\<lambda>p. ei_host (rp_ep (em_proxys em p))) ` set ps \<union> nd_sNode ` set (ch_vHashList ch1)"
    using Cons.IH[of ch1] 1 by blast+
  have "nd_sNode ` set (ch_vHashList (fold (conhash_add b em) ps ch1)) \<subseteq>
      (\<lambda>p. ei_host (rp_ep (em_proxys em p))) ` set (p # ps) \<union> nd_sNode ` set (ch_vHashList ch)"
    by (rule subset_trans[OF IH(2)]) (use 1 in auto)
  then show ?case using IH(1) by (simp add: ch1_def[symmetric])
qed simp

lemma contact_resets: "contact em (fold (\<lambda>p. em_set p resetWeightChanged) ps em)"
proof (induction ps arbitrary: em)
  case (Cons p ps)
  have "contact em (em_set p resetWeightChanged em)" by (rule contact_em_set) (simp add: resetWeightChanged_def)
  then show ?case using Cons contact_trans by fastforce
qed simp

lemma updateConHash_spec:
  fixes em :: EndpointManager and b :: bool
  assumes "hash_ok em"
  defines "em' \<equiv> updateConHashProxyWeighted b em"
  shows "hash_ok em' \<and> kept em em' \<and> fresh b em' \<and> em_sortActivProxys em' = em_sortActivProxys em \<and> em_indexActiveProxys em' = em_indexActiveProxys em"
proof (cases "em_sortActivProxys em = []")
  case True
  then have e: "em' = em\<lparr>em_consistentHash := (em_consistentHash em)(b := ch_clear (em_consistentHash em b))\<rparr>"
    by (simp add: em'_def updateConHashProxyWeighted_def Let_def)
  show ?thesis
    using assms(1) by (simp add: e hash_ok_def all_ok_def tables_ok_def rings_ok_def kept_def fresh_def ch_clear_def sorted_ring_def em_known_def)
next
  case False
  define ch where "ch = ch_clear (em_consistentHash em b)"
  define em2 where "em2 = em\<lparr>em_consistentHash := (em_consistentHash em)(b := ch),
      em_lastConHashProxys := (em_lastConHashProxys em)(b := em_sortActivProxys em)\<rparr>"
  define ps where "ps = map snd (em_sortActivProxys em)"
  define ch1 where "ch1 = sortNode (fold (conhash_add b em2) ps ch)"
  define em3 where "em3 = fold (\<lambda>p. em_set p resetWeightChanged) ps em2"
  have e: "em' = em3\<lparr>em_consistentHash := (em_consistentHash em3)(b := ch1)\<rparr>"
    using False by (simp add: em'_def updateConHashProxyWeighted_def Let_def em3_def em2_def ch1_def ch_def ps_def)
  have c: "contact em2 em3" unfolding em3_def by (rule contact_resets)
  note k = contactD[OF c]
  have alg: "ch_ptrHashAlg ch \<noteq> None" using assms(1) by (simp add: ch_def ch_clear_def hash_ok_def rings_ok_def)
  have n: "ch_ptrHashAlg ch1 \<noteq> None" "nd_sNode ` set (ch_vHashList ch1) \<subseteq> (\<lambda>p. ei_host (rp_ep (em_proxys em p))) ` set ps" "sorted_ring (ch_vHashList ch1)"
    using conhash_add_nodes[OF alg, of b em2 ps] by (simp_all add: ch1_def sortNode_def ch_def ch_clear_def em2_def sorted_ring_def)
  have host: "ei_host (rp_ep (em_proxys em p)) = h" if "(h, p) \<in> set (em_sortActivProxys em)" for h p
  proof -
    have "map_of (em_sortActivProxys em) h = Some p"
      using that assms(1) by (intro map_of_is_SomeI) (auto simp: hash_ok_def tables_ok_def map_wf_def strict_sorted_iff)
    then have "map_of (em_indexActiveProxys em) h = Some p" using assms(1) map_le_trans' by (fastforce simp: hash_ok_def tables_ok_def)
    then show ?thesis using assms(1) by (simp add: hash_ok_def tables_ok_def)
  qed
  have "(\<lambda>p. ei_host (rp_ep (em_proxys em p))) ` set ps \<subseteq> fst ` set (em_sortActivProxys em)"
    using host by (force simp: ps_def)
  then have "fresh b em'" using n(2) k(6) by (auto simp: fresh_def e em2_def)
  moreover have "hash_ok em'"
    using assms(1) n(1,3) k by (simp add: hash_ok_def all_ok_def tables_ok_def rings_ok_def e em2_def em_known_def ch_def)
  moreover have "kept em em'" using k by (simp add: kept_def e em2_def)
  ultimately show ?thesis using k by (simp add: e em2_def)
qed


lemma map_of_erase: "map_of (map_erase k m) = (map_of m)(k := None)"
  by (induction m) (auto simp: map_erase_def fun_eq_iff)

lemma map_wf_erase: "map_wf m \<Longrightarrow> map_wf (map_erase k m)"
  unfolding map_wf_def map_erase_def by (induction m) auto

lemma distinct_erase: "distinct (map fst m) \<Longrightarrow> distinct (map fst (map_erase k m))"
  unfolding map_erase_def by (induction m) auto

lemma set_erase [simp]: "(h, p) \<in> set (map_erase k m) \<longleftrightarrow> h \<noteq> k \<and> (h, p) \<in> set m"
  by (auto simp: map_erase_def)

lemma length_erase: "length (map_erase k m) \<le> length m" "k \<in> fst ` set m \<Longrightarrow> length (map_erase k m) < length m"
  unfolding map_erase_def by simp (auto intro!: length_filter_less)

lemma ring_find_node: "ring_find l c = Inr n \<Longrightarrow> l \<noteq> [] \<Longrightarrow> n \<in> set l"
  by (auto simp: ring_find_def Let_def split: if_splits)

text \<open>The server tried is taken out of the tables, and the ring is built again.\<close>

definition conhash_drop :: "bool \<Rightarrow> byte list \<Rightarrow> nat \<Rightarrow> EndpointManager \<Rightarrow> EndpointManager" where
  "conhash_drop b h p em = em\<lparr>em_indexActiveProxys := if rp_activeStateInReg (em_proxys em p) then em_indexActiveProxys em
       else map_erase h (em_indexActiveProxys em), em_sortActivProxys := map_erase h (em_sortActivProxys em)\<rparr>"

lemma conhash_drop_ok:
  assumes "hash_ok em"
  shows "hash_ok (conhash_drop b h p em) \<and> kept em (conhash_drop b h p em)"
proof -
  have t: "map_wf (em_sortActivProxys em)" "map_of (em_sortActivProxys em) \<subseteq>\<^sub>m map_of (em_indexActiveProxys em)"
    using assms by (simp_all add: hash_ok_def tables_ok_def)
  have "map_of (map_erase h (em_sortActivProxys em)) \<subseteq>\<^sub>m map_of (em_indexActiveProxys em)"
    "map_of (map_erase h (em_sortActivProxys em)) \<subseteq>\<^sub>m map_of (map_erase h (em_indexActiveProxys em))"
    using t(2) by (auto simp: map_of_erase map_le_def)
  then show ?thesis
    using assms map_wf_erase[OF t(1)] distinct_erase
    by (auto simp: hash_ok_def all_ok_def tables_ok_def rings_ok_def conhash_drop_def kept_def em_known_def map_of_erase split: if_splits)
qed

definition conhash_result :: "EndpointManager \<Rightarrow> ((ring_exn + nat option) \<times> EndpointManager) option \<Rightarrow> bool" where
  "conhash_result em res \<longleftrightarrow> (\<exists>r em'. res = Some (r, em') \<and> hash_ok em' \<and> kept em em' \<and>
     (\<forall>p. r = Inr (Some p) \<longrightarrow> p \<in> set (em_activeProxys em) \<union> set (em_vRegProxys em)))"

lemma conhash_result_kept: "kept em em1 \<Longrightarrow> conhash_result em1 res \<Longrightarrow> conhash_result em res"
  unfolding conhash_result_def using kept_trans by (auto simp: kept_def)

lemma normal_result:
  assumes "hash_ok em"
  shows "conhash_result em (case getHashProxyForNormal now c em of (r, em1) \<Rightarrow> Some (Inr r, em1))"
proof (cases "em_vRegProxys em = []")
  case True
  then show ?thesis using assms by (simp add: getHashProxyForNormal_def conhash_result_def)
next
  case False
  obtain r em1 where h: "hash_try now c (hash_index c (length (em_vRegProxys em))) em = (r, em1)"
    by (cases "hash_try now c (hash_index c (length (em_vRegProxys em))) em")
  have "hash_index c (length (em_vRegProxys em)) < length (em_vRegProxys em)" using False by (simp add: hash_index_def)
  from hash_try_spec[OF h this] show ?thesis
    using False h hash_ok_contact[OF _ assms] kept_contact by (auto simp: getHashProxyForNormal_def conhash_result_def)
qed

text \<open>One turn of the loop: it ends, or goes on after the ring was built from what is left.\<close>

lemma conhash_turn:
  assumes "hash_ok em"
  shows "conhash_result em (conhash_loop now c b em) \<or>
    (\<exists>em1. hash_ok em1 \<and> kept em em1 \<and> conhash_loop now c b em = conhash_loop now c b (updateConHashProxyWeighted b em1) \<and>
       length (em_sortActivProxys em1) \<le> length (em_sortActivProxys em) \<and>
       (fresh b em \<longrightarrow> length (em_sortActivProxys em1) < length (em_sortActivProxys em)))"
proof (cases "ch_size (em_consistentHash em b) > 0")
  case False
  then show ?thesis using normal_result[OF assms, of now c] by (subst conhash_loop.simps) simp
next
  case True
  have ring: "sorted_ring (ch_vHashList (em_consistentHash em b))" "ch_vHashList (em_consistentHash em b) \<noteq> []"
    "ch_ptrHashAlg (em_consistentHash em b) \<noteq> None"
    using assms True by (auto simp: hash_ok_def rings_ok_def ch_size_def)
  show ?thesis
  proof (cases "getNodeName (ucast c) (em_consistentHash em b)")
    case (Inl e)
    then have "conhash_loop now c b em = Some (Inl e, em)" using True by (subst conhash_loop.simps) simp
    then show ?thesis using assms by (simp add: conhash_result_def)
  next
    case (Inr x)
    obtain v h where x: "x = (v, h)" by (cases x)
    have node: "h \<in> nd_sNode ` set (ch_vHashList (em_consistentHash em b))"
      using Inr x ring_find_node ring by (auto simp: getNodeName_def ch_size_def split: sum.splits)
    show ?thesis
    proof (cases "map_of (em_indexActiveProxys em) h")
      case None
      then have "conhash_loop now c b em = conhash_loop now c b (updateConHashProxyWeighted b em)"
        using True Inr x by (subst conhash_loop.simps) simp
      moreover have "\<not> fresh b em"
      proof
        assume "fresh b em"
        then have "h \<in> fst ` set (em_sortActivProxys em)" using node by (auto simp: fresh_def)
        then obtain p where "map_of (em_sortActivProxys em) h = Some p" by (metis map_of_eq_None_iff not_None_eq)
        then have "map_of (em_indexActiveProxys em) h = Some p" using assms map_le_trans' by (fastforce simp: hash_ok_def tables_ok_def)
        then show False using None by simp
      qed
      ultimately show ?thesis using assms by auto
    next
      case (Some p)
      have act: "p \<in> set (em_activeProxys em)" using Some assms by (simp add: hash_ok_def tables_ok_def)
      obtain ok em1 where c: "(if rp_activeStateInReg (em_proxys em p) then em_check now True p em else (False, em)) = (ok, em1)" by fastforce
      have c1: "contact em em1" using c contact_check[of em now True p] by (auto split: if_splits)
      show ?thesis
      proof (cases ok)
        case ok: True
        then have "conhash_loop now c b em = Some (Inr (Some p), em1)"
          using True Inr x Some c by (subst conhash_loop.simps) (simp add: Let_def)
        then show ?thesis using hash_ok_contact[OF c1 assms] kept_contact[OF c1] act by (simp add: conhash_result_def)
      next
        case bad: False
        define em2 where "em2 = conhash_drop b h p em1"
        have reg: "rp_activeStateInReg (em_proxys em1 p) = rp_activeStateInReg (em_proxys em p)" using contactD(12)[OF c1] .
        have e2: "(if \<not> rp_activeStateInReg (em_proxys em p) then em1\<lparr>em_indexActiveProxys := map_erase h (em_indexActiveProxys em1)\<rparr> else em1)
            \<lparr>em_sortActivProxys := map_erase h (em_sortActivProxys (if \<not> rp_activeStateInReg (em_proxys em p)
               then em1\<lparr>em_indexActiveProxys := map_erase h (em_indexActiveProxys em1)\<rparr> else em1))\<rparr> = em2"
          by (simp add: em2_def conhash_drop_def reg)
        have ok2: "hash_ok em2" "kept em em2"
          using conhash_drop_ok[OF hash_ok_contact[OF c1 assms]] kept_trans[OF kept_contact[OF c1]] by (simp_all add: em2_def)
        define em3 where "em3 = updateConHashProxyWeighted b em2"
        have u: "hash_ok em3" "kept em2 em3" using updateConHash_spec[OF ok2(1)] by (simp_all add: em3_def)
        have l: "conhash_loop now c b em = (if em_indexActiveProxys em3 = [] then Some (Inr None, em3) else conhash_loop now c b em3)"
          using True Inr x Some c bad e2 by (subst conhash_loop.simps) (simp only: Let_def em3_def if_True sum.case prod.case option.case if_False)
        have s: "em_sortActivProxys em2 = map_erase h (em_sortActivProxys em)" by (simp add: em2_def conhash_drop_def contactD(6)[OF c1])
        show ?thesis
        proof (cases "em_indexActiveProxys em3 = []")
          case True
          then show ?thesis using l u kept_trans[OF ok2(2)] by (simp add: conhash_result_def)
        next
          case False
          have "fresh b em \<Longrightarrow> h \<in> fst ` set (em_sortActivProxys em)" using node by (auto simp: fresh_def)
          then show ?thesis using l False ok2 length_erase[of h "em_sortActivProxys em"] by (auto simp: em3_def s)
        qed
      qed
    qed
  qed
qed

lemma conhash_fresh_ends:
  assumes "hash_ok em" "fresh b em"
  shows "conhash_result em (conhash_loop now c b em)"
  using assms
proof (induction "length (em_sortActivProxys em)" arbitrary: em rule: less_induct)
  case less
  from conhash_turn[OF less(2), of now c b] show ?case
  proof (elim disjE exE conjE)
    fix em1 assume 1: "hash_ok em1" "kept em em1" "conhash_loop now c b em = conhash_loop now c b (updateConHashProxyWeighted b em1)"
      "fresh b em \<longrightarrow> length (em_sortActivProxys em1) < length (em_sortActivProxys em)"
    have u: "hash_ok (updateConHashProxyWeighted b em1)" "kept em1 (updateConHashProxyWeighted b em1)" "fresh b (updateConHashProxyWeighted b em1)"
      "em_sortActivProxys (updateConHashProxyWeighted b em1) = em_sortActivProxys em1"
      using updateConHash_spec[OF 1(1)] by simp_all
    have "conhash_result (updateConHashProxyWeighted b em1) (conhash_loop now c b (updateConHashProxyWeighted b em1))"
      using less(1)[OF _ u(1,3)] less(3) 1(4) u(4) by simp
    then show ?case using conhash_result_kept[OF kept_trans[OF 1(2) u(2)]] 1(3) by simp
  qed
qed

lemma conhash_ends:
  assumes "hash_ok em"
  shows "conhash_result em (conhash_loop now c b em)"
  using conhash_turn[OF assms, of now c b]
proof (elim disjE exE conjE)
  fix em1 assume 1: "hash_ok em1" "kept em em1" "conhash_loop now c b em = conhash_loop now c b (updateConHashProxyWeighted b em1)"
  have u: "hash_ok (updateConHashProxyWeighted b em1)" "kept em1 (updateConHashProxyWeighted b em1)" "fresh b (updateConHashProxyWeighted b em1)"
    using updateConHash_spec[OF 1(1)] by simp_all
  show ?thesis using conhash_fresh_ends[OF u(1,3)] conhash_result_kept[OF kept_trans[OF 1(2) u(2)]] 1(3) by simp
qed

end
