(* ===== verification/Object_Proxy.thy ===== *)
theory Object_Proxy
  imports Server_Choice Request_Flow
begin

text \<open>
  \<^verbatim>\<open>ObjectProxy\<close> (\<^verbatim>\<open>servant/ObjectProxy.cpp\<close>): the client's end of one object. It chooses a server for every request, keeps the requests
  that wait for the registry or for a connection in a \<^verbatim>\<open>TC_TimeoutQueueNoID\<close>, and hands them to the adapter of the server. Messages and adapters
  are addresses. A connection made at once counts as one made right after, so that \<^verbatim>\<open>onConnect\<close> is always an event of its own. Time is in milliseconds.
\<close>

section \<open>The queue of waiting requests\<close>

text \<open>
  \<^verbatim>\<open>TC_TimeoutQueueNoID\<close>: the list with its newest element first, and the multimap of the deadlines. An iterator of the list is the number
  under which the element was inserted, and the same number stands for the iterator of the multimap.
\<close>

record 'a NoIdQueue =
  nq_list :: "(nat \<times> 'a) list"
  nq_time :: "(int \<times> nat) list"
  nq_next :: nat

definition NoIdQueue_new :: "'a NoIdQueue" where
  "NoIdQueue_new = \<lparr>nq_list = [], nq_time = [], nq_next = 0\<rparr>"

definition nq_empty :: "'a NoIdQueue \<Rightarrow> bool" where
  "nq_empty q \<longleftrightarrow> nq_list q = []"

definition nq_size :: "'a NoIdQueue \<Rightarrow> nat" where
  "nq_size q = length (nq_list q)"

definition nq_front :: "'a NoIdQueue \<Rightarrow> 'a option" where
  "nq_front q = (if nq_list q = [] then None else Some (snd (last (nq_list q))))"

definition nq_pop :: "'a NoIdQueue \<Rightarrow> 'a option \<times> 'a NoIdQueue" where
  "nq_pop q =
     (if nq_list q = [] then (None, q)
      else case last (nq_list q) of
        (i, x) \<Rightarrow> (Some x, q\<lparr>nq_time := filter (\<lambda>e. snd e \<noteq> i) (nq_time q), nq_list := butlast (nq_list q)\<rparr>))"

definition nq_push :: "'a \<Rightarrow> int \<Rightarrow> 'a NoIdQueue \<Rightarrow> 'a NoIdQueue" where
  "nq_push x t q = \<lparr>nq_list = (nq_next q, x) # nq_list q, nq_time = mm_insert (t, nq_next q) (nq_time q), nq_next = nq_next q + 1\<rparr>"

text \<open>\<^verbatim>\<open>timeout(T &)\<close> takes one element whose deadline has come; \<^verbatim>\<open>timeout()\<close> drops them all.\<close>

definition nq_timeout1 :: "int \<Rightarrow> 'a NoIdQueue \<Rightarrow> 'a option \<times> 'a NoIdQueue" where
  "nq_timeout1 now q = (case nq_time q of
     [] \<Rightarrow> (None, q)
   | (t, i) # es \<Rightarrow>
       if t > now then (None, q)
       else (map_of (nq_list q) i, q\<lparr>nq_list := filter (\<lambda>e. fst e \<noteq> i) (nq_list q), nq_time := es\<rparr>))"

definition nq_timeout :: "int \<Rightarrow> 'a NoIdQueue \<Rightarrow> 'a NoIdQueue" where
  "nq_timeout now q =
     (let gone = map snd (takeWhile (\<lambda>e. fst e \<le> now) (nq_time q))
      in q\<lparr>nq_list := filter (\<lambda>e. fst e \<notin> set gone) (nq_list q), nq_time := dropWhile (\<lambda>e. fst e \<le> now) (nq_time q)\<rparr>)"

section \<open>State\<close>

datatype Callback = NoCallback | NetThreadCallback | ThreadCallback | CoroCallback bool

text \<open>
  What \<^verbatim>\<open>ObjectProxy\<close> uses of a message beside the fields of \<open>ReqMessage\<close>. \<open>CoroCallback b\<close> stands for a message with \<^verbatim>\<open>sched\<close>; \<open>b\<close> says
  that its callback has a \<^verbatim>\<open>CoroParallelBasePtr\<close>.
\<close>

record ObjMessage =
  om_msg :: ReqMessage
  om_hash :: "(64 word \<times> bool) option"
  om_adapter :: "nat option"
  om_callback :: Callback

text \<open>How a message leaves the object proxy: its caller is woken, its callback is run or queued, it joins the results of a coroutine, it is deleted, or nobody has it any more.\<close>

datatype Outcome = Notified | Dispatched | Pushed | Inserted | Deleted | Forgotten

record ObjectProxy =
  op_manager :: EndpointManager
  op_queue :: "nat NoIdQueue"
  op_msgs :: "nat \<Rightarrow> ObjMessage"
  op_connectTimeout :: int
  op_hasInitialize :: bool
  op_invoked :: "(nat \<times> nat) list"
  op_outcomes :: "(nat \<times> Outcome) list"

datatype object_exn = RingExn ring_exn | AdapterExn adapter_exn

abbreviation TARSADAPTERNULL :: int where "TARSADAPTERNULL \<equiv> - 10"
abbreviation TARSINVOKETIMEOUT :: int where "TARSINVOKETIMEOUT \<equiv> - 7"

definition op_msg_update :: "nat \<Rightarrow> (ObjMessage \<Rightarrow> ObjMessage) \<Rightarrow> ObjectProxy \<Rightarrow> ObjectProxy" where
  "op_msg_update m f ob = ob\<lparr>op_msgs := (op_msgs ob)(m := f (op_msgs ob m))\<rparr>"

section \<open>Giving a message back\<close>

definition exception_outcome :: "ObjMessage \<Rightarrow> Outcome" where
  "exception_outcome r = (case m_eType (om_msg r) of
     ONE_WAY \<Rightarrow> Deleted
   | SYNC_CALL \<Rightarrow> Notified
   | ASYNC_CALL \<Rightarrow> (case om_callback r of
       NoCallback \<Rightarrow> Forgotten
     | NetThreadCallback \<Rightarrow> Dispatched
     | ThreadCallback \<Rightarrow> if om_adapter r \<noteq> None then Pushed else Deleted
     | CoroCallback b \<Rightarrow> if b then Inserted else Deleted))"

definition doInvokeException :: "nat \<Rightarrow> ObjectProxy \<Rightarrow> ObjectProxy" where
  "doInvokeException m ob =
     (let ob1 = (if m_eType (om_msg (op_msgs ob m)) = ONE_WAY then ob
                 else op_msg_update m (\<lambda>r. r\<lparr>om_msg := (om_msg r)\<lparr>m_eStatus := REQ_EXC\<rparr>\<rparr>) ob)
      in ob1\<lparr>op_outcomes := op_outcomes ob1 @ [(m, exception_outcome (op_msgs ob1 m))]\<rparr>)"

definition fail_message :: "int \<Rightarrow> nat \<Rightarrow> ObjectProxy \<Rightarrow> ObjectProxy" where
  "fail_message iRet m ob = doInvokeException m (op_msg_update m (\<lambda>r. r\<lparr>om_msg := (om_msg r)\<lparr>m_iRet := iRet\<rparr>\<rparr>) ob)"

section \<open>Handing a message to an adapter\<close>

definition op_hand :: "(ReqMessage \<Rightarrow> byte list) \<Rightarrow> nat \<Rightarrow> int \<Rightarrow> nat \<Rightarrow> nat \<Rightarrow> ObjectProxy \<Rightarrow> (object_exn + unit) \<times> ObjectProxy" where
  "op_hand enc junk now m p ob =
     (let a = em_adapter (op_manager ob) p;
          (r, a1) = ap_invoke enc junk (now div 1000) m (a\<lparr>ap_msgs := (ap_msgs a)(m := om_msg (op_msgs ob m))\<rparr>);
          ob1 = ob\<lparr>op_manager := em_set p (\<lambda>x. x\<lparr>rp_adapter := a1\<rparr>) (op_manager ob), op_invoked := op_invoked ob @ [(m, p)]\<rparr>
      in (case r of Inl e \<Rightarrow> Inl (AdapterExn e) | Inr _ \<Rightarrow> Inr (), ob1))"

section \<open>The registry has answered\<close>

text \<open>\<^verbatim>\<open>doInvoke\<close>: a server is chosen for every waiting message, which starts the connection; the choice itself is thrown away.\<close>

fun choose_for_all :: "int \<Rightarrow> bool \<Rightarrow> nat list \<Rightarrow> (nat \<Rightarrow> ObjMessage) \<Rightarrow> EndpointManager \<Rightarrow> ((object_exn + unit) \<times> EndpointManager) option" where
  "choose_for_all now fails [] msgs em = Some (Inr (), em)"
| "choose_for_all now fails (m # ms) msgs em = (case selectAdapterProxy now fails (om_hash (msgs m)) em of
     None \<Rightarrow> None
   | Some (Some (Inl e), em1) \<Rightarrow> Some (Inl (RingExn e), em1)
   | Some (_, em1) \<Rightarrow> choose_for_all now fails ms msgs em1)"

definition op_doInvoke :: "int \<Rightarrow> bool \<Rightarrow> ObjectProxy \<Rightarrow> ((object_exn + unit) \<times> ObjectProxy) option" where
  "op_doInvoke now fails ob =
     map_option (\<lambda>(r, em). (r, ob\<lparr>op_manager := em\<rparr>))
       (choose_for_all now fails (map snd (nq_list (op_queue ob))) (op_msgs ob) (op_manager ob))"

text \<open>\<open>doNotify\<close> of the manager calls it, which \<open>em_notified\<close> counts.\<close>

definition op_notify :: "int \<Rightarrow> bool \<Rightarrow> EndpointManager \<Rightarrow> ObjectProxy \<Rightarrow> ((object_exn + unit) \<times> ObjectProxy) option" where
  "op_notify now fails em ob =
     (if em_notified em > em_notified (op_manager ob) then op_doInvoke now fails (ob\<lparr>op_manager := em\<rparr>)
      else Some (Inr (), ob\<lparr>op_manager := em\<rparr>))"

definition op_answer :: "int \<Rightarrow> RegEvent \<Rightarrow> ObjectProxy \<Rightarrow> ((object_exn + unit) \<times> ObjectProxy) option" where
  "op_answer now ev ob = op_notify now False (reg_step (now, ev) (op_manager ob)) ob"

text \<open>\<^verbatim>\<open>selectAdapterProxy\<close> for a message: the refresh of the list comes first and may notify.\<close>

definition op_select :: "int \<Rightarrow> bool \<Rightarrow> nat \<Rightarrow> ObjectProxy \<Rightarrow> ((object_exn + nat option option) \<times> ObjectProxy) option" where
  "op_select now fails m ob = (case op_notify now fails (refreshReg now fails (op_manager ob)) ob of
     None \<Rightarrow> None
   | Some (Inl e, ob1) \<Rightarrow> Some (Inl e, ob1)
   | Some (Inr _, ob1) \<Rightarrow>
       (case choose_adapter now (om_hash (op_msgs ob1 m)) (op_manager ob1) of
          None \<Rightarrow> None
        | Some (None, em) \<Rightarrow> Some (Inr None, ob1\<lparr>op_manager := em\<rparr>)
        | Some (Some (Inl e), em) \<Rightarrow> Some (Inl (RingExn e), ob1\<lparr>op_manager := em\<rparr>)
        | Some (Some (Inr p), em) \<Rightarrow> Some (Inr (Some p), ob1\<lparr>op_manager := em\<rparr>)))"

section \<open>The life of a request\<close>

definition deadline :: "ObjMessage \<Rightarrow> int" where
  "deadline r = m_iTimeout (om_msg r) + m_iBeginTime (om_msg r)"

definition op_invoke ::
    "(ReqMessage \<Rightarrow> byte list) \<Rightarrow> nat \<Rightarrow> int \<Rightarrow> bool \<Rightarrow> nat \<Rightarrow> ObjectProxy \<Rightarrow> ((object_exn + unit) \<times> ObjectProxy) option" where
  "op_invoke enc junk now fails m ob = (case op_select now fails m ob of
     None \<Rightarrow> None
   | Some (Inl e, ob1) \<Rightarrow> Some (Inl e, ob1)
   | Some (Inr None, ob1) \<Rightarrow> Some (Inr (), ob1\<lparr>op_queue := nq_push m (deadline (op_msgs ob1 m)) (op_queue ob1)\<rparr>)
   | Some (Inr (Some None), ob1) \<Rightarrow> Some (Inr (), fail_message TARSADAPTERNULL m ob1)
   | Some (Inr (Some (Some p)), ob1) \<Rightarrow>
       let ob2 = op_msg_update m (\<lambda>r. r\<lparr>om_adapter := Some p\<rparr>) ob1
       in if \<not> tr_hasConnected (ap_trans (em_adapter (op_manager ob2) p))
          then Some (Inr (), ob2\<lparr>op_queue := nq_push m (op_connectTimeout ob2 + m_iBeginTime (om_msg (op_msgs ob2 m))) (op_queue ob2)\<rparr>)
          else Some (op_hand enc junk now m p ob2))"

text \<open>
  \<^verbatim>\<open>prepareConnection\<close>. The parameter \<^verbatim>\<open>adapterProxy\<close> is overwritten by the choice for a message with a hash code, and stays so for the messages that
  follow.
\<close>

lemma nq_pop_shrinks: "nq_list q \<noteq> [] \<Longrightarrow> length (nq_list (snd (nq_pop q))) < length (nq_list q)"
  by (auto simp: nq_pop_def split: prod.split)

fun prepare_turns ::
    "(ReqMessage \<Rightarrow> byte list) \<Rightarrow> nat \<Rightarrow> int \<Rightarrow> bool \<Rightarrow> nat \<Rightarrow> nat \<Rightarrow> ObjectProxy \<Rightarrow> ((object_exn + unit) \<times> ObjectProxy) option" where
  "prepare_turns enc junk now fails 0 p ob = None"
| "prepare_turns enc junk now fails (Suc n) p ob =
     (case nq_pop (op_queue ob) of
        (None, _) \<Rightarrow> Some (Inr (), ob)
      | (Some m, q) \<Rightarrow>
          let ob0 = ob\<lparr>op_queue := q\<rparr>;
              hand = (\<lambda>p ob. case op_hand enc junk now m p (op_msg_update m (\<lambda>r. r\<lparr>om_adapter := Some p\<rparr>) ob) of
                       (Inl e, ob2) \<Rightarrow> Some (Inl e, ob2)
                     | (Inr _, ob2) \<Rightarrow> prepare_turns enc junk now fails n p ob2)
          in if om_adapter (op_msgs ob m) = None \<and> om_hash (op_msgs ob m) \<noteq> None
             then (case op_select now fails m ob0 of
                     None \<Rightarrow> None
                   | Some (Inl e, ob1) \<Rightarrow> Some (Inl e, ob1)
                   | Some (Inr (Some (Some p1)), ob1) \<Rightarrow> hand p1 ob1
                   | Some (Inr _, ob1) \<Rightarrow> Some (Inr (), fail_message TARSADAPTERNULL m ob1))
             else hand p ob0)"

text \<open>Every turn takes one message from the queue and none puts one in.\<close>

definition onConnect ::
    "(ReqMessage \<Rightarrow> byte list) \<Rightarrow> nat \<Rightarrow> int \<Rightarrow> bool \<Rightarrow> nat \<Rightarrow> ObjectProxy \<Rightarrow> ((object_exn + unit) \<times> ObjectProxy) option" where
  "onConnect enc junk now fails p ob = prepare_turns enc junk now fails (nq_size (op_queue ob) + 1) p ob"

text \<open>The timer: the adapters first, then the messages of the queue.\<close>

fun adapters_timeout :: "int \<Rightarrow> nat list \<Rightarrow> EndpointManager \<Rightarrow> (adapter_exn + unit) \<times> EndpointManager" where
  "adapters_timeout now [] em = (Inr (), em)"
| "adapters_timeout now (p # ps) em = (case doTimeout now (now div 1000) (em_adapter em p) of
     (r, a) \<Rightarrow>
       let em1 = em_set p (\<lambda>x. x\<lparr>rp_adapter := a\<rparr>) em
       in case r of Inl e \<Rightarrow> (Inl e, em1) | Inr _ \<Rightarrow> adapters_timeout now ps em1)"

lemma nq_timeout1_shrinks: "nq_timeout1 now q = (Some x, q') \<Longrightarrow> length (nq_time q') < length (nq_time q)"
  by (auto simp: nq_timeout1_def split: list.splits prod.splits if_splits)

lemma fail_message_queue [simp]: "op_queue (fail_message iRet m ob) = op_queue ob"
  by (simp add: fail_message_def doInvokeException_def op_msg_update_def Let_def)

function queue_timeout :: "int \<Rightarrow> ObjectProxy \<Rightarrow> ObjectProxy" where
  "queue_timeout now ob = (case nq_timeout1 now (op_queue ob) of
     (None, _) \<Rightarrow> ob
   | (Some m, q) \<Rightarrow> queue_timeout now (fail_message TARSINVOKETIMEOUT m (ob\<lparr>op_queue := q\<rparr>)))"
  by pat_completeness auto
termination
  by (relation "measure (\<lambda>(now, ob). length (nq_time (op_queue ob)))") (auto dest!: nq_timeout1_shrinks[OF sym])

declare queue_timeout.simps [simp del]

definition op_doTimeout :: "int \<Rightarrow> ObjectProxy \<Rightarrow> (object_exn + unit) \<times> ObjectProxy" where
  "op_doTimeout now ob =
     (if \<not> op_hasInitialize ob then (Inr (), ob)
      else case adapters_timeout now (em_vAllProxys (op_manager ob)) (op_manager ob) of
        (Inl e, em) \<Rightarrow> (Inl (AdapterExn e), ob\<lparr>op_manager := em\<rparr>)
      | (Inr _, em) \<Rightarrow> (Inr (), queue_timeout now (ob\<lparr>op_manager := em\<rparr>)))"


section \<open>The waiting queue\<close>

text \<open>Every element of the list has its deadline in the multimap, under the same number, and the deadlines are sorted.\<close>

definition nq_ok :: "'a NoIdQueue \<Rightarrow> bool" where
  "nq_ok q \<longleftrightarrow> distinct (map fst (nq_list q)) \<and> distinct (map snd (nq_time q)) \<and> snd ` set (nq_time q) = fst ` set (nq_list q) \<and>
     (\<forall>e \<in> set (nq_list q). fst e < nq_next q) \<and> sorted (map fst (nq_time q))"

definition nq_held :: "'a NoIdQueue \<Rightarrow> 'a multiset" where
  "nq_held q = mset (map snd (nq_list q))"

text \<open>The elements with their deadlines.\<close>

definition nq_entries :: "'a NoIdQueue \<Rightarrow> (int \<times> 'a) set" where
  "nq_entries q = {(t, x). \<exists>i. (t, i) \<in> set (nq_time q) \<and> (i, x) \<in> set (nq_list q)}"

lemma nq_okD:
  assumes "nq_ok q"
  shows "distinct (map fst (nq_list q))" "distinct (map snd (nq_time q))" "snd ` set (nq_time q) = fst ` set (nq_list q)"
    "\<And>i. i \<in> fst ` set (nq_list q) \<Longrightarrow> i < nq_next q" "sorted (map fst (nq_time q))"
  using assms by (auto simp: nq_ok_def)

lemma nq_new_ok: "nq_ok NoIdQueue_new" "nq_held NoIdQueue_new = {#}"
  by (simp_all add: nq_ok_def nq_held_def NoIdQueue_new_def)

lemma nq_push_ok:
  assumes "nq_ok q"
  shows "nq_ok (nq_push x t q) \<and> nq_held (nq_push x t q) = add_mset x (nq_held q) \<and> nq_entries (nq_push x t q) = insert (t, x) (nq_entries q)"
proof -
  note q = nq_okD[OF assms]
  have new: "nq_next q \<notin> fst ` set (nq_list q)" "nq_next q \<notin> snd ` set (nq_time q)" using q(3,4) by blast+
  have "distinct (map snd (mm_insert (t, nq_next q) (nq_time q)))"
  proof -
    have "mset (map snd (mm_insert (t, nq_next q) (nq_time q))) = mset (map snd ((t, nq_next q) # nq_time q))"
      by simp
    then show ?thesis using q(2) new(2) by (metis distinct.simps(2) list.set_map list.simps(9) mset_eq_imp_distinct_iff snd_conv)
  qed
  then have "nq_ok (nq_push x t q)"
    using q(1-3,5) new sorted_mm_insert[OF q(5), of "(t, nq_next q)"] assms less_SucI
    by (auto simp: nq_ok_def nq_push_def)
  moreover have "nq_entries (nq_push x t q) = insert (t, x) (nq_entries q)"
    using new by (force simp: nq_entries_def nq_push_def)
  ultimately show ?thesis by (simp add: nq_held_def nq_push_def)
qed

lemma nq_pop_ok:
  assumes "nq_ok q" "nq_pop q = (Some x, q')"
  shows "nq_ok q' \<and> nq_held q = add_mset x (nq_held q') \<and> length (nq_list q) = Suc (length (nq_list q'))"
proof -
  note q = nq_okD[OF assms(1)]
  have ne: "nq_list q \<noteq> []" using assms(2) by (auto simp: nq_pop_def)
  obtain i y l where l: "nq_list q = l @ [(i, y)]" using ne by (metis rev_exhaust surj_pair)
  have q': "x = y" "q' = q\<lparr>nq_time := filter (\<lambda>e. snd e \<noteq> i) (nq_time q), nq_list := l\<rparr>" using assms(2) l by (auto simp: nq_pop_def)
  have "distinct (map snd (filter (\<lambda>e. snd e \<noteq> i) (nq_time q)))" "sorted (map fst (filter (\<lambda>e. snd e \<noteq> i) (nq_time q)))"
    using q(2,5) by (auto simp: distinct_map_filter sorted_filter)
  moreover have "snd ` set (filter (\<lambda>e. snd e \<noteq> i) (nq_time q)) = fst ` set l"
  proof -
    have "snd ` set (filter (\<lambda>e. snd e \<noteq> i) (nq_time q)) = snd ` set (nq_time q) - {i}" by auto
    then show ?thesis using q(1,3) l by auto
  qed
  ultimately show ?thesis using q l by (auto simp: nq_ok_def q' nq_held_def)
qed

lemma mset_without:
  "distinct (map fst l) \<Longrightarrow> (i, x) \<in> set l \<Longrightarrow> mset l = add_mset (i, x) (mset (filter (\<lambda>e. fst e \<noteq> i) l))"
proof (induction l)
  case (Cons y l)
  have "filter (\<lambda>e. fst e \<noteq> i) l = l" if "i \<notin> fst ` set l" using that by (intro filter_True) auto
  then show ?case using Cons by (cases "y = (i, x)") (auto simp: image_iff)
qed simp

lemma nq_timeout1_ok:
  assumes "nq_ok q" "nq_timeout1 now q = (r, q')"
  shows "(case r of None \<Rightarrow> q' = q \<and> (\<forall>e \<in> nq_entries q. now < fst e)
    | Some x \<Rightarrow> nq_ok q' \<and> nq_held q = add_mset x (nq_held q') \<and> (\<exists>t \<le> now. nq_entries q = insert (t, x) (nq_entries q')))"
proof (cases "nq_time q")
  case Nil
  then show ?thesis using assms(2) by (auto simp: nq_timeout1_def nq_entries_def)
next
  case (Cons e es)
  obtain t i where e: "e = (t, i)" by (cases e)
  note q = nq_okD[OF assms(1)]
  show ?thesis
  proof (cases "t > now")
    case True
    then show ?thesis using assms(2) Cons e q(5) by (force simp: nq_timeout1_def nq_entries_def)
  next
    case False
    have "i \<in> fst ` set (nq_list q)" using q(3) Cons e by auto
    then obtain x where x: "(i, x) \<in> set (nq_list q)" by auto
    then have m: "map_of (nq_list q) i = Some x" using q(1) by simp
    have r: "r = Some x" "q' = q\<lparr>nq_list := filter (\<lambda>e. fst e \<noteq> i) (nq_list q), nq_time := es\<rparr>"
      using assms(2) Cons e False m by (auto simp: nq_timeout1_def)
    have new: "i \<notin> snd ` set es" using q(2) Cons e by auto
    then have new': "(a, i) \<notin> set es" for a by force
    have "fst ` set (filter (\<lambda>e. fst e \<noteq> i) (nq_list q)) = fst ` set (nq_list q) - {i}" by auto
    then have "nq_ok q'" using q Cons e new by (auto simp: nq_ok_def r(2) distinct_map_filter)
    moreover have "nq_held q = add_mset x (nq_held q')"
      using arg_cong[OF mset_without[OF q(1) x], of "image_mset snd"] by (simp add: nq_held_def r(2))
    moreover have "nq_entries q = insert (t, x) (nq_entries q')"
      using x new' q(1) Cons e by (auto simp: nq_entries_def r(2) eq_key_imp_eq_value)
    moreover have "t \<le> now" using False by simp
    ultimately show ?thesis unfolding r(1) option.case by blast
  qed
qed


section \<open>No message is lost\<close>

text \<open>Where the messages are: in the queue, with an adapter, or given back.\<close>

definition op_held :: "ObjectProxy \<Rightarrow> nat multiset" where
  "op_held ob = nq_held (op_queue ob) + mset (map fst (op_invoked ob)) + mset (map fst (op_outcomes ob))"

definition op_ok :: "ObjectProxy \<Rightarrow> bool" where
  "op_ok ob \<longleftrightarrow> nq_ok (op_queue ob) \<and> sel_ok (op_manager ob)"

text \<open>A choice changes nothing but the manager.\<close>

definition manager_only :: "ObjectProxy \<Rightarrow> ObjectProxy \<Rightarrow> bool" where
  "manager_only ob ob' \<longleftrightarrow> sel_ok (op_manager ob') \<and> ob' = ob\<lparr>op_manager := op_manager ob'\<rparr>"

lemma manager_onlyD:
  assumes "manager_only ob ob'"
  shows "sel_ok (op_manager ob')" "op_queue ob' = op_queue ob" "op_msgs ob' = op_msgs ob" "op_invoked ob' = op_invoked ob"
    "op_outcomes ob' = op_outcomes ob" "op_held ob' = op_held ob" "op_ok ob \<Longrightarrow> op_ok ob'" "op_hasInitialize ob' = op_hasInitialize ob"
proof -
  obtain em where e: "ob' = ob\<lparr>op_manager := em\<rparr>" "sel_ok em" using assms unfolding manager_only_def by (metis ObjectProxy.select_convs(1) ObjectProxy.surjective ObjectProxy.update_convs(1))
  show "sel_ok (op_manager ob')" "op_queue ob' = op_queue ob" "op_msgs ob' = op_msgs ob" "op_invoked ob' = op_invoked ob"
    "op_outcomes ob' = op_outcomes ob" "op_held ob' = op_held ob" "op_ok ob \<Longrightarrow> op_ok ob'" "op_hasInitialize ob' = op_hasInitialize ob"
    using e(2) by (simp_all add: e(1) op_held_def op_ok_def)
qed

text \<open>The only exception of a choice is the one of the ring.\<close>

definition ring_only :: "object_exn + 'a \<Rightarrow> bool" where
  "ring_only r \<longleftrightarrow> (\<forall>e. r = Inl e \<longrightarrow> (\<exists>x. e = RingExn x))"

lemma ring_only_simps [simp]: "ring_only (Inr x)" "ring_only (Inl (RingExn y))"
  by (simp_all add: ring_only_def)

lemma choose_for_all_sel:
  "sel_ok em \<Longrightarrow> \<exists>r em'. choose_for_all now fails ms msgs em = Some (r, em') \<and> sel_ok em' \<and> ring_only r"
proof (induction ms arbitrary: em)
  case (Cons m ms)
  obtain r em1 where s: "selectAdapterProxy now fails (om_hash (msgs m)) em = Some (r, em1)" "sel_ok em1"
    using select_sel[OF Cons.prems] by blast
  show ?case
  proof (cases "\<exists>e. r = Some (Inl e)")
    case True
    then show ?thesis using s by auto
  next
    case False
    then have "choose_for_all now fails (m # ms) msgs em = choose_for_all now fails ms msgs em1"
      using s(1) by (auto split: option.splits sum.splits)
    then show ?thesis using Cons.IH[OF s(2)] by simp
  qed
qed simp

lemma op_notify_only:
  assumes "sel_ok em"
  shows "\<exists>r ob'. op_notify now fails em ob = Some (r, ob') \<and> manager_only ob ob' \<and> ring_only r"
proof -
  obtain r em' where c: "choose_for_all now fails (map snd (nq_list (op_queue ob))) (op_msgs ob) em = Some (r, em')" "sel_ok em'" "ring_only r"
    using choose_for_all_sel[OF assms] by blast
  then show ?thesis using assms by (auto simp: op_notify_def op_doInvoke_def manager_only_def)
qed

lemma manager_only_manager: "manager_only ob ob' \<Longrightarrow> sel_ok em \<Longrightarrow> manager_only ob (ob'\<lparr>op_manager := em\<rparr>)"
  unfolding manager_only_def by (metis ObjectProxy.select_convs(1) ObjectProxy.surjective ObjectProxy.update_convs(1))

lemma op_select_only:
  assumes "sel_ok (op_manager ob)"
  shows "\<exists>r ob'. op_select now fails m ob = Some (r, ob') \<and> manager_only ob ob' \<and> ring_only r"
proof -
  obtain r1 ob1 where n: "op_notify now fails (refreshReg now fails (op_manager ob)) ob = Some (r1, ob1)" "manager_only ob ob1" "ring_only r1"
    using op_notify_only[OF refreshReg_sel[OF assms]] by blast
  obtain r em where c: "choose_adapter now (om_hash (op_msgs ob1 m)) (op_manager ob1) = Some (r, em)" "sel_ok em"
    using choose_sel[OF manager_onlyD(1)[OF n(2)]] by blast
  have m: "manager_only ob (ob1\<lparr>op_manager := em\<rparr>)" using manager_only_manager[OF n(2) c(2)] .
  show ?thesis
  proof (cases r1)
    case (Inl e)
    then show ?thesis using n by (auto simp: op_select_def ring_only_def)
  next
    case (Inr u)
    then show ?thesis using n(1) c(1) m by (cases r) (auto simp: op_select_def split: sum.splits)
  qed
qed

lemma op_msg_update_simps [simp]:
  "op_queue (op_msg_update m f ob) = op_queue ob" "op_manager (op_msg_update m f ob) = op_manager ob"
  "op_held (op_msg_update m f ob) = op_held ob" "op_ok (op_msg_update m f ob) = op_ok ob"
  "op_invoked (op_msg_update m f ob) = op_invoked ob" "op_outcomes (op_msg_update m f ob) = op_outcomes ob"
  by (simp_all add: op_msg_update_def op_held_def op_ok_def)

lemma fail_message_simps [simp]:
  "op_held (fail_message iRet m ob) = add_mset m (op_held ob)" "op_ok (fail_message iRet m ob) = op_ok ob"
  "op_invoked (fail_message iRet m ob) = op_invoked ob"
  by (simp_all add: fail_message_def doInvokeException_def op_msg_update_def op_held_def op_ok_def Let_def)

text \<open>An operation on one adapter.\<close>

lemma sel_ok_adapter: "sel_ok em \<Longrightarrow> sel_ok (em_set p (\<lambda>x. x\<lparr>rp_adapter := a\<rparr>) em)"
proof -
  have "sel_fields (em_set p (\<lambda>x. x\<lparr>rp_adapter := a\<rparr>) em) = sel_fields em"
    by (auto simp: sel_fields_def em_set_def fun_eq_iff)
  then show "sel_ok em \<Longrightarrow> sel_ok (em_set p (\<lambda>x. x\<lparr>rp_adapter := a\<rparr>) em)" using sel_ok_fields by blast
qed

lemma op_hand_ok:
  assumes "op_hand enc junk now m p ob = (r, ob')"
  shows "op_held ob' = add_mset m (op_held ob)" "op_ok ob \<Longrightarrow> op_ok ob'" "op_queue ob' = op_queue ob"
    "op_invoked ob' = op_invoked ob @ [(m, p)]" "\<And>e. r \<noteq> Inl (RingExn e)"
  using assms sel_ok_adapter
  by (auto simp: op_hand_def op_held_def op_ok_def Let_def split: prod.splits sum.splits)

definition kept_plus :: "nat multiset \<Rightarrow> ObjectProxy \<Rightarrow> ((object_exn + unit) \<times> ObjectProxy) option \<Rightarrow> bool" where
  "kept_plus M ob res \<longleftrightarrow> (\<exists>r ob'. res = Some (r, ob') \<and> op_ok ob' \<and>
     ((\<exists>e. r = Inl (RingExn e)) \<or> op_held ob' = op_held ob + M) \<and> (\<exists>l. op_invoked ob' = op_invoked ob @ l))"

lemma kept_plusI:
  "op_ok ob' \<Longrightarrow> (\<exists>e. r = Inl (RingExn e)) \<or> op_held ob' = op_held ob + M \<Longrightarrow> op_invoked ob' = op_invoked ob @ l \<Longrightarrow> kept_plus M ob (Some (r, ob'))"
  unfolding kept_plus_def by blast

lemma op_invoke_kept:
  assumes "op_ok ob"
  shows "kept_plus {#m#} ob (op_invoke enc junk now fails m ob)"
proof -
  obtain r ob1 where s: "op_select now fails m ob = Some (r, ob1)" "manager_only ob ob1" "ring_only r"
    using op_select_only[of ob now fails m] assms unfolding op_ok_def by blast
  note o = manager_onlyD[OF s(2)]
  have ok: "op_ok ob1" using o(7) assms by blast
  have push: "op_ok (ob2\<lparr>op_queue := nq_push m t (op_queue ob2)\<rparr>) \<and> op_held (ob2\<lparr>op_queue := nq_push m t (op_queue ob2)\<rparr>) = add_mset m (op_held ob2)"
    if "op_ok ob2" for ob2 t
    using that nq_push_ok[of "op_queue ob2" m t] by (simp add: op_ok_def op_held_def)
  consider e where "r = Inl e" | "r = Inr None" | "r = Inr (Some None)" | p where "r = Inr (Some (Some p))"
    by (metis not_None_eq sum.exhaust)
  then show ?thesis
  proof cases
    case 1
    then show ?thesis using s ok o by (auto simp: op_invoke_def ring_only_def intro!: kept_plusI[where l = "[]"])
  next
    case 2
    then show ?thesis using s(1) push[OF ok] o by (auto simp: op_invoke_def intro!: kept_plusI[where l = "[]"])
  next
    case 3
    then show ?thesis using s(1) ok o by (auto simp: op_invoke_def intro!: kept_plusI[where l = "[]"])
  next
    case (4 p)
    let ?ob2 = "op_msg_update m (\<lambda>r. r\<lparr>om_adapter := Some p\<rparr>) ob1"
    obtain r2 ob3 where h: "op_hand enc junk now m p ?ob2 = (r2, ob3)" by (cases "op_hand enc junk now m p ?ob2")
    have "kept_plus {#m#} ob (Some (r2, ob3))" using op_hand_ok[OF h] ok o by (intro kept_plusI[where l = "[(m, p)]"]) auto
    then show ?thesis using 4 s(1) push[of ?ob2] ok o h
      by (auto simp: op_invoke_def Let_def intro!: kept_plusI[where l = "[]"])
  qed
qed


lemma prepare_turns_kept:
  assumes "op_ok ob" "nq_size (op_queue ob) < n"
  shows "kept_plus {#} ob (prepare_turns enc junk now fails n p ob)"
  using assms
proof (induction n arbitrary: p ob)
  case (Suc n)
  show ?case
  proof (cases "nq_pop (op_queue ob)")
    case (Pair x q)
    show ?thesis
    proof (cases x)
      case None
      then show ?thesis using Pair Suc.prems(1) by (auto intro!: kept_plusI[where l = "[]"])
    next
      case (Some m)
      define ob0 where "ob0 = ob\<lparr>op_queue := q\<rparr>"
      have q: "nq_ok q" "nq_held (op_queue ob) = add_mset m (nq_held q)" "nq_size (op_queue ob) = Suc (nq_size q)"
        using nq_pop_ok[of "op_queue ob" m q] Suc.prems(1) Pair Some by (simp_all add: op_ok_def nq_size_def)
      have 0: "op_ok ob0" "op_held ob = add_mset m (op_held ob0)" "op_queue ob0 = q" "op_invoked ob0 = op_invoked ob"
        using q Suc.prems(1) by (simp_all add: ob0_def op_ok_def op_held_def)
      define hand where "hand = (\<lambda>p ob. case op_hand enc junk now m p (op_msg_update m (\<lambda>r. r\<lparr>om_adapter := Some p\<rparr>) ob) of
          (Inl e, ob2) \<Rightarrow> Some (Inl e, ob2) | (Inr _, ob2) \<Rightarrow> prepare_turns enc junk now fails n p ob2)"
      have hand: "kept_plus {#} ob (hand p1 ob1)"
        if ob1: "op_ok ob1" "op_held ob1 = op_held ob0" "op_queue ob1 = q" "op_invoked ob1 = op_invoked ob" for p1 ob1
      proof -
        obtain r ob2 where h: "op_hand enc junk now m p1 (op_msg_update m (\<lambda>r. r\<lparr>om_adapter := Some p1\<rparr>) ob1) = (r, ob2)" by fastforce
        note o = op_hand_ok[OF h]
        have 2: "op_held ob2 = op_held ob" "op_ok ob2" "op_queue ob2 = q" "op_invoked ob2 = op_invoked ob @ [(m, p1)]"
          using o ob1 0(2) by simp_all
        show ?thesis
        proof (cases r)
          case (Inl e)
          then show ?thesis using h 2 by (auto simp: hand_def intro!: kept_plusI[where l = "[(m, p1)]"])
        next
          case (Inr u)
          have "kept_plus {#} ob2 (prepare_turns enc junk now fails n p1 ob2)" using Suc.IH[OF 2(2)] 2(3) q(3) Suc.prems(2) by simp
          then have "kept_plus {#} ob (prepare_turns enc junk now fails n p1 ob2)"
            unfolding kept_plus_def using 2(1,4) by (metis append.assoc)
          then show ?thesis using h Inr by (simp add: hand_def)
        qed
      qed
      show ?thesis
      proof (cases "om_adapter (op_msgs ob m) = None \<and> om_hash (op_msgs ob m) \<noteq> None")
        case False
        then have "prepare_turns enc junk now fails (Suc n) p ob = hand p ob0"
          using Pair Some by (auto simp: hand_def ob0_def Let_def)
        then show ?thesis using hand[OF 0(1) refl 0(3,4)] by simp
      next
        case True
        obtain r ob1 where s: "op_select now fails m ob0 = Some (r, ob1)" "manager_only ob0 ob1" "ring_only r"
          using op_select_only[of ob0 now fails m] 0(1) unfolding op_ok_def by blast
        note o = manager_onlyD[OF s(2)]
        have e: "prepare_turns enc junk now fails (Suc n) p ob = (case r of Inl e \<Rightarrow> Some (Inl e, ob1)
            | Inr (Some (Some p1)) \<Rightarrow> hand p1 ob1 | Inr _ \<Rightarrow> Some (Inr (), fail_message TARSADAPTERNULL m ob1))"
          using Pair Some True s(1) by (cases r) (auto simp: hand_def ob0_def Let_def split: option.splits)
        consider e where "r = Inl e" | "r = Inr None \<or> r = Inr (Some None)" | p1 where "r = Inr (Some (Some p1))"
          by (metis not_None_eq sum.exhaust)
        then show ?thesis
        proof cases
          case 1
          then show ?thesis unfolding e using s(3) o 0 by (auto simp: ring_only_def intro!: kept_plusI[where l = "[]"])
        next
          case 2
          have "kept_plus {#} ob (Some (Inr (), fail_message TARSADAPTERNULL m ob1))"
            using o 0 by (intro kept_plusI[where l = "[]"]) auto
          then show ?thesis unfolding e using 2 by auto
        next
          case (3 p1)
          then show ?thesis unfolding e using hand[of ob1 p1] o 0 by simp
        qed
      qed
    qed
  qed
qed simp

lemma onConnect_kept: "op_ok ob \<Longrightarrow> kept_plus {#} ob (onConnect enc junk now fails p ob)"
  unfolding onConnect_def by (rule prepare_turns_kept) simp_all

lemma queue_timeout_kept:
  assumes "nq_ok (op_queue ob)" "op_ok ob"
  shows "op_ok (queue_timeout now ob) \<and> op_held (queue_timeout now ob) = op_held ob \<and> op_invoked (queue_timeout now ob) = op_invoked ob \<and>
    nq_entries (op_queue (queue_timeout now ob)) = {e \<in> nq_entries (op_queue ob). now < fst e}"
  using assms
proof (induction now ob rule: queue_timeout.induct)
  case (1 now ob)
  obtain r q where t: "nq_timeout1 now (op_queue ob) = (r, q)" by (cases "nq_timeout1 now (op_queue ob)")
  note ok = nq_timeout1_ok[OF 1(2) t]
  show ?case
  proof (cases r)
    case None
    then show ?thesis using 1(3) t ok by (subst (1 2 3 4) queue_timeout.simps) auto
  next
    case (Some m)
    define ob1 where "ob1 = fail_message TARSINVOKETIMEOUT m (ob\<lparr>op_queue := q\<rparr>)"
    obtain d where d: "d \<le> now" "nq_entries (op_queue ob) = insert (d, m) (nq_entries q)" using ok Some by auto
    have 2: "op_queue ob1 = q" "nq_ok q" "op_ok ob1" "op_held ob1 = op_held ob" "op_invoked ob1 = op_invoked ob"
    proof -
      have "op_ok (ob\<lparr>op_queue := q\<rparr>)" "op_held ob = add_mset m (op_held (ob\<lparr>op_queue := q\<rparr>))"
        using ok Some 1(3) by (simp_all add: op_ok_def op_held_def)
      then show "op_queue ob1 = q" "nq_ok q" "op_ok ob1" "op_held ob1 = op_held ob" "op_invoked ob1 = op_invoked ob"
        using ok Some by (simp_all add: ob1_def)
    qed
    have e: "queue_timeout now ob = queue_timeout now ob1" by (subst queue_timeout.simps) (simp add: t Some ob1_def)
    have "op_ok (queue_timeout now ob1) \<and> op_held (queue_timeout now ob1) = op_held ob1 \<and> op_invoked (queue_timeout now ob1) = op_invoked ob1 \<and>
        nq_entries (op_queue (queue_timeout now ob1)) = {e \<in> nq_entries (op_queue ob1). now < fst e}"
      unfolding ob1_def by (rule 1(1)[OF t[symmetric] Some]) (use 2 in \<open>simp_all add: ob1_def\<close>)
    moreover have "{e \<in> nq_entries (op_queue ob). now < fst e} = {e \<in> nq_entries q. now < fst e}" using d by auto
    ultimately show ?thesis unfolding e using 2 by simp
  qed
qed

lemma adapters_timeout_sel: "sel_ok em \<Longrightarrow> sel_ok (snd (adapters_timeout now ps em))"
proof (induction ps arbitrary: em)
  case (Cons p ps)
  obtain r a where d: "doTimeout now (now div 1000) (em_adapter em p) = (r, a)" by fastforce
  show ?case using Cons.IH[OF sel_ok_adapter[OF Cons.prems]] sel_ok_adapter[OF Cons.prems] by (cases r) (simp_all add: d Let_def)
qed simp

lemma doTimeout_kept:
  assumes "op_ok ob"
  shows "kept_plus {#} ob (Some (op_doTimeout now ob))"
proof (cases "op_hasInitialize ob")
  case False
  then show ?thesis using assms by (auto simp: op_doTimeout_def intro!: kept_plusI[where l = "[]"])
next
  case True
  obtain r em where a: "adapters_timeout now (em_vAllProxys (op_manager ob)) (op_manager ob) = (r, em)" by fastforce
  define ob1 where "ob1 = ob\<lparr>op_manager := em\<rparr>"
  have 1: "op_ok ob1" "op_held ob1 = op_held ob" "op_invoked ob1 = op_invoked ob"
    using assms adapters_timeout_sel[of "op_manager ob" now "em_vAllProxys (op_manager ob)"] a by (simp_all add: ob1_def op_ok_def op_held_def)
  have "nq_ok (op_queue ob1)" using 1(1) by (simp add: op_ok_def)
  note q = queue_timeout_kept[OF this 1(1), of now]
  show ?thesis
  proof (cases r)
    case (Inl e)
    then have "op_doTimeout now ob = (Inl (AdapterExn e), ob1)" using True a by (simp add: op_doTimeout_def ob1_def)
    then show ?thesis using 1 by (auto intro!: kept_plusI[where l = "[]"])
  next
    case (Inr u)
    then have "op_doTimeout now ob = (Inr (), queue_timeout now ob1)" using True a by (simp add: op_doTimeout_def ob1_def)
    then show ?thesis using 1 q by (auto intro!: kept_plusI[where l = "[]"])
  qed
qed


section \<open>Events\<close>

text \<open>
  What happens to an object: a call, a connection that stands, the timer, an answer of the registry or a list from another thread, and anything
  that happens to the connection of an adapter.
\<close>

datatype object_event =
    Call nat bool
  | Connected nat bool
  | ObjTimer
  | Registry RegEvent
  | Adapter nat AdapterProxy

fun object_step ::
    "(ReqMessage \<Rightarrow> byte list) \<Rightarrow> nat \<Rightarrow> int \<times> object_event \<Rightarrow> ObjectProxy \<Rightarrow> ((object_exn + unit) \<times> ObjectProxy) option" where
  "object_step enc junk (now, Call m fails) ob = op_invoke enc junk now fails m ob"
| "object_step enc junk (now, Connected p fails) ob = onConnect enc junk now fails p ob"
| "object_step enc junk (now, ObjTimer) ob = Some (op_doTimeout now ob)"
| "object_step enc junk (now, Registry ev) ob = op_answer now ev ob"
| "object_step enc junk (now, Adapter p a) ob = Some (Inr (), ob\<lparr>op_manager := em_set p (\<lambda>x. x\<lparr>rp_adapter := a\<rparr>) (op_manager ob)\<rparr>)"

text \<open>
  A run ends at a read behind the ring, after which nothing is defined. An exception of an adapter leaves the event, which is logged by the caller, and the
  run goes on. \<open>None\<close> stands for an event that does not end.
\<close>

fun object_run ::
    "(ReqMessage \<Rightarrow> byte list) \<Rightarrow> nat \<Rightarrow> (int \<times> object_event) list \<Rightarrow> ObjectProxy \<Rightarrow> (ring_exn + ObjectProxy) option" where
  "object_run enc junk [] ob = Some (Inr ob)"
| "object_run enc junk (ev # evs) ob = (case object_step enc junk ev ob of
     None \<Rightarrow> None
   | Some (Inl (RingExn e), _) \<Rightarrow> Some (Inl e)
   | Some (_, ob1) \<Rightarrow> object_run enc junk evs ob1)"

fun calls :: "(int \<times> object_event) list \<Rightarrow> nat list" where
  "calls [] = []"
| "calls ((_, Call m _) # evs) = m # calls evs"
| "calls (_ # evs) = calls evs"

lemma object_step_kept:
  assumes "op_ok ob"
  shows "kept_plus (mset (calls [ev])) ob (object_step enc junk ev ob)"
proof -
  obtain now e where ev: "ev = (now, e)" by (cases ev)
  show ?thesis
  proof (cases e)
    case (Registry r)
    obtain x ob' where n: "op_notify now False (reg_step (now, r) (op_manager ob)) ob = Some (x, ob')" "manager_only ob ob'"
      using op_notify_only[OF reg_step_sel, of "op_manager ob" now False now r ob] assms unfolding op_ok_def by blast
    have "kept_plus {#} ob (Some (x, ob'))" using manager_onlyD[OF n(2)] assms by (intro kept_plusI[where l = "[]"]) auto
    then show ?thesis using n(1) by (simp add: ev Registry op_answer_def)
  next
    case (Adapter p a)
    then show ?thesis
      using assms sel_ok_adapter by (auto simp: ev op_ok_def op_held_def intro!: kept_plusI[where l = "[]"])
  qed (use op_invoke_kept[OF assms] onConnect_kept[OF assms] doTimeout_kept[OF assms] in \<open>simp_all add: ev\<close>)
qed

text \<open>A new object.\<close>

definition object_new :: "ObjectProxy \<Rightarrow> bool" where
  "object_new ob \<longleftrightarrow> op_queue ob = NoIdQueue_new \<and> op_invoked ob = [] \<and> op_outcomes ob = [] \<and> manager_state (op_manager ob)"

lemma object_new_ok: "object_new ob \<Longrightarrow> op_ok ob" "object_new ob \<Longrightarrow> op_held ob = {#}"
  using nq_new_ok manager_state_sel by (auto simp: object_new_def op_ok_def op_held_def)

lemma object_run_kept:
  assumes "op_ok ob"
  shows "\<exists>r. object_run enc junk evs ob = Some r \<and> (\<forall>ob'. r = Inr ob' \<longrightarrow> op_ok ob' \<and> op_held ob' = op_held ob + mset (calls evs))"
  using assms
proof (induction evs arbitrary: ob)
  case (Cons ev evs)
  have c: "calls (ev # evs) = calls [ev] @ calls evs" by (cases ev; cases "snd ev") auto
  obtain r ob1 where s: "object_step enc junk ev ob = Some (r, ob1)" "op_ok ob1" "(\<exists>x. r = Inl (RingExn x)) \<or> op_held ob1 = op_held ob + mset (calls [ev])"
    using object_step_kept[OF Cons.prems, of ev enc junk] unfolding kept_plus_def by blast
  show ?case
  proof (cases "\<exists>x. r = Inl (RingExn x)")
    case True
    then show ?thesis using s(1) by auto
  next
    case False
    then have "object_run enc junk (ev # evs) ob = object_run enc junk evs ob1"
      using s(1) by (auto split: sum.splits object_exn.splits)
    then show ?thesis using Cons.IH[OF s(2)] s(3) False c by (auto simp: ac_simps)
  qed
qed simp



text \<open>
  A message that waits for the connection to its own server, chosen by its hash code or its weight, goes to whichever server of the object connects first.
\<close>

theorem first_connection_takes_all:
  assumes "object_new ob0" "object_run enc junk evs ob0 = Some (Inr ob)"
    and "nq_front (op_queue ob) = Some m" "om_adapter (op_msgs ob m) = Some p" "onConnect enc junk now fails q ob = Some (r, ob')"
  shows "(m, q) \<in> set (op_invoked ob')"
proof -
  have ok: "op_ok ob" using object_run_kept[OF object_new_ok(1)[OF assms(1)], of enc junk evs] assms(2) by auto
  obtain w where w: "nq_pop (op_queue ob) = (Some m, w)" using assms(3)
    by (cases "last (nq_list (op_queue ob))") (auto simp: nq_front_def nq_pop_def split: if_splits)
  have n: "nq_ok w" "nq_size (op_queue ob) = Suc (nq_size w)" using nq_pop_ok[OF _ w] ok by (auto simp: op_ok_def nq_size_def)
  define ob1 where "ob1 = op_msg_update m (\<lambda>r. r\<lparr>om_adapter := Some q\<rparr>) (ob\<lparr>op_queue := w\<rparr>)"
  obtain r2 ob2 where h: "op_hand enc junk now m q ob1 = (r2, ob2)" by fastforce
  have 1: "op_ok ob1" "op_queue ob1 = w" using ok n by (simp_all add: ob1_def op_ok_def)
  note o = op_hand_ok[OF h]
  have e: "onConnect enc junk now fails q ob = (case r2 of Inl e \<Rightarrow> Some (Inl e, ob2)
      | Inr _ \<Rightarrow> prepare_turns enc junk now fails (nq_size (op_queue ob)) q ob2)"
    using w assms(4) h by (simp add: onConnect_def ob1_def Let_def)
  show ?thesis
  proof (cases r2)
    case (Inl x)
    then show ?thesis using e assms(5) o(4) by simp
  next
    case (Inr u)
    have "kept_plus {#} ob2 (prepare_turns enc junk now fails (nq_size (op_queue ob)) q ob2)"
      using o(2)[OF 1(1)] o(3) 1(2) n(2) by (intro prepare_turns_kept) auto
    then show ?thesis using e Inr assms(5) o(4) by (auto simp: kept_plus_def)
  qed
qed

text \<open>The callback of an asynchronous call for which no server was chosen is not called: the message is deleted.\<close>

theorem async_caller_not_told:
  assumes "m_eType (om_msg (op_msgs ob m)) = ASYNC_CALL" "om_callback (op_msgs ob m) = ThreadCallback" "om_adapter (op_msgs ob m) = None"
  shows "op_outcomes (fail_message iRet m ob) = op_outcomes ob @ [(m, Deleted)]"
  using assms by (simp add: fail_message_def doInvokeException_def op_msg_update_def exception_outcome_def Let_def)

section \<open>Examples\<close>

definition some_object :: ObjectProxy where
  "some_object = \<lparr>op_manager = EndpointManager_new 60 undefined, op_queue = NoIdQueue_new,
     op_msgs = (\<lambda>m. \<lparr>om_msg = (new_msg SYNC_CALL [of_nat m])\<lparr>m_iTimeout := 3000, m_iBeginTime := 5\<rparr>, om_hash = Some (of_nat m, True),
        om_adapter = None, om_callback = ThreadCallback\<rparr>),
     op_connectTimeout = 1500, op_hasInitialize = True, op_invoked = [], op_outcomes = []\<rparr>"

lemma some_object_new: "object_new some_object"
  by (simp add: object_new_def some_object_def manager_new)


lemma waiting_object:
  "\<exists>ob. object_run (\<lambda>_. [1]) 0 [(5, Call 7 False)] some_object = Some (Inr ob) \<and> op_hasInitialize ob \<and> op_queue ob = nq_push 7 3005 NoIdQueue_new
    \<and> em_vAllProxys (op_manager ob) = []"
  by (simp add: some_object_def op_invoke_def op_select_def op_notify_def refreshReg_def onUpdateOutter_def choose_adapter_def deadline_def
      EndpointManager_new_def QueryEpBase_new_def new_msg_def Let_def)


end
