(* ===== verification/Connection_List.thy ===== *)
theory Connection_List
  imports Server_Responses Timeout_Queue
begin

text \<open>
  \<^verbatim>\<open>TC_EpollServer::ConnectionList\<close> and what it does to the adapters (\<^verbatim>\<open>util/tc_epoll_server.cpp\<close>): the connections of one network thread by their
  id, the ids that are free, and the multimap of the times at which the connections expire. The counter \<^verbatim>\<open>_free_size\<close> is the length of the list of
  free ids. An iterator of the multimap is an address; following or erasing one whose node is gone is \<open>ClDangling\<close>.
\<close>

section \<open>The queues of an adapter\<close>

datatype CloseType = EM_CLIENT_CLOSE | EM_SERVER_CLOSE | EM_SERVER_TIMEOUT_CLOSE

record RecvContext =
  rc_threadIndex :: nat
  rc_uid :: "32 word"
  rc_adapter :: nat
  rc_buffer :: "byte list"
  rc_isOverload :: bool
  rc_isClosed :: bool
  rc_closeType :: CloseType
  rc_recvTimeStamp :: int

definition RecvContext_new :: "nat \<Rightarrow> 32 word \<Rightarrow> nat \<Rightarrow> bool \<Rightarrow> CloseType \<Rightarrow> int \<Rightarrow> RecvContext" where
  "RecvContext_new threadIndex uid adapter isClosed closeType now =
     \<lparr>rc_threadIndex = threadIndex, rc_uid = uid, rc_adapter = adapter, rc_buffer = [], rc_isOverload = False, rc_isClosed = isClosed,
      rc_closeType = closeType, rc_recvTimeStamp = now\<rparr>"

record DataBuffer =
  db_queueMode :: bool
  db_threadDataQueue :: "RecvContext list list"
  db_iRecvBufferSize :: nat

definition DataBuffer_new :: "nat \<Rightarrow> DataBuffer" where
  "DataBuffer_new handleNum = \<lparr>db_queueMode = False, db_threadDataQueue = replicate handleNum [], db_iRecvBufferSize = 0\<rparr>"

text \<open>\<^verbatim>\<open>getDataQueue\<close>, as the index of the queue.\<close>

definition getDataQueue :: "nat \<Rightarrow> DataBuffer \<Rightarrow> nat" where
  "getDataQueue handleIndex db = (if db_queueMode db then handleIndex mod length (db_threadDataQueue db) else 0)"

definition db_append :: "nat \<Rightarrow> RecvContext list \<Rightarrow> DataBuffer \<Rightarrow> DataBuffer" where
  "db_append i recv db = db\<lparr>db_threadDataQueue := (db_threadDataQueue db)[i := db_threadDataQueue db ! i @ recv]\<rparr>"

definition db_insert :: "RecvContext \<Rightarrow> DataBuffer \<Rightarrow> DataBuffer" where
  "db_insert recv db = db_append (getDataQueue (unat (rc_uid recv)) db) [recv] (db\<lparr>db_iRecvBufferSize := db_iRecvBufferSize db + 1\<rparr>)"

definition db_insert_all :: "RecvContext list \<Rightarrow> DataBuffer \<Rightarrow> DataBuffer" where
  "db_insert_all recv db =
     (if recv = [] then db
      else db_append (getDataQueue (unat (rc_uid (last recv))) db) recv (db\<lparr>db_iRecvBufferSize := db_iRecvBufferSize db + length recv\<rparr>))"

definition db_pop :: "nat \<Rightarrow> DataBuffer \<Rightarrow> RecvContext option \<times> DataBuffer" where
  "db_pop handleIndex db =
     (let i = getDataQueue handleIndex db
      in case db_threadDataQueue db ! i of
           [] \<Rightarrow> (None, db)
         | r # rs \<Rightarrow> (Some r, db\<lparr>db_threadDataQueue := (db_threadDataQueue db)[i := rs], db_iRecvBufferSize := db_iRecvBufferSize db - 1\<rparr>))"

definition db_size :: "nat \<Rightarrow> DataBuffer \<Rightarrow> nat" where
  "db_size handleIndex db = length (db_threadDataQueue db ! getDataQueue handleIndex db)"

text \<open>\<open>sa_timeout\<close> is \<^verbatim>\<open>getTimeout()\<close> in seconds; \<open>sa_netThreads\<close> are the network threads of the adapter, by their place in the server.\<close>

record SrvAdapter =
  sa_ba :: BindAdapter
  sa_tcp :: bool
  sa_timeout :: int
  sa_iMaxConns :: int
  sa_iCurConns :: int
  sa_iQueueTimeout :: int
  sa_iHeaderLen :: int
  sa_dataBuffer :: DataBuffer
  sa_netThreads :: "nat list"

definition isLimitMaxConnection :: "SrvAdapter \<Rightarrow> bool" where
  "isLimitMaxConnection a \<longleftrightarrow> sa_iCurConns a + 1 > sa_iMaxConns a \<or> sa_iCurConns a + 1 > 2 ^ 22 - 1"

definition increaseNowConnection :: "SrvAdapter \<Rightarrow> SrvAdapter" where
  "increaseNowConnection a = a\<lparr>sa_iCurConns := sa_iCurConns a + 1\<rparr>"

definition decreaseNowConnection :: "SrvAdapter \<Rightarrow> SrvAdapter" where
  "decreaseNowConnection a = a\<lparr>sa_iCurConns := sa_iCurConns a - 1\<rparr>"

abbreviation sa_buffer :: "(DataBuffer \<Rightarrow> DataBuffer) \<Rightarrow> SrvAdapter \<Rightarrow> SrvAdapter" where
  "sa_buffer f a \<equiv> a\<lparr>sa_dataBuffer := f (sa_dataBuffer a)\<rparr>"

definition ba_insertRecvQueue :: "RecvContext \<Rightarrow> bool \<Rightarrow> SrvAdapter \<Rightarrow> SrvAdapter" where
  "ba_insertRecvQueue recv force a =
     (let iRet = isOverloadorDiscard (sa_ba a) (int (db_iRecvBufferSize (sa_dataBuffer a)))
      in if iRet = 0 \<or> force then sa_buffer (db_insert recv) a
         else if iRet = - 1 then sa_buffer (db_insert (recv\<lparr>rc_isOverload := True\<rparr>)) a
         else a)"

section \<open>The list of connections\<close>

record Listed =
  ls_uid :: "32 word"
  ls_fd :: int
  ls_tcp :: bool
  ls_adapter :: nat
  ls_threadIndex :: nat
  ls_iLastRefreshTime :: int
  ls_conn :: Connection
  ls_trans :: Transceiver

datatype cl_exn = ClAssert | ClDangling | ClNull | ClBounds

text \<open>\<open>cl_vConn\<close>: the pointer, or \<open>None\<close> for \<^verbatim>\<open>NULL\<close>, and the iterator. A node of \<open>cl_tl\<close> is an address, a time and a place in the array.\<close>

record ConnectionList =
  cl_total :: nat
  cl_free :: "nat list"
  cl_vConn :: "nat \<Rightarrow> Listed option \<times> nat"
  cl_tl :: "(nat \<times> int \<times> nat) list"
  cl_next :: nat
  cl_iConnectionMagic :: "32 word"
  cl_emptyCheckTimeout :: int
  cl_lastTimeoutTime :: int

abbreviation magic_bits :: "32 word" where "magic_bits \<equiv> push_bit 22 0xFFFFFFFF"
abbreviation uid_bits :: "32 word" where "uid_bits \<equiv> drop_bit 9 0x7FFFFFFF"

definition uid_magic :: "32 word \<Rightarrow> 32 word" where "uid_magic uid = and uid magic_bits"
definition uid_index :: "32 word \<Rightarrow> nat" where "uid_index uid = unat (and uid uid_bits)"

definition cl_init :: "nat \<Rightarrow> nat \<Rightarrow> int \<Rightarrow> ConnectionList" where
  "cl_init sz iIndex now =
     \<lparr>cl_total = sz, cl_free = [1..<sz + 1], cl_vConn = (\<lambda>_. (None, 0)), cl_tl = [], cl_next = 0,
      cl_iConnectionMagic = and (push_bit 26 (of_int (now div 1000))) (push_bit 26 0xFFFFFFFF) + and (push_bit 22 (of_nat iIndex)) magic_bits,
      cl_emptyCheckTimeout = 0, cl_lastTimeoutTime = now div 1000\<rparr>"

definition cl_size :: "ConnectionList \<Rightarrow> nat" where
  "cl_size cl = cl_total cl - length (cl_free cl)"

definition cl_getUniqId :: "ConnectionList \<Rightarrow> cl_exn + 32 word \<times> ConnectionList" where
  "cl_getUniqId cl = (case cl_free cl of
     [] \<Rightarrow> Inl ClAssert
   | uid # free \<Rightarrow>
       if uid > 0 \<and> uid \<le> cl_total cl then Inr (or (cl_iConnectionMagic cl) (of_nat uid), cl\<lparr>cl_free := free\<rparr>) else Inl ClAssert)"

definition cl_get :: "32 word \<Rightarrow> ConnectionList \<Rightarrow> cl_exn + Listed option" where
  "cl_get uid cl =
     (if uid_magic uid \<noteq> cl_iConnectionMagic cl then Inr None
      else if uid_index uid > cl_total cl then Inl ClBounds
      else Inr (fst (cl_vConn cl (uid_index uid))))"

text \<open>What \<^verbatim>\<open>add\<close>, \<^verbatim>\<open>refresh\<close> and \<^verbatim>\<open>del\<close> assert of an id.\<close>

definition cl_valid :: "32 word \<Rightarrow> ConnectionList \<Rightarrow> bool" where
  "cl_valid uid cl \<longleftrightarrow> uid_magic uid = cl_iConnectionMagic cl \<and> uid_index uid > 0 \<and> uid_index uid \<le> cl_total cl"

definition tl_insert :: "int \<Rightarrow> nat \<Rightarrow> ConnectionList \<Rightarrow> nat \<times> ConnectionList" where
  "tl_insert t uid cl = (cl_next cl, cl\<lparr>cl_tl := time_insert (cl_next cl, t, uid) (cl_tl cl), cl_next := cl_next cl + 1\<rparr>)"

definition tl_erase :: "nat \<Rightarrow> ConnectionList \<Rightarrow> cl_exn + ConnectionList" where
  "tl_erase a cl = (case erase_at a (cl_tl cl) of Inl _ \<Rightarrow> Inl ClDangling | Inr ns \<Rightarrow> Inr (cl\<lparr>cl_tl := ns\<rparr>))"

definition cl_add :: "Listed \<Rightarrow> int \<Rightarrow> ConnectionList \<Rightarrow> cl_exn + ConnectionList" where
  "cl_add c iTimeOutStamp cl =
     (let uid = uid_index (ls_uid c)
      in if cl_valid (ls_uid c) cl \<and> fst (cl_vConn cl uid) = None
         then (case tl_insert iTimeOutStamp uid cl of (a, cl1) \<Rightarrow> Inr (cl1\<lparr>cl_vConn := (cl_vConn cl1)(uid := (Some c, a))\<rparr>))
         else Inl ClAssert)"

definition cl_refresh :: "32 word \<Rightarrow> int \<Rightarrow> ConnectionList \<Rightarrow> cl_exn + ConnectionList" where
  "cl_refresh muid iTimeOutStamp cl =
     (let uid = uid_index muid
      in case cl_vConn cl uid of
           (None, _) \<Rightarrow> Inl ClAssert
         | (Some c, it) \<Rightarrow>
             if \<not> cl_valid muid cl then Inl ClAssert
             else if iTimeOutStamp - ls_iLastRefreshTime c < 1 then Inr cl
             else (case tl_erase it cl of
                     Inl e \<Rightarrow> Inl e
                   | Inr cl1 \<Rightarrow> (case tl_insert iTimeOutStamp uid cl1 of
                       (a, cl2) \<Rightarrow> Inr (cl2\<lparr>cl_vConn := (cl_vConn cl2)(uid := (Some (c\<lparr>ls_iLastRefreshTime := iTimeOutStamp\<rparr>), a))\<rparr>))))"

definition delNoLock :: "nat \<Rightarrow> ConnectionList \<Rightarrow> cl_exn + ConnectionList" where
  "delNoLock uid cl =
     (if uid > 0 \<and> uid \<le> cl_total cl \<and> fst (cl_vConn cl uid) \<noteq> None
      then (case tl_erase (snd (cl_vConn cl uid)) cl of
              Inl e \<Rightarrow> Inl e
            | Inr cl1 \<Rightarrow> Inr (cl1\<lparr>cl_vConn := (cl_vConn cl1)(uid := (None, snd (cl_vConn cl1 uid))), cl_free := cl_free cl1 @ [uid]\<rparr>))
      else Inl ClAssert)"

definition cl_del :: "32 word \<Rightarrow> ConnectionList \<Rightarrow> cl_exn + ConnectionList" where
  "cl_del muid cl = (if cl_valid muid cl then delNoLock (uid_index muid) cl else Inl ClAssert)"

text \<open>An operation on the connection behind a pointer.\<close>

definition cl_touch :: "nat \<Rightarrow> (Listed \<Rightarrow> Listed) \<Rightarrow> ConnectionList \<Rightarrow> ConnectionList" where
  "cl_touch uid f cl = cl\<lparr>cl_vConn := (cl_vConn cl)(uid := (map_option f (fst (cl_vConn cl uid)), snd (cl_vConn cl uid)))\<rparr>"

section \<open>Closing connections\<close>

type_synonym lists = "ConnectionList \<times> (nat \<Rightarrow> SrvAdapter)"

definition delConnection :: "int \<Rightarrow> Listed \<Rightarrow> bool \<Rightarrow> CloseType \<Rightarrow> lists \<Rightarrow> cl_exn + lists" where
  "delConnection now c bEraseList closeType s = (case s of (cl, ads) \<Rightarrow>
     if \<not> ls_tcp c then Inl ClAssert
     else let a = ls_adapter c;
              recv = RecvContext_new (ls_threadIndex c) (ls_uid c) a True closeType now;
              ads1 = ads(a := ba_insertRecvQueue recv True (ads a));
              cl1 = cl_touch (uid_index (ls_uid c)) (\<lambda>c. c\<lparr>ls_trans := tr_close (ls_trans c)\<rparr>) cl;
              ads2 = ads1(a := decreaseNowConnection (ads1 a))
          in if bEraseList then (case cl_del (ls_uid c) cl1 of Inl e \<Rightarrow> Inl e | Inr cl2 \<Rightarrow> Inr (cl2, ads2))
             else Inr (cl1, ads2))"

definition expire_one :: "int \<Rightarrow> Listed \<Rightarrow> nat \<Rightarrow> lists \<Rightarrow> cl_exn + lists" where
  "expire_one now c uid s = (case delConnection now c False EM_SERVER_TIMEOUT_CLOSE s of
     Inl e \<Rightarrow> Inl e
   | Inr (cl, ads) \<Rightarrow> (case delNoLock uid cl of Inl e \<Rightarrow> Inl e | Inr cl1 \<Rightarrow> Inr (cl1, ads)))"

text \<open>
  The two loops of \<^verbatim>\<open>checkTimeout\<close>. They are given the nodes of the multimap; a node that is no longer there when the iterator stands on it is dangling.
  The first loop has moved its iterator on before it deletes, the second one moves it on afterwards. Times are in milliseconds, and in seconds in the
  multimap.
\<close>

fun expire :: "int \<Rightarrow> (nat \<times> int \<times> nat) list \<Rightarrow> lists \<Rightarrow> cl_exn + lists" where
  "expire now [] s = Inr s"
| "expire now ((a, t, uid) # ns) s =
     (if a \<notin> fst ` set (cl_tl (fst s)) then Inl ClDangling
      else if t > now div 1000 then Inr s
      else case fst (cl_vConn (fst s) uid) of
             None \<Rightarrow> Inl ClNull
           | Some c \<Rightarrow>
               if \<not> ls_tcp c then expire now ns s
               else if sa_timeout (snd s (ls_adapter c)) > 0
               then (case expire_one now c uid s of Inl e \<Rightarrow> Inl e | Inr s1 \<Rightarrow> expire now ns s1)
               else expire now ns s)"

fun expire_empty :: "int \<Rightarrow> (nat \<times> int \<times> nat) list \<Rightarrow> lists \<Rightarrow> cl_exn + lists" where
  "expire_empty now [] s = Inr s"
| "expire_empty now ((a, t, uid) # ns) s =
     (let advance = (\<lambda>s1. if a \<notin> fst ` set (cl_tl (fst s1)) then Inl ClDangling else expire_empty now ns s1)
      in case fst (cl_vConn (fst s) uid) of
           None \<Rightarrow> Inl ClNull
         | Some c \<Rightarrow>
             if ls_tcp c \<and> cn_bEmptyConn (ls_conn c)
             then if t - sa_timeout (snd s (ls_adapter c)) + cl_emptyCheckTimeout (fst s) div 1000 > now div 1000 then Inr s
                  else (case expire_one now c uid s of Inl e \<Rightarrow> Inl e | Inr s1 \<Rightarrow> advance s1)
             else advance s)"

definition checkTimeout :: "int \<Rightarrow> lists \<Rightarrow> cl_exn + lists" where
  "checkTimeout now s = (case s of (cl, ads) \<Rightarrow>
     if now div 1000 - cl_lastTimeoutTime cl < 1 then Inr s
     else let cl1 = cl\<lparr>cl_lastTimeoutTime := now div 1000\<rparr>
          in case expire now (cl_tl cl1) (cl1, ads) of
               Inl e \<Rightarrow> Inl e
             | Inr s1 \<Rightarrow> if cl_emptyCheckTimeout (fst s1) > 0 then expire_empty now (cl_tl (fst s1)) s1 else Inr s1)"

text \<open>\<^verbatim>\<open>closeConnections\<close> goes over a copy of the multimap.\<close>

fun close_all :: "int \<Rightarrow> nat \<Rightarrow> (nat \<times> int \<times> nat) list \<Rightarrow> lists \<Rightarrow> cl_exn + lists" where
  "close_all now adapter [] s = Inr s"
| "close_all now adapter ((_, _, uid) # ns) s = (case fst (cl_vConn (fst s) uid) of
     Some c \<Rightarrow>
       if ls_adapter c = adapter
       then (case delConnection now c True EM_SERVER_CLOSE s of Inl e \<Rightarrow> Inl e | Inr s1 \<Rightarrow> close_all now adapter ns s1)
       else close_all now adapter ns s
   | None \<Rightarrow> close_all now adapter ns s)"

definition closeConnections :: "int \<Rightarrow> nat \<Rightarrow> lists \<Rightarrow> cl_exn + lists" where
  "closeConnections now adapter s = close_all now adapter (cl_tl (fst s)) s"

text \<open>\<^verbatim>\<open>setEmptyConnTimeout\<close> of a network thread.\<close>

abbreviation MIN_EMPTY_CONN_TIMEOUT :: int where "MIN_EMPTY_CONN_TIMEOUT \<equiv> 5 * 1000"

definition setEmptyConnTimeout :: "int \<Rightarrow> ConnectionList \<Rightarrow> ConnectionList" where
  "setEmptyConnTimeout timeout cl = cl\<lparr>cl_emptyCheckTimeout := (if timeout \<ge> MIN_EMPTY_CONN_TIMEOUT then timeout else MIN_EMPTY_CONN_TIMEOUT)\<rparr>"


section \<open>Ids\<close>

lemma uid_bits: "uid_bits = mask 22" "magic_bits = not (mask 22)"
  by (simp_all add: drop_bit_eq_div push_bit_eq_mult mask_eq_exp_minus_1)

lemma uid_parts:
  assumes "uid_magic m = m" "i < 2 ^ 22"
  shows "uid_magic (or m (of_nat i)) = m" "uid_index (or m (of_nat i)) = i"
proof -
  define x :: "32 word" where "x = of_nat i"
  have "take_bit 22 x = x" using assms(2) by (simp add: x_def take_bit_of_nat take_bit_nat_eq_self)
  then have b: "bit x k \<Longrightarrow> k < 22" for k by (metis bit_take_bit_iff)
  have "and m (not (mask 22)) = m" using assms(1) unfolding uid_magic_def uid_bits .
  then have m: "bit m k \<Longrightarrow> \<not> k < 22" for k by (metis bit_and_iff bit_mask_iff bit_not_iff_eq bit_imp_possible_bit possible_bit_def)
  show "uid_magic (or m (of_nat i)) = m"
    unfolding uid_magic_def uid_bits x_def[symmetric] by (rule bit_eqI) (auto simp: bit_simps dest: b m)
  have "and (or m x) (mask 22) = x"
    by (rule bit_eqI) (auto simp: bit_simps dest: b m)
  then show "uid_index (or m (of_nat i)) = i"
    using assms(2) unfolding uid_index_def uid_bits x_def by (simp add: unat_of_nat)
qed

section \<open>The table a list stands for\<close>

text \<open>The connections with the times at which they expire.\<close>

definition cl_conns :: "ConnectionList \<Rightarrow> nat \<Rightarrow> (Listed \<times> int) option" where
  "cl_conns cl i = (case cl_vConn cl i of
     (Some c, a) \<Rightarrow> map_option (\<lambda>(t, _). (c, t)) (map_of (cl_tl cl) a)
   | (None, _) \<Rightarrow> None)"

text \<open>
  Every connection has its node in the multimap, under its iterator, every node has its connection, an id is free or in use, and a connection knows
  its id.
\<close>

definition cl_nodes :: "ConnectionList \<Rightarrow> bool" where
  "cl_nodes cl \<longleftrightarrow> distinct (map fst (cl_tl cl)) \<and> (\<forall>n \<in> set (cl_tl cl). fst n < cl_next cl) \<and> sorted (map (\<lambda>n. fst (snd n)) (cl_tl cl)) \<and>
     (\<forall>(a, t, i) \<in> set (cl_tl cl). \<exists>c. cl_vConn cl i = (Some c, a)) \<and>
     (\<forall>i c a. cl_vConn cl i = (Some c, a) \<longrightarrow> (\<exists>t. (a, t, i) \<in> set (cl_tl cl)) \<and> ls_uid c = or (cl_iConnectionMagic cl) (of_nat i))"

definition cl_ids :: "nat set \<Rightarrow> ConnectionList \<Rightarrow> bool" where
  "cl_ids R cl \<longleftrightarrow> cl_total cl < 2 ^ 22 \<and> uid_magic (cl_iConnectionMagic cl) = cl_iConnectionMagic cl \<and> distinct (cl_free cl) \<and>
     set (cl_free cl) \<inter> dom (cl_conns cl) = {} \<and> R \<inter> (set (cl_free cl) \<union> dom (cl_conns cl)) = {} \<and>
     set (cl_free cl) \<union> dom (cl_conns cl) \<union> R = {1..cl_total cl}"

definition cl_ok :: "ConnectionList \<Rightarrow> bool" where
  "cl_ok cl \<longleftrightarrow> cl_nodes cl \<and> cl_ids {} cl"

lemma cl_nodesD:
  assumes "cl_nodes cl"
  shows "distinct (map fst (cl_tl cl))" "\<And>n. n \<in> set (cl_tl cl) \<Longrightarrow> fst n < cl_next cl" "sorted (map (\<lambda>n. fst (snd n)) (cl_tl cl))"
    "\<And>a t i. (a, t, i) \<in> set (cl_tl cl) \<Longrightarrow> \<exists>c. cl_vConn cl i = (Some c, a)"
    "\<And>i c a. cl_vConn cl i = (Some c, a) \<Longrightarrow> \<exists>t. (a, t, i) \<in> set (cl_tl cl)"
    "\<And>i c a. cl_vConn cl i = (Some c, a) \<Longrightarrow> ls_uid c = or (cl_iConnectionMagic cl) (of_nat i)"
  using assms unfolding cl_nodes_def by (blast, blast, blast, fast, blast, blast)

lemma cl_conns_iff:
  assumes "cl_nodes cl"
  shows "cl_conns cl i = Some (c, t) \<longleftrightarrow> (\<exists>a. cl_vConn cl i = (Some c, a) \<and> (a, t, i) \<in> set (cl_tl cl))"
proof
  assume l: "cl_conns cl i = Some (c, t)"
  then obtain a j where a: "cl_vConn cl i = (Some c, a)" "map_of (cl_tl cl) a = Some (t, j)"
    by (auto simp: cl_conns_def split: prod.splits option.splits)
  then have m: "(a, t, j) \<in> set (cl_tl cl)" by (simp add: map_of_SomeD)
  obtain t' where "(a, t', i) \<in> set (cl_tl cl)" using cl_nodesD(5)[OF assms a(1)] by blast
  then have "(t', i) = (t, j)" using m eq_key_imp_eq_value[OF cl_nodesD(1)[OF assms]] by blast
  then show "\<exists>a. cl_vConn cl i = (Some c, a) \<and> (a, t, i) \<in> set (cl_tl cl)" using a(1) m by blast
next
  assume "\<exists>a. cl_vConn cl i = (Some c, a) \<and> (a, t, i) \<in> set (cl_tl cl)"
  then show "cl_conns cl i = Some (c, t)" using cl_nodesD(1)[OF assms] by (auto simp: cl_conns_def)
qed

lemma cl_conns_None:
  assumes "cl_nodes cl"
  shows "cl_conns cl i = None \<longleftrightarrow> fst (cl_vConn cl i) = None"
proof (cases "cl_vConn cl i")
  case (Pair o' a)
  show ?thesis
  proof (cases o')
    case None
    then show ?thesis using Pair by (simp add: cl_conns_def)
  next
    case (Some c)
    then obtain t where "(a, t, i) \<in> set (cl_tl cl)" using Pair cl_nodesD(5)[OF assms] by blast
    then have "cl_conns cl i = Some (c, t)" using Pair Some cl_conns_iff[OF assms] by blast
    then show ?thesis using Pair Some by simp
  qed
qed

lemma cl_conns_fst:
  assumes "cl_nodes cl"
  shows "fst (cl_vConn cl i) = map_option fst (cl_conns cl i)"
proof (cases "cl_conns cl i")
  case None
  then show ?thesis using cl_conns_None[OF assms] by simp
next
  case (Some x)
  then show ?thesis using cl_conns_iff[OF assms, of i "fst x" "snd x"] by auto
qed

lemma cl_uid:
  assumes "cl_nodes cl" "cl_conns cl i = Some (c, t)"
  shows "ls_uid c = or (cl_iConnectionMagic cl) (of_nat i)"
  using assms cl_conns_iff[OF assms(1)] cl_nodesD(6)[OF assms(1)] by blast

lemma cl_valid_uid:
  assumes "cl_ids R cl" "i \<in> {1..cl_total cl}"
  shows "cl_valid (or (cl_iConnectionMagic cl) (of_nat i)) cl" "uid_index (or (cl_iConnectionMagic cl) (of_nat i)) = i"
proof -
  have "i < 2 ^ 22" "uid_magic (cl_iConnectionMagic cl) = cl_iConnectionMagic cl" using assms by (auto simp: cl_ids_def)
  then show "cl_valid (or (cl_iConnectionMagic cl) (of_nat i)) cl" "uid_index (or (cl_iConnectionMagic cl) (of_nat i)) = i"
    using uid_parts[of "cl_iConnectionMagic cl" i] assms(2) by (simp_all add: cl_valid_def)
qed

lemma cl_ids_range: "cl_ids R cl \<Longrightarrow> i \<in> dom (cl_conns cl) \<or> i \<in> set (cl_free cl) \<Longrightarrow> i \<in> {1..cl_total cl}"
  by (auto simp: cl_ids_def)

lemma magic_init: "uid_magic (cl_iConnectionMagic (cl_init sz iIndex now)) = cl_iConnectionMagic (cl_init sz iIndex now)"
proof -
  have 1: "uid_magic (push_bit 22 z) = push_bit 22 z" for z :: "32 word"
    unfolding uid_magic_def uid_bits by (rule bit_eqI) (auto simp: bit_simps)
  have 2: "and (push_bit 26 x) (push_bit 26 y) = push_bit 22 (push_bit 4 (and x y))" for x y :: "32 word"
    by (simp add: push_bit_and)
  have 3: "and (push_bit 22 v) (push_bit 22 w) = push_bit 22 (and v w)" for v w :: "32 word"
    by (simp only: push_bit_and)
  have "cl_iConnectionMagic (cl_init sz iIndex now) =
      push_bit 22 (push_bit 4 (and (of_int (now div 1000)) 0xFFFFFFFF) + and (of_nat iIndex) 0xFFFFFFFF)"
    unfolding cl_init_def by (simp only: ConnectionList.select_convs 2 3 push_bit_add)
  then show ?thesis using 1 by metis
qed

lemma cl_init_ok:
  assumes "sz < 2 ^ 22"
  shows "cl_ok (cl_init sz iIndex now)" "cl_conns (cl_init sz iIndex now) = Map.empty"
proof -
  show e: "cl_conns (cl_init sz iIndex now) = Map.empty" by (auto simp: cl_conns_def cl_init_def fun_eq_iff)
  have "cl_nodes (cl_init sz iIndex now)" by (simp add: cl_nodes_def cl_init_def)
  moreover have "cl_ids {} (cl_init sz iIndex now)"
    unfolding cl_ids_def using magic_init[of sz iIndex now] assms e by (auto simp: cl_init_def)
  ultimately show "cl_ok (cl_init sz iIndex now)" by (simp add: cl_ok_def)
qed


section \<open>The operations on the table\<close>

definition cl_same :: "ConnectionList \<Rightarrow> ConnectionList \<Rightarrow> bool" where
  "cl_same cl cl' \<longleftrightarrow> cl_total cl' = cl_total cl \<and> cl_iConnectionMagic cl' = cl_iConnectionMagic cl \<and>
     cl_emptyCheckTimeout cl' = cl_emptyCheckTimeout cl \<and> cl_lastTimeoutTime cl' = cl_lastTimeoutTime cl"

lemma cl_same_refl [simp]: "cl_same cl cl" by (simp add: cl_same_def)

lemma cl_same_trans: "cl_same a b \<Longrightarrow> cl_same b c \<Longrightarrow> cl_same a c" by (simp add: cl_same_def)

lemma cl_same_ids:
  assumes "cl_ids R cl" "cl_same cl cl'" "distinct (cl_free cl')" "set (cl_free cl') \<inter> dom (cl_conns cl') = {}"
    "R' \<inter> (set (cl_free cl') \<union> dom (cl_conns cl')) = {}"
    "set (cl_free cl') \<union> dom (cl_conns cl') \<union> R' = set (cl_free cl) \<union> dom (cl_conns cl) \<union> R"
  shows "cl_ids R' cl'"
  using assms by (simp add: cl_ids_def cl_same_def)

lemma cl_node_place:
  assumes "cl_nodes cl" "cl_vConn cl i = (Some c, a)" "n \<in> set (cl_tl cl)"
  shows "fst n = a \<longleftrightarrow> snd (snd n) = i"
proof -
  obtain b t j where n: "n = (b, t, j)" by (cases n)
  obtain c' where c': "cl_vConn cl j = (Some c', b)" using cl_nodesD(4)[OF assms(1)] assms(3) n by blast
  obtain t' where t': "(a, t', i) \<in> set (cl_tl cl)" using cl_nodesD(5)[OF assms(1,2)] by blast
  have "b = a \<Longrightarrow> j = i" using eq_key_imp_eq_value[OF cl_nodesD(1)[OF assms(1)], of a "(t', i)" "(t, j)"] t' assms(3) n by auto
  then show ?thesis using c' assms(2) n by auto
qed

lemma tl_erase_eq:
  assumes "cl_nodes cl" "cl_vConn cl i = (Some c, a)"
  shows "tl_erase a cl = Inr (cl\<lparr>cl_tl := filter (\<lambda>n. snd (snd n) \<noteq> i) (cl_tl cl)\<rparr>)"
proof -
  obtain t where "(a, t, i) \<in> set (cl_tl cl)" using cl_nodesD(5)[OF assms] by blast
  then have "a \<in> fst ` set (cl_tl cl)" by force
  moreover have "filter (\<lambda>n. fst n \<noteq> a) (cl_tl cl) = filter (\<lambda>n. snd (snd n) \<noteq> i) (cl_tl cl)"
    using cl_node_place[OF assms] by (intro filter_cong) auto
  ultimately show ?thesis by (simp add: tl_erase_def erase_at_def)
qed

lemma delNoLock_ok:
  assumes "cl_nodes cl" "cl_ids R cl" "cl_conns cl i = Some x"
  shows "\<exists>cl'. delNoLock i cl = Inr cl' \<and> cl_nodes cl' \<and> cl_ids R cl' \<and> cl_conns cl' = (cl_conns cl)(i := None) \<and>
    cl_free cl' = cl_free cl @ [i] \<and> cl_same cl cl' \<and> cl_tl cl' = filter (\<lambda>n. snd (snd n) \<noteq> i) (cl_tl cl)"
proof -
  obtain c t where x: "x = (c, t)" by (cases x)
  obtain a where a: "cl_vConn cl i = (Some c, a)" using assms(3) x cl_conns_iff[OF assms(1)] by blast
  have r: "i \<in> {1..cl_total cl}" using cl_ids_range[OF assms(2), of i] assms(3) by blast
  define cl' where "cl' = cl\<lparr>cl_tl := filter (\<lambda>n. snd (snd n) \<noteq> i) (cl_tl cl), cl_vConn := (cl_vConn cl)(i := (None, a)), cl_free := cl_free cl @ [i]\<rparr>"
  have e: "delNoLock i cl = Inr cl'" using r a tl_erase_eq[OF assms(1) a] by (simp add: delNoLock_def cl'_def)
  note d = cl_nodesD[OF assms(1)]
  have n: "cl_nodes cl'"
    unfolding cl_nodes_def
  proof (intro conjI)
    show "distinct (map fst (cl_tl cl'))" using d(1) by (simp add: cl'_def distinct_map_filter)
    show "sorted (map (\<lambda>n. fst (snd n)) (cl_tl cl'))" using d(3) by (simp add: cl'_def sorted_filter)
    show "\<forall>(b, t, j) \<in> set (cl_tl cl'). \<exists>c. cl_vConn cl' j = (Some c, b)" using d(4) by (fastforce simp: cl'_def)
    show "\<forall>j c b. cl_vConn cl' j = (Some c, b) \<longrightarrow> (\<exists>t. (b, t, j) \<in> set (cl_tl cl')) \<and> ls_uid c = or (cl_iConnectionMagic cl') (of_nat j)"
      using d(5,6) by (auto simp: cl'_def)
  qed (use d(2) in \<open>auto simp: cl'_def\<close>)
  have c: "cl_conns cl' = (cl_conns cl)(i := None)"
  proof (rule map_le_antisym; unfold map_le_def; intro ballI)
    fix j assume "j \<in> dom (cl_conns cl')"
    then obtain c t where j: "cl_conns cl' j = Some (c, t)" by auto
    then have "j \<noteq> i \<and> cl_conns cl j = Some (c, t)" using cl_conns_iff[OF n] cl_conns_iff[OF assms(1)] by (auto simp: cl'_def split: if_splits)
    then show "cl_conns cl' j = ((cl_conns cl)(i := None)) j" using j by simp
  next
    fix j assume "j \<in> dom ((cl_conns cl)(i := None))"
    then obtain c t where j: "j \<noteq> i" "cl_conns cl j = Some (c, t)" by (auto split: if_splits)
    then have "cl_conns cl' j = Some (c, t)" using cl_conns_iff[OF n] cl_conns_iff[OF assms(1)] by (auto simp: cl'_def)
    then show "((cl_conns cl)(i := None)) j = cl_conns cl' j" using j by simp
  qed
  have s: "cl_same cl cl'" by (simp add: cl_same_def cl'_def)
  have "i \<in> dom (cl_conns cl)" using assms(3) by blast
  then have "cl_ids R cl'" using assms(2) c by (intro cl_same_ids[OF assms(2) s]) (auto simp: cl'_def cl_ids_def)
  then show ?thesis using e n c s by (auto simp: cl'_def)
qed

lemma cl_touch_ok:
  assumes "cl_nodes cl" "cl_ids R cl" "\<And>c. ls_uid (f c) = ls_uid c"
  shows "cl_nodes (cl_touch i f cl)" "cl_ids R (cl_touch i f cl)" "cl_conns (cl_touch i f cl) = (cl_conns cl)(i := map_option (map_prod f id) (cl_conns cl i))"
    "cl_free (cl_touch i f cl) = cl_free cl" "cl_same cl (cl_touch i f cl)" "cl_tl (cl_touch i f cl) = cl_tl cl"
proof -
  let ?cl = "cl_touch i f cl"
  note d = cl_nodesD[OF assms(1)]
  show "cl_nodes ?cl"
    unfolding cl_nodes_def
  proof (intro conjI)
    show "\<forall>(b, t, j) \<in> set (cl_tl ?cl). \<exists>c. cl_vConn ?cl j = (Some c, b)" using d(4) by (fastforce simp: cl_touch_def)
    show "\<forall>j c b. cl_vConn ?cl j = (Some c, b) \<longrightarrow> (\<exists>t. (b, t, j) \<in> set (cl_tl ?cl)) \<and> ls_uid c = or (cl_iConnectionMagic ?cl) (of_nat j)"
    proof (intro allI impI)
      fix j c b assume j: "cl_vConn ?cl j = (Some c, b)"
      then obtain c0 where c0: "cl_vConn cl j = (Some c0, b)" "ls_uid c = ls_uid c0"
        using assms(3) by (cases "j = i"; cases "cl_vConn cl i") (auto simp: cl_touch_def)
      then show "(\<exists>t. (b, t, j) \<in> set (cl_tl ?cl)) \<and> ls_uid c = or (cl_iConnectionMagic ?cl) (of_nat j)"
        using d(5,6)[OF c0(1)] by (simp add: cl_touch_def)
    qed
  qed (use d(1-3) in \<open>auto simp: cl_touch_def\<close>)
  show c: "cl_conns ?cl = (cl_conns cl)(i := map_option (map_prod f id) (cl_conns cl i))"
    by (rule ext) (auto simp: cl_conns_def cl_touch_def option.map_comp o_def case_prod_unfold split: option.splits)
  show s: "cl_same cl ?cl" and "cl_free ?cl = cl_free cl" "cl_tl ?cl = cl_tl cl" by (simp_all add: cl_same_def cl_touch_def)
  moreover have "dom (cl_conns ?cl) = dom (cl_conns cl)" using c by (auto simp: dom_def)
  ultimately show "cl_ids R ?cl" using assms(2) by (simp add: cl_ids_def cl_same_def)
qed


lemma cl_insert_ok:
  fixes t :: int
  assumes "cl_nodes cl" "fst (cl_vConn cl i) = None" "ls_uid c = or (cl_iConnectionMagic cl) (of_nat i)"
  defines "cl' \<equiv> (snd (tl_insert t i cl))\<lparr>cl_vConn := (cl_vConn cl)(i := (Some c, cl_next cl))\<rparr>"
  shows "cl_nodes cl'" "cl_conns cl' = (cl_conns cl)(i \<mapsto> (c, t))" "cl_free cl' = cl_free cl" "cl_same cl cl'"
    "set (cl_tl cl') = insert (cl_next cl, t, i) (set (cl_tl cl))"
proof -
  note d = cl_nodesD[OF assms(1)]
  have new: "cl_next cl \<notin> fst ` set (cl_tl cl)" using d(2) by (metis (no_types, lifting) imageE less_irrefl)
  have f: "cl_tl cl' = time_insert (cl_next cl, t, i) (cl_tl cl)" "cl_next cl' = cl_next cl + 1" "cl_vConn cl' = (cl_vConn cl)(i := (Some c, cl_next cl))"
    "cl_iConnectionMagic cl' = cl_iConnectionMagic cl"
    by (simp_all add: cl'_def tl_insert_def)
  have no: "(a, t, i) \<notin> set (cl_tl cl)" for a t using d(4)[of a t i] assms(2) by auto
  show n: "cl_nodes cl'"
    unfolding cl_nodes_def
  proof (intro conjI)
    show "distinct (map fst (cl_tl cl'))" using d(1) new by (simp add: f distinct_time_insert)
    show "\<forall>n \<in> set (cl_tl cl'). fst n < cl_next cl'" using d(2) by (auto simp: f less_SucI)
    show "sorted (map (\<lambda>n. fst (snd n)) (cl_tl cl'))" using sorted_time_insert[OF d(3)] by (simp add: f)
    show "\<forall>(b, t, j) \<in> set (cl_tl cl'). \<exists>c. cl_vConn cl' j = (Some c, b)" using d(4) no by (auto simp: f)
    show "\<forall>j c b. cl_vConn cl' j = (Some c, b) \<longrightarrow> (\<exists>t. (b, t, j) \<in> set (cl_tl cl')) \<and> ls_uid c = or (cl_iConnectionMagic cl') (of_nat j)"
      using d(5,6) assms(3) by (auto simp: f)
  qed
  show "cl_conns cl' = (cl_conns cl)(i \<mapsto> (c, t))"
  proof (rule ext)
    fix j
    show "cl_conns cl' j = ((cl_conns cl)(i \<mapsto> (c, t))) j"
    proof (cases "j = i")
      case True
      then show ?thesis using cl_conns_iff[OF n, of i c t] by (auto simp: f)
    next
      case False
      have "cl_conns cl' j = Some x \<longleftrightarrow> cl_conns cl j = Some x" for x
        using cl_conns_iff[OF n, of j "fst x" "snd x"] cl_conns_iff[OF assms(1), of j "fst x" "snd x"] False by (auto simp: f)
      then show ?thesis using False by (metis fun_upd_other option.exhaust)
    qed
  qed
  show "cl_free cl' = cl_free cl" "cl_same cl cl'" "set (cl_tl cl') = insert (cl_next cl, t, i) (set (cl_tl cl))"
    by (simp_all add: f cl_same_def) (simp_all add: cl'_def tl_insert_def)
qed

lemma cl_free_simps [simp]:
  "cl_nodes (cl\<lparr>cl_free := is\<rparr>) = cl_nodes cl" "cl_conns (cl\<lparr>cl_free := is\<rparr>) = cl_conns cl" "cl_same cl0 (cl\<lparr>cl_free := is\<rparr>) = cl_same cl0 cl"
  by (simp_all add: cl_nodes_def cl_same_def) (auto simp: cl_conns_def fun_eq_iff split: prod.splits option.splits)

text \<open>A new connection gets the first free id.\<close>

lemma cl_getUniqId_ok:
  assumes "cl_ok cl" "cl_free cl = i # is"
  shows "cl_getUniqId cl = Inr (or (cl_iConnectionMagic cl) (of_nat i), cl\<lparr>cl_free := is\<rparr>)"
    "cl_nodes (cl\<lparr>cl_free := is\<rparr>)" "cl_ids {i} (cl\<lparr>cl_free := is\<rparr>)" "cl_conns (cl\<lparr>cl_free := is\<rparr>) = cl_conns cl"
proof -
  have r: "i \<in> {1..cl_total cl}" using cl_ids_range[of "{}" cl i] assms by (simp add: cl_ok_def)
  then show "cl_getUniqId cl = Inr (or (cl_iConnectionMagic cl) (of_nat i), cl\<lparr>cl_free := is\<rparr>)" using assms(2) by (simp add: cl_getUniqId_def)
  show "cl_conns (cl\<lparr>cl_free := is\<rparr>) = cl_conns cl" by simp
  show "cl_nodes (cl\<lparr>cl_free := is\<rparr>)" using assms(1) by (simp add: cl_ok_def)
  show "cl_ids {i} (cl\<lparr>cl_free := is\<rparr>)" using assms by (auto simp: cl_ok_def cl_ids_def)
qed

lemma cl_add_ok:
  assumes "cl_nodes cl" "cl_ids {i} cl" "ls_uid c = or (cl_iConnectionMagic cl) (of_nat i)"
  shows "\<exists>cl'. cl_add c t cl = Inr cl' \<and> cl_ok cl' \<and> cl_conns cl' = (cl_conns cl)(i \<mapsto> (c, t)) \<and> cl_free cl' = cl_free cl \<and> cl_same cl cl'"
proof -
  have r: "i \<in> {1..cl_total cl}" "cl_conns cl i = None" using assms(2) by (auto simp: cl_ids_def domIff)
  note v = cl_valid_uid[OF assms(2) r(1), folded assms(3)]
  have n: "fst (cl_vConn cl i) = None" using r(2) cl_conns_None[OF assms(1)] by simp
  define cl' where "cl' = (snd (tl_insert t i cl))\<lparr>cl_vConn := (cl_vConn cl)(i := (Some c, cl_next cl))\<rparr>"
  have e: "cl_add c t cl = Inr cl'" using v n by (simp add: cl_add_def Let_def tl_insert_def cl'_def)
  note k = cl_insert_ok[OF assms(1) n assms(3), of t, folded cl'_def]
  have "cl_ids {} cl'" using assms(2) k(2,3) r by (intro cl_same_ids[OF assms(2) k(4)]) (auto simp: cl_ids_def)
  then show ?thesis using e k(1-4) by (auto simp: cl_ok_def)
qed

lemma cl_refresh_ok:
  assumes "cl_ok cl" "cl_conns cl i = Some (c, t0)"
  shows "\<exists>cl'. cl_refresh (ls_uid c) t cl = Inr cl' \<and> cl_ok cl' \<and> cl_free cl' = cl_free cl \<and> cl_same cl cl' \<and>
    cl_conns cl' = (if t - ls_iLastRefreshTime c < 1 then cl_conns cl else (cl_conns cl)(i \<mapsto> (c\<lparr>ls_iLastRefreshTime := t\<rparr>, t)))"
proof -
  have nd: "cl_nodes cl" and id: "cl_ids {} cl" using assms(1) by (simp_all add: cl_ok_def)
  have r: "i \<in> {1..cl_total cl}" using cl_ids_range[OF id, of i] assms(2) by blast
  have u: "ls_uid c = or (cl_iConnectionMagic cl) (of_nat i)" using cl_uid[OF nd assms(2)] .
  note v = cl_valid_uid[OF id r, folded u]
  obtain a where a: "cl_vConn cl i = (Some c, a)" using assms(2) cl_conns_iff[OF nd] by blast
  show ?thesis
  proof (cases "t - ls_iLastRefreshTime c < 1")
    case True
    then show ?thesis using assms(1) v a by (simp add: cl_refresh_def)
  next
    case False
    define c1 where "c1 = c\<lparr>ls_iLastRefreshTime := t\<rparr>"
    define cl0 where "cl0 = cl\<lparr>cl_tl := filter (\<lambda>n. snd (snd n) \<noteq> i) (cl_tl cl)\<rparr>"
    define cl1 where "cl1 = cl0\<lparr>cl_vConn := (cl_vConn cl)(i := (None, a))\<rparr>"
    define cl' where "cl' = (snd (tl_insert t i cl1))\<lparr>cl_vConn := (cl_vConn cl1)(i := (Some c1, cl_next cl1))\<rparr>"
    have e: "cl_refresh (ls_uid c) t cl = Inr cl'"
      using v a False tl_erase_eq[OF nd a] by (simp add: cl_refresh_def tl_insert_def cl'_def cl1_def cl0_def c1_def Let_def)
    obtain cl2 where d: "delNoLock i cl = Inr cl2" "cl_nodes cl2" "cl_conns cl2 = (cl_conns cl)(i := None)" "cl_free cl2 = cl_free cl @ [i]" "cl_same cl cl2"
      using delNoLock_ok[OF nd id assms(2)] by blast
    have "cl1 = cl2\<lparr>cl_free := cl_free cl\<rparr>" using d(1) r a tl_erase_eq[OF nd a] by (auto simp: delNoLock_def cl1_def cl0_def)
    then have n1: "cl_nodes cl1" "cl_conns cl1 = (cl_conns cl)(i := None)" "cl_same cl cl1" "cl_free cl1 = cl_free cl"
      using d(2,3,5) by simp_all
    have c1: "ls_uid c1 = or (cl_iConnectionMagic cl1) (of_nat i)" "fst (cl_vConn cl1 i) = None" using u by (simp_all add: c1_def cl1_def cl0_def)
    note k = cl_insert_ok[OF n1(1) c1(2,1), of t, folded cl'_def]
    have "cl_conns cl' = (cl_conns cl)(i \<mapsto> (c1, t))" using k(2) n1(2) by simp
    moreover have "cl_ids {} cl'" using id assms(2) k(2,3) n1 cl_same_trans[OF n1(3) k(4)]
      by (intro cl_same_ids[OF id]) (auto simp: cl_ids_def)
    ultimately show ?thesis using e k(1,3) n1(4) False cl_same_trans[OF n1(3) k(4)] by (simp add: cl_ok_def c1_def)
  qed
qed


section \<open>Closing connections, on the table\<close>

text \<open>What the adapter of a closed connection sees: a notice in its queue and one connection less.\<close>

definition ad_close :: "int \<Rightarrow> CloseType \<Rightarrow> Listed \<Rightarrow> (nat \<Rightarrow> SrvAdapter) \<Rightarrow> nat \<Rightarrow> SrvAdapter" where
  "ad_close now ct c ads = ads(ls_adapter c :=
     decreaseNowConnection (sa_buffer (db_insert (RecvContext_new (ls_threadIndex c) (ls_uid c) (ls_adapter c) True ct now)) (ads (ls_adapter c))))"

definition closing :: "int \<Rightarrow> CloseType \<Rightarrow> Listed list \<Rightarrow> (nat \<Rightarrow> SrvAdapter) \<Rightarrow> nat \<Rightarrow> SrvAdapter" where
  "closing now ct cs ads = fold (ad_close now ct) cs ads"

lemma closing_simps [simp]: "closing now ct [] ads = ads" "closing now ct (c # cs) ads = closing now ct cs (ad_close now ct c ads)"
  by (simp_all add: closing_def)

lemma ad_close_timeout [simp]: "sa_timeout (ad_close now ct c ads a) = sa_timeout (ads a)"
  by (simp add: ad_close_def decreaseNowConnection_def)

lemma delConnection_ok:
  assumes "cl_ok cl" "cl_conns cl i = Some (c0, t)" "ls_uid c0 = ls_uid c" "ls_tcp c"
  shows "\<exists>cl'. delConnection now c True ct (cl, ads) = Inr (cl', ad_close now ct c ads) \<and> cl_ok cl' \<and> cl_conns cl' = (cl_conns cl)(i := None) \<and>
      cl_free cl' = cl_free cl @ [i] \<and> cl_same cl cl' \<and> cl_tl cl' = filter (\<lambda>n. snd (snd n) \<noteq> i) (cl_tl cl)" (is ?del)
    and "\<exists>cl'. expire_one now c i (cl, ads) = Inr (cl', ad_close now EM_SERVER_TIMEOUT_CLOSE c ads) \<and> cl_ok cl' \<and>
      cl_conns cl' = (cl_conns cl)(i := None) \<and> cl_free cl' = cl_free cl @ [i] \<and> cl_same cl cl' \<and>
      cl_tl cl' = filter (\<lambda>n. snd (snd n) \<noteq> i) (cl_tl cl)" (is ?expire)
proof -
  have nd: "cl_nodes cl" and id: "cl_ids {} cl" using assms(1) by (simp_all add: cl_ok_def)
  have r: "i \<in> {1..cl_total cl}" using cl_ids_range[OF id, of i] assms(2) by blast
  note v = cl_valid_uid[OF id r, folded cl_uid[OF nd assms(2)], unfolded assms(3)]
  define cl1 where "cl1 = cl_touch i (\<lambda>c. c\<lparr>ls_trans := tr_close (ls_trans c)\<rparr>) cl"
  have "ls_uid (c\<lparr>ls_trans := tr_close (ls_trans c)\<rparr>) = ls_uid c" for c by simp
  note k = cl_touch_ok[OF nd id this, where i = i, folded cl1_def]
  have c1: "cl_conns cl1 i = Some (c0\<lparr>ls_trans := tr_close (ls_trans c0)\<rparr>, t)" using k(3) assms(2) by simp
  obtain cl' where d: "delNoLock i cl1 = Inr cl'" "cl_nodes cl'" "cl_ids {} cl'" "cl_conns cl' = (cl_conns cl1)(i := None)"
    "cl_free cl' = cl_free cl1 @ [i]" "cl_same cl1 cl'" "cl_tl cl' = filter (\<lambda>n. snd (snd n) \<noteq> i) (cl_tl cl1)"
    using delNoLock_ok[OF k(1,2) c1] by blast
  have "cl_del (ls_uid c) cl1 = Inr cl'" using v k(5) d(1) by (simp add: cl_del_def cl_valid_def cl_same_def)
  then have "delConnection now c True ct (cl, ads) = Inr (cl', ad_close now ct c ads)"
    using assms(4) v(2) by (simp add: delConnection_def ad_close_def ba_insertRecvQueue_def Let_def cl1_def)
  moreover have "expire_one now c i (cl, ads) = Inr (cl', ad_close now EM_SERVER_TIMEOUT_CLOSE c ads)"
    using assms(4) v(2) d(1) by (simp add: expire_one_def delConnection_def ad_close_def ba_insertRecvQueue_def Let_def cl1_def)
  moreover have "cl_ok cl' \<and> cl_conns cl' = (cl_conns cl)(i := None) \<and> cl_free cl' = cl_free cl @ [i] \<and> cl_same cl cl' \<and>
      cl_tl cl' = filter (\<lambda>n. snd (snd n) \<noteq> i) (cl_tl cl)"
    using d k(3-6) cl_same_trans by (auto simp: cl_ok_def)
  ultimately show ?del ?expire by blast+
qed

lemma cl_tl_conns:
  assumes "cl_ok cl" "(a, t, i) \<in> set (cl_tl cl)"
  obtains c where "cl_conns cl i = Some (c, t)"
  using assms cl_nodesD(4)[of cl a t i] cl_conns_iff[of cl i _ t] by (auto simp: cl_ok_def)

text \<open>The places whose connections the first loop of \<^verbatim>\<open>checkTimeout\<close> closes, in the order of the multimap.\<close>

definition expired :: "(nat \<Rightarrow> SrvAdapter) \<Rightarrow> int \<Rightarrow> Listed \<times> int \<Rightarrow> bool" where
  "expired ads now x \<longleftrightarrow> ls_tcp (fst x) \<and> sa_timeout (ads (ls_adapter (fst x))) > 0 \<and> snd x \<le> now div 1000"

definition dead :: "(nat \<Rightarrow> SrvAdapter) \<Rightarrow> int \<Rightarrow> ConnectionList \<Rightarrow> (nat \<times> int \<times> nat) list \<Rightarrow> nat list" where
  "dead ads now cl ns = filter (\<lambda>i. case cl_conns cl i of Some x \<Rightarrow> expired ads now x | None \<Rightarrow> False) (map (\<lambda>n. snd (snd n)) ns)"

abbreviation cl_conn :: "ConnectionList \<Rightarrow> nat \<Rightarrow> Listed" where "cl_conn cl i \<equiv> fst (the (cl_conns cl i))"

lemma expire_ok:
  assumes "cl_ok cl" "sorted (map (\<lambda>n. fst (snd n)) ns)" "distinct (map fst ns)" "set ns \<subseteq> set (cl_tl cl)"
  shows "\<exists>cl'. expire now ns (cl, ads) = Inr (cl', closing now EM_SERVER_TIMEOUT_CLOSE (map (cl_conn cl) (dead ads now cl ns)) ads) \<and> cl_ok cl' \<and>
    cl_conns cl' = cl_conns cl |` (- set (dead ads now cl ns)) \<and> cl_free cl' = cl_free cl @ dead ads now cl ns \<and> cl_same cl cl'"
  using assms
proof (induction ns arbitrary: cl ads)
  case Nil
  then show ?case by (simp add: dead_def)
next
  case (Cons n ns)
  obtain a t i where n: "n = (a, t, i)" by (cases n)
  have nd: "cl_nodes cl" using Cons.prems(1) by (simp add: cl_ok_def)
  have m: "(a, t, i) \<in> set (cl_tl cl)" "a \<in> fst ` set (cl_tl cl)" using Cons.prems(4) n by force+
  obtain c where c: "cl_conns cl i = Some (c, t)" using cl_tl_conns[OF Cons.prems(1) m(1)] .
  have f: "fst (cl_vConn cl i) = Some c" using cl_conns_fst[OF nd] c by simp
  have e: "expire now (n # ns) (cl, ads) = (if t > now div 1000 then Inr (cl, ads)
      else if expired ads now (c, t) then case expire_one now c i (cl, ads) of Inl e \<Rightarrow> Inl e | Inr s1 \<Rightarrow> expire now ns s1
      else expire now ns (cl, ads))"
    using m(2) f by (simp add: n expired_def)
  have IH: "set ns \<subseteq> set (cl_tl cl')" if "cl_tl cl' = filter (\<lambda>n. snd (snd n) \<noteq> i) (cl_tl cl)" for cl'
  proof
    fix p assume p: "p \<in> set ns"
    obtain c' where c': "cl_vConn cl i = (Some c', a)" using cl_nodesD(4)[OF nd m(1)] by blast
    have "fst p \<noteq> a" using Cons.prems(3) p n by force
    moreover have q: "p \<in> set (cl_tl cl)" using p Cons.prems(4) by auto
    ultimately have "snd (snd p) \<noteq> i" using cl_node_place[OF nd c' q] by blast
    then show "p \<in> set (cl_tl cl')" using that q by simp
  qed
  consider "t > now div 1000" | "t \<le> now div 1000" "expired ads now (c, t)" | "t \<le> now div 1000" "\<not> expired ads now (c, t)" by linarith
  then show ?case
  proof cases
    case 1
    have "\<not> (case cl_conns cl j of Some x \<Rightarrow> expired ads now x | None \<Rightarrow> False)" if j: "(b, t', j) \<in> set (n # ns)" for b t' j
    proof -
      obtain c' where "cl_conns cl j = Some (c', t')" using cl_tl_conns[OF Cons.prems(1), of b t' j] Cons.prems(4) j by blast
      moreover have "t \<le> t'" using Cons.prems(2) j n by auto
      ultimately show ?thesis using 1 by (simp add: expired_def)
    qed
    then have "\<not> (case cl_conns cl (snd (snd p)) of Some x \<Rightarrow> expired ads now x | None \<Rightarrow> False)" if "p \<in> set (n # ns)" for p
      using that by (metis prod.collapse)
    then have "dead ads now cl (n # ns) = []" unfolding dead_def filter_empty_conv set_map by blast
    then show ?thesis using e 1 Cons.prems(1) by simp
  next
    case 2
    obtain cl1 where 1: "expire_one now c i (cl, ads) = Inr (cl1, ad_close now EM_SERVER_TIMEOUT_CLOSE c ads)" "cl_ok cl1"
      "cl_conns cl1 = (cl_conns cl)(i := None)" "cl_free cl1 = cl_free cl @ [i]" "cl_same cl cl1" "cl_tl cl1 = filter (\<lambda>n. snd (snd n) \<noteq> i) (cl_tl cl)"
      using delConnection_ok(2)[OF Cons.prems(1) c refl] 2(2) by (auto simp: expired_def)
    let ?ads = "ad_close now EM_SERVER_TIMEOUT_CLOSE c ads"
    have i: "snd (snd p) \<noteq> i" if "p \<in> set ns" for p using IH[OF 1(6)] 1(6) that by auto
    have x: "expired ?ads now = expired ads now" by (simp add: expired_def fun_eq_iff)
    have "cl_conns cl1 (snd (snd p)) = cl_conns cl (snd (snd p))" if "p \<in> set ns" for p using i[OF that] 1(3) by simp
    then have d: "dead ?ads now cl1 ns = dead ads now cl ns" unfolding dead_def x by (intro filter_cong) auto
    have m': "map (cl_conn cl1) (dead ads now cl ns) = map (cl_conn cl) (dead ads now cl ns)"
      using i 1(3) by (auto simp: dead_def)
    obtain cl' where I: "expire now ns (cl1, ?ads) = Inr (cl', closing now EM_SERVER_TIMEOUT_CLOSE (map (cl_conn cl) (dead ads now cl ns)) ?ads)" "cl_ok cl'"
      "cl_conns cl' = cl_conns cl1 |` (- set (dead ads now cl ns))" "cl_free cl' = cl_free cl1 @ dead ads now cl ns" "cl_same cl1 cl'"
      using Cons.IH[OF 1(2) _ _ IH[OF 1(6)], of ?ads] Cons.prems(2,3) unfolding d m' by auto
    have D: "dead ads now cl (n # ns) = i # dead ads now cl ns" using c 2(2) by (simp add: dead_def n)
    have "cl_conns cl' = cl_conns cl |` (- set (dead ads now cl (n # ns)))" unfolding I(3) D 1(3) by (auto simp: restrict_map_def fun_eq_iff)
    moreover have "cl_free cl' = cl_free cl @ dead ads now cl (n # ns)" using I(4) 1(4) D by simp
    moreover have "expire now (n # ns) (cl, ads) =
        Inr (cl', closing now EM_SERVER_TIMEOUT_CLOSE (map (cl_conn cl) (dead ads now cl (n # ns))) ads)"
      using e 2 1(1) I(1) D c by simp
    ultimately show ?thesis using I(2) cl_same_trans[OF 1(5) I(5)] by blast
  next
    case 3
    then have "dead ads now cl (n # ns) = dead ads now cl ns" using c by (simp add: dead_def n)
    then show ?thesis using Cons.IH[OF Cons.prems(1), of ads] Cons.prems(2-4) e 3 by auto
  qed
qed

lemma checkTimeout_ok:
  fixes now :: int and ads :: "nat \<Rightarrow> SrvAdapter"
  assumes "cl_ok cl" "cl_emptyCheckTimeout cl = 0"
  defines "d \<equiv> (if now div 1000 - cl_lastTimeoutTime cl < 1 then [] else dead ads now cl (cl_tl cl))"
  shows "\<exists>cl'. checkTimeout now (cl, ads) = Inr (cl', closing now EM_SERVER_TIMEOUT_CLOSE (map (cl_conn cl) d) ads) \<and> cl_ok cl' \<and>
    cl_conns cl' = cl_conns cl |` (- set d) \<and> cl_free cl' = cl_free cl @ d \<and> cl_total cl' = cl_total cl \<and>
    cl_iConnectionMagic cl' = cl_iConnectionMagic cl \<and> cl_emptyCheckTimeout cl' = 0"
proof (cases "now div 1000 - cl_lastTimeoutTime cl < 1")
  case True
  then show ?thesis using assms by (simp add: checkTimeout_def restrict_map_def)
next
  case False
  define cl1 where "cl1 = cl\<lparr>cl_lastTimeoutTime := now div 1000\<rparr>"
  have c: "cl_conns cl1 = cl_conns cl" by (auto simp: cl1_def cl_conns_def fun_eq_iff split: prod.splits option.splits)
  then have ok: "cl_ok cl1" using assms(1) by (simp add: cl_ok_def cl_nodes_def cl_ids_def) (simp add: cl1_def)
  have tl: "cl_tl cl1 = cl_tl cl" by (simp add: cl1_def)
  have dd: "dead ads now cl1 (cl_tl cl) = d" using False c by (simp add: d_def dead_def)
  have "cl_nodes cl1" using ok by (simp add: cl_ok_def)
  note n = cl_nodesD(1,3)[OF this]
  obtain cl' where e: "expire now (cl_tl cl1) (cl1, ads) = Inr (cl', closing now EM_SERVER_TIMEOUT_CLOSE (map (cl_conn cl) d) ads)"
    "cl_ok cl'" "cl_conns cl' = cl_conns cl |` (- set d)" "cl_free cl' = cl_free cl1 @ d" "cl_same cl1 cl'"
    using expire_ok[OF ok n(2,1) subset_refl, of now ads] by (auto simp: tl dd c)
  then show ?thesis using False assms(2) by (auto simp: checkTimeout_def cl1_def[symmetric] Let_def cl_same_def) (auto simp: cl1_def)
qed


text \<open>A copy of the multimap has every place once.\<close>

lemma cl_places_distinct:
  assumes "cl_nodes cl"
  shows "distinct (map (\<lambda>n. snd (snd n)) (cl_tl cl))"
  unfolding distinct_map
proof (intro conjI inj_onI)
  show "distinct (cl_tl cl)" using cl_nodesD(1)[OF assms] by (simp add: distinct_map)
  fix n m assume nm: "n \<in> set (cl_tl cl)" "m \<in> set (cl_tl cl)" "snd (snd n) = snd (snd m)"
  obtain a t i where n: "n = (a, t, i)" by (cases n)
  obtain c where c: "cl_vConn cl i = (Some c, a)" using cl_nodesD(4)[OF assms] nm(1) n by blast
  have "fst m = a" using cl_node_place[OF assms c nm(2)] nm(3) n by simp
  then show "n = m" using eq_key_imp_eq_value[OF cl_nodesD(1)[OF assms], of a "snd n" "snd m"] nm(1,2) n by (cases m) auto
qed

definition owned_by :: "nat \<Rightarrow> ConnectionList \<Rightarrow> nat \<Rightarrow> bool" where
  "owned_by a cl i \<longleftrightarrow> (case cl_conns cl i of Some (c, _) \<Rightarrow> ls_adapter c = a | None \<Rightarrow> False)"

lemma close_all_ok:
  assumes "cl_ok cl" "distinct (map (\<lambda>n. snd (snd n)) ns)" "\<And>i c t. cl_conns cl i = Some (c, t) \<Longrightarrow> ls_adapter c = a \<Longrightarrow> ls_tcp c"
  defines "d \<equiv> filter (owned_by a cl) (map (\<lambda>n. snd (snd n)) ns)"
  shows "\<exists>cl'. close_all now a ns (cl, ads) = Inr (cl', closing now EM_SERVER_CLOSE (map (cl_conn cl) d) ads) \<and> cl_ok cl' \<and>
    cl_conns cl' = cl_conns cl |` (- set d) \<and> cl_free cl' = cl_free cl @ d \<and> cl_same cl cl'"
  using assms(1-3) unfolding d_def
proof (induction ns arbitrary: cl ads)
  case Nil
  then show ?case by (simp add: restrict_map_def)
next
  case (Cons n ns)
  obtain b t i where n: "n = (b, t, i)" by (cases n)
  have f: "fst (cl_vConn cl i) = map_option fst (cl_conns cl i)" using cl_conns_fst Cons.prems(1) by (simp add: cl_ok_def)
  show ?case
  proof (cases "owned_by a cl i")
    case False
    then have "close_all now a (n # ns) (cl, ads) = close_all now a ns (cl, ads)"
      using f by (auto simp: n owned_by_def split: option.splits)
    then show ?thesis using Cons.IH[where ads = ads, OF Cons.prems(1) _ Cons.prems(3)] Cons.prems(2) False by (simp add: n)
  next
    case True
    then obtain c t where c: "cl_conns cl i = Some (c, t)" "ls_adapter c = a" by (auto simp: owned_by_def split: option.splits)
    obtain cl1 where 1: "delConnection now c True EM_SERVER_CLOSE (cl, ads) = Inr (cl1, ad_close now EM_SERVER_CLOSE c ads)" "cl_ok cl1"
      "cl_conns cl1 = (cl_conns cl)(i := None)" "cl_free cl1 = cl_free cl @ [i]" "cl_same cl cl1"
      using delConnection_ok(1)[OF Cons.prems(1) c(1) refl Cons.prems(3)[OF c]] by blast
    let ?ads = "ad_close now EM_SERVER_CLOSE c ads" and ?p = "map (\<lambda>n. snd (snd n)) ns"
    have i: "i \<notin> set ?p" using Cons.prems(2) n by simp
    have o: "filter (owned_by a cl1) ?p = filter (owned_by a cl) ?p" using i 1(3) by (intro filter_cong) (auto simp: owned_by_def)
    have m: "map (cl_conn cl1) (filter (owned_by a cl) ?p) = map (cl_conn cl) (filter (owned_by a cl) ?p)" using i 1(3) by auto
    have "\<And>j c t. cl_conns cl1 j = Some (c, t) \<Longrightarrow> ls_adapter c = a \<Longrightarrow> ls_tcp c" using Cons.prems(3) 1(3) by (auto split: if_splits)
    then obtain cl' where I: "close_all now a ns (cl1, ?ads) = Inr (cl', closing now EM_SERVER_CLOSE (map (cl_conn cl) (filter (owned_by a cl) ?p)) ?ads)"
      "cl_ok cl'" "cl_conns cl' = cl_conns cl1 |` (- set (filter (owned_by a cl) ?p))" "cl_free cl' = cl_free cl1 @ filter (owned_by a cl) ?p" "cl_same cl1 cl'"
      using Cons.IH[OF 1(2), of ?ads] Cons.prems(2) unfolding o m by auto
    have "close_all now a (n # ns) (cl, ads) = close_all now a ns (cl1, ?ads)" using f c 1(1) by (simp add: n)
    moreover have "cl_conns cl' = cl_conns cl |` (- set (i # filter (owned_by a cl) ?p))" unfolding I(3) 1(3) by (auto simp: restrict_map_def fun_eq_iff)
    moreover have "filter (owned_by a cl) (map (\<lambda>n. snd (snd n)) (n # ns)) = i # filter (owned_by a cl) ?p" using True n by simp
    ultimately show ?thesis using I 1(4) c(1) cl_same_trans[OF 1(5) I(5)] by simp
  qed
qed

lemma closeConnections_ok:
  fixes a :: nat
  assumes "cl_ok cl" "\<And>i c t. cl_conns cl i = Some (c, t) \<Longrightarrow> ls_adapter c = a \<Longrightarrow> ls_tcp c"
  defines "d \<equiv> filter (owned_by a cl) (map (\<lambda>n. snd (snd n)) (cl_tl cl))"
  shows "\<exists>cl'. closeConnections now a (cl, ads) = Inr (cl', closing now EM_SERVER_CLOSE (map (cl_conn cl) d) ads) \<and> cl_ok cl' \<and>
    cl_conns cl' = cl_conns cl |` (- set d) \<and> cl_free cl' = cl_free cl @ d \<and> cl_same cl cl'"
  using close_all_ok[OF assms(1) cl_places_distinct assms(2)] assms(1) by (auto simp: closeConnections_def d_def cl_ok_def)

text \<open>
  With a time-out for connections that never sent a packet, the second loop erases the node its iterator stands on and then moves that iterator on. The
  first such connection whose time has come makes it dangling.
\<close>

theorem empty_check_dangles:
  assumes "cl_ok cl" "cl_tl cl = (a, t, i) # ns" "cl_conns cl i = Some (c, t)" "ls_tcp c" "cn_bEmptyConn (ls_conn c)"
    and "cl_emptyCheckTimeout cl > 0" "cl_lastTimeoutTime cl < now div 1000" "t > now div 1000"
    and "t - sa_timeout (ads (ls_adapter c)) + cl_emptyCheckTimeout cl div 1000 \<le> now div 1000"
  shows "checkTimeout now (cl, ads) = Inl ClDangling"
proof -
  define cl1 where "cl1 = cl\<lparr>cl_lastTimeoutTime := now div 1000\<rparr>"
  have c1: "cl_conns cl1 = cl_conns cl" by (auto simp: cl1_def cl_conns_def fun_eq_iff split: prod.splits option.splits)
  then have ok: "cl_ok cl1" using assms(1) by (simp add: cl_ok_def cl_nodes_def cl_ids_def) (simp add: cl1_def)
  have tl: "cl_tl cl1 = (a, t, i) # ns" "cl_emptyCheckTimeout cl1 = cl_emptyCheckTimeout cl" using assms(2) by (simp_all add: cl1_def)
  have f: "fst (cl_vConn cl1 i) = Some c" using cl_conns_fst[of cl1 i] ok assms(3) c1 by (simp add: cl_ok_def)
  have "expire now (cl_tl cl1) (cl1, ads) = Inr (cl1, ads)" using assms(8) by (simp add: tl)
  moreover obtain cl2 where 2: "expire_one now c i (cl1, ads) = Inr (cl2, ad_close now EM_SERVER_TIMEOUT_CLOSE c ads)"
    "cl_tl cl2 = filter (\<lambda>n. snd (snd n) \<noteq> i) (cl_tl cl1)"
    using delConnection_ok(2)[OF ok _ refl assms(4), of i t] assms(3) c1 by metis
  moreover have "distinct (map fst (cl_tl cl1))" using cl_nodesD(1) ok by (simp add: cl_ok_def)
  then have "a \<notin> fst ` set (cl_tl cl2)" using 2(2) tl by auto
  ultimately show ?thesis
    using assms(4-7,9) f by (simp add: checkTimeout_def cl1_def[symmetric] tl)
qed

end
