(* ===== verification/Epoll_Server.thy ===== *)
theory Epoll_Server
  imports Connection_List "HOL-Library.Multiset"
begin

text \<open>
  The network threads and the handlers of a server (\<^verbatim>\<open>TC_EpollServer\<close>, \<^verbatim>\<open>NetThread\<close> and \<^verbatim>\<open>Handle\<close> in \<^verbatim>\<open>util/tc_epoll_server.cpp\<close>): connections are accepted
  into the list of a thread, what they send goes through the queue of their adapter to a handler, and the answers come back to the connection by its id,
  at once or through the queue of its thread. Threads and adapters are numbered; \<open>now\<close> is in milliseconds. What is thrown by a transceiver is the flag
  of the result; a failed assertion or an invalid access is \<open>Inl\<close> and ends everything.
\<close>

section \<open>State\<close>

datatype SendCmd = CmdSend | CmdClose

record SendContext =
  sx_context :: RecvContext
  sx_cmd :: SendCmd
  sx_sbuffer :: "byte list"

definition createSendContext :: "RecvContext \<Rightarrow> byte list \<Rightarrow> SendContext" where
  "createSendContext rc bs = \<lparr>sx_context = rc, sx_cmd = CmdSend, sx_sbuffer = bs\<rparr>"

definition createCloseContext :: "RecvContext \<Rightarrow> SendContext" where
  "createCloseContext rc = \<lparr>sx_context = rc, sx_cmd = CmdClose, sx_sbuffer = []\<rparr>"

record NetThread =
  nt_threadIndex :: nat
  nt_list :: ConnectionList
  nt_sbuffer :: "SendContext list"

text \<open>\<open>es_merged\<close>: the network threads run the handlers themselves.\<close>

record EpollServer =
  es_netThreads :: "NetThread list"
  es_adapters :: "nat \<Rightarrow> SrvAdapter"
  es_bindAdapters :: nat
  es_merged :: bool
  es_terminate :: bool

abbreviation es_list :: "EpollServer \<Rightarrow> nat \<Rightarrow> ConnectionList" where
  "es_list s th \<equiv> nt_list (es_netThreads s ! th)"

definition es_thread :: "nat \<Rightarrow> (NetThread \<Rightarrow> NetThread) \<Rightarrow> EpollServer \<Rightarrow> EpollServer" where
  "es_thread th f s = s\<lparr>es_netThreads := (es_netThreads s)[th := f (es_netThreads s ! th)]\<rparr>"

definition es_adapter :: "nat \<Rightarrow> (SrvAdapter \<Rightarrow> SrvAdapter) \<Rightarrow> EpollServer \<Rightarrow> EpollServer" where
  "es_adapter a f s = s\<lparr>es_adapters := (es_adapters s)(a := f (es_adapters s a))\<rparr>"

text \<open>An operation on the list of one thread, which may change the adapters.\<close>

definition on_list :: "nat \<Rightarrow> (lists \<Rightarrow> cl_exn + lists) \<Rightarrow> EpollServer \<Rightarrow> cl_exn + EpollServer" where
  "on_list th f s = (case f (es_list s th, es_adapters s) of
     Inl e \<Rightarrow> Inl e
   | Inr (cl, ads) \<Rightarrow> Inr (es_thread th (\<lambda>nt. nt\<lparr>nt_list := cl\<rparr>) (s\<lparr>es_adapters := ads\<rparr>)))"

section \<open>Start\<close>

text \<open>\<^verbatim>\<open>createEpoll\<close>: every list has room for the connections of all adapters.\<close>

definition maxAllConn :: "nat \<Rightarrow> (nat \<Rightarrow> SrvAdapter) \<Rightarrow> nat" where
  "maxAllConn n ads =
     (let m = nat ((sum_list (map (\<lambda>a. if sa_tcp (ads a) then sa_iMaxConns (ads a) else 1) [0..<n])) mod 2 ^ 32)
      in if m \<ge> 2 ^ 22 then 2 ^ 22 - 1 else m)"

definition createEpoll :: "int \<Rightarrow> EpollServer \<Rightarrow> EpollServer" where
  "createEpoll now s = s\<lparr>es_netThreads := map (\<lambda>nt. nt\<lparr>nt_list := cl_init (maxAllConn (es_bindAdapters s) (es_adapters s)) (nt_threadIndex nt + 1) now\<rparr>)
     (es_netThreads s)\<rparr>"

section \<open>New connections\<close>

definition Connection_new :: "int \<Rightarrow> bool \<Rightarrow> Connection" where
  "Connection_new iHeaderLen bEmptyConn =
     \<lparr>cn_messages = [], cn_recv = [], cn_messageSize = 0, cn_accumulateBufferSize = 0, cn_lastCheckTime = 0, cn_checkSend = [],
      cn_iHeaderLen = iHeaderLen, cn_bClose = False, cn_bEmptyConn = bEmptyConn, cn_queue = [], cn_headers = []\<rparr>"

text \<open>\<^verbatim>\<open>getUniqId\<close>, \<^verbatim>\<open>initialize\<close> and \<^verbatim>\<open>add\<close>, which \<^verbatim>\<open>addTcpConnection\<close> and \<^verbatim>\<open>addUdpConnection\<close> share.\<close>

definition addConnection :: "int \<Rightarrow> nat \<Rightarrow> Listed \<Rightarrow> EpollServer \<Rightarrow> cl_exn + EpollServer" where
  "addConnection now th c = on_list th (\<lambda>(cl, ads). case cl_getUniqId cl of
     Inl e \<Rightarrow> Inl e
   | Inr (uid, cl1) \<Rightarrow> (case cl_add (c\<lparr>ls_uid := uid\<rparr>) (sa_timeout (ads (ls_adapter c)) + now div 1000) cl1 of
       Inl e \<Rightarrow> Inl e
     | Inr cl2 \<Rightarrow> Inr (cl2, ads)))"

definition addTcpConnection :: "int \<Rightarrow> nat \<Rightarrow> Listed \<Rightarrow> EpollServer \<Rightarrow> cl_exn + EpollServer" where
  "addTcpConnection now th c s = map_sum id (es_adapter (ls_adapter c) increaseNowConnection) (addConnection now th c s)"

definition Listed_new :: "int \<Rightarrow> int \<Rightarrow> bool \<Rightarrow> nat \<Rightarrow> nat \<Rightarrow> int \<Rightarrow> Transceiver \<Rightarrow> Listed" where
  "Listed_new now fd tcp adapter threadIndex iHeaderLen tr =
     \<lparr>ls_uid = 0, ls_fd = fd, ls_tcp = tcp, ls_adapter = adapter, ls_threadIndex = threadIndex, ls_iLastRefreshTime = now div 1000,
      ls_conn = Connection_new iHeaderLen tcp, ls_trans = tr\<rparr>"

definition initUdp :: "int \<Rightarrow> nat \<Rightarrow> int \<Rightarrow> Transceiver \<Rightarrow> nat \<Rightarrow> EpollServer \<Rightarrow> cl_exn + EpollServer" where
  "initUdp now th fd tr a s =
     (if sa_tcp (es_adapters s a) then Inr s
      else addConnection now th (Listed_new now fd False a (nt_threadIndex (es_netThreads s ! th)) 0 tr) s)"

text \<open>A thread starts with a connection for every UDP adapter it serves; \<open>fds\<close> are the sockets.\<close>

definition thread_adapters :: "EpollServer \<Rightarrow> nat \<Rightarrow> nat list" where
  "thread_adapters s th = filter (\<lambda>a. th \<in> set (sa_netThreads (es_adapters s a))) [0..<es_bindAdapters s]"

fun initUdps :: "int \<Rightarrow> (nat \<Rightarrow> int) \<Rightarrow> Transceiver \<Rightarrow> nat \<Rightarrow> nat list \<Rightarrow> EpollServer \<Rightarrow> cl_exn + EpollServer" where
  "initUdps now fds tr th [] s = Inr s"
| "initUdps now fds tr th (a # as) s = (case initUdp now th (fds a) tr a s of Inl e \<Rightarrow> Inl e | Inr s1 \<Rightarrow> initUdps now fds tr th as s1)"

fun start_threads :: "int \<Rightarrow> (nat \<Rightarrow> int) \<Rightarrow> Transceiver \<Rightarrow> nat list \<Rightarrow> EpollServer \<Rightarrow> cl_exn + EpollServer" where
  "start_threads now fds tr [] s = Inr s"
| "start_threads now fds tr (th # ths) s =
     (case initUdps now fds tr th (thread_adapters s th) s of Inl e \<Rightarrow> Inl e | Inr s1 \<Rightarrow> start_threads now fds tr ths s1)"

definition start_server :: "int \<Rightarrow> (nat \<Rightarrow> int) \<Rightarrow> Transceiver \<Rightarrow> EpollServer \<Rightarrow> cl_exn + EpollServer" where
  "start_server now fds tr s = start_threads now fds tr [0..<length (es_netThreads s)] (createEpoll now s)"

text \<open>\<^verbatim>\<open>accept\<close> of the socket \<open>fd\<close> at the adapter \<open>a\<close>; \<open>allowed\<close> is what \<^verbatim>\<open>isIpAllow\<close> says of the peer.\<close>

definition es_accept :: "int \<Rightarrow> nat \<Rightarrow> nat \<Rightarrow> bool \<Rightarrow> Transceiver \<Rightarrow> EpollServer \<Rightarrow> cl_exn + EpollServer" where
  "es_accept now a fd allowed tr s =
     (let ad = es_adapters s a;
          i = fd mod length (sa_netThreads ad);
          th = sa_netThreads ad ! i
      in if \<not> allowed \<or> isLimitMaxConnection ad then Inr s
         else addTcpConnection now th (Listed_new now (int fd) True a (nt_threadIndex (es_netThreads s ! th)) (sa_iHeaderLen ad) tr) s)"

section \<open>Sending\<close>

definition nt_delConnection :: "int \<Rightarrow> nat \<Rightarrow> Listed \<Rightarrow> CloseType \<Rightarrow> EpollServer \<Rightarrow> cl_exn + EpollServer" where
  "nt_delConnection now th c ct s = (if ls_tcp c then on_list th (delConnection now c True ct) s else Inr s)"

definition es_touch :: "nat \<Rightarrow> Listed \<Rightarrow> Connection \<Rightarrow> Transceiver \<Rightarrow> EpollServer \<Rightarrow> EpollServer" where
  "es_touch th c c' t' = es_thread th (\<lambda>nt. nt\<lparr>nt_list := cl_touch (uid_index (ls_uid c)) (\<lambda>c. c\<lparr>ls_conn := c', ls_trans := t'\<rparr>) (nt_list nt)\<rparr>)"

definition es_refresh :: "int \<Rightarrow> nat \<Rightarrow> Listed \<Rightarrow> EpollServer \<Rightarrow> cl_exn + EpollServer" where
  "es_refresh now th c s = on_list th (\<lambda>(cl, ads).
     case cl_refresh (ls_uid c) (sa_timeout (ads (ls_adapter c)) + now div 1000) cl of Inl e \<Rightarrow> Inl e | Inr cl1 \<Rightarrow> Inr (cl1, ads)) s"

text \<open>\<^verbatim>\<open>Connection::send\<close>: \<open>None\<close> for an exception.\<close>

definition es_conn_send :: "int \<Rightarrow> nat \<Rightarrow> Listed \<Rightarrow> byte list \<Rightarrow> EpollServer \<Rightarrow> cl_exn + int option \<times> EpollServer" where
  "es_conn_send now th c bs s = (case conn_answer bs (ls_conn c) (ls_trans c) of
     (r, c', t') \<Rightarrow>
       let s1 = es_touch th c c' t' s
       in case r of
            Inl _ \<Rightarrow> Inr (None, s1)
          | Inr ret \<Rightarrow> if ret < 0 then Inr (Some ret, s1) else map_sum id (\<lambda>s2. (Some ret, s2)) (es_refresh now th c s1))"

definition nt_send :: "int \<Rightarrow> bool \<Rightarrow> nat \<Rightarrow> SendContext \<Rightarrow> EpollServer \<Rightarrow> cl_exn + bool \<times> EpollServer" where
  "nt_send now here th sc s =
     (if es_terminate s then Inr (False, s)
      else if \<not> here then Inr (False, es_thread th (\<lambda>nt. nt\<lparr>nt_sbuffer := nt_sbuffer nt @ [sc]\<rparr>) s)
      else case cl_get (rc_uid (sx_context sc)) (es_list s th) of
             Inl e \<Rightarrow> Inl e
           | Inr None \<Rightarrow> Inr (False, s)
           | Inr (Some c) \<Rightarrow> map_sum id (\<lambda>(r, s1). (r = None, s1)) (es_conn_send now th c (sx_sbuffer sc) s))"

definition nt_close :: "nat \<Rightarrow> RecvContext \<Rightarrow> EpollServer \<Rightarrow> EpollServer" where
  "nt_close th rc s =
     (if es_terminate s then s else es_thread th (\<lambda>nt. nt\<lparr>nt_sbuffer := nt_sbuffer nt @ [createCloseContext rc]\<rparr>) s)"

text \<open>\<^verbatim>\<open>TC_EpollServer::send\<close> and \<^verbatim>\<open>close\<close> find the thread through the adapter.\<close>

definition getNetThread :: "EpollServer \<Rightarrow> RecvContext \<Rightarrow> cl_exn + nat" where
  "getNetThread s rc =
     (let ths = sa_netThreads (es_adapters s (rc_adapter rc))
      in if rc_threadIndex rc < length ths then Inr (ths ! rc_threadIndex rc) else Inl ClAssert)"

definition es_send :: "int \<Rightarrow> bool \<Rightarrow> SendContext \<Rightarrow> EpollServer \<Rightarrow> cl_exn + bool \<times> EpollServer" where
  "es_send now here sc s =
     (if sx_sbuffer sc = [] then Inr (False, s)
      else case getNetThread s (sx_context sc) of Inl e \<Rightarrow> Inl e | Inr th \<Rightarrow> nt_send now here th sc s)"

definition es_close :: "RecvContext \<Rightarrow> EpollServer \<Rightarrow> cl_exn + EpollServer" where
  "es_close rc s =
     (if \<not> sa_tcp (es_adapters s (rc_adapter rc)) then Inr s
      else case getNetThread s rc of Inl e \<Rightarrow> Inl e | Inr th \<Rightarrow> Inr (nt_close th rc s))"

text \<open>
  \<^verbatim>\<open>processPipe\<close>: the answers that other threads left for the connections of this one. An exception leaves the loop, and the answers behind it
  wait for the next call.
\<close>

definition pipe_one :: "int \<Rightarrow> nat \<Rightarrow> SendContext \<Rightarrow> EpollServer \<Rightarrow> cl_exn + bool \<times> EpollServer" where
  "pipe_one now th sc s = (case cl_get (rc_uid (sx_context sc)) (es_list s th) of
     Inl e \<Rightarrow> Inl e
   | Inr None \<Rightarrow> Inr (False, s)
   | Inr (Some c) \<Rightarrow>
       (case sx_cmd sc of
          CmdClose \<Rightarrow>
            (case conn_setClose (ls_conn c) (ls_trans c) of (now_empty, c') \<Rightarrow>
               let s1 = es_touch th c c' (ls_trans c) s
               in if now_empty then map_sum id (\<lambda>s2. (False, s2)) (nt_delConnection now th c EM_SERVER_CLOSE s1) else Inr (False, s1))
        | CmdSend \<Rightarrow>
            (case es_conn_send now th c (sx_sbuffer sc) s of
               Inl e \<Rightarrow> Inl e
             | Inr (None, s1) \<Rightarrow> Inr (True, s1)
             | Inr (Some ret, s1) \<Rightarrow>
                 if ret < 0
                 then map_sum id (\<lambda>s2. (False, s2)) (nt_delConnection now th c (if ret = - 1 then EM_CLIENT_CLOSE else EM_SERVER_CLOSE) s1)
                 else Inr (False, s1))))"

fun process_pipe :: "int \<Rightarrow> nat \<Rightarrow> SendContext list \<Rightarrow> EpollServer \<Rightarrow> cl_exn + EpollServer" where
  "process_pipe now th [] s = Inr s"
| "process_pipe now th (sc # scs) s = (case pipe_one now th sc (es_thread th (\<lambda>nt. nt\<lparr>nt_sbuffer := scs\<rparr>) s) of
     Inl e \<Rightarrow> Inl e
   | Inr (thrown, s1) \<Rightarrow> if thrown then Inr s1 else process_pipe now th scs s1)"

definition processPipe :: "int \<Rightarrow> nat \<Rightarrow> EpollServer \<Rightarrow> cl_exn + EpollServer" where
  "processPipe now th s = process_pipe now th (nt_sbuffer (es_netThreads s ! th)) s"

section \<open>The events of a socket\<close>

text \<open>
  \<^verbatim>\<open>handleInputImp\<close>: the packets that \<open>Server_Connection.handleInputImp\<close> puts into the record of the connection are the ones that go to the adapter.
\<close>

definition new_contexts :: "int \<Rightarrow> Listed \<Rightarrow> Connection \<Rightarrow> RecvContext list" where
  "new_contexts now c c' = map (\<lambda>(bs, overload).
     (RecvContext_new (ls_threadIndex c) (ls_uid c) (ls_adapter c) False EM_CLIENT_CLOSE now)\<lparr>rc_buffer := bs, rc_isOverload := overload\<rparr>)
     (drop (length (cn_queue (ls_conn c))) (cn_queue c'))"

definition es_input ::
    "(nat \<Rightarrow> byte) \<Rightarrow> int \<Rightarrow> nat \<Rightarrow> nat \<Rightarrow> bool list \<Rightarrow> bool \<Rightarrow> nat \<Rightarrow> EpollServer \<Rightarrow> (cl_exn + EpollServer) option" where
  "es_input fresh now th i slow err fuel s = (case fst (cl_vConn (es_list s th) i) of
     None \<Rightarrow> Some (Inr s)
   | Some c \<Rightarrow>
       if \<not> ls_tcp c then Some (Inr s)
       else let ad = es_adapters s (ls_adapter c)
            in case handleInputImp fresh (sa_ba ad) (int (db_iRecvBufferSize (sa_dataBuffer ad))) slow err fuel (ls_conn c) (ls_trans c) of
                 None \<Rightarrow> None
               | Some (keep, c', t') \<Rightarrow>
                   let s1 = es_adapter (ls_adapter c) (sa_buffer (db_insert_all (new_contexts now c c'))) (es_touch th c c' t' s)
                   in Some (if keep then es_refresh now th c s1 else nt_delConnection now th c EM_CLIENT_CLOSE s1))"

definition es_output :: "int \<Rightarrow> nat \<Rightarrow> nat \<Rightarrow> bool \<Rightarrow> EpollServer \<Rightarrow> cl_exn + EpollServer" where
  "es_output now th i err s = (case fst (cl_vConn (es_list s th) i) of
     None \<Rightarrow> Inr s
   | Some c \<Rightarrow>
       if \<not> ls_tcp c then Inr s
       else let ad = es_adapters s (ls_adapter c)
            in case conn_sendBuffer (sa_ba ad) (int (db_iRecvBufferSize (sa_dataBuffer ad))) (now div 1000) err (ls_conn c) (ls_trans c) of
                 (r, c', t') \<Rightarrow>
                   let ret = (case r of Inl _ \<Rightarrow> - 1 | Inr ret \<Rightarrow> ret);
                       s1 = es_touch th c c' t' s
                   in if ret < 0 then nt_delConnection now th c (if ret = - 1 then EM_CLIENT_CLOSE else EM_SERVER_CLOSE) s1
                      else es_refresh now th c s1)"

definition es_hangup :: "int \<Rightarrow> nat \<Rightarrow> nat \<Rightarrow> EpollServer \<Rightarrow> cl_exn + EpollServer" where
  "es_hangup now th i s = (case fst (cl_vConn (es_list s th) i) of
     None \<Rightarrow> Inr s
   | Some c \<Rightarrow> nt_delConnection now th c EM_SERVER_CLOSE s)"

section \<open>Handlers\<close>

text \<open>
  What a handler does with a message: it answers, closes the connection, and may end with an exception (\<open>True\<close>). \<^verbatim>\<open>handleClose\<close>, \<^verbatim>\<open>handleTimeout\<close>,
  \<^verbatim>\<open>handleOverload\<close> and \<^verbatim>\<open>handle\<close> are virtual; \<open>default_hooks\<close> has those of \<^verbatim>\<open>Handle\<close> itself.
\<close>

datatype action = Respond "byte list" | CloseIt

record Hooks =
  hk_handle :: "int \<Rightarrow> RecvContext \<Rightarrow> action list \<times> bool"
  hk_handleClose :: "int \<Rightarrow> RecvContext \<Rightarrow> action list \<times> bool"
  hk_handleTimeout :: "int \<Rightarrow> RecvContext \<Rightarrow> action list \<times> bool"
  hk_handleOverload :: "int \<Rightarrow> RecvContext \<Rightarrow> action list \<times> bool"

definition default_hooks :: "(int \<Rightarrow> RecvContext \<Rightarrow> action list \<times> bool) \<Rightarrow> Hooks" where
  "default_hooks h = \<lparr>hk_handle = h, hk_handleClose = (\<lambda>_ _. ([], False)), hk_handleTimeout = (\<lambda>_ _. ([CloseIt], False)),
     hk_handleOverload = (\<lambda>_ _. ([CloseIt], False))\<rparr>"

definition treatment :: "Hooks \<Rightarrow> int \<Rightarrow> int \<Rightarrow> RecvContext \<Rightarrow> action list \<times> bool" where
  "treatment hk now queueTimeout data =
     (if rc_isOverload data then hk_handleOverload hk now data
      else if rc_isClosed data then hk_handleClose hk now data
      else if (of_int (now - rc_recvTimeStamp data) :: 64 word) > of_int queueTimeout then hk_handleTimeout hk now data
      else hk_handle hk now data)"

text \<open>An exception of \<^verbatim>\<open>send\<close> in the middle ends the actions.\<close>

fun do_actions :: "int \<Rightarrow> bool \<Rightarrow> RecvContext \<Rightarrow> action list \<Rightarrow> EpollServer \<Rightarrow> cl_exn + bool \<times> EpollServer" where
  "do_actions now here data [] s = Inr (False, s)"
| "do_actions now here data (CloseIt # as) s = (case es_close data s of Inl e \<Rightarrow> Inl e | Inr s1 \<Rightarrow> do_actions now here data as s1)"
| "do_actions now here data (Respond bs # as) s = (case es_send now here (createSendContext data bs) s of
     Inl e \<Rightarrow> Inl e
   | Inr (thrown, s1) \<Rightarrow> if thrown then Inr (True, s1) else do_actions now here data as s1)"

text \<open>
  \<^verbatim>\<open>handleOnceThread\<close> of the handler \<open>h\<close> of the adapter \<open>a\<close>: up to \<open>n\<close> messages of its queue. A handler that runs in the network thread of its own number
  sends at once. An exception closes the connection of the message.
\<close>

fun handle_loop :: "Hooks \<Rightarrow> int \<Rightarrow> nat \<Rightarrow> nat \<Rightarrow> nat \<Rightarrow> EpollServer \<Rightarrow> cl_exn + EpollServer" where
  "handle_loop hk now a h 0 s = Inr s"
| "handle_loop hk now a h (Suc n) s = (case db_pop h (sa_dataBuffer (es_adapters s a)) of
     (None, _) \<Rightarrow> Inr s
   | (Some data, db) \<Rightarrow>
       let s1 = es_adapter a (sa_buffer (\<lambda>_. db)) s;
           here = (es_merged s \<and> rc_threadIndex data = h)
       in case treatment hk now (sa_iQueueTimeout (es_adapters s a)) data of
            (as, throws) \<Rightarrow> (case do_actions now here data as s1 of
               Inl e \<Rightarrow> Inl e
             | Inr (thrown, s2) \<Rightarrow>
                 if thrown \<or> throws then (case es_close data s2 of Inl e \<Rightarrow> Inl e | Inr s3 \<Rightarrow> handle_loop hk now a h n s3)
                 else handle_loop hk now a h n s2))"

definition handleOnceThread :: "Hooks \<Rightarrow> int \<Rightarrow> nat \<Rightarrow> nat \<Rightarrow> EpollServer \<Rightarrow> cl_exn + EpollServer" where
  "handleOnceThread hk now a h s = handle_loop hk now a h 100 s"

section \<open>Events\<close>

datatype server_event =
    Accept nat nat bool Transceiver
  | Input nat nat "bool list" bool nat
  | Output nat nat bool
  | HangUp nat nat
  | CheckTimeout nat
  | Pipe nat
  | Handle nat nat
  | CloseConnections nat nat

text \<open>An event of a thread or an adapter that does not exist does not happen. \<open>None\<close>: the fuel of \<^verbatim>\<open>doResponse\<close> was too small for what the socket delivers.\<close>

fun server_step :: "Hooks \<Rightarrow> (nat \<Rightarrow> byte) \<Rightarrow> int \<times> server_event \<Rightarrow> EpollServer \<Rightarrow> (cl_exn + EpollServer) option" where
  "server_step hk fresh (now, Accept a fd allowed tr) s =
     Some (if a < es_bindAdapters s \<and> sa_tcp (es_adapters s a) then es_accept now a fd allowed tr s else Inr s)"
| "server_step hk fresh (now, Input th i slow err fuel) s =
     (if th < length (es_netThreads s) then es_input fresh now th i slow err fuel s else Some (Inr s))"
| "server_step hk fresh (now, Output th i err) s = Some (if th < length (es_netThreads s) then es_output now th i err s else Inr s)"
| "server_step hk fresh (now, HangUp th i) s = Some (if th < length (es_netThreads s) then es_hangup now th i s else Inr s)"
| "server_step hk fresh (now, CheckTimeout th) s = Some (if th < length (es_netThreads s) then on_list th (checkTimeout now) s else Inr s)"
| "server_step hk fresh (now, Pipe th) s = Some (if th < length (es_netThreads s) then processPipe now th s else Inr s)"
| "server_step hk fresh (now, Handle a h) s = Some (if a < es_bindAdapters s then handleOnceThread hk now a h s else Inr s)"
| "server_step hk fresh (now, CloseConnections th a) s =
     Some (if th < length (es_netThreads s) \<and> a < es_bindAdapters s \<and> sa_tcp (es_adapters s a) then on_list th (closeConnections now a) s else Inr s)"

fun server_run :: "Hooks \<Rightarrow> (nat \<Rightarrow> byte) \<Rightarrow> (int \<times> server_event) list \<Rightarrow> EpollServer \<Rightarrow> (cl_exn + EpollServer) option" where
  "server_run hk fresh [] s = Some (Inr s)"
| "server_run hk fresh (ev # evs) s = (case server_step hk fresh ev s of
     None \<Rightarrow> None
   | Some (Inl e) \<Rightarrow> Some (Inl e)
   | Some (Inr s1) \<Rightarrow> server_run hk fresh evs s1)"


section \<open>Counting the connections of an adapter\<close>

definition cnt :: "ConnectionList \<Rightarrow> nat \<Rightarrow> nat" where
  "cnt cl a = card {i. owned_by a cl i}"

lemma owned_iff: "owned_by a cl i \<longleftrightarrow> (\<exists>c t. cl_conns cl i = Some (c, t) \<and> ls_adapter c = a)"
  by (auto simp: owned_by_def split: option.splits)

lemma owned_finite:
  assumes "cl_ids R cl"
  shows "finite {i. owned_by a cl i}"
proof (rule finite_subset)
  show "{i. owned_by a cl i} \<subseteq> {1..cl_total cl}" using cl_ids_range[OF assms] by (fastforce simp: owned_iff)
qed simp

lemma cnt_cong: "cl_conns cl' = cl_conns cl \<Longrightarrow> cnt cl' a = cnt cl a"
  by (simp add: cnt_def owned_by_def)

lemma cnt_restrict:
  assumes "cl_ids R cl" "cl_conns cl' = cl_conns cl |` (- set d)" "distinct d"
  shows "int (cnt cl' a) = int (cnt cl a) - int (length (filter (owned_by a cl) d))"
proof -
  let ?A = "{i. owned_by a cl i}" and ?D = "set (filter (owned_by a cl) d)"
  have e: "{i. owned_by a cl' i} = ?A - ?D"
    using assms(2) by (auto simp: owned_iff restrict_map_def split: if_splits)
  have c: "card ?D = length (filter (owned_by a cl) d)" using assms(3) distinct_card by (metis distinct_filter)
  have sub: "?D \<subseteq> ?A" by auto
  have "card (?A - ?D) = card ?A - card ?D" using sub by (rule card_Diff_subset[OF finite_set])
  moreover have "card ?D \<le> card ?A" using owned_finite[OF assms(1)] sub by (rule card_mono)
  ultimately show ?thesis unfolding cnt_def e c by linarith
qed

lemma cnt_remove:
  assumes "cl_ids R cl" "cl_conns cl i = Some (c, t)" "cl_conns cl' = (cl_conns cl)(i := None)"
  shows "int (cnt cl' a) = int (cnt cl a) - (if ls_adapter c = a then 1 else 0)"
proof -
  have "cl_conns cl' = cl_conns cl |` (- set [i])" using assms(3) by (auto simp: restrict_map_def)
  from cnt_restrict[OF assms(1) this] show ?thesis using assms(2) by (simp add: owned_by_def)
qed

lemma cnt_insert:
  assumes "cl_ids R cl" "cl_conns cl i = None" "cl_conns cl' = (cl_conns cl)(i \<mapsto> (c, t))"
  shows "cnt cl' a = cnt cl a + (if ls_adapter c = a then 1 else 0)"
proof -
  have "{j. owned_by a cl' j} = (if ls_adapter c = a then insert i {j. owned_by a cl j} else {j. owned_by a cl j})"
    using assms(2,3) by (auto simp: owned_iff)
  moreover have "i \<notin> {j. owned_by a cl j}" using assms(2) by (simp add: owned_iff)
  ultimately show ?thesis using owned_finite[OF assms(1), of a] by (simp add: cnt_def)
qed

lemma cnt_update:
  assumes "cl_conns cl i = Some (c, t)" "cl_conns cl' = (cl_conns cl)(i \<mapsto> (c', t'))" "ls_adapter c' = ls_adapter c"
  shows "cnt cl' a = cnt cl a"
proof -
  have "owned_by a cl' j = owned_by a cl j" for j using assms by (auto simp: owned_iff)
  then show ?thesis by (simp add: cnt_def)
qed

lemma cnt_sum:
  assumes "cl_ids R cl" "\<And>i c t. cl_conns cl i = Some (c, t) \<Longrightarrow> ls_adapter c < n"
  shows "card (dom (cl_conns cl)) = (\<Sum>a<n. cnt cl a)"
proof -
  have "dom (cl_conns cl) = (\<Union>a<n. {i. owned_by a cl i})" using assms(2) by (fastforce simp: owned_iff)
  also have "card \<dots> = (\<Sum>a<n. card {i. owned_by a cl i})"
    by (rule card_UN_disjoint) (use owned_finite[OF assms(1)] in \<open>auto simp: owned_iff\<close>)
  finally show ?thesis by (simp add: cnt_def)
qed

lemma cl_room:
  assumes "cl_ok cl"
  shows "length (cl_free cl) + card (dom (cl_conns cl)) = cl_total cl"
proof -
  have i: "distinct (cl_free cl)" "set (cl_free cl) \<inter> dom (cl_conns cl) = {}" "set (cl_free cl) \<union> dom (cl_conns cl) = {1..cl_total cl}"
    using assms by (auto simp: cl_ok_def cl_ids_def)
  then have "finite (dom (cl_conns cl))" by (metis finite_Un finite_atLeastAtMost)
  then have "card {1..cl_total cl} = card (set (cl_free cl)) + card (dom (cl_conns cl))"
    using card_Un_disjoint[of "set (cl_free cl)" "dom (cl_conns cl)"] i(2,3) by simp
  then show ?thesis using distinct_card[OF i(1)] by simp
qed

section \<open>What adapters see\<close>

definition db_all :: "DataBuffer \<Rightarrow> RecvContext list" where
  "db_all db = concat (db_threadDataQueue db)"

text \<open>The parts of an adapter that never change.\<close>

definition sa_same :: "SrvAdapter \<Rightarrow> SrvAdapter \<Rightarrow> bool" where
  "sa_same a a' \<longleftrightarrow> sa_ba a' = sa_ba a \<and> sa_tcp a' = sa_tcp a \<and> sa_timeout a' = sa_timeout a \<and> sa_iMaxConns a' = sa_iMaxConns a \<and>
     sa_iQueueTimeout a' = sa_iQueueTimeout a \<and> sa_iHeaderLen a' = sa_iHeaderLen a \<and> sa_netThreads a' = sa_netThreads a \<and>
     length (db_threadDataQueue (sa_dataBuffer a')) = length (db_threadDataQueue (sa_dataBuffer a)) \<and>
     db_queueMode (sa_dataBuffer a') = db_queueMode (sa_dataBuffer a)"

lemma sa_same_refl [simp]: "sa_same a a" by (simp add: sa_same_def)

lemma sa_same_trans: "sa_same a b \<Longrightarrow> sa_same b c \<Longrightarrow> sa_same a c" by (simp add: sa_same_def)

lemma db_append_all:
  assumes "i < length (db_threadDataQueue db)"
  shows "mset (db_all (db_append i rs db)) = mset (db_all db) + mset rs"
proof -
  let ?q = "db_threadDataQueue db"
  have q: "concat ?q = concat (take i ?q) @ ?q ! i @ concat (drop (Suc i) ?q)"
    using id_take_nth_drop[OF assms] by (metis concat.simps(2) concat_append)
  have "concat (?q[i := ?q ! i @ rs]) = concat (take i ?q) @ (?q ! i @ rs) @ concat (drop (Suc i) ?q)"
    using assms by (simp add: upd_conv_take_nth_drop)
  then show ?thesis unfolding db_all_def db_append_def by (simp add: q ac_simps)
qed

lemma db_append_simps [simp]:
  "db_queueMode (db_append i rs db) = db_queueMode db" "length (db_threadDataQueue (db_append i rs db)) = length (db_threadDataQueue db)"
  "db_threadDataQueue (db\<lparr>db_iRecvBufferSize := n\<rparr>) = db_threadDataQueue db" "db_all (db\<lparr>db_iRecvBufferSize := n\<rparr>) = db_all db"
  "db_iRecvBufferSize (db_append i rs db) = db_iRecvBufferSize db"
  by (simp_all add: db_append_def db_all_def)

lemma getDataQueue_less: "db_threadDataQueue db \<noteq> [] \<Longrightarrow> getDataQueue h db < length (db_threadDataQueue db)"
  by (simp add: getDataQueue_def)

lemma db_insert_simps [simp]:
  "db_queueMode (db_insert rc db) = db_queueMode db" "length (db_threadDataQueue (db_insert rc db)) = length (db_threadDataQueue db)"
  "db_queueMode (db_insert_all rcs db) = db_queueMode db" "length (db_threadDataQueue (db_insert_all rcs db)) = length (db_threadDataQueue db)"
  by (simp_all add: db_insert_def db_insert_all_def)

lemma db_insert_all_set: "set (db_all (db_insert rc db)) \<subseteq> insert rc (set (db_all db))" "set (db_all (db_insert_all rcs db)) \<subseteq> set rcs \<union> set (db_all db)"
proof -
  have "set (db_all (db_append i rs db)) \<subseteq> set rs \<union> set (db_all db)" for i rs db
  proof (cases "i < length (db_threadDataQueue db)")
    case True
    then have "set_mset (mset (db_all (db_append i rs db))) = set_mset (mset (db_all db) + mset rs)" by (simp only: db_append_all)
    then show ?thesis by auto
  next
    case False
    then show ?thesis by (auto simp: db_append_def db_all_def list_update_beyond)
  qed
  from this[of "getDataQueue (unat (rc_uid rc)) db" "[rc]" "db\<lparr>db_iRecvBufferSize := db_iRecvBufferSize db + 1\<rparr>"]
    this[of "getDataQueue (unat (rc_uid (last rcs))) db" rcs "db\<lparr>db_iRecvBufferSize := db_iRecvBufferSize db + length rcs\<rparr>"]
  show "set (db_all (db_insert rc db)) \<subseteq> insert rc (set (db_all db))" "set (db_all (db_insert_all rcs db)) \<subseteq> set rcs \<union> set (db_all db)"
    by (auto simp: db_insert_def db_insert_all_def)
qed

text \<open>The notice an adapter gets.\<close>

definition notice :: "int \<Rightarrow> CloseType \<Rightarrow> Listed \<Rightarrow> RecvContext" where
  "notice now ct c = RecvContext_new (ls_threadIndex c) (ls_uid c) (ls_adapter c) True ct now"

lemma closing_adapter:
  "sa_same (ads a) (closing now ct cs ads a) \<and>
   sa_iCurConns (closing now ct cs ads a) = sa_iCurConns (ads a) - int (length (filter (\<lambda>c. ls_adapter c = a) cs)) \<and>
   set (db_all (sa_dataBuffer (closing now ct cs ads a))) \<subseteq> set (db_all (sa_dataBuffer (ads a))) \<union> notice now ct ` {c \<in> set cs. ls_adapter c = a}"
proof (induction cs arbitrary: ads)
  case (Cons c cs)
  let ?ads = "ad_close now ct c ads"
  have 1: "sa_same (ads a) (?ads a)" by (simp add: ad_close_def decreaseNowConnection_def sa_same_def)
  have 2: "sa_iCurConns (?ads a) = sa_iCurConns (ads a) - (if ls_adapter c = a then 1 else 0)"
    by (simp add: ad_close_def decreaseNowConnection_def)
  have 3: "set (db_all (sa_dataBuffer (?ads a))) \<subseteq> set (db_all (sa_dataBuffer (ads a))) \<union> notice now ct ` {d \<in> set (c # cs). ls_adapter d = a}"
    using db_insert_all_set(1)[of "notice now ct c" "sa_dataBuffer (ads a)"] by (auto simp: ad_close_def decreaseNowConnection_def notice_def)
  have 4: "notice now ct ` {d \<in> set cs. ls_adapter d = a} \<subseteq> notice now ct ` {d \<in> set (c # cs). ls_adapter d = a}" by auto
  note I = Cons.IH[of ?ads]
  have "sa_same (ads a) (closing now ct cs ?ads a)" using sa_same_trans[OF 1] I by blast
  moreover have "sa_iCurConns (closing now ct cs ?ads a) = sa_iCurConns (ads a) - int (length (filter (\<lambda>c. ls_adapter c = a) (c # cs)))"
    using I 2 by simp
  moreover have "set (db_all (sa_dataBuffer (closing now ct cs ?ads a))) \<subseteq>
      set (db_all (sa_dataBuffer (ads a))) \<union> notice now ct ` {d \<in> set (c # cs). ls_adapter d = a}"
    using I 3 4 by blast
  ultimately show ?case by simp
qed simp


section \<open>The invariant of a server\<close>

text \<open>How a server is set up: the threads of an adapter know their number in the adapter, and every adapter has handlers.\<close>

definition srv_setup :: "EpollServer \<Rightarrow> bool" where
  "srv_setup s \<longleftrightarrow> (\<forall>a < es_bindAdapters s. sa_netThreads (es_adapters s a) \<noteq> [] \<and> db_threadDataQueue (sa_dataBuffer (es_adapters s a)) \<noteq> [] \<and>
     (\<forall>k < length (sa_netThreads (es_adapters s a)). sa_netThreads (es_adapters s a) ! k < length (es_netThreads s) \<and>
        nt_threadIndex (es_netThreads s ! (sa_netThreads (es_adapters s a) ! k)) = k))"

definition srv_room :: "EpollServer \<Rightarrow> int" where
  "srv_room s = (\<Sum>a < es_bindAdapters s. if sa_tcp (es_adapters s a) then sa_iMaxConns (es_adapters s a) else 1)"

definition ctx_ok :: "EpollServer \<Rightarrow> RecvContext \<Rightarrow> bool" where
  "ctx_ok s rc \<longleftrightarrow> rc_adapter rc < es_bindAdapters s \<and> rc_threadIndex rc < length (sa_netThreads (es_adapters s (rc_adapter rc))) \<and>
     int (uid_index (rc_uid rc)) \<le> srv_room s"

definition conn_ok :: "EpollServer \<Rightarrow> nat \<Rightarrow> Listed \<Rightarrow> bool" where
  "conn_ok s th c \<longleftrightarrow> ls_adapter c < es_bindAdapters s \<and> ls_tcp c = sa_tcp (es_adapters s (ls_adapter c)) \<and>
     ls_threadIndex c < length (sa_netThreads (es_adapters s (ls_adapter c))) \<and> sa_netThreads (es_adapters s (ls_adapter c)) ! ls_threadIndex c = th"

definition srv_lists :: "EpollServer \<Rightarrow> bool" where
  "srv_lists s \<longleftrightarrow> (\<forall>th < length (es_netThreads s). cl_ok (es_list s th) \<and> cl_emptyCheckTimeout (es_list s th) = 0 \<and>
     int (cl_total (es_list s th)) = srv_room s \<and>
     (\<forall>i c t. cl_conns (es_list s th) i = Some (c, t) \<longrightarrow> conn_ok s th c))"

definition srv_counts :: "EpollServer \<Rightarrow> bool" where
  "srv_counts s \<longleftrightarrow> (\<forall>a < es_bindAdapters s.
     if sa_tcp (es_adapters s a)
     then sa_iCurConns (es_adapters s a) = (\<Sum>th < length (es_netThreads s). int (cnt (es_list s th) a)) \<and> sa_iCurConns (es_adapters s a) \<le> sa_iMaxConns (es_adapters s a)
     else \<forall>th < length (es_netThreads s). cnt (es_list s th) a \<le> 1)"

definition srv_ctxs :: "EpollServer \<Rightarrow> bool" where
  "srv_ctxs s \<longleftrightarrow> (\<forall>a < es_bindAdapters s. \<forall>rc \<in> set (db_all (sa_dataBuffer (es_adapters s a))). ctx_ok s rc) \<and>
     (\<forall>th < length (es_netThreads s). \<forall>sc \<in> set (nt_sbuffer (es_netThreads s ! th)). ctx_ok s (sx_context sc))"

definition srv_ok :: "EpollServer \<Rightarrow> bool" where
  "srv_ok s \<longleftrightarrow> srv_setup s \<and> srv_lists s \<and> srv_counts s \<and> srv_ctxs s"

text \<open>
  What an operation does to the ids: at most \<open>k th\<close> are taken from the front of the free ones of the thread \<open>th\<close>, and those of closed connections are put
  behind. The setup stays.
\<close>

definition setup_same :: "EpollServer \<Rightarrow> EpollServer \<Rightarrow> bool" where
  "setup_same s s' \<longleftrightarrow> es_bindAdapters s' = es_bindAdapters s \<and> es_merged s' = es_merged s \<and> es_terminate s' = es_terminate s \<and>
     length (es_netThreads s') = length (es_netThreads s) \<and> (\<forall>a. sa_same (es_adapters s a) (es_adapters s' a)) \<and>
     (\<forall>th < length (es_netThreads s). nt_threadIndex (es_netThreads s' ! th) = nt_threadIndex (es_netThreads s ! th) \<and>
        cl_iConnectionMagic (es_list s' th) = cl_iConnectionMagic (es_list s th) \<and> cl_total (es_list s' th) = cl_total (es_list s th))"

definition moves :: "(nat \<Rightarrow> nat) \<Rightarrow> EpollServer \<Rightarrow> EpollServer \<Rightarrow> bool" where
  "moves k s s' \<longleftrightarrow> setup_same s s' \<and>
     (\<forall>th < length (es_netThreads s). \<exists>m \<le> k th. \<exists>D. cl_free (es_list s' th) = drop m (cl_free (es_list s th)) @ D)"

lemma setup_same_refl [simp]: "setup_same s s" by (simp add: setup_same_def)

lemma setup_same_trans:
  assumes "setup_same a b" "setup_same b c"
  shows "setup_same a c"
proof -
  have "sa_same (es_adapters a x) (es_adapters c x)" for x
    using assms sa_same_trans[of "es_adapters a x" "es_adapters b x" "es_adapters c x"] by (simp add: setup_same_def)
  then show ?thesis using assms by (simp add: setup_same_def)
qed

lemma moves_refl [simp]: "moves k s s"
  by (simp add: moves_def) (metis append_Nil2 drop0 le0)

lemma moves_trans:
  assumes "moves k a b" "moves l b c"
  shows "moves (\<lambda>th. k th + l th) a c"
  unfolding moves_def
proof (intro conjI allI impI)
  show "setup_same a c" using assms setup_same_trans by (simp add: moves_def) blast
  fix th assume th: "th < length (es_netThreads a)"
  then have "th < length (es_netThreads b)" using assms(1) by (simp add: moves_def setup_same_def)
  then obtain m D n E where m: "m \<le> k th" "cl_free (es_list b th) = drop m (cl_free (es_list a th)) @ D"
    and n: "n \<le> l th" "cl_free (es_list c th) = drop n (cl_free (es_list b th)) @ E"
    using th assms unfolding moves_def by meson
  have "cl_free (es_list c th) = drop (n + m) (cl_free (es_list a th)) @ drop (n - (length (cl_free (es_list a th)) - m)) D @ E"
    by (simp add: m(2) n(2))
  moreover have "n + m \<le> k th + l th" using m(1) n(1) by simp
  ultimately show "\<exists>m \<le> k th + l th. \<exists>D. cl_free (es_list c th) = drop m (cl_free (es_list a th)) @ D" by blast
qed

lemma moves_0_trans: "moves (\<lambda>_. 0) a b \<Longrightarrow> moves k b c \<Longrightarrow> moves k a c"
  using moves_trans[of "\<lambda>_. 0" a b k c] by simp

lemma setup_same_room: "setup_same s s' \<Longrightarrow> srv_room s' = srv_room s"
  unfolding srv_room_def by (intro sum.cong) (simp_all add: setup_same_def sa_same_def)

lemma setup_same_ctx: "setup_same s s' \<Longrightarrow> ctx_ok s' = ctx_ok s"
  using setup_same_room[of s s'] by (simp add: ctx_ok_def setup_same_def sa_same_def fun_eq_iff)

lemma setup_same_conn: "setup_same s s' \<Longrightarrow> conn_ok s' = conn_ok s"
  by (simp add: conn_ok_def setup_same_def sa_same_def fun_eq_iff)

lemma setup_same_setup:
  assumes "setup_same s s'" "srv_setup s"
  shows "srv_setup s'"
  unfolding srv_setup_def
proof (intro allI impI)
  fix a assume a: "a < es_bindAdapters s'"
  let ?q = "\<lambda>s. db_threadDataQueue (sa_dataBuffer (es_adapters s a))"
  have e: "sa_netThreads (es_adapters s' a) = sa_netThreads (es_adapters s a)" "length (?q s') = length (?q s)" "a < es_bindAdapters s"
    "length (es_netThreads s') = length (es_netThreads s)"
    "\<And>th. th < length (es_netThreads s) \<Longrightarrow> nt_threadIndex (es_netThreads s' ! th) = nt_threadIndex (es_netThreads s ! th)"
    using assms(1) a by (auto simp: setup_same_def sa_same_def)
  then show "sa_netThreads (es_adapters s' a) \<noteq> [] \<and> ?q s' \<noteq> [] \<and>
      (\<forall>k < length (sa_netThreads (es_adapters s' a)). sa_netThreads (es_adapters s' a) ! k < length (es_netThreads s') \<and>
        nt_threadIndex (es_netThreads s' ! (sa_netThreads (es_adapters s' a) ! k)) = k)"
    using assms(2) by (auto simp: srv_setup_def)
qed


lemma es_thread_simps [simp]:
  "es_adapters (es_thread th f s) = es_adapters s" "es_bindAdapters (es_thread th f s) = es_bindAdapters s"
  "es_merged (es_thread th f s) = es_merged s" "es_terminate (es_thread th f s) = es_terminate s"
  "length (es_netThreads (es_thread th f s)) = length (es_netThreads s)"
  "th < length (es_netThreads s) \<Longrightarrow> es_netThreads (es_thread th f s) ! k = (if k = th then f (es_netThreads s ! th) else es_netThreads s ! k)"
  by (simp_all add: es_thread_def)

lemma es_adapter_simps [simp]:
  "es_adapters (es_adapter a f s) = (es_adapters s)(a := f (es_adapters s a))" "es_bindAdapters (es_adapter a f s) = es_bindAdapters s"
  "es_merged (es_adapter a f s) = es_merged s" "es_terminate (es_adapter a f s) = es_terminate s"
  "es_netThreads (es_adapter a f s) = es_netThreads s"
  by (simp_all add: es_adapter_def)

definition srv_put :: "nat \<Rightarrow> ConnectionList \<Rightarrow> (nat \<Rightarrow> SrvAdapter) \<Rightarrow> EpollServer \<Rightarrow> EpollServer" where
  "srv_put th cl ads s = es_thread th (\<lambda>nt. nt\<lparr>nt_list := cl\<rparr>) (s\<lparr>es_adapters := ads\<rparr>)"

lemma srv_put_simps [simp]:
  "es_adapters (srv_put th cl ads s) = ads" "es_bindAdapters (srv_put th cl ads s) = es_bindAdapters s"
  "es_merged (srv_put th cl ads s) = es_merged s" "es_terminate (srv_put th cl ads s) = es_terminate s"
  "length (es_netThreads (srv_put th cl ads s)) = length (es_netThreads s)"
  "th < length (es_netThreads s) \<Longrightarrow> es_list (srv_put th cl ads s) k = (if k = th then cl else es_list s k)"
  "th < length (es_netThreads s) \<Longrightarrow> nt_sbuffer (es_netThreads (srv_put th cl ads s) ! k) = nt_sbuffer (es_netThreads s ! k)"
  "th < length (es_netThreads s) \<Longrightarrow> nt_threadIndex (es_netThreads (srv_put th cl ads s) ! k) = nt_threadIndex (es_netThreads s ! k)"
  by (simp_all add: srv_put_def es_thread_def nth_list_update)

lemma on_list_put: "on_list th f s = (case f (es_list s th, es_adapters s) of Inl e \<Rightarrow> Inl e | Inr (cl, ads) \<Rightarrow> Inr (srv_put th cl ads s))"
  unfolding on_list_def srv_put_def ..

lemma sum_one:
  fixes f g :: "nat \<Rightarrow> int"
  assumes "th < T" "\<And>k. k \<noteq> th \<Longrightarrow> g k = f k"
  shows "(\<Sum>k<T. g k) = (\<Sum>k<T. f k) - f th + g th"
proof -
  have "(\<Sum>k<T. g k) = g th + (\<Sum>k \<in> {..<T} - {th}. g k)" using assms(1) by (intro sum.remove) auto
  moreover have "(\<Sum>k<T. f k) = f th + (\<Sum>k \<in> {..<T} - {th}. f k)" using assms(1) by (intro sum.remove) auto
  moreover have "(\<Sum>k \<in> {..<T} - {th}. g k) = (\<Sum>k \<in> {..<T} - {th}. f k)" using assms(2) by (intro sum.cong) auto
  ultimately show ?thesis by simp
qed

lemma srv_put_ok:
  assumes ok: "srv_ok s" and th: "th < length (es_netThreads s)"
    and cl: "cl_ok cl" "cl_emptyCheckTimeout cl = 0" "cl_total cl = cl_total (es_list s th)" "cl_iConnectionMagic cl = cl_iConnectionMagic (es_list s th)"
    and conns: "\<And>i c t. cl_conns cl i = Some (c, t) \<Longrightarrow> conn_ok s th c"
    and ads: "\<And>a. sa_same (es_adapters s a) (ads a)"
    and cnts: "\<And>a. a < es_bindAdapters s \<Longrightarrow> sa_tcp (es_adapters s a) \<Longrightarrow>
        sa_iCurConns (ads a) = sa_iCurConns (es_adapters s a) - int (cnt (es_list s th) a) + int (cnt cl a) \<and> sa_iCurConns (ads a) \<le> sa_iMaxConns (es_adapters s a)"
      "\<And>a. a < es_bindAdapters s \<Longrightarrow> \<not> sa_tcp (es_adapters s a) \<Longrightarrow> cnt cl a \<le> 1"
    and ctx: "\<And>a rc. a < es_bindAdapters s \<Longrightarrow> rc \<in> set (db_all (sa_dataBuffer (ads a))) \<Longrightarrow> ctx_ok s rc"
  shows "srv_ok (srv_put th cl ads s)" "setup_same s (srv_put th cl ads s)"
proof -
  define s' where "s' = srv_put th cl ads s"
  show same': "setup_same s (srv_put th cl ads s)" using th cl(3,4) ads by (simp add: setup_same_def)
  then have same: "setup_same s s'" by (simp add: s'_def)
  have e: "sa_tcp (es_adapters s' a) = sa_tcp (es_adapters s a)" "sa_iMaxConns (es_adapters s' a) = sa_iMaxConns (es_adapters s a)"
    "es_bindAdapters s' = es_bindAdapters s" "length (es_netThreads s') = length (es_netThreads s)" for a
    using ads[of a] by (simp_all add: sa_same_def s'_def)
  have l: "es_list s' k = (if k = th then cl else es_list s k)" for k using th by (simp add: s'_def)
  have ok': "srv_setup s" "srv_lists s" "srv_counts s" "srv_ctxs s" using ok by (simp_all add: srv_ok_def)
  have "srv_lists s'" using ok'(2) th cl(1-3) conns unfolding srv_lists_def setup_same_conn[OF same] setup_same_room[OF same] l e by auto
  moreover have "srv_counts s'"
    unfolding srv_counts_def e
  proof (intro allI impI)
    fix a assume a: "a < es_bindAdapters s"
    show "if sa_tcp (es_adapters s a)
      then sa_iCurConns (es_adapters s' a) = (\<Sum>k < length (es_netThreads s). int (cnt (es_list s' k) a)) \<and> sa_iCurConns (es_adapters s' a) \<le> sa_iMaxConns (es_adapters s a)
      else \<forall>k < length (es_netThreads s). cnt (es_list s' k) a \<le> 1"
    proof (cases "sa_tcp (es_adapters s a)")
      case True
      have "sa_iCurConns (es_adapters s a) = (\<Sum>k < length (es_netThreads s). int (cnt (es_list s k) a))"
        using ok'(3) a True by (auto simp: srv_counts_def)
      moreover have "(\<Sum>k < length (es_netThreads s). int (cnt (es_list s' k) a)) =
          (\<Sum>k < length (es_netThreads s). int (cnt (es_list s k) a)) - int (cnt (es_list s th) a) + int (cnt (es_list s' th) a)"
        using th by (intro sum_one) (auto simp: l)
      moreover have "es_adapters s' a = ads a" by (simp add: s'_def)
      ultimately show ?thesis using True cnts(1)[OF a] by (simp add: l)
    next
      case False
      have "\<forall>k < length (es_netThreads s). cnt (es_list s k) a \<le> 1" using ok'(3) a False by (auto simp: srv_counts_def)
      then show ?thesis using False cnts(2)[OF a] by (simp add: l)
    qed
  qed
  moreover have "srv_ctxs s'" unfolding srv_ctxs_def setup_same_ctx[OF same] e using ctx ok'(4) th by (auto simp: srv_ctxs_def s'_def)
  moreover have "srv_setup s'" using setup_same_setup[OF same] ok'(1) by simp
  ultimately show "srv_ok (srv_put th cl ads s)" by (simp add: srv_ok_def s'_def)
qed

text \<open>Whatever goes into the queues, as long as it names a thread that exists.\<close>

lemma srv_sbuffer_ok:
  assumes "srv_ok s" "th < length (es_netThreads s)" "\<And>sc. sc \<in> set (f (nt_sbuffer (es_netThreads s ! th))) \<Longrightarrow> ctx_ok s (sx_context sc)"
  defines "s' \<equiv> es_thread th (\<lambda>nt. nt\<lparr>nt_sbuffer := f (nt_sbuffer nt)\<rparr>) s"
  shows "srv_ok s'" "moves (\<lambda>_. 0) s s'"
proof -
  have l: "es_list s' k = es_list s k" "nt_threadIndex (es_netThreads s' ! k) = nt_threadIndex (es_netThreads s ! k)"
    "es_adapters s' = es_adapters s" "es_bindAdapters s' = es_bindAdapters s" "length (es_netThreads s') = length (es_netThreads s)" for k
    using assms(2) by (simp_all add: s'_def)
  then have same: "setup_same s s'" by (simp add: setup_same_def) (simp add: s'_def)
  show "moves (\<lambda>_. 0) s s'" using same l(1) by (simp add: moves_def)
  have ok: "srv_setup s" "srv_lists s" "srv_counts s" "srv_ctxs s" using assms(1) by (simp_all add: srv_ok_def)
  have "srv_setup s'" using setup_same_setup[OF same] ok by simp
  moreover have "srv_lists s'" using ok(2) unfolding srv_lists_def setup_same_conn[OF same] setup_same_room[OF same] l .
  moreover have "srv_counts s'" using ok(3) unfolding srv_counts_def l .
  moreover have "srv_ctxs s'" using ok(4) assms(2,3) unfolding srv_ctxs_def setup_same_ctx[OF same] l by (simp add: s'_def)
  ultimately show "srv_ok s'" by (simp add: srv_ok_def)
qed

lemma srv_buffer_ok:
  assumes "srv_ok s" "a < es_bindAdapters s" "sa_same (es_adapters s a) (g (es_adapters s a))" "sa_iCurConns (g (es_adapters s a)) = sa_iCurConns (es_adapters s a)"
    "\<And>rc. rc \<in> set (db_all (sa_dataBuffer (g (es_adapters s a)))) \<Longrightarrow> ctx_ok s rc"
  shows "srv_ok (es_adapter a g s)" "moves (\<lambda>_. 0) s (es_adapter a g s)"
proof -
  define s' where "s' = es_adapter a g s"
  have l: "es_netThreads s' = es_netThreads s" "es_bindAdapters s' = es_bindAdapters s" by (simp_all add: s'_def)
  have same: "setup_same s s'" using assms(3) by (simp add: setup_same_def s'_def)
  show "moves (\<lambda>_. 0) s (es_adapter a g s)" using same by (simp add: moves_def s'_def)
  have e: "sa_tcp (es_adapters s' b) = sa_tcp (es_adapters s b)" "sa_iMaxConns (es_adapters s' b) = sa_iMaxConns (es_adapters s b)"
    "sa_iCurConns (es_adapters s' b) = sa_iCurConns (es_adapters s b)" for b
    using assms(3,4) by (simp_all add: sa_same_def s'_def)
  have ok: "srv_setup s" "srv_lists s" "srv_counts s" "srv_ctxs s" using assms(1) by (simp_all add: srv_ok_def)
  have "srv_setup s'" using setup_same_setup[OF same] ok by simp
  moreover have "srv_lists s'" using ok(2) unfolding srv_lists_def setup_same_conn[OF same] setup_same_room[OF same] l e .
  moreover have "srv_counts s'" using ok(3) unfolding srv_counts_def l e .
  moreover have "srv_ctxs s'" using ok(4) assms(5) unfolding srv_ctxs_def setup_same_ctx[OF same] l by (simp add: s'_def)
  ultimately show "srv_ok (es_adapter a g s)" by (simp add: srv_ok_def s'_def)
qed


section \<open>Every operation keeps the invariant\<close>

definition fine :: "(nat \<Rightarrow> nat) \<Rightarrow> EpollServer \<Rightarrow> cl_exn + EpollServer \<Rightarrow> bool" where
  "fine k s r \<longleftrightarrow> (\<exists>s'. r = Inr s' \<and> srv_ok s' \<and> moves k s s')"

lemma fineI: "srv_ok s' \<Longrightarrow> moves k s s' \<Longrightarrow> fine k s (Inr s')"
  by (simp add: fine_def)

lemma fine_trans: "moves (\<lambda>_. 0) s s1 \<Longrightarrow> fine k s1 r \<Longrightarrow> fine k s r"
  using moves_0_trans by (fastforce simp: fine_def)

text \<open>A connection of the thread \<open>th\<close>, up to what is read and sent on it.\<close>

definition listed :: "EpollServer \<Rightarrow> nat \<Rightarrow> Listed \<Rightarrow> bool" where
  "listed s th c \<longleftrightarrow> th < length (es_netThreads s) \<and>
     (\<exists>c0 t. cl_conns (es_list s th) (uid_index (ls_uid c)) = Some (c0, t) \<and> ls_uid c0 = ls_uid c \<and> ls_tcp c0 = ls_tcp c \<and>
        ls_adapter c0 = ls_adapter c \<and> ls_threadIndex c0 = ls_threadIndex c)"

lemma srv_listsD:
  assumes "srv_ok s" "th < length (es_netThreads s)"
  shows "cl_ok (es_list s th)" "cl_nodes (es_list s th)" "cl_ids {} (es_list s th)" "cl_emptyCheckTimeout (es_list s th) = 0"
    "int (cl_total (es_list s th)) = srv_room s" "\<And>i c t. cl_conns (es_list s th) i = Some (c, t) \<Longrightarrow> conn_ok s th c"
  using assms by (auto simp: srv_ok_def srv_lists_def cl_ok_def)

lemma conns_listed:
  assumes "srv_ok s" "th < length (es_netThreads s)" "cl_conns (es_list s th) i = Some (c, t)"
  shows "listed s th c" "uid_index (ls_uid c) = i"
proof -
  note l = srv_listsD[OF assms(1,2)]
  have "i \<in> {1..cl_total (es_list s th)}" using cl_ids_range[OF l(3), of i] assms(3) by blast
  from cl_valid_uid(2)[OF l(3) this] cl_uid[OF l(2) assms(3)] show "uid_index (ls_uid c) = i" by simp
  then show "listed s th c" using assms(2,3) by (simp add: listed_def)
qed

lemma vConn_listed:
  assumes "srv_ok s" "th < length (es_netThreads s)" "fst (cl_vConn (es_list s th) i) = Some c"
  shows "listed s th c"
  using cl_conns_fst[OF srv_listsD(2)[OF assms(1,2)], of i] assms(3) conns_listed(1)[OF assms(1,2), of i c]
  by (cases "cl_conns (es_list s th) i") auto

lemma get_listed:
  assumes "srv_ok s" "th < length (es_netThreads s)" "ctx_ok s rc"
  shows "\<exists>r. cl_get (rc_uid rc) (es_list s th) = Inr r \<and> (\<forall>c. r = Some c \<longrightarrow> listed s th c)"
proof -
  have "uid_index (rc_uid rc) \<le> cl_total (es_list s th)" using srv_listsD(5)[OF assms(1,2)] assms(3) by (simp add: ctx_ok_def)
  then show ?thesis using vConn_listed[OF assms(1,2), of "uid_index (rc_uid rc)"] by (auto simp: cl_get_def)
qed

text \<open>Messages about a connection name a thread that exists.\<close>

lemma listed_ok:
  assumes "srv_ok s" "listed s th c"
  shows "conn_ok s th c" "int (uid_index (ls_uid c)) \<le> srv_room s"
proof -
  obtain c0 t where c: "th < length (es_netThreads s)" "cl_conns (es_list s th) (uid_index (ls_uid c)) = Some (c0, t)" "ls_tcp c0 = ls_tcp c"
    "ls_adapter c0 = ls_adapter c" "ls_threadIndex c0 = ls_threadIndex c" using assms(2) by (auto simp: listed_def)
  note l = srv_listsD[OF assms(1) c(1)]
  show "conn_ok s th c" using l(6)[OF c(2)] c(3-5) by (simp add: conn_ok_def)
  have "uid_index (ls_uid c) \<in> {1..cl_total (es_list s th)}" using cl_ids_range[OF l(3)] c(2) by blast
  then show "int (uid_index (ls_uid c)) \<le> srv_room s" using l(5) by simp
qed

lemma listed_ctx:
  assumes "srv_ok s" "listed s th c" "rc_adapter rc = ls_adapter c" "rc_threadIndex rc = ls_threadIndex c" "rc_uid rc = ls_uid c"
  shows "ctx_ok s rc"
  using listed_ok[OF assms(1,2)] assms(3-5) by (simp add: ctx_ok_def conn_ok_def)

lemma srv_countsD:
  assumes "srv_ok s" "a < es_bindAdapters s"
  shows "sa_tcp (es_adapters s a) \<Longrightarrow> sa_iCurConns (es_adapters s a) = (\<Sum>th < length (es_netThreads s). int (cnt (es_list s th) a)) \<and>
      sa_iCurConns (es_adapters s a) \<le> sa_iMaxConns (es_adapters s a)"
    "\<not> sa_tcp (es_adapters s a) \<Longrightarrow> th < length (es_netThreads s) \<Longrightarrow> cnt (es_list s th) a \<le> 1"
  using assms by (auto simp: srv_ok_def srv_counts_def)

lemma srv_ctxsD:
  assumes "srv_ok s"
  shows "a < es_bindAdapters s \<Longrightarrow> rc \<in> set (db_all (sa_dataBuffer (es_adapters s a))) \<Longrightarrow> ctx_ok s rc"
    "th < length (es_netThreads s) \<Longrightarrow> sc \<in> set (nt_sbuffer (es_netThreads s ! th)) \<Longrightarrow> ctx_ok s (sx_context sc)"
  using assms by (auto simp: srv_ok_def srv_ctxs_def)

lemma moves_list:
  assumes "th < length (es_netThreads s)" "setup_same s (srv_put th cl ads s)" "m \<le> k th" "cl_free cl = drop m (cl_free (es_list s th)) @ D"
  shows "moves k s (srv_put th cl ads s)"
  unfolding moves_def
proof (intro conjI allI impI)
  fix j assume "j < length (es_netThreads s)"
  show "\<exists>m \<le> k j. \<exists>D. cl_free (es_list (srv_put th cl ads s) j) = drop m (cl_free (es_list s j)) @ D"
  proof (cases "j = th")
    case True
    then show ?thesis using assms(1,3,4) by auto
  next
    case False
    then show ?thesis using assms(1) by (intro exI[of _ 0]) auto
  qed
qed (rule assms(2))

text \<open>A change of the list that keeps every connection's owner, and leaves the adapters alone.\<close>

lemma srv_conns_ok:
  assumes "srv_ok s" "th < length (es_netThreads s)" "cl_ok cl" "cl_same (es_list s th) cl" "cl_free cl = cl_free (es_list s th)"
    and "\<And>i. cl_conns cl i = None \<longleftrightarrow> cl_conns (es_list s th) i = None"
    and "\<And>i c t c' t'. cl_conns (es_list s th) i = Some (c, t) \<Longrightarrow> cl_conns cl i = Some (c', t') \<Longrightarrow>
      ls_adapter c' = ls_adapter c \<and> ls_tcp c' = ls_tcp c \<and> ls_threadIndex c' = ls_threadIndex c"
  shows "srv_ok (srv_put th cl (es_adapters s) s)" "moves (\<lambda>_. 0) s (srv_put th cl (es_adapters s) s)"
proof -
  have old: "\<exists>c0 t0. cl_conns (es_list s th) i = Some (c0, t0) \<and> ls_adapter c = ls_adapter c0 \<and> ls_tcp c = ls_tcp c0 \<and> ls_threadIndex c = ls_threadIndex c0"
    if "cl_conns cl i = Some (c, t)" for i c t
    using assms(6)[of i] assms(7)[of i] that by fastforce
  have "owned_by a cl i = owned_by a (es_list s th) i" for a i
    using assms(6)[of i] assms(7)[of i] by (fastforce simp: owned_by_def split: option.splits)
  then have c: "cnt cl a = cnt (es_list s th) a" for a by (simp add: cnt_def)
  have "conn_ok s th c" if "cl_conns cl i = Some (c, t)" for i c t
    using old[OF that] srv_listsD(6)[OF assms(1,2)] by (force simp: conn_ok_def)
  note k = srv_put_ok[where ads = "es_adapters s", OF assms(1,2,3) _ _ _ this]
  have s: "cl_emptyCheckTimeout cl = 0" "cl_total cl = cl_total (es_list s th)" "cl_iConnectionMagic cl = cl_iConnectionMagic (es_list s th)"
    using assms(4) srv_listsD(4)[OF assms(1,2)] by (simp_all add: cl_same_def)
  have le: "sa_iCurConns (es_adapters s a) \<le> sa_iMaxConns (es_adapters s a)" if "a < es_bindAdapters s" "sa_tcp (es_adapters s a)" for a
    using srv_countsD(1)[OF assms(1) that] by blast
  show "srv_ok (srv_put th cl (es_adapters s) s)"
    using s le srv_countsD(2)[OF assms(1)] srv_ctxsD(1)[OF assms(1)] assms(2) by (intro k(1)) (auto simp: c)
  have "setup_same s (srv_put th cl (es_adapters s) s)"
    using s le srv_countsD(2)[OF assms(1)] srv_ctxsD(1)[OF assms(1)] assms(2) by (intro k(2)) (auto simp: c)
  then show "moves (\<lambda>_. 0) s (srv_put th cl (es_adapters s) s)" using assms(2,5) by (intro moves_list[where m = 0 and D = "[]"]) auto
qed


lemma srv_put_adapters [simp]: "s\<lparr>es_adapters := es_adapters s\<rparr> = s"
  by simp

lemma es_touch_ok:
  assumes "srv_ok s" "listed s th c"
  shows "srv_ok (es_touch th c c' t' s)" "moves (\<lambda>_. 0) s (es_touch th c c' t' s)" "listed (es_touch th c c' t' s) th c"
proof -
  let ?f = "\<lambda>c. c\<lparr>ls_conn := c', ls_trans := t'\<rparr>" and ?i = "uid_index (ls_uid c)"
  obtain c0 t where c: "th < length (es_netThreads s)" "cl_conns (es_list s th) ?i = Some (c0, t)" "ls_uid c0 = ls_uid c" "ls_tcp c0 = ls_tcp c"
    "ls_adapter c0 = ls_adapter c" "ls_threadIndex c0 = ls_threadIndex c" using assms(2) by (auto simp: listed_def)
  have "ls_uid (?f d) = ls_uid d" for d by simp
  note k = cl_touch_ok[OF srv_listsD(2,3)[OF assms(1) c(1)] this, of ?i]
  have e: "es_touch th c c' t' s = srv_put th (cl_touch ?i ?f (es_list s th)) (es_adapters s) s"
    by (simp add: es_touch_def srv_put_def es_thread_def)
  have o: "cl_ok (cl_touch ?i ?f (es_list s th))" using k(1,2) by (simp add: cl_ok_def)
  show "srv_ok (es_touch th c c' t' s)" "moves (\<lambda>_. 0) s (es_touch th c c' t' s)"
    unfolding e by (rule srv_conns_ok[OF assms(1) c(1) o k(5,4)]; auto simp: k(3) split: if_splits)+
  show "listed (es_touch th c c' t' s) th c" unfolding listed_def e using c k(3) by auto
qed

lemma es_refresh_fine:
  assumes "srv_ok s" "listed s th c"
  shows "fine (\<lambda>_. 0) s (es_refresh now th c s)"
proof -
  let ?i = "uid_index (ls_uid c)" and ?t = "sa_timeout (es_adapters s (ls_adapter c)) + now div 1000"
  obtain c0 t where c: "th < length (es_netThreads s)" "cl_conns (es_list s th) ?i = Some (c0, t)" "ls_uid c0 = ls_uid c" using assms(2) by (auto simp: listed_def)
  obtain cl where cl: "cl_refresh (ls_uid c) ?t (es_list s th) = Inr cl" "cl_ok cl" "cl_free cl = cl_free (es_list s th)" "cl_same (es_list s th) cl"
    "cl_conns cl = (if ?t - ls_iLastRefreshTime c0 < 1 then cl_conns (es_list s th) else (cl_conns (es_list s th))(?i \<mapsto> (c0\<lparr>ls_iLastRefreshTime := ?t\<rparr>, ?t)))"
    using cl_refresh_ok[OF srv_listsD(1)[OF assms(1) c(1)] c(2), of ?t] c(3) by auto
  have "es_refresh now th c s = Inr (srv_put th cl (es_adapters s) s)" by (simp add: es_refresh_def on_list_put cl(1))
  moreover have "srv_ok (srv_put th cl (es_adapters s) s)" "moves (\<lambda>_. 0) s (srv_put th cl (es_adapters s) s)"
    by (rule srv_conns_ok[OF assms(1) c(1) cl(2,4,3)]; use c(2) in \<open>auto simp: cl(5) split: if_splits\<close>)+
  ultimately show ?thesis by (simp add: fineI)
qed

text \<open>Closing connections, each with its notice.\<close>

lemma srv_closing_ok:
  assumes "srv_ok s" "th < length (es_netThreads s)" "cl_ok cl" "cl_conns cl = cl_conns (es_list s th) |` (- set d)" "distinct d"
    and "cl_free cl = cl_free (es_list s th) @ d" "cl_emptyCheckTimeout cl = 0" "cl_total cl = cl_total (es_list s th)"
      "cl_iConnectionMagic cl = cl_iConnectionMagic (es_list s th)"
    and "list_all2 (\<lambda>i c. \<exists>c0 t. cl_conns (es_list s th) i = Some (c0, t) \<and> ls_adapter c = ls_adapter c0 \<and> ls_tcp c0 \<and>
      ls_uid c = ls_uid c0 \<and> ls_threadIndex c = ls_threadIndex c0) d cs"
  shows "srv_ok (srv_put th cl (closing now ct cs (es_adapters s)) s)" "moves (\<lambda>_. 0) s (srv_put th cl (closing now ct cs (es_adapters s)) s)"
proof -
  let ?ads = "closing now ct cs (es_adapters s)"
  note l = srv_listsD[OF assms(1,2)]
  define own where "own a i = owned_by a (es_list s th) i" for a i
  have q: "list_all2 (\<lambda>i c. (\<forall>a. own a i \<longleftrightarrow> ls_adapter c = a) \<and> (\<forall>a < es_bindAdapters s. \<not> sa_tcp (es_adapters s a) \<longrightarrow> \<not> own a i)) d cs"
    using assms(10)
  proof (rule list_all2_mono)
    fix i c assume "\<exists>c0 t. cl_conns (es_list s th) i = Some (c0, t) \<and> ls_adapter c = ls_adapter c0 \<and> ls_tcp c0 \<and> ls_uid c = ls_uid c0 \<and> ls_threadIndex c = ls_threadIndex c0"
    then obtain c0 t where c0: "cl_conns (es_list s th) i = Some (c0, t)" "ls_adapter c = ls_adapter c0" "ls_tcp c0" by blast
    have "sa_tcp (es_adapters s (ls_adapter c0))" using l(6)[OF c0(1)] c0(3) by (simp add: conn_ok_def)
    then show "(\<forall>a. own a i \<longleftrightarrow> ls_adapter c = a) \<and> (\<forall>a < es_bindAdapters s. \<not> sa_tcp (es_adapters s a) \<longrightarrow> \<not> own a i)"
      using c0(1,2) by (auto simp: own_def owned_by_def)
  qed
  have own: "length (filter (\<lambda>c. ls_adapter c = a) cs) = length (filter (own a) d)" for a
    using q by (induction rule: list_all2_induct) simp_all
  have tcp: "filter (own a) d = []" if "a < es_bindAdapters s" "\<not> sa_tcp (es_adapters s a)" for a
    using q that by (induction rule: list_all2_induct) auto
  have cn: "int (cnt cl a) = int (cnt (es_list s th) a) - int (length (filter (own a) d))" for a
    unfolding own_def by (rule cnt_restrict[OF l(3) assms(4,5)])
  have ctx: "ctx_ok s (notice now ct c)" if "c \<in> set cs" for c
  proof -
    obtain j where j: "j < length cs" "cs ! j = c" using \<open>c \<in> set cs\<close> unfolding in_set_conv_nth by blast
    have "j < length d" using list_all2_lengthD[OF assms(10)] j(1) by simp
    from list_all2_nthD[OF assms(10) this] obtain c0 t where c0: "cl_conns (es_list s th) (d ! j) = Some (c0, t)"
      "ls_adapter c = ls_adapter c0" "ls_uid c = ls_uid c0" "ls_threadIndex c = ls_threadIndex c0"
      unfolding j(2) by (elim exE conjE)
    show ?thesis by (rule listed_ctx[OF assms(1) conns_listed(1)[OF assms(1,2) c0(1)]]) (simp_all add: notice_def RecvContext_new_def c0(2-4))
  qed
  have cur: "sa_iCurConns (?ads a) = sa_iCurConns (es_adapters s a) - int (cnt (es_list s th) a) + int (cnt cl a) \<and> sa_iCurConns (?ads a) \<le> sa_iMaxConns (es_adapters s a)"
    if "a < es_bindAdapters s" "sa_tcp (es_adapters s a)" for a
  proof -
    have "sa_iCurConns (?ads a) = sa_iCurConns (es_adapters s a) - int (length (filter (own a) d))"
      using closing_adapter[of "es_adapters s" a now ct cs] unfolding own by (elim conjE)
    then show ?thesis using cn[of a] conjunct2[OF srv_countsD(1)[OF assms(1) that]] by linarith
  qed
  have udp: "cnt cl a \<le> 1" if "a < es_bindAdapters s" "\<not> sa_tcp (es_adapters s a)" for a
    using cn[of a] tcp[OF that] srv_countsD(2)[OF assms(1) that assms(2)] by simp
  have co: "conn_ok s th c" if "cl_conns cl i = Some (c, t)" for i c t
    using that l(6)[of i c t] by (simp add: assms(4) restrict_map_def split: if_splits)
  have cx: "ctx_ok s rc" if "a < es_bindAdapters s" "rc \<in> set (db_all (sa_dataBuffer (?ads a)))" for a rc
    using conjunct2[OF conjunct2[OF closing_adapter[of "es_adapters s" a now ct cs]]] that ctx srv_ctxsD(1)[OF assms(1)] by blast
  note k = srv_put_ok[where ads = ?ads, OF assms(1,2,3,7,8,9) co conjunct1[OF closing_adapter] cur udp cx]
  show "srv_ok (srv_put th cl ?ads s)" by (rule k(1))
  show "moves (\<lambda>_. 0) s (srv_put th cl ?ads s)" using assms(6) by (intro moves_list[OF assms(2) k(2), where m = 0 and D = d]) simp_all
qed


lemma fun_upd_restrict: "m(i := None) = m |` (- set [i])"
  by (auto simp: restrict_map_def)

lemma nt_delConnection_fine:
  assumes "srv_ok s" "listed s th c"
  shows "fine (\<lambda>_. 0) s (nt_delConnection now th c ct s)"
proof (cases "ls_tcp c")
  case True
  let ?i = "uid_index (ls_uid c)"
  obtain c0 t where c: "th < length (es_netThreads s)" "cl_conns (es_list s th) ?i = Some (c0, t)" "ls_uid c0 = ls_uid c" "ls_tcp c0 = ls_tcp c"
    "ls_adapter c0 = ls_adapter c" "ls_threadIndex c0 = ls_threadIndex c" using assms(2) by (auto simp: listed_def)
  note l = srv_listsD[OF assms(1) c(1)]
  obtain cl where cl: "delConnection now c True ct (es_list s th, es_adapters s) = Inr (cl, ad_close now ct c (es_adapters s))" "cl_ok cl"
    "cl_conns cl = (cl_conns (es_list s th))(?i := None)" "cl_free cl = cl_free (es_list s th) @ [?i]" "cl_same (es_list s th) cl"
    using delConnection_ok(1)[OF l(1) c(2,3) True, of now ct "es_adapters s"] by blast
  have "nt_delConnection now th c ct s = Inr (srv_put th cl (closing now ct [c] (es_adapters s)) s)"
    using True cl(1) by (simp add: nt_delConnection_def on_list_put)
  moreover have "srv_ok (srv_put th cl (closing now ct [c] (es_adapters s)) s)" "moves (\<lambda>_. 0) s (srv_put th cl (closing now ct [c] (es_adapters s)) s)"
    by (rule srv_closing_ok[OF assms(1) c(1) cl(2), where d = "[?i]"]; use c True l(4) cl(3-5) in \<open>simp add: fun_upd_restrict cl_same_def\<close>)+
  ultimately show ?thesis by (simp add: fineI)
next
  case False
  then show ?thesis using assms(1) by (simp add: nt_delConnection_def fineI)
qed

lemma conns_pairs:
  assumes "srv_ok s" "th < length (es_netThreads s)" "\<And>i. i \<in> set d \<Longrightarrow> \<exists>c t. cl_conns (es_list s th) i = Some (c, t) \<and> ls_tcp c"
  shows "list_all2 (\<lambda>i c. \<exists>c0 t. cl_conns (es_list s th) i = Some (c0, t) \<and> ls_adapter c = ls_adapter c0 \<and> ls_tcp c0 \<and>
      ls_uid c = ls_uid c0 \<and> ls_threadIndex c = ls_threadIndex c0) d (map (cl_conn (es_list s th)) d)"
  using assms(3) by (fastforce simp: list_all2_map2 intro: list_all2_refl list.rel_refl_strong)

lemma checkTimeout_fine:
  assumes "srv_ok s" "th < length (es_netThreads s)"
  shows "fine (\<lambda>_. 0) s (on_list th (checkTimeout now) s)"
proof -
  let ?cl = "es_list s th"
  note l = srv_listsD[OF assms]
  define d where "d = (if now div 1000 - cl_lastTimeoutTime ?cl < 1 then [] else dead (es_adapters s) now ?cl (cl_tl ?cl))"
  obtain cl where cl: "checkTimeout now (?cl, es_adapters s) = Inr (cl, closing now EM_SERVER_TIMEOUT_CLOSE (map (cl_conn ?cl) d) (es_adapters s))"
    "cl_ok cl" "cl_conns cl = cl_conns ?cl |` (- set d)" "cl_free cl = cl_free ?cl @ d" "cl_total cl = cl_total ?cl"
    "cl_iConnectionMagic cl = cl_iConnectionMagic ?cl" "cl_emptyCheckTimeout cl = 0"
    using checkTimeout_ok[OF l(1,4), of now "es_adapters s"] unfolding d_def by blast
  have i: "\<exists>c t. cl_conns ?cl i = Some (c, t) \<and> ls_tcp c" if "i \<in> set d" for i
    using that by (auto simp: d_def dead_def expired_def split: if_splits option.splits)
  have dist: "distinct d" using cl_places_distinct[OF l(2)] by (simp add: d_def dead_def)
  note k = srv_closing_ok[where now = now and ct = EM_SERVER_TIMEOUT_CLOSE, OF assms cl(2,3) dist cl(4,7,5,6) conns_pairs[OF assms i]]
  show ?thesis using k by (simp add: on_list_put cl(1) fineI)
qed

lemma closeConnections_fine:
  assumes "srv_ok s" "th < length (es_netThreads s)" "sa_tcp (es_adapters s a)"
  shows "fine (\<lambda>_. 0) s (on_list th (closeConnections now a) s)"
proof -
  let ?cl = "es_list s th"
  note l = srv_listsD[OF assms(1,2)]
  have tcp: "ls_tcp c" if "cl_conns ?cl i = Some (c, t)" "ls_adapter c = a" for i c t using l(6)[OF that(1)] that(2) assms(3) by (simp add: conn_ok_def)
  define d where "d = filter (owned_by a ?cl) (map (\<lambda>n. snd (snd n)) (cl_tl ?cl))"
  obtain cl where cl: "closeConnections now a (?cl, es_adapters s) = Inr (cl, closing now EM_SERVER_CLOSE (map (cl_conn ?cl) d) (es_adapters s))"
    "cl_ok cl" "cl_conns cl = cl_conns ?cl |` (- set d)" "cl_free cl = cl_free ?cl @ d" "cl_same ?cl cl"
    using closeConnections_ok[where now = now and a = a and ads = "es_adapters s", OF l(1)] tcp unfolding d_def by blast
  have i: "\<exists>c t. cl_conns ?cl i = Some (c, t) \<and> ls_tcp c" if "i \<in> set d" for i
    using that tcp by (auto simp: d_def owned_iff)
  have dist: "distinct d" using cl_places_distinct[OF l(2)] by (simp add: d_def)
  have s: "cl_emptyCheckTimeout cl = 0" "cl_total cl = cl_total ?cl" "cl_iConnectionMagic cl = cl_iConnectionMagic ?cl"
    using cl(5) l(4) by (simp_all add: cl_same_def)
  note k = srv_closing_ok[where now = now and ct = EM_SERVER_CLOSE, OF assms(1,2) cl(2,3) dist cl(4) s conns_pairs[OF assms(1,2) i]]
  show ?thesis using k by (simp add: on_list_put cl(1) fineI)
qed

text \<open>There is room for a new connection, as every adapter counts its own.\<close>

lemma srv_room_left:
  assumes "srv_ok s" "th < length (es_netThreads s)" "a < es_bindAdapters s"
    and "if sa_tcp (es_adapters s a) then sa_iCurConns (es_adapters s a) < sa_iMaxConns (es_adapters s a) else cnt (es_list s th) a = 0"
  shows "cl_free (es_list s th) \<noteq> []"
proof
  assume e: "cl_free (es_list s th) = []"
  note l = srv_listsD[OF assms(1,2)]
  let ?m = "\<lambda>b. if sa_tcp (es_adapters s b) then sa_iMaxConns (es_adapters s b) else 1"
  have le: "int (cnt (es_list s th) b) \<le> sa_iCurConns (es_adapters s b)" if b: "b < es_bindAdapters s" "sa_tcp (es_adapters s b)" for b
  proof -
    have "int (cnt (es_list s th) b) \<le> (\<Sum>k < length (es_netThreads s). int (cnt (es_list s k) b))"
      using assms(2) by (intro member_le_sum) auto
    then show ?thesis using srv_countsD(1)[OF assms(1) b] by simp
  qed
  have m: "int (cnt (es_list s th) b) \<le> ?m b" if "b < es_bindAdapters s" for b
    using le[OF that] srv_countsD[OF assms(1) that] assms(2) by (cases "sa_tcp (es_adapters s b)") auto
  have "int (cnt (es_list s th) a) < ?m a" using le[OF assms(3)] assms(4) by (auto split: if_splits)
  then have "(\<Sum>b < es_bindAdapters s. int (cnt (es_list s th) b)) < (\<Sum>b < es_bindAdapters s. ?m b)"
    using m assms(3) by (intro sum_strict_mono_ex1 bexI[of _ a]) auto
  moreover have "card (dom (cl_conns (es_list s th))) = (\<Sum>b < es_bindAdapters s. cnt (es_list s th) b)"
    using l(6) by (intro cnt_sum[OF l(3)]) (auto simp: conn_ok_def)
  ultimately show False using cl_room[OF l(1)] e l(5) by (simp add: srv_room_def flip: of_nat_sum)
qed


lemma addConnection_ok:
  assumes "srv_ok s" "th < length (es_netThreads s)" "conn_ok s th c"
    and "if ls_tcp c then sa_iCurConns (es_adapters s (ls_adapter c)) < sa_iMaxConns (es_adapters s (ls_adapter c))
      else cnt (es_list s th) (ls_adapter c) = 0"
  defines "f \<equiv> (if ls_tcp c then increaseNowConnection else id)"
  shows "\<exists>s'. map_sum id (es_adapter (ls_adapter c) f) (addConnection now th c s) = Inr s' \<and> srv_ok s' \<and> moves (\<lambda>k. if k = th then 1 else 0) s s' \<and>
    (\<forall>k b. cnt (es_list s' k) b = cnt (es_list s k) b + (if k = th \<and> ls_adapter c = b then 1 else 0)) \<and>
    (\<forall>i is. cl_free (es_list s th) = i # is \<longrightarrow> cl_conns (es_list s' th) i =
      Some (c\<lparr>ls_uid := or (cl_iConnectionMagic (es_list s th)) (of_nat i)\<rparr>, sa_timeout (es_adapters s (ls_adapter c)) + now div 1000))"
proof -
  let ?cl = "es_list s th" and ?a = "ls_adapter c"
  note l = srv_listsD[OF assms(1,2)]
  have co: "?a < es_bindAdapters s" "ls_tcp c = sa_tcp (es_adapters s ?a)" using assms(3) by (simp_all add: conn_ok_def)
  have "cl_free ?cl \<noteq> []" using srv_room_left[OF assms(1,2) co(1)] assms(4) co(2) by simp
  then obtain i "is" where free: "cl_free ?cl = i # is" by (cases "cl_free ?cl") auto
  define cl1 where "cl1 = ?cl\<lparr>cl_free := is\<rparr>"
  note u = cl_getUniqId_ok[OF l(1) free, folded cl1_def]
  define c1 where "c1 = c\<lparr>ls_uid := or (cl_iConnectionMagic ?cl) (of_nat i)\<rparr>"
  let ?t = "sa_timeout (es_adapters s ?a) + now div 1000"
  have m: "cl_iConnectionMagic cl1 = cl_iConnectionMagic ?cl" "cl_free cl1 = is" "cl_same ?cl cl1" by (simp_all add: cl1_def)
  have "ls_uid c1 = or (cl_iConnectionMagic cl1) (of_nat i)" by (simp add: c1_def m(1))
  from cl_add_ok[OF u(2,3) this, of ?t] obtain cl where cl: "cl_add c1 ?t cl1 = Inr cl" "cl_ok cl" "cl_conns cl = (cl_conns ?cl)(i \<mapsto> (c1, ?t))"
    "cl_free cl = is" "cl_same cl1 cl"
    unfolding u(4) m(2) by blast
  have s: "cl_emptyCheckTimeout cl = 0" "cl_total cl = cl_total ?cl" "cl_iConnectionMagic cl = cl_iConnectionMagic ?cl"
    using cl_same_trans[OF m(3) cl(5)] l(4) by (simp_all add: cl_same_def)
  define ads where "ads = (es_adapters s)(?a := f (es_adapters s ?a))"
  have new: "cl_conns ?cl i = None" using l(3) free by (auto simp: cl_ids_def)
  have n: "cnt cl b = cnt ?cl b + (if ?a = b then 1 else 0)" for b using cnt_insert[OF l(3) new cl(3), of b] by (simp add: c1_def)
  have e: "map_sum id (es_adapter ?a f) (addConnection now th c s) = Inr (srv_put th cl ads s)"
    using cl(1) by (simp add: addConnection_def on_list_put u(1) c1_def srv_put_def es_adapter_def es_thread_def ads_def)
  have "conn_ok s th c1" using assms(3) by (simp add: conn_ok_def c1_def)
  then have cs: "conn_ok s th d" if "cl_conns cl j = Some (d, t)" for j d t using that l(6)[of j d t] by (auto simp: cl(3) split: if_splits)
  have same: "sa_same (es_adapters s b) (ads b)" for b by (simp add: ads_def f_def increaseNowConnection_def sa_same_def)
  have cur: "sa_iCurConns (ads b) = sa_iCurConns (es_adapters s b) - int (cnt ?cl b) + int (cnt cl b) \<and> sa_iCurConns (ads b) \<le> sa_iMaxConns (es_adapters s b)"
    if "b < es_bindAdapters s" "sa_tcp (es_adapters s b)" for b
    using conjunct2[OF srv_countsD(1)[OF assms(1) that]] assms(4) co(2) that(2) by (auto simp: n ads_def f_def increaseNowConnection_def)
  have udp: "cnt cl b \<le> 1" if "b < es_bindAdapters s" "\<not> sa_tcp (es_adapters s b)" for b
    using srv_countsD(2)[OF assms(1) that assms(2)] assms(4) co(2) that(2) by (auto simp: n)
  have ctx: "ctx_ok s rc" if "b < es_bindAdapters s" "rc \<in> set (db_all (sa_dataBuffer (ads b)))" for b rc
    using srv_ctxsD(1)[OF assms(1) that(1)] that(2) by (auto simp: ads_def f_def increaseNowConnection_def split: if_splits)
  note k = srv_put_ok[where ads = ads, OF assms(1,2) cl(2) s cs same cur udp ctx]
  have "moves (\<lambda>k. if k = th then 1 else 0) s (srv_put th cl ads s)"
    using free cl(4) by (intro moves_list[OF assms(2) k(2), where m = 1 and D = "[]"]) simp_all
  moreover have "cnt (es_list (srv_put th cl ads s) j) b = cnt (es_list s j) b + (if j = th \<and> ?a = b then 1 else 0)" for j b
    using assms(2) n by simp
  moreover have "cl_conns (es_list (srv_put th cl ads s) th) i = Some (c1, ?t)" using assms(2) cl(3) by simp
  ultimately show ?thesis unfolding e using k(1) free by (auto simp: c1_def)
qed

lemma addTcpConnection_fine:
  assumes "srv_ok s" "th < length (es_netThreads s)" "conn_ok s th c" "ls_tcp c" "\<not> isLimitMaxConnection (es_adapters s (ls_adapter c))"
  shows "fine (\<lambda>k. if k = th then 1 else 0) s (addTcpConnection now th c s)"
  using addConnection_ok[OF assms(1-3), of now] assms(4,5) unfolding fine_def by (auto simp: addTcpConnection_def isLimitMaxConnection_def)

lemma moves_mono:
  assumes "moves k s s'" "\<And>th. k th \<le> l th"
  shows "moves l s s'"
  unfolding moves_def
proof (intro conjI allI impI)
  show "setup_same s s'" using assms(1) by (simp add: moves_def)
  fix th assume "th < length (es_netThreads s)"
  then obtain m D where "m \<le> k th" "cl_free (es_list s' th) = drop m (cl_free (es_list s th)) @ D" using assms(1) unfolding moves_def by blast
  then show "\<exists>m \<le> l th. \<exists>D. cl_free (es_list s' th) = drop m (cl_free (es_list s th)) @ D" using le_trans[OF _ assms(2)] by blast
qed

lemma fine_mono: "fine k s r \<Longrightarrow> (\<And>th. k th \<le> l th) \<Longrightarrow> fine l s r"
  using moves_mono unfolding fine_def by blast

lemma es_accept_fine:
  fixes fd :: nat
  assumes "srv_ok s" "a < es_bindAdapters s" "sa_tcp (es_adapters s a)"
  defines "th \<equiv> sa_netThreads (es_adapters s a) ! (fd mod length (sa_netThreads (es_adapters s a)))"
  shows "fine (\<lambda>k. if k = th then 1 else 0) s (es_accept now a fd allowed tr s)"
proof (cases "\<not> allowed \<or> isLimitMaxConnection (es_adapters s a)")
  case True
  then show ?thesis using assms(1) by (simp add: es_accept_def Let_def fineI)
next
  case False
  let ?ths = "sa_netThreads (es_adapters s a)" and ?k = "fd mod length (sa_netThreads (es_adapters s a))"
  have "?ths \<noteq> []" and nt: "\<forall>k < length ?ths. ?ths ! k < length (es_netThreads s) \<and> nt_threadIndex (es_netThreads s ! (?ths ! k)) = k"
    using assms(1,2) by (auto simp: srv_ok_def srv_setup_def)
  then have k: "?k < length ?ths" by simp
  then have th: "th < length (es_netThreads s)" "nt_threadIndex (es_netThreads s ! th) = ?k" using nt by (simp_all add: th_def)
  define c where "c = Listed_new now (int fd) True a (nt_threadIndex (es_netThreads s ! th)) (sa_iHeaderLen (es_adapters s a)) tr"
  have c: "conn_ok s th c" "ls_tcp c" "ls_adapter c = a" using assms(2,3) k th(2) by (simp_all add: c_def Listed_new_def conn_ok_def th_def)
  have "es_accept now a fd allowed tr s = addTcpConnection now th c s" using False by (simp add: es_accept_def Let_def th_def c_def)
  then show ?thesis using addTcpConnection_fine[OF assms(1) th(1) c(1,2)] False c(3) by simp
qed


section \<open>Sending and handling\<close>

text \<open>Results with a flag.\<close>

definition fine2 :: "EpollServer \<Rightarrow> cl_exn + 'a \<times> EpollServer \<Rightarrow> bool" where
  "fine2 s r \<longleftrightarrow> (\<exists>x s'. r = Inr (x, s') \<and> srv_ok s' \<and> moves (\<lambda>_. 0) s s')"

lemma fine2I: "srv_ok s' \<Longrightarrow> moves (\<lambda>_. 0) s s' \<Longrightarrow> fine2 s (Inr (x, s'))"
  by (simp add: fine2_def)

lemma fine2_refl [simp]: "srv_ok s \<Longrightarrow> fine2 s (Inr (x, s))"
  by (simp add: fine2_def)

lemma fine2_of: "moves (\<lambda>_. 0) s s1 \<Longrightarrow> fine (\<lambda>_. 0) s1 r \<Longrightarrow> fine2 s (map_sum id (\<lambda>s2. (x, s2)) r)"
  using moves_0_trans by (fastforce simp: fine_def fine2_def)

lemma fine2_trans: "moves (\<lambda>_. 0) s s1 \<Longrightarrow> fine2 s1 r \<Longrightarrow> fine2 s r"
  using moves_0_trans by (fastforce simp: fine2_def)

lemma map_sum_Inr_iff: "map_sum id f r = Inr y \<longleftrightarrow> (\<exists>x. r = Inr x \<and> y = f x)"
  by (cases r) auto

lemma es_conn_send_fine:
  assumes "srv_ok s" "listed s th c"
  shows "fine2 s (es_conn_send now th c bs s)"
    and "es_conn_send now th c bs s = Inr (Some ret, s') \<Longrightarrow> ret < 0 \<Longrightarrow> listed s' th c"
proof -
  obtain r c' t' where r: "conn_answer bs (ls_conn c) (ls_trans c) = (r, c', t')" by (cases "conn_answer bs (ls_conn c) (ls_trans c)")
  note t = es_touch_ok[OF assms, of c' t']
  show "fine2 s (es_conn_send now th c bs s)"
    using r t(1,2) fine2_of[OF t(2) es_refresh_fine[OF t(1,3)]] by (auto simp: es_conn_send_def Let_def intro: fine2I split: sum.split)
  show "es_conn_send now th c bs s = Inr (Some ret, s') \<Longrightarrow> ret < 0 \<Longrightarrow> listed s' th c"
    using r t(3) by (auto simp: es_conn_send_def Let_def map_sum_Inr_iff split: sum.splits if_splits)
qed


lemma getNetThread_ok:
  assumes "srv_ok s" "ctx_ok s rc"
  shows "\<exists>th. getNetThread s rc = Inr th \<and> th < length (es_netThreads s)"
  using assms by (auto simp: getNetThread_def Let_def ctx_ok_def srv_ok_def srv_setup_def)

lemma nt_push_ok:
  assumes "srv_ok s" "th < length (es_netThreads s)" "ctx_ok s (sx_context sc)"
  shows "srv_ok (es_thread th (\<lambda>nt. nt\<lparr>nt_sbuffer := nt_sbuffer nt @ [sc]\<rparr>) s)"
    "moves (\<lambda>_. 0) s (es_thread th (\<lambda>nt. nt\<lparr>nt_sbuffer := nt_sbuffer nt @ [sc]\<rparr>) s)"
  using srv_sbuffer_ok[where f = "\<lambda>q. q @ [sc]", OF assms(1,2)] srv_ctxsD(2)[OF assms(1,2)] assms(3) by auto

lemma es_send_fine:
  assumes "srv_ok s" "ctx_ok s (sx_context sc)"
  shows "fine2 s (es_send now here sc s)"
proof -
  obtain th where th: "getNetThread s (sx_context sc) = Inr th" "th < length (es_netThreads s)" using getNetThread_ok[OF assms] by blast
  obtain r where r: "cl_get (rc_uid (sx_context sc)) (es_list s th) = Inr r" "\<forall>c. r = Some c \<longrightarrow> listed s th c" using get_listed[OF assms(1) th(2) assms(2)] by blast
  have "fine2 s (nt_send now here th sc s)"
  proof (cases "es_terminate s \<or> \<not> here \<or> r = None")
    case True
    then show ?thesis using assms(1) r(1) nt_push_ok[OF assms(1) th(2) assms(2)] by (auto simp: nt_send_def intro: fine2I)
  next
    case False
    then obtain c where c: "r = Some c" "listed s th c" using r(2) by auto
    obtain x s1 where "es_conn_send now th c (sx_sbuffer sc) s = Inr (x, s1)" "srv_ok s1" "moves (\<lambda>_. 0) s s1"
      using es_conn_send_fine(1)[OF assms(1) c(2), of now "sx_sbuffer sc"] unfolding fine2_def by blast
    then show ?thesis using False r(1) c(1) by (simp add: nt_send_def fine2I)
  qed
  then show ?thesis using th(1) assms(1) by (simp add: es_send_def fine2I)
qed

lemma es_close_fine:
  assumes "srv_ok s" "ctx_ok s rc"
  shows "fine (\<lambda>_. 0) s (es_close rc s)"
proof -
  obtain th where th: "getNetThread s rc = Inr th" "th < length (es_netThreads s)" using getNetThread_ok[OF assms] by blast
  have "ctx_ok s (sx_context (createCloseContext rc))" using assms(2) by (simp add: createCloseContext_def)
  from nt_push_ok[OF assms(1) th(2) this] show ?thesis using th(1) assms(1) by (auto simp: es_close_def nt_close_def intro: fineI)
qed

lemma pipe_one_fine:
  assumes "srv_ok s" "th < length (es_netThreads s)" "ctx_ok s (sx_context sc)"
  shows "fine2 s (pipe_one now th sc s)"
proof -
  obtain r where r: "cl_get (rc_uid (sx_context sc)) (es_list s th) = Inr r" "\<forall>c. r = Some c \<longrightarrow> listed s th c"
    using get_listed[OF assms] by blast
  show ?thesis
  proof (cases r)
    case None
    then show ?thesis using r(1) assms(1) by (simp add: pipe_one_def fine2I)
  next
    case (Some c)
    then have c: "listed s th c" using r(2) by simp
    show ?thesis
    proof (cases "sx_cmd sc")
      case CmdClose
      obtain e c' where k: "conn_setClose (ls_conn c) (ls_trans c) = (e, c')" by fastforce
      note t = es_touch_ok[OF assms(1) c, of c' "ls_trans c"]
      show ?thesis using r(1) Some CmdClose k t(1,2) fine2_of[OF t(2) nt_delConnection_fine[OF t(1,3)]]
        by (auto simp: pipe_one_def Let_def intro: fine2I)
    next
      case CmdSend
      obtain x s1 where x: "es_conn_send now th c (sx_sbuffer sc) s = Inr (x, s1)" "srv_ok s1" "moves (\<lambda>_. 0) s s1"
        using es_conn_send_fine(1)[OF assms(1) c, of now "sx_sbuffer sc"] unfolding fine2_def by blast
      have "x = Some ret \<Longrightarrow> ret < 0 \<Longrightarrow> listed s1 th c" for ret using es_conn_send_fine(2)[OF assms(1) c] x(1) by simp
      then show ?thesis using r(1) Some CmdSend x fine2_of[OF x(3) nt_delConnection_fine[OF x(2)]]
        by (auto simp: pipe_one_def intro: fine2I split: option.splits)
    qed
  qed
qed

lemma moves_ctx: "moves k s s' \<Longrightarrow> ctx_ok s' = ctx_ok s"
  using setup_same_ctx by (simp add: moves_def)

lemma moves_threads: "moves k s s' \<Longrightarrow> length (es_netThreads s') = length (es_netThreads s) \<and> es_bindAdapters s' = es_bindAdapters s"
  by (simp add: moves_def setup_same_def)

lemma process_pipe_fine:
  "srv_ok s \<Longrightarrow> th < length (es_netThreads s) \<Longrightarrow> \<forall>sc \<in> set scs. ctx_ok s (sx_context sc) \<Longrightarrow> fine (\<lambda>_. 0) s (process_pipe now th scs s)"
proof (induction scs arbitrary: s)
  case Nil
  then show ?case by (simp add: fineI)
next
  case (Cons sc scs)
  define s0 where "s0 = es_thread th (\<lambda>nt. nt\<lparr>nt_sbuffer := scs\<rparr>) s"
  have 0: "srv_ok s0" "moves (\<lambda>_. 0) s s0"
    using srv_sbuffer_ok[where f = "\<lambda>_. scs", OF Cons.prems(1,2)] Cons.prems(3) by (auto simp: s0_def)
  have th: "th < length (es_netThreads s0)" using Cons.prems(2) by (simp add: s0_def)
  have "ctx_ok s0 (sx_context sc)" using Cons.prems(3) moves_ctx[OF 0(2)] by simp
  then obtain x s1 where 1: "pipe_one now th sc s0 = Inr (x, s1)" "srv_ok s1" "moves (\<lambda>_. 0) s0 s1"
    using pipe_one_fine[OF 0(1) th] unfolding fine2_def by blast
  note m = moves_0_trans[OF 0(2) 1(3)]
  show ?case
  proof (cases x)
    case True
    then show ?thesis using 1(1,2) m by (simp add: s0_def[symmetric] fineI)
  next
    case False
    have "fine (\<lambda>_. 0) s1 (process_pipe now th scs s1)"
      using Cons.prems(2,3) moves_ctx[OF m] moves_threads[OF m] by (intro Cons.IH[OF 1(2)]) auto
    then show ?thesis using fine_trans[OF m] False 1(1) by (simp add: s0_def[symmetric])
  qed
qed

lemma processPipe_fine:
  assumes "srv_ok s" "th < length (es_netThreads s)"
  shows "fine (\<lambda>_. 0) s (processPipe now th s)"
  unfolding processPipe_def using srv_ctxsD(2)[OF assms] by (intro process_pipe_fine[OF assms]) auto

lemma do_actions_fine: "srv_ok s \<Longrightarrow> ctx_ok s data \<Longrightarrow> fine2 s (do_actions now here data as s)"
proof (induction as arbitrary: s)
  case Nil
  then show ?case by simp
next
  case (Cons a as)
  show ?case
  proof (cases a)
    case (Respond bs)
    have "ctx_ok s (sx_context (createSendContext data bs))" using Cons.prems(2) by (simp add: createSendContext_def)
    then obtain x s1 where 1: "es_send now here (createSendContext data bs) s = Inr (x, s1)" "srv_ok s1" "moves (\<lambda>_. 0) s s1"
      using es_send_fine[OF Cons.prems(1)] unfolding fine2_def by blast
    show ?thesis using 1 Respond fine2_trans[OF 1(3) Cons.IH[OF 1(2)]] Cons.prems(2) moves_ctx[OF 1(3)] by (auto intro: fine2I)
  next
    case CloseIt
    obtain s1 where 1: "es_close data s = Inr s1" "srv_ok s1" "moves (\<lambda>_. 0) s s1"
      using es_close_fine[OF Cons.prems] by (auto simp: fine_def)
    show ?thesis using 1 CloseIt fine2_trans[OF 1(3) Cons.IH[OF 1(2)]] Cons.prems(2) moves_ctx[OF 1(3)] by auto
  qed
qed

lemma db_pop_some:
  assumes "db_pop h db = (Some rc, db')" "db_threadDataQueue db \<noteq> []"
  shows "length (db_threadDataQueue db') = length (db_threadDataQueue db)" "db_queueMode db' = db_queueMode db"
    "mset (db_all db) = add_mset rc (mset (db_all db'))"
proof -
  let ?q = "db_threadDataQueue db" and ?i = "getDataQueue h db"
  obtain rs where rs: "?q ! ?i = rc # rs" "db' = db\<lparr>db_threadDataQueue := ?q[?i := rs], db_iRecvBufferSize := db_iRecvBufferSize db - 1\<rparr>"
    using assms(1) by (auto simp: db_pop_def Let_def split: list.splits)
  then show "length (db_threadDataQueue db') = length ?q" "db_queueMode db' = db_queueMode db" by simp_all
  have i: "?i < length ?q" using getDataQueue_less[OF assms(2)] .
  have "concat ?q = concat (take ?i ?q) @ (rc # rs) @ concat (drop (Suc ?i) ?q)"
    using id_take_nth_drop[OF i] rs(1) by (metis concat.simps(2) concat_append)
  moreover have "concat (?q[?i := rs]) = concat (take ?i ?q) @ rs @ concat (drop (Suc ?i) ?q)" using i by (simp add: upd_conv_take_nth_drop)
  ultimately show "mset (db_all db) = add_mset rc (mset (db_all db'))" by (simp add: db_all_def rs(2))
qed

lemma srv_queues: "srv_ok s \<Longrightarrow> a < es_bindAdapters s \<Longrightarrow> db_threadDataQueue (sa_dataBuffer (es_adapters s a)) \<noteq> []"
  by (simp add: srv_ok_def srv_setup_def)

lemma handle_loop_fine: "srv_ok s \<Longrightarrow> a < es_bindAdapters s \<Longrightarrow> fine (\<lambda>_. 0) s (handle_loop hk now a h n s)"
proof (induction n arbitrary: s)
  case 0
  then show ?case by (simp add: fineI)
next
  case (Suc n)
  obtain r db where p: "db_pop h (sa_dataBuffer (es_adapters s a)) = (r, db)" by fastforce
  show ?case
  proof (cases r)
    case None
    then show ?thesis using p Suc.prems(1) by (simp add: fineI)
  next
    case (Some data)
    note q = db_pop_some[OF p[unfolded Some] srv_queues[OF Suc.prems]]
    have sub: "insert data (set (db_all db)) = set (db_all (sa_dataBuffer (es_adapters s a)))"
      using q(3) by (metis set_mset_add_mset_insert set_mset_mset)
    define s1 where "s1 = es_adapter a (sa_buffer (\<lambda>_. db)) s"
    have 1: "srv_ok s1" "moves (\<lambda>_. 0) s s1"
      using srv_buffer_ok[where g = "sa_buffer (\<lambda>_. db)", OF Suc.prems] q(1,2) sub srv_ctxsD(1)[OF Suc.prems] by (auto simp: s1_def sa_same_def)
    have c: "ctx_ok s data" using sub srv_ctxsD(1)[OF Suc.prems] by blast
    obtain as throws where t: "treatment hk now (sa_iQueueTimeout (es_adapters s a)) data = (as, throws)" by fastforce
    define here where "here = (es_merged s \<and> rc_threadIndex data = h)"
    have "ctx_ok s1 data" using c moves_ctx[OF 1(2)] by simp
    then obtain thrown s2 where 2: "do_actions now here data as s1 = Inr (thrown, s2)" "srv_ok s2" "moves (\<lambda>_. 0) s1 s2"
      using do_actions_fine[OF 1(1)] unfolding fine2_def by blast
    note m2 = moves_0_trans[OF 1(2) 2(3)]
    have e: "handle_loop hk now a h (Suc n) s = (if thrown \<or> throws then case es_close data s2 of Inl e \<Rightarrow> Inl e | Inr s3 \<Rightarrow> handle_loop hk now a h n s3
        else handle_loop hk now a h n s2)"
      using 2(1) by (simp add: p Some t Let_def s1_def[symmetric] here_def[symmetric])
    show ?thesis
    proof (cases "thrown \<or> throws")
      case False
      then show ?thesis using e fine_trans[OF m2 Suc.IH[OF 2(2)]] Suc.prems(2) moves_threads[OF m2] by simp
    next
      case True
      have "ctx_ok s2 data" using c moves_ctx[OF m2] by simp
      then obtain s3 where 3: "es_close data s2 = Inr s3" "srv_ok s3" "moves (\<lambda>_. 0) s2 s3" using es_close_fine[OF 2(2)] by (auto simp: fine_def)
      note m3 = moves_0_trans[OF m2 3(3)]
      show ?thesis using True e 3(1) fine_trans[OF m3 Suc.IH[OF 3(2)]] Suc.prems(2) moves_threads[OF m3] by simp
    qed
  qed
qed

section \<open>The events of a socket keep the invariant\<close>

lemma touched_buffer_ok:
  fixes now :: int and c' :: Connection and t' :: Transceiver
  assumes "srv_ok s" "listed s th c"
  defines "s1 \<equiv> es_adapter (ls_adapter c) (sa_buffer (db_insert_all (new_contexts now c c'))) (es_touch th c c' t' s)"
  shows "srv_ok s1" "moves (\<lambda>_. 0) s s1" "listed s1 th c"
proof -
  note t = es_touch_ok[OF assms(1,2), of c' t']
  let ?s = "es_touch th c c' t' s" and ?g = "sa_buffer (db_insert_all (new_contexts now c c'))"
  have a: "ls_adapter c < es_bindAdapters ?s" using listed_ok(1)[OF t(1,3)] by (simp add: conn_ok_def)
  have n: "ctx_ok ?s rc" if "rc \<in> set (new_contexts now c c')" for rc
    using that by (intro listed_ctx[OF t(1,3)]) (auto simp: new_contexts_def RecvContext_new_def)
  have x: "ctx_ok ?s rc" if "rc \<in> set (db_all (sa_dataBuffer (?g (es_adapters ?s (ls_adapter c)))))" for rc
    using that db_insert_all_set(2)[of "new_contexts now c c'"] n srv_ctxsD(1)[OF t(1) a] by auto
  have g: "sa_same b (?g b)" "sa_iCurConns (?g b) = sa_iCurConns b" for b by (simp_all add: sa_same_def)
  note k = srv_buffer_ok[where g = ?g, OF t(1) a g x, folded s1_def]
  show "srv_ok s1" by (rule k(1))
  show "moves (\<lambda>_. 0) s s1" using moves_0_trans[OF t(2) k(2)] .
  show "listed s1 th c" using t(3) by (simp add: listed_def s1_def)
qed

lemma es_input_fine:
  assumes "srv_ok s" "th < length (es_netThreads s)" "es_input fresh now th i slow err fuel s = Some r"
  shows "fine (\<lambda>_. 0) s r"
proof (cases "fst (cl_vConn (es_list s th) i)")
  case None
  then show ?thesis using assms by (auto simp: es_input_def intro: fineI)
next
  case (Some c)
  have c: "listed s th c" by (rule vConn_listed[OF assms(1,2) Some])
  show ?thesis
  proof (cases "ls_tcp c")
    case False
    then show ?thesis using Some assms by (auto simp: es_input_def intro: fineI)
  next
    case True
    let ?ad = "es_adapters s (ls_adapter c)"
    obtain keep c' t' where h: "handleInputImp fresh (sa_ba ?ad) (int (db_iRecvBufferSize (sa_dataBuffer ?ad))) slow err fuel (ls_conn c) (ls_trans c) = Some (keep, c', t')"
      using Some True assms(3) by (fastforce simp: es_input_def Let_def split: option.splits)
    note k = touched_buffer_ok[OF assms(1) c, of now c' t']
    have "r = (if keep then es_refresh now th c (es_adapter (ls_adapter c) (sa_buffer (db_insert_all (new_contexts now c c'))) (es_touch th c c' t' s))
        else nt_delConnection now th c EM_CLIENT_CLOSE (es_adapter (ls_adapter c) (sa_buffer (db_insert_all (new_contexts now c c'))) (es_touch th c c' t' s)))"
      using Some True assms(3) h by (simp add: es_input_def Let_def)
    then show ?thesis using fine_trans[OF k(2) es_refresh_fine[OF k(1,3)]] fine_trans[OF k(2) nt_delConnection_fine[OF k(1,3)]] by simp
  qed
qed

lemma es_output_fine:
  assumes "srv_ok s" "th < length (es_netThreads s)"
  shows "fine (\<lambda>_. 0) s (es_output now th i err s)"
proof (cases "fst (cl_vConn (es_list s th) i)")
  case None
  then show ?thesis using assms by (auto simp: es_output_def intro: fineI)
next
  case (Some c)
  have c: "listed s th c" by (rule vConn_listed[OF assms(1,2) Some])
  let ?ad = "es_adapters s (ls_adapter c)"
  obtain r c' t' where h: "conn_sendBuffer (sa_ba ?ad) (int (db_iRecvBufferSize (sa_dataBuffer ?ad))) (now div 1000) err (ls_conn c) (ls_trans c) = (r, c', t')"
    by (cases "conn_sendBuffer (sa_ba ?ad) (int (db_iRecvBufferSize (sa_dataBuffer ?ad))) (now div 1000) err (ls_conn c) (ls_trans c)")
  note t = es_touch_ok[OF assms(1) c, of c' t']
  show ?thesis
    using Some h assms(1) fine_trans[OF t(2) nt_delConnection_fine[OF t(1,3)]] fine_trans[OF t(2) es_refresh_fine[OF t(1,3)]]
    by (simp add: es_output_def Let_def fineI)
qed

lemma es_hangup_fine:
  assumes "srv_ok s" "th < length (es_netThreads s)"
  shows "fine (\<lambda>_. 0) s (es_hangup now th i s)"
  using nt_delConnection_fine[OF assms(1) vConn_listed[OF assms]] assms(1) by (auto simp: es_hangup_def intro: fineI split: option.split)

section \<open>Runs\<close>

definition accepts :: "int \<times> server_event \<Rightarrow> nat" where
  "accepts ev = (case snd ev of Accept _ _ _ _ \<Rightarrow> 1 | _ \<Rightarrow> 0)"

lemma server_step_fine:
  assumes "srv_ok s" "server_step hk fresh ev s = Some r"
  shows "fine (\<lambda>_. accepts ev) s r"
proof -
  obtain now e where ev: "ev = (now, e)" by (cases ev)
  have id: "fine k s (Inr s)" for k using assms(1) by (simp add: fineI)
  show ?thesis
  proof (cases e)
    case (Accept a fd allowed tr)
    then show ?thesis using assms(2) ev id fine_mono[OF es_accept_fine[OF assms(1)]] by (auto simp: accepts_def split: if_splits)
  next
    case (Input th i slow err fuel)
    then show ?thesis using assms(2) ev id es_input_fine[OF assms(1)] by (auto simp: accepts_def split: if_splits)
  next
    case (Handle a h)
    then show ?thesis using assms(2) ev id handle_loop_fine[OF assms(1)] by (auto simp: accepts_def handleOnceThread_def split: if_splits)
  qed (use assms(2) ev id es_output_fine[OF assms(1)] es_hangup_fine[OF assms(1)] checkTimeout_fine[OF assms(1)] processPipe_fine[OF assms(1)]
      closeConnections_fine[OF assms(1)] in \<open>auto simp: accepts_def split: if_splits\<close>)
qed

lemma server_run_fine:
  "srv_ok s \<Longrightarrow> server_run hk fresh evs s = Some r \<Longrightarrow> fine (\<lambda>_. sum_list (map accepts evs)) s r"
proof (induction evs arbitrary: s)
  case Nil
  then show ?case by (auto intro: fineI)
next
  case (Cons ev evs)
  then obtain r1 where r1: "server_step hk fresh ev s = Some r1" by (auto split: option.splits)
  obtain s1 where 1: "r1 = Inr s1" "srv_ok s1" "moves (\<lambda>_. accepts ev) s s1" using server_step_fine[OF Cons.prems(1) r1] by (auto simp: fine_def)
  then obtain s' where "r = Inr s'" "srv_ok s'" "moves (\<lambda>_. sum_list (map accepts evs)) s1 s'"
    using Cons.IH[OF 1(2)] Cons.prems(2) r1 by (auto simp: fine_def)
  then show ?case using moves_trans[OF 1(3)] by (auto simp: fine_def)
qed


section \<open>The start\<close>

text \<open>A server before it starts: no connections and no messages, and room for the connections of all adapters.\<close>

definition server_new :: "EpollServer \<Rightarrow> bool" where
  "server_new s \<longleftrightarrow> srv_setup s \<and> srv_room s < 2 ^ 22 \<and>
     (\<forall>a < es_bindAdapters s. 0 \<le> sa_iMaxConns (es_adapters s a) \<and> sa_iCurConns (es_adapters s a) = 0 \<and> db_all (sa_dataBuffer (es_adapters s a)) = []) \<and>
     (\<forall>nt \<in> set (es_netThreads s). nt_sbuffer nt = [])"

lemma createEpoll_ok:
  assumes "server_new s"
  shows "srv_ok (createEpoll now s)" "\<And>th a. th < length (es_netThreads s) \<Longrightarrow> cnt (es_list (createEpoll now s) th) a = 0"
    "es_bindAdapters (createEpoll now s) = es_bindAdapters s" "es_adapters (createEpoll now s) = es_adapters s"
    "length (es_netThreads (createEpoll now s)) = length (es_netThreads s)"
proof -
  define s' where "s' = createEpoll now s"
  have f: "es_bindAdapters s' = es_bindAdapters s" "es_adapters s' = es_adapters s" "length (es_netThreads s') = length (es_netThreads s)"
    by (simp_all add: s'_def createEpoll_def)
  then show "es_bindAdapters (createEpoll now s) = es_bindAdapters s" "es_adapters (createEpoll now s) = es_adapters s"
    "length (es_netThreads (createEpoll now s)) = length (es_netThreads s)" by (simp_all add: s'_def)
  let ?m = "maxAllConn (es_bindAdapters s) (es_adapters s)"
  have new: "\<And>a. a < es_bindAdapters s \<Longrightarrow> 0 \<le> sa_iMaxConns (es_adapters s a) \<and> sa_iCurConns (es_adapters s a) = 0 \<and> db_all (sa_dataBuffer (es_adapters s a)) = []"
    "srv_setup s" "srv_room s < 2 ^ 22" "\<And>nt. nt \<in> set (es_netThreads s) \<Longrightarrow> nt_sbuffer nt = []" using assms by (auto simp: server_new_def)
  have "sum_list (map (\<lambda>a. if sa_tcp (es_adapters s a) then sa_iMaxConns (es_adapters s a) else 1) [0..<es_bindAdapters s]) = srv_room s"
    unfolding srv_room_def by (subst interv_sum_list_conv_sum_set_nat) (simp add: atLeast0LessThan)
  moreover have "0 \<le> srv_room s" unfolding srv_room_def using new(1) by (intro sum_nonneg) auto
  moreover from calculation have "\<not> nat (srv_room s) \<ge> 2 ^ 22" using new(3) by (simp add: not_le nat_less_iff)
  ultimately have m: "int ?m = srv_room s" "?m < 2 ^ 22" using new(3) by (simp_all add: maxAllConn_def Let_def mod_pos_pos_trivial)
  have l: "es_list s' th = cl_init ?m (nt_threadIndex (es_netThreads s ! th) + 1) now" "nt_threadIndex (es_netThreads s' ! th) = nt_threadIndex (es_netThreads s ! th)"
    "nt_sbuffer (es_netThreads s' ! th) = nt_sbuffer (es_netThreads s ! th)" if "th < length (es_netThreads s)" for th
    using that by (simp_all add: s'_def createEpoll_def)
  note i = cl_init_ok[OF m(2)]
  have t: "cl_emptyCheckTimeout (cl_init ?m k now) = 0" "cl_total (cl_init ?m k now) = ?m" for k by (simp_all add: cl_init_def)
  have z: "cnt (es_list s' th) a = 0" if "th < length (es_netThreads s)" for th a
    using i(2) by (simp add: l(1)[OF that] cnt_def owned_by_def)
  then show "\<And>th a. th < length (es_netThreads s) \<Longrightarrow> cnt (es_list (createEpoll now s) th) a = 0" by (simp add: s'_def)
  have room: "srv_room s' = srv_room s" unfolding srv_room_def f ..
  have "srv_setup s'" using new(2) by (auto simp: srv_setup_def f l(2))
  moreover have "srv_lists s'" unfolding srv_lists_def f room using i m(1) l(1) t by auto
  moreover have "srv_counts s'" unfolding srv_counts_def f using new(1) z by auto
  moreover have "srv_ctxs s'" unfolding srv_ctxs_def f using new(1,4) l(3) by auto
  ultimately show "srv_ok (createEpoll now s)" by (simp add: srv_ok_def s'_def)
qed

lemma initUdps_ok:
  assumes "th < length (es_netThreads s)" "distinct as"
    and "\<And>a. a \<in> set as \<Longrightarrow> a < es_bindAdapters s \<and> th \<in> set (sa_netThreads (es_adapters s a)) \<and> (\<not> sa_tcp (es_adapters s a) \<longrightarrow> cnt (es_list s th) a = 0)"
    and "srv_ok s"
  shows "\<exists>s'. initUdps now fds tr th as s = Inr s' \<and> srv_ok s' \<and> setup_same s s' \<and> (\<forall>k. k \<noteq> th \<longrightarrow> (\<forall>b. cnt (es_list s' k) b = cnt (es_list s k) b))"
  using assms
proof (induction as arbitrary: s)
  case Nil
  then show ?case by simp
next
  case (Cons a as)
  have a: "a < es_bindAdapters s" "th \<in> set (sa_netThreads (es_adapters s a))" "\<not> sa_tcp (es_adapters s a) \<Longrightarrow> cnt (es_list s th) a = 0"
    using Cons.prems(3)[of a] by simp_all
  have "\<exists>s1. initUdp now th (fds a) tr a s = Inr s1 \<and> srv_ok s1 \<and> setup_same s s1 \<and>
      (\<forall>k b. k \<noteq> th \<or> b \<noteq> a \<longrightarrow> cnt (es_list s1 k) b = cnt (es_list s k) b)"
  proof (cases "sa_tcp (es_adapters s a)")
    case True
    then show ?thesis using Cons.prems(4) by (simp add: initUdp_def)
  next
    case False
    define c where "c = Listed_new now (fds a) False a (nt_threadIndex (es_netThreads s ! th)) 0 tr"
    obtain k where "k < length (sa_netThreads (es_adapters s a))" "sa_netThreads (es_adapters s a) ! k = th" using a(2) by (auto simp: in_set_conv_nth)
    moreover from this have "nt_threadIndex (es_netThreads s ! th) = k" using Cons.prems(4) a(1) by (auto simp: srv_ok_def srv_setup_def)
    ultimately have c: "conn_ok s th c" "\<not> ls_tcp c" "ls_adapter c = a" using a(1) False by (simp_all add: c_def Listed_new_def conn_ok_def)
    have "\<exists>s1. map_sum id (es_adapter a id) (addConnection now th c s) = Inr s1 \<and> srv_ok s1 \<and> moves (\<lambda>k. if k = th then 1 else 0) s s1 \<and>
        (\<forall>k b. cnt (es_list s1 k) b = cnt (es_list s k) b + (if k = th \<and> a = b then 1 else 0))"
      using addConnection_ok[OF Cons.prems(4,1) c(1), of now] c(2) a(3)[OF False] unfolding c(3) by auto
    moreover have "es_adapter a id s = s" for s by (simp add: es_adapter_def)
    moreover have "initUdp now th (fds a) tr a s = addConnection now th c s" using False by (simp add: initUdp_def c_def)
    ultimately show ?thesis by (auto simp: moves_def map_sum_Inr_iff)
  qed
  then obtain s1 where 1: "initUdp now th (fds a) tr a s = Inr s1" "srv_ok s1" "setup_same s s1" "\<And>k b. k \<noteq> th \<or> b \<noteq> a \<Longrightarrow> cnt (es_list s1 k) b = cnt (es_list s k) b"
    by blast
  have "\<exists>s'. initUdps now fds tr th as s1 = Inr s' \<and> srv_ok s' \<and> setup_same s1 s' \<and> (\<forall>k. k \<noteq> th \<longrightarrow> (\<forall>b. cnt (es_list s' k) b = cnt (es_list s1 k) b))"
  proof (rule Cons.IH[OF _ _ _ 1(2)])
    show "th < length (es_netThreads s1)" "distinct as" using Cons.prems(1,2) 1(3) by (simp_all add: setup_same_def)
    fix b assume b: "b \<in> set as"
    then have "b \<noteq> a" using Cons.prems(2) by auto
    then show "b < es_bindAdapters s1 \<and> th \<in> set (sa_netThreads (es_adapters s1 b)) \<and> (\<not> sa_tcp (es_adapters s1 b) \<longrightarrow> cnt (es_list s1 th) b = 0)"
      using Cons.prems(3)[of b] b 1(3) 1(4)[of th b] by (simp add: setup_same_def sa_same_def)
  qed
  then show ?case using 1 setup_same_trans[OF 1(3)] by fastforce
qed

lemma start_threads_ok:
  assumes "srv_ok s" "distinct ths" "\<And>th a. th \<in> set ths \<Longrightarrow> th < length (es_netThreads s) \<and> cnt (es_list s th) a = 0"
  shows "\<exists>s'. start_threads now fds tr ths s = Inr s' \<and> srv_ok s' \<and> setup_same s s'"
  using assms
proof (induction ths arbitrary: s)
  case Nil
  then show ?case by simp
next
  case (Cons th ths)
  have t: "th < length (es_netThreads s)" "distinct (thread_adapters s th)" using Cons.prems(3)[of th] by (simp_all add: thread_adapters_def)
  obtain s1 where 1: "initUdps now fds tr th (thread_adapters s th) s = Inr s1" "srv_ok s1" "setup_same s s1"
    "\<And>k b. k \<noteq> th \<Longrightarrow> cnt (es_list s1 k) b = cnt (es_list s k) b"
  proof -
    have "a < es_bindAdapters s \<and> th \<in> set (sa_netThreads (es_adapters s a)) \<and> (\<not> sa_tcp (es_adapters s a) \<longrightarrow> cnt (es_list s th) a = 0)"
      if "a \<in> set (thread_adapters s th)" for a using that Cons.prems(3)[of th a] by (simp add: thread_adapters_def)
    from initUdps_ok[OF t this Cons.prems(1), of now fds tr] show ?thesis using that by blast
  qed
  have "\<exists>s'. start_threads now fds tr ths s1 = Inr s' \<and> srv_ok s' \<and> setup_same s1 s'"
  proof (rule Cons.IH[OF 1(2)])
    show "distinct ths" using Cons.prems(2) by simp
    fix k b assume k: "k \<in> set ths"
    then have "k \<noteq> th" using Cons.prems(2) by auto
    then show "k < length (es_netThreads s1) \<and> cnt (es_list s1 k) b = 0" using 1(3,4) Cons.prems(3)[of k b] k by (simp add: setup_same_def)
  qed
  then show ?case using 1 setup_same_trans[OF 1(3)] by fastforce
qed

lemma start_server_ok:
  assumes "server_new s"
  shows "\<exists>s'. start_server now fds tr s = Inr s' \<and> srv_ok s' \<and> setup_same (createEpoll now s) s'"
  unfolding start_server_def using createEpoll_ok[OF assms] by (intro start_threads_ok) auto


lemma reached_ok:
  assumes "server_new s0" "start_server now0 fds tr s0 = Inr s1" "server_run hk fresh evs s1 = Some r"
  obtains s where "r = Inr s" "srv_ok s" "setup_same s1 s"
proof -
  have "srv_ok s1" using start_server_ok[OF assms(1), of now0 fds tr] assms(2) by auto
  from server_run_fine[OF this assms(3)] show ?thesis using that by (auto simp: fine_def moves_def)
qed

lemma owned_vConn:
  assumes "cl_ok cl"
  shows "owned_by a cl i \<longleftrightarrow> (\<exists>c. fst (cl_vConn cl i) = Some c \<and> ls_adapter c = a)"
  using cl_conns_fst[of cl i] assms by (cases "cl_conns cl i") (auto simp: owned_by_def cl_ok_def)

lemma db_insert_mset:
  assumes "db_threadDataQueue db \<noteq> []"
  shows "mset (db_all (db_insert rc db)) = add_mset rc (mset (db_all db))"
  using db_append_all[of "getDataQueue (unat (rc_uid rc)) db" "db\<lparr>db_iRecvBufferSize := db_iRecvBufferSize db + 1\<rparr>" "[rc]"] getDataQueue_less[OF assms]
  by (simp add: db_insert_def)

lemma closing_notices:
  "db_threadDataQueue (sa_dataBuffer (ads a)) \<noteq> [] \<Longrightarrow>
   mset (db_all (sa_dataBuffer (closing now ct cs ads a))) =
     mset (db_all (sa_dataBuffer (ads a))) + mset (map (notice now ct) (filter (\<lambda>c. ls_adapter c = a) cs))"
proof (induction cs arbitrary: ads)
  case (Cons c cs)
  let ?ads = "ad_close now ct c ads"
  have "mset (db_all (sa_dataBuffer (?ads a))) = mset (db_all (sa_dataBuffer (ads a))) + (if ls_adapter c = a then {#notice now ct c#} else {#})"
    using Cons.prems by (auto simp: ad_close_def decreaseNowConnection_def db_insert_mset notice_def)
  moreover have "db_threadDataQueue (sa_dataBuffer (?ads a)) \<noteq> []"
    using Cons.prems closing_adapter[of ads a now ct "[c]"] unfolding sa_same_def by (metis closing_simps length_0_conv)
  ultimately show ?case using Cons.IH[of ?ads] by simp
qed simp

section \<open>A server with one thread and one adapter\<close>

definition demo_adapter :: SrvAdapter where
  "demo_adapter = \<lparr>sa_ba = app_adapter, sa_tcp = True, sa_timeout = 60, sa_iMaxConns = 2, sa_iCurConns = 0, sa_iQueueTimeout = 60000, sa_iHeaderLen = 0,
     sa_dataBuffer = DataBuffer_new 1, sa_netThreads = [0]\<rparr>"

definition demo_server :: EpollServer where
  "demo_server = \<lparr>es_netThreads = [\<lparr>nt_threadIndex = 0, nt_list = cl_init 0 0 0, nt_sbuffer = []\<rparr>], es_adapters = (\<lambda>_. demo_adapter), es_bindAdapters = 1,
     es_merged = False, es_terminate = False\<rparr>"

abbreviation demo_hooks :: Hooks where "demo_hooks \<equiv> default_hooks (\<lambda>_ rc. ([Respond (rc_buffer rc)], False))"

lemma demo_new: "server_new demo_server"
  by (simp add: server_new_def srv_setup_def srv_room_def demo_server_def demo_adapter_def DataBuffer_new_def db_all_def)

lemmas demo_defs = demo_server_def demo_adapter_def DataBuffer_new_def

lemmas server_eval = start_server_def createEpoll_def maxAllConn_def cl_init_def thread_adapters_def initUdp_def
  es_accept_def isLimitMaxConnection_def addTcpConnection_def addConnection_def on_list_def es_thread_def es_adapter_def Listed_new_def Connection_new_def
  cl_getUniqId_def cl_add_def cl_valid_def uid_magic_def uid_index_def tl_insert_def increaseNowConnection_def es_hangup_def nt_delConnection_def delConnection_def
  RecvContext_new_def ba_insertRecvQueue_def db_insert_def db_append_def getDataQueue_def cl_touch_def decreaseNowConnection_def cl_del_def delNoLock_def tl_erase_def erase_at_def Let_def
  isOverloadorDiscard_def app_adapter_def

abbreviation demo_start :: EpollServer where "demo_start \<equiv> projr (start_server 0 (\<lambda>_. 0) (snd (accepted [] [])) demo_server)"
abbreviation demo_accept :: "int \<times> server_event" where "demo_accept \<equiv> (1000, Accept 0 5 True (snd (accepted [] [])))"

lemma demo_run:
  "\<exists>s c. server_run demo_hooks (\<lambda>_. 0) [demo_accept] demo_start = Some (Inr s) \<and> length (es_netThreads s) = 1 \<and> fst (cl_vConn (es_list s 0) 1) = Some c \<and> ls_tcp c \<and>
     cl_free (es_list s 0) = [2] \<and> cl_lastTimeoutTime (es_list s 0) = 0"
  by (simp add: server_eval demo_defs upt_rec)

lemma demo_started: "start_server 0 (\<lambda>_. 0) (snd (accepted [] [])) demo_server = Inr demo_start"
  using start_server_ok[OF demo_new, of 0 "\<lambda>_. 0" "snd (accepted [] [])"] by auto

lemma demo_hangup:
  assumes "server_run demo_hooks (\<lambda>_. 0) [demo_accept] demo_start = Some (Inr s)"
  shows "\<exists>s'. server_run demo_hooks (\<lambda>_. 0) [(2000, HangUp 0 1), (3000, Accept 0 6 True (snd (accepted [] [])))] s = Some (Inr s')"
proof -
  have s: "s = projr (the (server_run demo_hooks (\<lambda>_. 0) [demo_accept] demo_start))" using assms by simp
  show ?thesis unfolding s by (simp add: server_eval demo_defs upt_rec)
qed

text \<open>The connections the timer closes.\<close>

lemma dead_iff:
  assumes "cl_ok cl"
  shows "i \<in> set (dead ads now cl (cl_tl cl)) \<longleftrightarrow> (\<exists>c t. cl_conns cl i = Some (c, t) \<and> expired ads now (c, t))"
proof (cases "cl_conns cl i")
  case None
  then show ?thesis by (simp add: dead_def)
next
  case (Some x)
  have n: "cl_nodes cl" using assms by (simp add: cl_ok_def)
  obtain a where "(a, snd x, i) \<in> set (cl_tl cl)" using Some cl_conns_iff[OF n, of i "fst x" "snd x"] by auto
  then have "snd (snd (a, snd x, i)) \<in> (\<lambda>n. snd (snd n)) ` set (cl_tl cl)" by (rule imageI)
  then have "i \<in> set (map (\<lambda>n. snd (snd n)) (cl_tl cl))" by simp
  then show ?thesis unfolding dead_def set_filter using Some by (cases x) simp
qed

lemma dead_conns_restrict:
  assumes "cl_ok cl"
  shows "(cl_conns cl |` (- set (dead ads now cl (cl_tl cl)))) i =
    (case cl_conns cl i of Some x \<Rightarrow> if expired ads now x then None else Some x | None \<Rightarrow> None)"
  using dead_iff[OF assms, of i ads now] by (auto simp: restrict_map_def split: option.splits)

lemma dead_conns_of:
  fixes now :: int and ads :: "nat \<Rightarrow> SrvAdapter" and a :: nat
  assumes "srv_ok s" "th < length (es_netThreads s)"
  defines "cs \<equiv> filter (\<lambda>c. ls_adapter c = a) (map (cl_conn (es_list s th)) (dead ads now (es_list s th) (cl_tl (es_list s th))))"
  shows "distinct cs" "set cs = {c. \<exists>i t. cl_conns (es_list s th) i = Some (c, t) \<and> expired ads now (c, t) \<and> ls_adapter c = a}"
proof -
  let ?cl = "es_list s th" and ?d = "dead ads now (es_list s th) (cl_tl (es_list s th))"
  note l = srv_listsD[OF assms(1,2)]
  note d = dead_iff[OF l(1), of _ ads now]
  have "inj_on (cl_conn ?cl) (set ?d)"
  proof (rule inj_onI)
    fix i j assume ij: "i \<in> set ?d" "j \<in> set ?d" "cl_conn ?cl i = cl_conn ?cl j"
    obtain c t c' t' where c: "cl_conns ?cl i = Some (c, t)" "cl_conns ?cl j = Some (c', t')" using ij(1,2) d by blast
    show "i = j" using conns_listed(2)[OF assms(1,2) c(1)] conns_listed(2)[OF assms(1,2) c(2)] ij(3) c by simp
  qed
  moreover have "distinct ?d" using cl_places_distinct[OF l(2)] by (simp add: dead_def)
  ultimately show "distinct cs" by (simp add: cs_def distinct_map)
  show "set cs = {c. \<exists>i t. cl_conns ?cl i = Some (c, t) \<and> expired ads now (c, t) \<and> ls_adapter c = a}"
  proof (intro equalityI subsetI)
    fix c assume "c \<in> set cs"
    then obtain i where i: "i \<in> set ?d" "c = cl_conn ?cl i" "ls_adapter c = a" by (auto simp: cs_def)
    then obtain c' t where "cl_conns ?cl i = Some (c', t)" "expired ads now (c', t)" using d by blast
    then show "c \<in> {c. \<exists>i t. cl_conns ?cl i = Some (c, t) \<and> expired ads now (c, t) \<and> ls_adapter c = a}" using i by auto
  next
    fix c assume "c \<in> {c. \<exists>i t. cl_conns ?cl i = Some (c, t) \<and> expired ads now (c, t) \<and> ls_adapter c = a}"
    then obtain i t where i: "cl_conns ?cl i = Some (c, t)" "expired ads now (c, t)" "ls_adapter c = a" by blast
    then have "i \<in> set ?d" "cl_conn ?cl i = c" using d by auto
    then show "c \<in> set cs" using i(3) by (auto simp: cs_def)
  qed
qed

section \<open>What a server guarantees\<close>

text \<open>C7. 
  A server that has room for the connections of all its adapters runs safely: it starts, and whatever sockets, timers and handlers do in any order, no assertion
  of its connection lists fails, no dangling iterator or missing connection is touched, and every TCP adapter counts exactly its connections in the
  lists of all threads, never more than its limit.
\<close>

theorem server_runs_safely:
  assumes "server_new s0"
  shows "\<exists>s1. start_server now0 fds tr s0 = Inr s1 \<and> (\<forall>evs r. server_run hk fresh evs s1 = Some r \<longrightarrow> (\<exists>s. r = Inr s \<and>
    (\<forall>a < es_bindAdapters s. sa_tcp (es_adapters s a) \<longrightarrow>
      sa_iCurConns (es_adapters s a) = int (card {(th, i). th < length (es_netThreads s) \<and> (\<exists>c. fst (cl_vConn (es_list s th) i) = Some c \<and> ls_adapter c = a)}) \<and>
      sa_iCurConns (es_adapters s a) \<le> sa_iMaxConns (es_adapters s a))))"
proof -
  obtain s1 where s1: "start_server now0 fds tr s0 = Inr s1" using start_server_ok[OF assms] by blast
  have "\<exists>s. r = Inr s \<and> (\<forall>a < es_bindAdapters s. sa_tcp (es_adapters s a) \<longrightarrow>
      sa_iCurConns (es_adapters s a) = int (card {(th, i). th < length (es_netThreads s) \<and> (\<exists>c. fst (cl_vConn (es_list s th) i) = Some c \<and> ls_adapter c = a)}) \<and>
      sa_iCurConns (es_adapters s a) \<le> sa_iMaxConns (es_adapters s a))" if r: "server_run hk fresh evs s1 = Some r" for evs r
  proof -
    obtain s where s: "r = Inr s" "srv_ok s" using reached_ok[OF assms s1 r] by blast
    have "card {(th, i). th < length (es_netThreads s) \<and> (\<exists>c. fst (cl_vConn (es_list s th) i) = Some c \<and> ls_adapter c = a)} =
        (\<Sum>th < length (es_netThreads s). cnt (es_list s th) a)" for a
    proof -
      have "{(th, i). th < length (es_netThreads s) \<and> (\<exists>c. fst (cl_vConn (es_list s th) i) = Some c \<and> ls_adapter c = a)} =
          (SIGMA th : {..<length (es_netThreads s)}. {i. owned_by a (es_list s th) i})"
        using owned_vConn srv_listsD(1)[OF s(2)] by auto
      moreover have "\<forall>th \<in> {..<length (es_netThreads s)}. finite {i. owned_by a (es_list s th) i}"
        using owned_finite srv_listsD(3)[OF s(2)] by blast
      then have "card (SIGMA th : {..<length (es_netThreads s)}. {i. owned_by a (es_list s th) i}) = (\<Sum>th < length (es_netThreads s). cnt (es_list s th) a)"
        unfolding cnt_def by (rule card_SigmaI[OF finite_lessThan])
      ultimately show ?thesis by simp
    qed
    note c = this
    have "sa_iCurConns (es_adapters s a) = int (card {(th, i). th < length (es_netThreads s) \<and> (\<exists>c. fst (cl_vConn (es_list s th) i) = Some c \<and> ls_adapter c = a)}) \<and>
        sa_iCurConns (es_adapters s a) \<le> sa_iMaxConns (es_adapters s a)" if "a < es_bindAdapters s" "sa_tcp (es_adapters s a)" for a
      unfolding c of_nat_sum by (rule srv_countsD(1)[OF s(2) that])
    then show ?thesis using s(1) by blast
  qed
  then show ?thesis using s1 by blast
qed

lemma server_runs_safely_witness:
  "\<exists>s1 s. start_server 0 (\<lambda>_. 0) (snd (accepted [] [])) demo_server = Inr s1 \<and> server_run demo_hooks (\<lambda>_. 0) [demo_accept] s1 = Some (Inr s) \<and>
     sa_iCurConns (es_adapters s 0) = int (card {(th, i). th < length (es_netThreads s) \<and> (\<exists>c. fst (cl_vConn (es_list s th) i) = Some c \<and> ls_adapter c = 0)}) \<and>
     sa_iCurConns (es_adapters s 0) \<le> 2"
proof -
  obtain s where s: "server_run demo_hooks (\<lambda>_. 0) [demo_accept] demo_start = Some (Inr s)" using demo_run by blast
  have "s = projr (the (server_run demo_hooks (\<lambda>_. 0) [demo_accept] demo_start))" using s by simp
  then have "es_bindAdapters s = 1 \<and> sa_tcp (es_adapters s 0) \<and> sa_iMaxConns (es_adapters s 0) = 2"
    by (simp add: server_eval demo_defs upt_rec)
  note f = this
  obtain s1 where 1: "start_server 0 (\<lambda>_. 0) (snd (accepted [] [])) demo_server = Inr s1" and
    2: "\<And>evs r. server_run demo_hooks (\<lambda>_. 0) evs s1 = Some r \<Longrightarrow> (\<exists>s. r = Inr s \<and>
      (\<forall>a < es_bindAdapters s. sa_tcp (es_adapters s a) \<longrightarrow>
        sa_iCurConns (es_adapters s a) = int (card {(th, i). th < length (es_netThreads s) \<and> (\<exists>c. fst (cl_vConn (es_list s th) i) = Some c \<and> ls_adapter c = a)}) \<and>
        sa_iCurConns (es_adapters s a) \<le> sa_iMaxConns (es_adapters s a)))"
    using server_runs_safely[OF demo_new, of 0 "\<lambda>_. 0" "snd (accepted [] [])" demo_hooks "\<lambda>_. 0"] by blast
  have "s1 = demo_start" using demo_started 1 by simp
  then have r: "server_run demo_hooks (\<lambda>_. 0) [demo_accept] s1 = Some (Inr s)" using s by (simp only:)
  from 2[OF r] f have "sa_iCurConns (es_adapters s 0) = int (card {(th, i). th < length (es_netThreads s) \<and> (\<exists>c. fst (cl_vConn (es_list s th) i) = Some c \<and> ls_adapter c = 0)}) \<and>
     sa_iCurConns (es_adapters s 0) \<le> 2" by auto
  with 1 r show ?thesis by (intro exI conjI) auto
qed



text \<open>C14. 
  The timer closes the idle connections and only those: in a running server, when a second has passed since the last check, a connection is gone from the list
  exactly if it is a TCP connection with a time-out and its time has come; its adapter has a notice in its queue for the handlers and counts one connection
  less, and nothing else is in the queues that was not there before.
\<close>

theorem idle_connections_closed:
  assumes "server_new s0" "start_server now0 fds tr s0 = Inr s1" "server_run hk fresh evs s1 = Some (Inr s)"
    and "th < length (es_netThreads s)" "cl_lastTimeoutTime (es_list s th) < now div 1000"
  shows "\<exists>s'. server_step hk fresh (now, CheckTimeout th) s = Some (Inr s') \<and>
    (\<forall>i. cl_conns (es_list s' th) i = (case cl_conns (es_list s th) i of Some x \<Rightarrow> if expired (es_adapters s) now x then None else Some x | None \<Rightarrow> None)) \<and>
    (\<forall>a < es_bindAdapters s. \<exists>cs. distinct cs \<and> set cs = {c. \<exists>i t. cl_conns (es_list s th) i = Some (c, t) \<and> expired (es_adapters s) now (c, t) \<and> ls_adapter c = a} \<and>
      sa_iCurConns (es_adapters s' a) = sa_iCurConns (es_adapters s a) - int (length cs) \<and>
      mset (db_all (sa_dataBuffer (es_adapters s' a))) = mset (db_all (sa_dataBuffer (es_adapters s a))) + mset (map (notice now EM_SERVER_TIMEOUT_CLOSE) cs))"
proof -
  have ok: "srv_ok s" using reached_ok[OF assms(1-3)] by blast
  let ?cl = "es_list s th" and ?ads = "es_adapters s"
  note l = srv_listsD[OF ok assms(4)]
  define d where "d = dead ?ads now ?cl (cl_tl ?cl)"
  let ?cs = "map (cl_conn ?cl) d"
  have "\<not> now div 1000 - cl_lastTimeoutTime ?cl < 1" using assms(5) by simp
  then obtain cl where cl: "checkTimeout now (?cl, ?ads) = Inr (cl, closing now EM_SERVER_TIMEOUT_CLOSE ?cs ?ads)" "cl_conns cl = cl_conns ?cl |` (- set d)"
    using checkTimeout_ok[OF l(1,4), of now ?ads] unfolding d_def by auto
  define s' where "s' = srv_put th cl (closing now EM_SERVER_TIMEOUT_CLOSE ?cs ?ads) s"
  have step: "server_step hk fresh (now, CheckTimeout th) s = Some (Inr s')" using assms(4) cl(1) by (simp add: on_list_put s'_def)
  have conns: "cl_conns (es_list s' th) i = (case cl_conns ?cl i of Some x \<Rightarrow> if expired ?ads now x then None else Some x | None \<Rightarrow> None)" for i
    using assms(4) cl(2) dead_conns_restrict[OF l(1), of ?ads now i] by (simp add: s'_def d_def)
  have "\<exists>cs. distinct cs \<and> set cs = {c. \<exists>i t. cl_conns ?cl i = Some (c, t) \<and> expired ?ads now (c, t) \<and> ls_adapter c = a} \<and>
      sa_iCurConns (es_adapters s' a) = sa_iCurConns (?ads a) - int (length cs) \<and>
      mset (db_all (sa_dataBuffer (es_adapters s' a))) = mset (db_all (sa_dataBuffer (?ads a))) + mset (map (notice now EM_SERVER_TIMEOUT_CLOSE) cs)"
    if a: "a < es_bindAdapters s" for a
    using dead_conns_of[OF ok assms(4), of a ?ads now] closing_adapter[of ?ads a now EM_SERVER_TIMEOUT_CLOSE ?cs]
      closing_notices[where ads = ?ads and a = a, OF srv_queues[OF ok a], of now EM_SERVER_TIMEOUT_CLOSE ?cs]
    by (intro exI[of _ "filter (\<lambda>c. ls_adapter c = a) ?cs"]) (simp add: s'_def d_def)
  then show ?thesis using step conns by (intro exI[of _ s']) simp
qed

lemma idle_connections_closed_witness:
  "\<exists>s s'. server_run demo_hooks (\<lambda>_. 0) [demo_accept] demo_start = Some (Inr s) \<and>
     server_step demo_hooks (\<lambda>_. 0) (62000, CheckTimeout 0) s = Some (Inr s') \<and> cl_conns (es_list s 0) 1 \<noteq> None \<and> cl_conns (es_list s' 0) 1 = None"
proof -
  obtain s where s: "server_run demo_hooks (\<lambda>_. 0) [demo_accept] demo_start = Some (Inr s)" "length (es_netThreads s) = 1" "cl_lastTimeoutTime (es_list s 0) = 0" using demo_run by blast
  have e: "s = projr (the (server_run demo_hooks (\<lambda>_. 0) [demo_accept] demo_start))" using s(1) by simp
  have c: "cl_conns (es_list s 0) 1 \<noteq> None" "expired (es_adapters s) 62000 (the (cl_conns (es_list s 0) 1))"
    unfolding e by (simp_all add: server_eval demo_defs upt_rec cl_conns_def expired_def)
  obtain s' where s': "server_step demo_hooks (\<lambda>_. 0) (62000, CheckTimeout 0) s = Some (Inr s')"
    "\<forall>i. cl_conns (es_list s' 0) i = (case cl_conns (es_list s 0) i of Some x \<Rightarrow> if expired (es_adapters s) 62000 x then None else Some x | None \<Rightarrow> None)"
    using idle_connections_closed[OF demo_new demo_started s(1), of 0 62000] s(2,3) by auto
  then have "cl_conns (es_list s' 0) 1 = None" using c by (auto split: option.splits)
  then show ?thesis using s(1) s'(1) c(1) by blast
qed

end
