(* ===== verification/Servant_Handle.thy ===== *)
theory Servant_Handle
  imports Epoll_Server
begin

text \<open>
  \<^verbatim>\<open>ServantHandle\<close> (\<^verbatim>\<open>servant/libservant/ServantHandle.cpp\<close>), the handler of a server of servants, with \<^verbatim>\<open>Servant::dispatch\<close> and the parts of \<^verbatim>\<open>Current\<close>
  it uses: a packet becomes a \<^verbatim>\<open>Current\<close>, is checked, dispatched to its servant and answered. The servants are parameters: functions of the \<^verbatim>\<open>Current\<close> that say
  what the servant sends itself, what it sets in the \<^verbatim>\<open>Current\<close> and with what it returns. Dyeing, tracing and the statistics change neither the answer nor the
  \<^verbatim>\<open>Current\<close> and are left out. Times are in milliseconds.
\<close>

section \<open>State\<close>

abbreviation TARSSERVERSUCCESS :: "32 word" where "TARSSERVERSUCCESS \<equiv> 0"
abbreviation TARSSERVERDECODEERR :: "32 word" where "TARSSERVERDECODEERR \<equiv> - 1"
abbreviation TARSSERVERENCODEERR :: "32 word" where "TARSSERVERENCODEERR \<equiv> - 2"
abbreviation TARSSERVERNOFUNCERR :: "32 word" where "TARSSERVERNOFUNCERR \<equiv> - 3"
abbreviation TARSSERVERNOSERVANTERR :: "32 word" where "TARSSERVERNOSERVANTERR \<equiv> - 4"
abbreviation TARSSERVERQUEUETIMEOUT :: "32 word" where "TARSSERVERQUEUETIMEOUT \<equiv> - 6"
abbreviation TARSSERVEROVERLOAD :: "32 word" where "TARSSERVEROVERLOAD \<equiv> - 9"
abbreviation TARSINVOKEBYINVALIDESET :: "32 word" where "TARSINVOKEBYINVALIDESET \<equiv> - 11"
abbreviation SERVERUNKNOWNERR :: "32 word" where "SERVERUNKNOWNERR \<equiv> - 99"
abbreviation TARSMESSAGETYPESETNAME :: "32 word" where "TARSMESSAGETYPESETNAME \<equiv> 128"

record Current =
  cu_request :: RequestPacket
  cu_data :: RecvContext
  cu_isTars :: bool
  cu_response :: bool
  cu_responseContext :: "(byte list \<times> byte list) list"
  cu_cookie :: "(byte list \<times> byte list) list"

text \<open>What a call of a servant does; an exception has its text.\<close>

datatype servant_exn = DecodeException "byte list" | EncodeException "byte list" | StdException "byte list" | UnknownException

record Dispatched =
  dp_actions :: "action list"
  dp_response :: bool
  dp_responseContext :: "(byte list \<times> byte list) list"
  dp_result :: "servant_exn + 32 word"
  dp_buffer :: "byte list"

type_synonym handled = "action list \<times> bool"

record Servant =
  sv_onDispatch :: "Current \<Rightarrow> Dispatched"
  sv_doRequest :: "Current \<Rightarrow> Dispatched"
  sv_doNoFunc :: "Current \<Rightarrow> Dispatched"
  sv_doClose :: "Current \<Rightarrow> handled"

text \<open>
  \<open>sh_isTars\<close> and \<open>sh_adapterServant\<close> are the protocol and the servant of the adapter, the last three fields the configuration of sets.
\<close>

record ServantHandle =
  sh_servants :: "byte list \<Rightarrow> Servant option"
  sh_isTars :: bool
  sh_adapterServant :: "byte list"
  sh_isCheckSet :: int
  sh_setOpen :: bool
  sh_setDivision :: "byte list"

section \<open>Current\<close>

definition Current_new :: "ServantHandle \<Rightarrow> bool \<Rightarrow> RecvContext \<Rightarrow> Current" where
  "Current_new h isTars data =
     \<lparr>cu_request = RequestPacket_resetDefautlt\<lparr>rq_sServantName := sh_adapterServant h\<rparr>, cu_data = data, cu_isTars = isTars, cu_response = True,
      cu_responseContext = [], cu_cookie = []\<rparr>"

definition Current_init :: "ServantHandle \<Rightarrow> RecvContext \<Rightarrow> proto_exn + Current" where
  "Current_init h data =
     (if sh_isTars h then map_sum id (\<lambda>r. (Current_new h True data)\<lparr>cu_request := r\<rparr>) (Current_initialize (rc_buffer data))
      else Inr (Current_new h False data))"

text \<open>\<^verbatim>\<open>sendResponse\<close> of a whole response and of a return code alone; \<open>True\<close> for an exception of the encoder.\<close>

definition cu_send :: "(nat \<Rightarrow> byte) \<Rightarrow> Current \<Rightarrow> 32 word \<Rightarrow> byte list \<Rightarrow> byte list \<Rightarrow> handled" where
  "cu_send fresh c iRet sBuffer sResultDesc =
     (case Current_sendResponse fresh (cu_request c) (cu_responseContext c) iRet (ResponsePacket_resetDefautlt\<lparr>rs_sBuffer := sBuffer\<rparr>) [] sResultDesc of
        Inl _ \<Rightarrow> ([], True)
      | Inr None \<Rightarrow> ([], False)
      | Inr (Some b) \<Rightarrow> ([Respond (bf_data b)], False))"

abbreviation cu_sendRet :: "(nat \<Rightarrow> byte) \<Rightarrow> Current \<Rightarrow> 32 word \<Rightarrow> handled" where
  "cu_sendRet fresh c iRet \<equiv> cu_send fresh c iRet [] []"

definition createCurrent :: "(nat \<Rightarrow> byte) \<Rightarrow> ServantHandle \<Rightarrow> int \<Rightarrow> RecvContext \<Rightarrow> handled \<times> Current option" where
  "createCurrent fresh h now data = (case Current_init h data of
     Inl (DecodeExn e) \<Rightarrow> (if is_TarsDecodeException e then (([CloseIt], False), None) else (([], True), None))
   | Inl (NetExn _) \<Rightarrow> (([], True), None)
   | Inr c \<Rightarrow>
       let iTimeout = sint (rq_iTimeout (cu_request c))
       in if cu_isTars c \<and> iTimeout > 0 \<and> now - rc_recvTimeStamp data > iTimeout then (cu_sendRet fresh c TARSSERVERQUEUETIMEOUT, None)
          else (([], False), Some c))"

section \<open>Overload, time-outs and closed connections\<close>

definition sh_handleTimeout :: "(nat \<Rightarrow> byte) \<Rightarrow> ServantHandle \<Rightarrow> int \<Rightarrow> RecvContext \<Rightarrow> handled" where
  "sh_handleTimeout fresh h now data = (case createCurrent fresh h now data of
     (r, None) \<Rightarrow> r
   | (_, Some c) \<Rightarrow> if cu_isTars c then cu_sendRet fresh c TARSSERVERQUEUETIMEOUT else ([], False))"

definition sh_handleOverload :: "(nat \<Rightarrow> byte) \<Rightarrow> ServantHandle \<Rightarrow> int \<Rightarrow> RecvContext \<Rightarrow> handled" where
  "sh_handleOverload fresh h now data = (case createCurrent fresh h now data of
     (r, None) \<Rightarrow> r
   | (_, Some c) \<Rightarrow> if cu_isTars c then cu_sendRet fresh c TARSSERVEROVERLOAD else ([], False))"

definition sh_handleClose :: "ServantHandle \<Rightarrow> RecvContext \<Rightarrow> handled" where
  "sh_handleClose h data =
     (let c = Current_new h False data
      in case sh_servants h (rq_sServantName (cu_request c)) of None \<Rightarrow> ([], False) | Some sv \<Rightarrow> (fst (sv_doClose sv c), False))"

section \<open>Requests\<close>

text \<open>\<^verbatim>\<open>substr(0, find_last_of("."))\<close> and \<^verbatim>\<open>substr(0, find_first_of("."))\<close>: everything when there is no dot.\<close>

definition upto_last_dot :: "byte list \<Rightarrow> byte list" where
  "upto_last_dot s = (if 46 \<in> set s then rev (tl (dropWhile (\<lambda>b. b \<noteq> 46) (rev s))) else s)"

definition upto_first_dot :: "byte list \<Rightarrow> byte list" where
  "upto_first_dot s = takeWhile (\<lambda>b. b \<noteq> 46) s"

definition checkValidSetInvoke :: "ServantHandle \<Rightarrow> Current \<Rightarrow> bool" where
  "checkValidSetInvoke h c =
     (if sh_isCheckSet h = 0 then True
      else if and (rq_iMessageType (cu_request c)) TARSMESSAGETYPESETNAME \<noteq> 0 \<and> sh_setOpen h
      then (case map_of (rq_status (cu_request c)) (ascii ''STATUS_SETNAME_VALUE'') of
              None \<Rightarrow> False
            | Some sSetName \<Rightarrow>
                sh_setDivision h = sSetName \<or> upto_last_dot (sh_setDivision h) = upto_last_dot sSetName \<or>
                upto_first_dot (sh_setDivision h) \<noteq> upto_first_dot sSetName)
      else True)"

definition lower :: "byte \<Rightarrow> byte" where
  "lower b = (if 65 \<le> b \<and> b \<le> 90 then b + 32 else b)"

definition is_status_key :: "byte list \<Rightarrow> bool" where
  "is_status_key k \<longleftrightarrow> length k > 7 \<and> map lower (take 7 k) = map lower (ascii ''STATUS_'')"

definition processCookie :: "Current \<Rightarrow> Current" where
  "processCookie c =
     (let cookie = emplace_all (filter (\<lambda>(k, v). \<not> is_status_key k) (rq_status (cu_request c))) []
      in if cookie \<noteq> [] then c\<lparr>cu_cookie := cookie\<rparr> else c)"

definition Servant_dispatch :: "Servant \<Rightarrow> Current \<Rightarrow> Dispatched" where
  "Servant_dispatch sv c =
     (if rq_sFuncName (cu_request c) = ascii ''tars_ping''
      then \<lparr>dp_actions = [], dp_response = cu_response c, dp_responseContext = cu_responseContext c, dp_result = Inr TARSSERVERSUCCESS, dp_buffer = []\<rparr>
      else if \<not> cu_isTars c then sv_doRequest sv c
      else sv_onDispatch sv c)"

definition cu_after :: "Dispatched \<Rightarrow> Current \<Rightarrow> Current" where
  "cu_after d c = c\<lparr>cu_response := dp_response d, cu_responseContext := dp_responseContext d\<rparr>"

fun dispatch_code :: "servant_exn + 32 word \<Rightarrow> 32 word \<times> byte list" where
  "dispatch_code (Inr ret) = (ret, [])"
| "dispatch_code (Inl (DecodeException what)) = (TARSSERVERDECODEERR, what)"
| "dispatch_code (Inl (EncodeException what)) = (TARSSERVERENCODEERR, what)"
| "dispatch_code (Inl (StdException what)) = (SERVERUNKNOWNERR, what)"
| "dispatch_code (Inl UnknownException) = (SERVERUNKNOWNERR, ascii ''handleTarsProtocol unknown exception error'')"

definition then_handled :: "action list \<Rightarrow> handled \<Rightarrow> handled" where
  "then_handled as r = (as @ fst r, snd r)"

text \<open>The answer after the dispatch, unless the servant has turned it off.\<close>

definition answer :: "(nat \<Rightarrow> byte) \<Rightarrow> Current \<Rightarrow> 32 word \<Rightarrow> byte list \<Rightarrow> byte list \<Rightarrow> handled" where
  "answer fresh c ret sBuffer sResultDesc = (if cu_response c then cu_send fresh c ret sBuffer sResultDesc else ([], False))"

text \<open>What follows the dispatch \<open>d\<close>.\<close>

definition finish_request :: "(nat \<Rightarrow> byte) \<Rightarrow> Servant \<Rightarrow> Current \<Rightarrow> Dispatched \<Rightarrow> handled" where
  "finish_request fresh sv c d =
     (let c1 = cu_after d c;
          ret = fst (dispatch_code (dp_result d));
          sResultDesc = snd (dispatch_code (dp_result d));
          n = sv_doNoFunc sv c1
      in if ret = TARSSERVERNOFUNCERR
         then then_handled (dp_actions d @ dp_actions n)
                (case dp_result n of Inl _ \<Rightarrow> ([], True) | Inr ret' \<Rightarrow> answer fresh (cu_after n c1) ret' (dp_buffer d) sResultDesc)
         else then_handled (dp_actions d) (answer fresh c1 ret (dp_buffer d) sResultDesc))"

definition handleTarsProtocol :: "(nat \<Rightarrow> byte) \<Rightarrow> ServantHandle \<Rightarrow> Current \<Rightarrow> handled" where
  "handleTarsProtocol fresh h c0 =
     (if \<not> checkValidSetInvoke h c0 then cu_sendRet fresh c0 TARSINVOKEBYINVALIDESET
      else let c = processCookie c0
           in case sh_servants h (rq_sServantName (cu_request c)) of
                None \<Rightarrow> cu_sendRet fresh c TARSSERVERNOSERVANTERR
              | Some sv \<Rightarrow> finish_request fresh sv c (Servant_dispatch sv c))"

text \<open>A servant of another protocol answers with the bytes it is to send. \<open>None\<close> is the failed assertion that the servant of the adapter exists.\<close>

definition handleNoTarsProtocol :: "ServantHandle \<Rightarrow> Current \<Rightarrow> handled option" where
  "handleNoTarsProtocol h c = (case sh_servants h (rq_sServantName (cu_request c)) of
     None \<Rightarrow> None
   | Some sv \<Rightarrow>
       let d = Servant_dispatch sv c
       in Some (dp_actions d @ (if dp_response d \<and> dp_buffer d \<noteq> [] then [Respond (dp_buffer d)] else []), False))"

definition sh_handle :: "(nat \<Rightarrow> byte) \<Rightarrow> ServantHandle \<Rightarrow> int \<Rightarrow> RecvContext \<Rightarrow> handled option" where
  "sh_handle fresh h now data = (case createCurrent fresh h now data of
     (r, None) \<Rightarrow> Some r
   | (_, Some c) \<Rightarrow> if cu_isTars c then Some (handleTarsProtocol fresh h c) else handleNoTarsProtocol h c)"

text \<open>The handler of the epoll server that this is, for servants that exist.\<close>

definition servant_hooks :: "(nat \<Rightarrow> byte) \<Rightarrow> ServantHandle \<Rightarrow> Hooks" where
  "servant_hooks fresh h =
     \<lparr>hk_handle = (\<lambda>now data. the (sh_handle fresh h now data)), hk_handleClose = (\<lambda>_ data. sh_handleClose h data),
      hk_handleTimeout = sh_handleTimeout fresh h, hk_handleOverload = sh_handleOverload fresh h\<rparr>"

section \<open>The answers of a handler\<close>

text \<open>What a message leaves in the send queue of its thread.\<close>

fun action_context :: "RecvContext \<Rightarrow> action \<Rightarrow> SendContext list" where
  "action_context data CloseIt = [createCloseContext data]"
| "action_context data (Respond bs) = (if bs = [] then [] else [createSendContext data bs])"

definition replies :: "RecvContext \<Rightarrow> handled \<Rightarrow> SendContext list" where
  "replies data r = concat (map (action_context data) (fst r)) @ (if snd r then [createCloseContext data] else [])"

definition queue_up :: "nat \<Rightarrow> SendContext list \<Rightarrow> EpollServer \<Rightarrow> EpollServer" where
  "queue_up th scs = es_thread th (\<lambda>nt. nt\<lparr>nt_sbuffer := nt_sbuffer nt @ scs\<rparr>)"

lemma queue_up_nil [simp]: "queue_up th [] s = s"
  by (cases s) (simp add: queue_up_def es_thread_def)

lemma queue_up_append [simp]: "queue_up th ys (queue_up th xs s) = queue_up th (xs @ ys) s"
proof (cases "th < length (es_netThreads s)")
  case True
  then show ?thesis unfolding queue_up_def es_thread_def by simp
next
  case False
  then show ?thesis unfolding queue_up_def es_thread_def by (simp add: list_update_beyond)
qed

lemma queue_up_simps [simp]:
  "es_adapters (queue_up th xs s) = es_adapters s" "es_bindAdapters (queue_up th xs s) = es_bindAdapters s"
  "es_merged (queue_up th xs s) = es_merged s" "es_terminate (queue_up th xs s) = es_terminate s"
  "length (es_netThreads (queue_up th xs s)) = length (es_netThreads s)"
  "getNetThread (queue_up th xs s) = getNetThread s"
  by (simp_all add: queue_up_def es_thread_def getNetThread_def fun_eq_iff)

lemma queue_up_nth: "k < length (es_netThreads s) \<Longrightarrow>
   nt_sbuffer (es_netThreads (queue_up th xs s) ! k) = nt_sbuffer (es_netThreads s ! k) @ (if k = th then xs else [])"
  by (simp add: queue_up_def es_thread_def nth_list_update)

lemma es_close_queue:
  assumes "\<not> es_terminate s" "getNetThread s data = Inr th" "sa_tcp (es_adapters s (rc_adapter data))"
  shows "es_close data s = Inr (queue_up th [createCloseContext data] s)"
  using assms by (simp add: es_close_def nt_close_def queue_up_def)

lemma do_actions_queue:
  assumes "\<not> es_terminate s" "getNetThread s data = Inr th" "sa_tcp (es_adapters s (rc_adapter data))"
  shows "do_actions now False data as s = Inr (False, queue_up th (concat (map (action_context data) as)) s)"
  using assms
proof (induction as arbitrary: s)
  case Nil
  then show ?case by simp
next
  case (Cons a as)
  show ?case
  proof (cases a)
    case CloseIt
    show ?thesis using Cons.IH[of "queue_up th [createCloseContext data] s"] Cons.prems CloseIt es_close_queue[OF Cons.prems] by simp
  next
    case (Respond bs)
    have "es_send now False (createSendContext data bs) s = Inr (False, queue_up th (action_context data a) s)"
      using Cons.prems Respond by (cases "bs = []") (simp_all add: es_send_def nt_send_def createSendContext_def, simp add: queue_up_def)
    then show ?thesis using Cons.IH[of "queue_up th (action_context data a) s"] Cons.prems Respond by simp
  qed
qed

text \<open>A handler of a server whose handlers have threads of their own takes its messages in order and leaves what they are answered with in the threads.\<close>

lemma handle_loop_queue:
  assumes "srv_ok s" "a < es_bindAdapters s" "\<not> es_merged s" "\<not> es_terminate s" "\<forall>b < es_bindAdapters s. sa_tcp (es_adapters s b)"
    "db_threadDataQueue (sa_dataBuffer (es_adapters s a)) ! getDataQueue h (sa_dataBuffer (es_adapters s a)) = q"
  shows "\<exists>s'. handle_loop hk now a h n s = Inr s' \<and>
    db_threadDataQueue (sa_dataBuffer (es_adapters s' a)) ! getDataQueue h (sa_dataBuffer (es_adapters s a)) = drop n q \<and>
    (\<forall>k < length (es_netThreads s). nt_sbuffer (es_netThreads s' ! k) = nt_sbuffer (es_netThreads s ! k) @
       concat (map (\<lambda>data. if getNetThread s data = Inr k then replies data (treatment hk now (sa_iQueueTimeout (es_adapters s a)) data) else []) (take n q)))"
  using assms
proof (induction n arbitrary: s q)
  case 0
  then show ?case by simp
next
  case (Suc n)
  define db where "db = sa_dataBuffer (es_adapters s a)"
  show ?case
  proof (cases q)
    case Nil
    then show ?thesis using Suc.prems(6) by (simp add: db_pop_def Let_def)
  next
    case (Cons data rest)
    define db' where "db' = db\<lparr>db_threadDataQueue := (db_threadDataQueue db)[getDataQueue h db := rest], db_iRecvBufferSize := db_iRecvBufferSize db - 1\<rparr>"
    have p: "db_pop h db = (Some data, db')" using Suc.prems(6) Cons by (simp add: db_def db'_def db_pop_def Let_def)
    have ne: "db_threadDataQueue db \<noteq> []" using srv_queues[OF Suc.prems(1,2)] by (simp add: db_def)
    have dq: "getDataQueue h db' = getDataQueue h db" by (simp add: db'_def getDataQueue_def)
    have rest: "db_threadDataQueue db' ! getDataQueue h db = rest" using getDataQueue_less[OF ne] by (simp add: db'_def)
    note d = db_pop_some[OF p ne]
    have sub: "insert data (set (db_all db')) = set (db_all db)" using d(3) by (metis set_mset_add_mset_insert set_mset_mset)
    define s1 where "s1 = es_adapter a (sa_buffer (\<lambda>_. db')) s"
    have 1: "srv_ok s1" "moves (\<lambda>_. 0) s s1"
      using srv_buffer_ok[where g = "sa_buffer (\<lambda>_. db')", OF Suc.prems(1,2)] d(1,2) sub srv_ctxsD(1)[OF Suc.prems(1,2)] by (auto simp: s1_def sa_same_def db_def)
    have c: "ctx_ok s data" using sub srv_ctxsD(1)[OF Suc.prems(1,2)] by (auto simp: db_def)
    have c1: "ctx_ok s1 data" using c moves_ctx[OF 1(2)] by simp
    have s1: "es_netThreads s1 = es_netThreads s" "es_bindAdapters s1 = es_bindAdapters s" "es_merged s1 = es_merged s" "es_terminate s1 = es_terminate s"
      "sa_tcp (es_adapters s1 b) = sa_tcp (es_adapters s b)" "sa_netThreads (es_adapters s1 b) = sa_netThreads (es_adapters s b)"
      "sa_iQueueTimeout (es_adapters s1 b) = sa_iQueueTimeout (es_adapters s b)" for b
      by (simp_all add: s1_def es_adapter_def)
    have nt: "getNetThread s1 = getNetThread s" by (simp add: getNetThread_def s1(6) fun_eq_iff)
    obtain th where th: "getNetThread s data = Inr th" "th < length (es_netThreads s)" using getNetThread_ok[OF Suc.prems(1) c] by blast
    have tcp: "sa_tcp (es_adapters s1 (rc_adapter data))" using Suc.prems(5) c by (simp add: s1(5) ctx_ok_def)
    obtain as throws where t: "treatment hk now (sa_iQueueTimeout (es_adapters s a)) data = (as, throws)" by fastforce
    define s2 where "s2 = queue_up th (concat (map (action_context data) as)) s1"
    have act: "do_actions now False data as s1 = Inr (False, s2)" unfolding s2_def using Suc.prems(4) th(1) tcp by (intro do_actions_queue) (simp_all add: s1 nt)
    have 2: "srv_ok s2" "moves (\<lambda>_. 0) s1 s2" using do_actions_fine[OF 1(1) c1, of now False as] act by (auto simp: fine2_def)
    define s3 where "s3 = queue_up th (replies data (as, throws)) s1"
    have close: "es_close data s2 = Inr s3" if throws
      using that Suc.prems(4) tcp th(1) by (simp add: es_close_queue s2_def s3_def replies_def s1 nt)
    have 3: "srv_ok s3" "moves (\<lambda>_. 0) s1 s3"
    proof -
      have "srv_ok s3 \<and> moves (\<lambda>_. 0) s1 s3"
      proof (cases throws)
        case True
        have "ctx_ok s2 data" using c1 moves_ctx[OF 2(2)] by simp
        from es_close_fine[OF 2(1) this] show ?thesis using close[OF True] moves_0_trans[OF 2(2)] by (auto simp: fine_def)
      next
        case False
        then show ?thesis using 2 by (simp add: s2_def s3_def replies_def)
      qed
      then show "srv_ok s3" "moves (\<lambda>_. 0) s1 s3" by simp_all
    qed
    have e: "handle_loop hk now a h (Suc n) s = handle_loop hk now a h n s3"
      using act close Suc.prems(3) by (cases throws) (simp_all add: p[unfolded db_def] t Let_def s1_def[symmetric], simp add: s2_def s3_def replies_def)
    have a3: "es_adapters s3 = es_adapters s1" by (simp add: s3_def)
    have b3: "sa_dataBuffer (es_adapters s3 a) = db'" by (simp add: a3 s1_def)
    obtain s' where s': "handle_loop hk now a h n s3 = Inr s'"
      "db_threadDataQueue (sa_dataBuffer (es_adapters s' a)) ! getDataQueue h db = drop n rest"
      "\<And>k. k < length (es_netThreads s) \<Longrightarrow> nt_sbuffer (es_netThreads s' ! k) = nt_sbuffer (es_netThreads s3 ! k) @
         concat (map (\<lambda>data. if getNetThread s data = Inr k then replies data (treatment hk now (sa_iQueueTimeout (es_adapters s a)) data) else []) (take n rest))"
    proof -
      have h3: "es_bindAdapters s3 = es_bindAdapters s" "es_merged s3 = es_merged s" "es_terminate s3 = es_terminate s"
        "length (es_netThreads s3) = length (es_netThreads s)" "getNetThread s3 = getNetThread s"
        by (simp_all add: s3_def s1 nt)
      have q3: "sa_iQueueTimeout (es_adapters s3 a) = sa_iQueueTimeout (es_adapters s a)" by (simp add: a3 s1)
      have "\<exists>s'. handle_loop hk now a h n s3 = Inr s' \<and> db_threadDataQueue (sa_dataBuffer (es_adapters s' a)) ! getDataQueue h (sa_dataBuffer (es_adapters s3 a)) = drop n rest \<and>
          (\<forall>k < length (es_netThreads s3). nt_sbuffer (es_netThreads s' ! k) = nt_sbuffer (es_netThreads s3 ! k) @
             concat (map (\<lambda>data. if getNetThread s3 data = Inr k then replies data (treatment hk now (sa_iQueueTimeout (es_adapters s3 a)) data) else []) (take n rest)))"
        using Suc.prems(2-5) rest dq by (intro Suc.IH[OF 3(1)]) (simp_all add: h3 b3, simp add: a3 s1)
      then show ?thesis using that unfolding h3 q3 b3 dq by blast
    qed
    have "nt_sbuffer (es_netThreads s3 ! k) = nt_sbuffer (es_netThreads s ! k) @
        (if getNetThread s data = Inr k then replies data (treatment hk now (sa_iQueueTimeout (es_adapters s a)) data) else [])"
      if "k < length (es_netThreads s)" for k
      using that th(1) queue_up_nth[of k s1 th] by (auto simp: s3_def s1 t)
    then show ?thesis using e s' Cons unfolding db_def by (intro exI[of _ s']) simp
  qed
qed

section \<open>What a request is answered with\<close>

lemma framed_nonempty: "framed fresh wr = Inr b \<Longrightarrow> bf_data b \<noteq> []"
  by (auto simp: framed_def toBuffer_def Let_def store_at_def bf_replaceBuffer_def bf_data_def bf_length_def bf_mem_def split: prod.splits sum.splits if_splits)

lemma request_decode_exn:
  assumes "Current_initialize bs = Inl e"
  obtains x where "e = DecodeExn x" "is_TarsDecodeException x"
proof -
  have "tame RequestPacket_readFrom"
    unfolding RequestPacket_readFrom_def Let_def by (intro wf_intros)
  then show ?thesis using assms that
    by (auto simp: tame_def robust_def Current_initialize_def decode_def split: sum.splits)
qed

text \<open>The block of some response to the request, with the given code when there is one.\<close>

definition answers_request :: "(nat \<Rightarrow> byte) \<Rightarrow> RequestPacket \<Rightarrow> 32 word option \<Rightarrow> byte list \<Rightarrow> bool" where
  "answers_request fresh req code bs \<longleftrightarrow> (\<exists>ctx iRet sBuffer desc b. code \<in> {None, Some iRet} \<and>
     Current_sendResponse fresh req ctx iRet (ResponsePacket_resetDefautlt\<lparr>rs_sBuffer := sBuffer\<rparr>) [] desc = Inr (Some b) \<and> bs = bf_data b)"

text \<open>The code a request is answered with; \<open>None\<close> when \<^verbatim>\<open>doNoFunc\<close> decides.\<close>

definition dispatch_ret :: "ServantHandle \<Rightarrow> Current \<Rightarrow> 32 word option" where
  "dispatch_ret h c =
     (if \<not> checkValidSetInvoke h c then Some TARSINVOKEBYINVALIDESET
      else case sh_servants h (rq_sServantName (cu_request c)) of
             None \<Rightarrow> Some TARSSERVERNOSERVANTERR
           | Some sv \<Rightarrow>
               let ret = fst (dispatch_code (dp_result (Servant_dispatch sv (processCookie c))))
               in if ret = TARSSERVERNOFUNCERR then None else Some ret)"

definition expected_ret :: "ServantHandle \<Rightarrow> int \<Rightarrow> int \<Rightarrow> RecvContext \<Rightarrow> Current \<Rightarrow> 32 word option" where
  "expected_ret h now queueTimeout data c =
     (let iTimeout = sint (rq_iTimeout (cu_request c))
      in if iTimeout > 0 \<and> now - rc_recvTimeStamp data > iTimeout then Some TARSSERVERQUEUETIMEOUT
         else if rc_isOverload data then Some TARSSERVEROVERLOAD
         else if (of_int (now - rc_recvTimeStamp data) :: 64 word) > of_int queueTimeout then Some TARSSERVERQUEUETIMEOUT
         else dispatch_ret h c)"

text \<open>A servant that leaves the answer to the handler.\<close>

definition prompt :: "Servant \<Rightarrow> bool" where
  "prompt sv \<longleftrightarrow> (\<forall>c. dp_actions (sv_onDispatch sv c) = [] \<and> dp_response (sv_onDispatch sv c) = cu_response c \<and>
     dp_actions (sv_doNoFunc sv c) = [] \<and> dp_response (sv_doNoFunc sv c) = cu_response c)"

definition all_prompt :: "ServantHandle \<Rightarrow> bool" where
  "all_prompt h \<longleftrightarrow> (\<forall>n sv. sh_servants h n = Some sv \<longrightarrow> prompt sv)"

text \<open>One-way requests get nothing or are closed, the others are answered or closed.\<close>

definition answered :: "(nat \<Rightarrow> byte) \<Rightarrow> RequestPacket \<Rightarrow> 32 word option \<Rightarrow> handled \<Rightarrow> bool" where
  "answered fresh req code r \<longleftrightarrow> r = ([], True) \<or>
     (if rq_cPacketType req = TARSONEWAY then r = ([], False) else \<exists>bs. bs \<noteq> [] \<and> r = ([Respond bs], False) \<and> answers_request fresh req code bs)"

lemma Current_sendResponse_cases:
  assumes "Current_sendResponse fresh req ctx iRet response status desc = Inr ob"
  shows "if rq_cPacketType req = TARSONEWAY then ob = None else \<exists>b. ob = Some b \<and> bf_data b \<noteq> []"
  using assms framed_nonempty by (fastforce simp: Current_sendResponse_def ebind_def split: if_splits sum.splits)

lemma cu_send_answered:
  assumes "cu_request c = req" "code \<in> {None, Some iRet}"
  shows "answered fresh req code (cu_send fresh c iRet sBuffer desc)"
proof (cases "Current_sendResponse fresh req (cu_responseContext c) iRet (ResponsePacket_resetDefautlt\<lparr>rs_sBuffer := sBuffer\<rparr>) [] desc")
  case (Inl e)
  then show ?thesis using assms by (simp add: cu_send_def answered_def)
next
  case (Inr ob)
  note k = Current_sendResponse_cases[OF Inr]
  show ?thesis
  proof (cases "rq_cPacketType req = TARSONEWAY")
    case True
    then show ?thesis using k Inr assms by (simp add: cu_send_def answered_def)
  next
    case False
    then obtain b where b: "ob = Some b" "bf_data b \<noteq> []" using k by auto
    then have "answers_request fresh req code (bf_data b)" using Inr assms(2) unfolding answers_request_def by blast
    then show ?thesis using False b Inr assms by (simp add: cu_send_def answered_def)
  qed
qed

lemma processCookie_simps [simp]:
  "cu_request (processCookie c) = cu_request c" "cu_response (processCookie c) = cu_response c" "cu_isTars (processCookie c) = cu_isTars c"
  by (simp_all add: processCookie_def Let_def)

lemma cu_after_simps [simp]: "cu_request (cu_after d c) = cu_request c" "cu_response (cu_after d c) = dp_response d"
  by (simp_all add: cu_after_def)

lemma finish_request_answered:
  assumes "prompt sv" "cu_request c = req" "dp_actions d = []" "dp_response d"
    and "code = (let ret = fst (dispatch_code (dp_result d)) in if ret = TARSSERVERNOFUNCERR then None else Some ret)"
  shows "answered fresh req code (finish_request fresh sv c d)"
proof (cases "fst (dispatch_code (dp_result d)) = TARSSERVERNOFUNCERR")
  case False
  then show ?thesis using assms cu_send_answered by (simp add: finish_request_def then_handled_def answer_def Let_def)
next
  case True
  have n: "dp_actions (sv_doNoFunc sv x) = []" "dp_response (sv_doNoFunc sv x) = cu_response x" for x using assms(1) by (simp_all add: prompt_def)
  show ?thesis
  proof (cases "dp_result (sv_doNoFunc sv (cu_after d c))")
    case (Inl e)
    then show ?thesis using True n assms(3) by (simp add: finish_request_def then_handled_def answered_def)
  next
    case (Inr ret')
    then show ?thesis using True n assms(2-5) cu_send_answered by (simp add: finish_request_def then_handled_def answer_def Let_def)
  qed
qed

lemma handleTarsProtocol_answered:
  assumes "all_prompt h" "cu_response c" "cu_isTars c" "cu_request c = req"
  shows "answered fresh req (dispatch_ret h c) (handleTarsProtocol fresh h c)"
proof (cases "checkValidSetInvoke h c \<and> sh_servants h (rq_sServantName req) \<noteq> None")
  case False
  then show ?thesis using cu_send_answered assms(4) by (auto simp: handleTarsProtocol_def dispatch_ret_def Let_def split: option.splits)
next
  case True
  then obtain sv where sv: "sh_servants h (rq_sServantName req) = Some sv" "prompt sv" using assms(1) by (auto simp: all_prompt_def)
  have "dp_actions (Servant_dispatch sv (processCookie c)) = []" "dp_response (Servant_dispatch sv (processCookie c))"
    using sv(2) assms(2,3) by (simp_all add: Servant_dispatch_def prompt_def)
  then show ?thesis using True sv(1) assms(4) finish_request_answered[OF sv(2), of "processCookie c" req]
    by (simp add: handleTarsProtocol_def dispatch_ret_def Let_def)
qed

text \<open>Whatever way a packet of a tars adapter takes through the handler.\<close>

definition Current_of :: "ServantHandle \<Rightarrow> RecvContext \<Rightarrow> RequestPacket \<Rightarrow> Current" where
  "Current_of h data req = (Current_new h True data)\<lparr>cu_request := req\<rparr>"

lemma treatment_answered:
  assumes "all_prompt h" "sh_isTars h" "\<not> rc_isClosed data"
  shows "case Current_initialize (rc_buffer data) of
      Inl _ \<Rightarrow> treatment (servant_hooks fresh h) now qt data = ([CloseIt], False)
    | Inr req \<Rightarrow> answered fresh req (expected_ret h now qt data (Current_of h data req)) (treatment (servant_hooks fresh h) now qt data)"
proof (cases "Current_initialize (rc_buffer data)")
  case (Inl e)
  then obtain x where "e = DecodeExn x" "is_TarsDecodeException x" using request_decode_exn by blast
  then have "createCurrent fresh h now data = (([CloseIt], False), None)" using assms(2) Inl by (simp add: createCurrent_def Current_init_def)
  then show ?thesis using assms(3) Inl
    by (simp add: treatment_def servant_hooks_def sh_handleOverload_def sh_handleTimeout_def sh_handle_def)
next
  case (Inr req)
  define c where "c = Current_of h data req"
  have c: "cu_request c = req" "cu_response c" "cu_isTars c" by (simp_all add: c_def Current_of_def Current_new_def)
  have "Current_init h data = Inr c" using assms(2) Inr by (simp add: Current_init_def c_def Current_of_def)
  then have k: "createCurrent fresh h now data =
      (if sint (rq_iTimeout req) > 0 \<and> now - rc_recvTimeStamp data > sint (rq_iTimeout req) then (cu_sendRet fresh c TARSSERVERQUEUETIMEOUT, None)
       else (([], False), Some c))"
    using c by (simp add: createCurrent_def Let_def)
  show ?thesis
    using assms(3) cu_send_answered[OF c(1)] handleTarsProtocol_answered[OF assms(1) c(2,3,1)] c k
    by (simp add: Inr c_def[symmetric] expected_ret_def Let_def treatment_def servant_hooks_def sh_handleOverload_def sh_handleTimeout_def sh_handle_def)
qed

text \<open>The messages of the handler \<open>k\<close> of the adapter \<open>a\<close>, and what one of them is answered with.\<close>

definition handler_queue :: "EpollServer \<Rightarrow> nat \<Rightarrow> nat \<Rightarrow> RecvContext list" where
  "handler_queue s a k = db_threadDataQueue (sa_dataBuffer (es_adapters s a)) ! getDataQueue k (sa_dataBuffer (es_adapters s a))"

definition reply_to :: "Hooks \<Rightarrow> int \<Rightarrow> EpollServer \<Rightarrow> nat \<Rightarrow> RecvContext \<Rightarrow> SendContext list" where
  "reply_to hk now s a data = replies data (treatment hk now (sa_iQueueTimeout (es_adapters s a)) data)"

definition answered_by :: "(nat \<Rightarrow> byte) \<Rightarrow> (RequestPacket \<Rightarrow> 32 word option) \<Rightarrow> RecvContext \<Rightarrow> SendContext list \<Rightarrow> bool" where
  "answered_by fresh code data scs \<longleftrightarrow> (case Current_initialize (rc_buffer data) of
     Inl _ \<Rightarrow> scs = [createCloseContext data]
   | Inr req \<Rightarrow> scs = [createCloseContext data] \<or>
       (if rq_cPacketType req = TARSONEWAY then scs = [] else \<exists>bs. scs = [createSendContext data bs] \<and> answers_request fresh req (code req) bs))"

lemma reply_answered:
  assumes "all_prompt h" "sh_isTars h" "\<not> rc_isClosed data"
  shows "answered_by fresh (\<lambda>req. expected_ret h now (sa_iQueueTimeout (es_adapters s a)) data (Current_of h data req)) data (reply_to (servant_hooks fresh h) now s a data)"
proof -
  define r where "r = treatment (servant_hooks fresh h) now (sa_iQueueTimeout (es_adapters s a)) data"
  have "case Current_initialize (rc_buffer data) of Inl _ \<Rightarrow> r = ([CloseIt], False) | Inr req \<Rightarrow> answered fresh req (expected_ret h now (sa_iQueueTimeout (es_adapters s a)) data (Current_of h data req)) r"
    unfolding r_def by (rule treatment_answered[OF assms])
  then show ?thesis
    unfolding answered_by_def reply_to_def r_def[symmetric] by (auto simp: replies_def answered_def split: sum.splits if_splits)
qed

lemma handler_queue_threads:
  assumes "srv_ok s" "a < es_bindAdapters s" "data \<in> set (handler_queue s a k)"
  shows "\<exists>th < length (es_netThreads s). getNetThread s data = Inr th"
proof -
  have "data \<in> set (db_all (sa_dataBuffer (es_adapters s a)))"
    using nth_mem[OF getDataQueue_less[OF srv_queues[OF assms(1,2)]], of k] assms(3) unfolding handler_queue_def db_all_def by auto
  then have "ctx_ok s data" using srv_ctxsD(1)[OF assms(1,2)] by blast
  then show ?thesis using getNetThread_ok[OF assms(1)] by blast
qed

section \<open>A client with one request\<close>

lemma whole_read:
  assumes "ba_protocol ba = AppProtocol_parse" "conn_in c t" "tr_recvs t = [RecvBytes bs]" "bs \<noteq> []" "length bs < BUFFER_SIZE div 8"
    "pending t = []" "unframe bs = (ps, Some r)"
  shows "\<exists>nb. handleInputImp fresh ba q [] err (Suc fuel) c t = Some (True, handed ba q ps c, t\<lparr>tr_recvs := [], tr_recvBuffer := nb\<rparr>)"
proof -
  let ?rb = "tr_recvBuffer t" and ?cb = "server_callbacks ba q"
  let ?ex = "max (min (nb_length ?rb) MAX_BUFFER_SIZE) BUFFER_SIZE"
  note ci = assms(2)[unfolded conn_in_def]
  have "BUFFER_SIZE div 8 \<le> ?ex" by (simp add: BUFFER_SIZE_def)
  then obtain a as nb where g: "nb_getOrCreateBuffer fresh (BUFFER_SIZE div 8) ?ex ?rb = Inr (a, nb)" "nb_wf nb"
    "nb_contents nb = pending t" "nb_list nb = as @ [a]" "BUFFER_SIZE div 8 \<le> bf_left (nb_store nb a)"
    using nb_getOrCreateBuffer_wf[of ?rb "BUFFER_SIZE div 8" ?ex fresh] ci by (auto simp: nb_ok_def)
  have sm: "rb_small nb" using nb_getOrCreateBuffer_small[OF g(1)] ci by (simp add: BUFFER_SIZE_def MAX_BUFFER_SIZE_def)
  let ?left = "bf_left (nb_store nb a)" and ?nb = "nb_fill a bs nb"
  let ?t2 = "t\<lparr>tr_recvs := [], tr_recvBuffer := ?nb\<rparr>"
  have left: "?left mod 4294967296 = ?left" "length bs < ?left" using rb_small_left[OF sm, of a] g(5) assms(5) by simp_all
  have rd: "tcp_recv ?left (t\<lparr>tr_recvBuffer := nb\<rparr>) = (Inr (Some bs), t\<lparr>tr_recvBuffer := nb, tr_recvs := []\<rparr>)"
    using ci assms(3) left(2) by (simp add: tcp_recv_def tr_hasConnected_def)
  have f: "nb_wf ?nb" "nb_contents ?nb = bs" using nb_fill_last[OF g(2,4), of bs] g(3) left(2) assms(6) by simp_all
  have "nb_ok ?nb" using f nb_length_contents[OF f(1)] assms(5) by (simp add: nb_ok_def BUFFER_SIZE_def)
  then have pre: "cn_iHeaderLen c \<le> 0" "nb_ok (tr_recvBuffer ?t2)" "rb_small (tr_recvBuffer ?t2)" "\<not> tr_authLocal ?t2" "unframe (pending ?t2) = (ps, Some r)"
    using ci nb_fill_small[OF sm] f(2) assms(7) by simp_all
  obtain nb' where "tr_doProtocolAnalysis ?cb (nb_length (tr_recvBuffer ?t2) + 2) c ?t2 = Some (Inr (length ps), handed ba q ps c, ?t2\<lparr>tr_recvBuffer := nb'\<rparr>)"
    using doProtocolAnalysis_unframe[where q = q, OF assms(1) pre] by blast
  then have "response_loop fresh ?cb [] (Suc fuel) c t = Some (Inr True, handed ba q ps c, t\<lparr>tr_recvs := [], tr_recvBuffer := nb'\<rparr>)"
    using g(1) rd left assms(4) by (simp add: Let_def)
  moreover have "tr_doResponse fresh ?cb [] err (Suc fuel) c t = response_loop fresh ?cb [] (Suc fuel) c t"
    using ci by (simp add: tr_doResponse_def tr_checkConnect_def tr_isConnecting_def tr_hasConnected_def)
  ultimately have "handleInputImp fresh ba q [] err (Suc fuel) c t = Some (True, handed ba q ps c, t\<lparr>tr_recvs := [], tr_recvBuffer := nb'\<rparr>)"
    by (simp add: handleInputImp_def del: response_loop.simps)
  then show ?thesis ..
qed

text \<open>A client that sends one request to a servant \<open>A\<close> that does not exist.\<close>

definition demo_request :: RequestPacket where
  "demo_request = RequestPacket_resetDefautlt\<lparr>rq_iVersion := 1, rq_iRequestId := 7, rq_sServantName := [65], rq_sFuncName := [66]\<rparr>"

abbreviation demo_client :: Transceiver where
  "demo_client \<equiv> snd (accepted [] [RecvBytes ([0, 0, 0, 24] @ enc_request demo_request)])"

definition no_servants :: ServantHandle where
  "no_servants = \<lparr>sh_servants = (\<lambda>_. None), sh_isTars = True, sh_adapterServant = [65], sh_isCheckSet = 0, sh_setOpen = False, sh_setDivision = []\<rparr>"

lemma demo_length: "length (enc_request demo_request) = 20"
  by (simp add: enc_request_def demo_request_def RequestPacket_resetDefautlt_def enc_Short_def enc_Char_def enc_Int32_def
      enc_string_def enc_vector_Char_def enc_map_def length_head_bytes)

lemma demo_unframe: "unframe ([0, 0, 0, 24] @ enc_request demo_request) = ([enc_request demo_request], Some [])"
  using demo_length by (simp add: unframe.simps be_word_def)

lemma demo_decode: "Current_initialize (enc_request demo_request) = Inr demo_request"
proof -
  have "request_ok demo_request"
    by (simp add: request_ok_def demo_request_def RequestPacket_resetDefautlt_def string_map_ok_def map_wf_def TARS_MAX_STRING_LENGTH_def)
  then show ?thesis
    using RequestPacket_readFrom_enc[of demo_request "setBuffer (enc_request demo_request)"] at_bytes_setBuffer[of "enc_request demo_request" "[]"]
    by (simp add: Current_initialize_def decode_def)
qed

lemma demo_input:
  "\<exists>nb. handleInputImp (\<lambda>_. 0) app_adapter 0 [] False 10 (Connection_new 0 True) demo_client =
     Some (True, handed app_adapter 0 [enc_request demo_request] (Connection_new 0 True), demo_client\<lparr>tr_recvs := [], tr_recvBuffer := nb\<rparr>)"
proof -
  have "conn_in (Connection_new 0 True) demo_client" using accepted_in by (simp add: Connection_new_def accepted_def)
  then show ?thesis
    using whole_read[where fuel = 9 and c = "Connection_new 0 True" and t = demo_client and ba = app_adapter, OF _ _ _ _ _ _ demo_unframe]
    by (simp add: app_adapter_def accepted_def demo_length BUFFER_SIZE_def)
qed

lemma demo_received:
  "\<exists>s data. server_run demo_hooks (\<lambda>_. 0) [(1000, Accept 0 5 True demo_client), (2000, Input 0 1 [] False 10)] demo_start = Some (Inr s) \<and>
     es_bindAdapters s = 1 \<and> sa_tcp (es_adapters s 0) \<and> \<not> es_merged s \<and> \<not> es_terminate s \<and> length (es_netThreads s) = 1 \<and> nt_sbuffer (es_netThreads s ! 0) = [] \<and>
     handler_queue s 0 0 = [data] \<and> rc_buffer data = enc_request demo_request \<and> \<not> rc_isClosed data"
proof -
  obtain nb where nb: "handleInputImp (\<lambda>_. 0) app_adapter 0 [] False 10 (Connection_new 0 True) demo_client =
     Some (True, handed app_adapter 0 [enc_request demo_request] (Connection_new 0 True), demo_client\<lparr>tr_recvs := [], tr_recvBuffer := nb\<rparr>)"
    using demo_input by blast
  show ?thesis
    using nb by (simp add: server_eval demo_defs upt_rec es_input_def es_refresh_def es_touch_def cl_refresh_def new_contexts_def
      db_insert_all_def handler_queue_def handed_def onCompleteNetworkCallback_def insertRecvQueue_def)
qed

section \<open>Every request is answered\<close>



end
